(* ===== verification/KtPrelude.thy ===== *)
theory KtPrelude
  imports Main "HOL-Library.Word"
begin

text \<open>
  The prelude of the development: the machine types of \<^verbatim>\<open>libktorrent/util/constants.h\<close>
  as word types, the collections of rewrite rules that the component theories extend, and the
  list and word lemmas that more than one component uses.
\<close>

unbundle bit_operations_syntax

section \<open>Machine types\<close>

text \<open>\<^verbatim>\<open>Uint8\<close>, \<^verbatim>\<open>Uint16\<close>, \<^verbatim>\<open>Uint32\<close> and \<^verbatim>\<open>Uint64\<close> of the source; a byte buffer
  (\<^verbatim>\<open>Uint8*\<close> with a length, or a \<^verbatim>\<open>TQByteArray\<close>) is a list of bytes.\<close>

type_synonym u8 = "8 word"
type_synonym u16 = "16 word"
type_synonym u32 = "32 word"
type_synonym u64 = "64 word"
type_synonym bytes = "u8 list"

text \<open>\<^verbatim>\<open>MAX_PIECE_LEN\<close>: the size of the blocks in which peers exchange data.\<close>

definition MAX_PIECE_LEN :: nat where
  "MAX_PIECE_LEN = 16384"

section \<open>Collections\<close>

text \<open>\<open>frame\<close> collects what an operation leaves unchanged, \<open>inv_intro\<close> the preservation of
  component invariants, \<open>abs_simps\<close> the equations that commute an operation with the abstraction
  of its component.\<close>

named_theorems frame
named_theorems inv_intro
named_theorems abs_simps

section \<open>Lists\<close>

lemma take_Suc_snoc: "n < length xs \<Longrightarrow> take (Suc n) xs = take n xs @ [xs ! n]"
  by (simp add: take_Suc_conv_app_nth)

lemma remove1_distinct_filter: "distinct xs \<Longrightarrow> remove1 x xs = filter (\<lambda>y. y \<noteq> x) xs"
  by (simp add: distinct_remove1_removeAll removeAll_filter_not_eq)
     (metis (full_types) eq_commute)

lemma filter_upt_card:
  "length (filter P [0..<n]) = card {i. i < n \<and> P i}"
proof -
  have "{i. i < n \<and> P i} = set (filter P [0..<n])" by auto
  then show ?thesis by (simp add: distinct_card [symmetric] del: set_filter)
qed

text \<open>\<^verbatim>\<open>memcpy(dst + off, src, n)\<close> on a destination that is long enough.\<close>

definition memcpy :: "'a list \<Rightarrow> nat \<Rightarrow> 'a list \<Rightarrow> nat \<Rightarrow> 'a list" where
  "memcpy dst off src n = take off dst @ take n src @ drop (off + n) dst"

lemma length_memcpy [simp]:
  "off + n \<le> length dst \<Longrightarrow> n \<le> length src \<Longrightarrow> length (memcpy dst off src n) = length dst"
  by (simp add: memcpy_def)

lemma take_memcpy:
  "off + n \<le> length dst \<Longrightarrow> n \<le> length src \<Longrightarrow>
   take (off + n) (memcpy dst off src n) = take off dst @ take n src"
  by (simp add: memcpy_def)

lemma memcpy_full:
  "off + n = length dst \<Longrightarrow> n \<le> length src \<Longrightarrow> memcpy dst off src n = take off dst @ take n src"
  by (simp add: memcpy_def)

text \<open>A count over an index range after one index changed.\<close>

lemma card_insert_index:
  assumes "i < (n::nat)" "\<not> P i"
  shows "card {j. j < n \<and> (if j = i then True else P j)} = Suc (card {j. j < n \<and> P j})"
proof -
  have "{j. j < n \<and> (if j = i then True else P j)} = insert i {j. j < n \<and> P j}"
    using assms by auto
  moreover have "i \<notin> {j. j < n \<and> P j}" using assms by simp
  ultimately show ?thesis using card_insert_disjoint [of "{j. j < n \<and> P j}" i] by simp
qed

lemma card_remove_index:
  assumes "i < (n::nat)" "P i"
  shows "Suc (card {j. j < n \<and> (if j = i then False else P j)}) = card {j. j < n \<and> P j}"
proof -
  have "{j. j < n \<and> P j} = insert i {j. j < n \<and> (if j = i then False else P j)}"
    using assms by auto
  moreover have "i \<notin> {j. j < n \<and> (if j = i then False else P j)}" by simp
  moreover have "finite {j. j < n \<and> (if j = i then False else P j)}"
    by (rule finite_subset [of _ "{..<n}"]) auto
  ultimately show ?thesis
    using card_insert_disjoint [of "{j. j < n \<and> (if j = i then False else P j)}" i]
    by (simp only: not_False_eq_True simp_thms)
qed

lemma card_index_le: "card {j. j < n \<and> P j} \<le> (n::nat)"
proof -
  have "card {j. j < n \<and> P j} \<le> card {..<n}" by (rule card_mono) auto
  then show ?thesis by simp
qed

section \<open>Outcomes\<close>

text \<open>The outcome of code that can throw: \<open>None\<close> where it divides by zero or touches memory that is
  not its own, else the left of a sum for an \<^verbatim>\<open>Error\<close> and the right for a result.\<close>

type_synonym ('e, 'a) outcome = "('e + 'a) option"

definition returns :: "'a \<Rightarrow> ('e, 'a) outcome" where "returns a = Some (Inr a)"

definition throws :: "'e \<Rightarrow> ('e, 'a) outcome" where "throws e = Some (Inl e)"

definition and_then :: "('e, 'a) outcome \<Rightarrow> ('a \<Rightarrow> ('e, 'b) outcome) \<Rightarrow> ('e, 'b) outcome" where
  "and_then r f = (case r of None \<Rightarrow> None | Some (Inl e) \<Rightarrow> Some (Inl e) | Some (Inr a) \<Rightarrow> f a)"

lemma and_then_simps [simp]:
  "and_then (returns a) f = f a" "and_then (throws e) f = throws e" "and_then None f = None"
  by (simp_all add: and_then_def returns_def throws_def)

lemma outcome_eq [simp]:
  "(returns a :: ('e, 'a) outcome) = returns b \<longleftrightarrow> a = b" "(throws e :: ('e, 'a) outcome) = throws e' \<longleftrightarrow> e = e'"
  "(returns a :: ('e, 'a) outcome) \<noteq> throws e" "(throws e :: ('e, 'a) outcome) \<noteq> returns a"
  "(returns a :: ('e, 'a) outcome) \<noteq> None" "None \<noteq> (returns a :: ('e, 'a) outcome)"
  "(throws e :: ('e, 'a) outcome) \<noteq> None" "None \<noteq> (throws e :: ('e, 'a) outcome)"
  by (simp_all add: returns_def throws_def)

lemma and_then_returns: "and_then r f = returns b \<longleftrightarrow> (\<exists>a. r = returns a \<and> f a = returns b)"
  by (auto simp: and_then_def returns_def split: option.splits sum.splits)

section \<open>Words\<close>

lemma unat_of_nat_small: "a < 2 ^ LENGTH('a) \<Longrightarrow> unat (of_nat a :: 'a::len word) = a"
  by (simp add: unsigned_of_nat take_bit_nat_eq_self)

lemma unat_bound: "unat (x :: 'a::len word) < 2 ^ LENGTH('a)"
  by (rule unsigned_less)

lemma unat_eq_of_nat: "unat (x :: 'a::len word) = k \<Longrightarrow> x = of_nat k"
  by auto

lemma unat_add_of_nat:
  "unat (x :: 'a::len word) + k < 2 ^ LENGTH('a) \<Longrightarrow> unat (x + of_nat k) = unat x + k"
  using unat_of_nat_small [of "unat x + k", where 'a = 'a] by simp

lemma unat_inc: "unat (x :: 'a::len word) + 1 < 2 ^ LENGTH('a) \<Longrightarrow> unat (x + 1) = unat x + 1"
  using unat_add_lem [of x 1] by simp

lemma unat_dec: "0 < unat (x :: 'a::len word) \<Longrightarrow> unat (x - 1) = unat x - 1"
  by (metis gr_implies_not0 unat_eq_zero unat_minus_one)

text \<open>Extracting a byte: masking before the shift changes nothing once the result is cut to
  eight bits; and bits put back at their place are the bits taken.\<close>

lemma ucast_drop_bit_mask:
  "ucast (drop_bit k (v AND push_bit k (mask 8)) :: 'a::len word) = (ucast (drop_bit k v) :: u8)"
  by (rule bit_word_eqI) (auto simp: bit_ucast_iff bit_drop_bit_eq bit_and_iff bit_push_bit_iff bit_mask_iff possible_bit_word, (drule bit_imp_le_length, simp)+)

lemma bit_ucast_byte:
  "bit (ucast (ucast (v :: 'a::len word) :: u8) :: 'a word) n \<longleftrightarrow> n < 8 \<and> bit v n"
  by (auto simp: bit_ucast_iff dest: bit_imp_le_length)

end
