(* ===== verification/BitSets.thy ===== *)
theory BitSets
  imports KtPrelude
begin

text \<open>
  \<^verbatim>\<open>BitSet\<close> of \<^verbatim>\<open>libktorrent/util/bitset.h\<close> and \<^verbatim>\<open>bitset.cpp\<close>: the packed array of bits, most
  significant bit of a byte first, that records which chunks or pieces are present. The record has
  the fields of the class; \<open>bs_num_on\<close>, the cached number of on bits, keeps its 32-bit width. The
  locale \<open>bit_array\<close> states what the clients (chunk counter, chunk manager, chunk download) rely on:
  reading after writing, and the size; \<open>counted_bit_array\<close> adds the cached count.
\<close>

section \<open>The interface\<close>

locale bit_array =
  fixes get :: "'b \<Rightarrow> nat \<Rightarrow> bool"
    and put :: "'b \<Rightarrow> nat \<Rightarrow> bool \<Rightarrow> 'b"
    and size :: "'b \<Rightarrow> nat"
    and ok :: "'b \<Rightarrow> bool"
  assumes get_put: "ok b \<Longrightarrow> i < size b \<Longrightarrow> get (put b i v) j = (if j = i then v else get b j)"
    and put_outside: "size b \<le> i \<Longrightarrow> put b i v = b"
    and size_put [simp]: "size (put b i v) = size b"
    and ok_put: "ok b \<Longrightarrow> ok (put b i v)"
    and get_outside: "size b \<le> i \<Longrightarrow> \<not> get b i"
begin

lemma get_put_eq:
  "ok b \<Longrightarrow> get (put b i v) j = (if j = i \<and> i < size b then v else get b j)"
  by (cases "i < size b") (simp_all add: get_put put_outside)

text \<open>Loops that visit each index once and rewrite its bit from the bit found there.\<close>

lemma size_fold_put [simp]: "size (fold (\<lambda>i b. put b i (f i (get b i))) is b) = size b"
  by (induction "is" arbitrary: b) simp_all

lemma ok_fold_put: "ok b \<Longrightarrow> ok (fold (\<lambda>i b. put b i (f i (get b i))) is b)"
  by (induction "is" arbitrary: b) (simp_all add: ok_put)

lemma get_fold_put:
  assumes "ok b" "distinct is"
  shows "get (fold (\<lambda>i b. put b i (f i (get b i))) is b) j =
    (if j \<in> set is \<and> j < size b then f j (get b j) else get b j)"
  using assms
proof (induction "is" arbitrary: b)
  case Nil
  then show ?case by simp
next
  case (Cons i "is")
  let ?b = "put b i (f i (get b i))"
  have "get (fold (\<lambda>i b. put b i (f i (get b i))) is ?b) j =
      (if j \<in> set is \<and> j < size ?b then f j (get ?b j) else get ?b j)"
    using Cons.prems by (intro Cons.IH) (simp_all add: ok_put)
  then show ?case using Cons.prems by (auto simp: get_put_eq)
qed

end

locale counted_bit_array = bit_array +
  fixes count :: "'b \<Rightarrow> nat"
  assumes count_card: "ok b \<Longrightarrow> count b = card {i. i < size b \<and> get b i}"
begin

lemma count_le_size: "ok b \<Longrightarrow> count b \<le> size b"
  by (simp add: count_card card_index_le)

lemma count_zero_iff: "ok b \<Longrightarrow> count b = 0 \<longleftrightarrow> (\<forall>i. \<not> get b i)"
  using get_outside [of b] by (auto simp: count_card not_less [symmetric])

lemma count_all_iff: "ok b \<Longrightarrow> count b = size b \<longleftrightarrow> (\<forall>i. i < size b \<longrightarrow> get b i)"
proof -
  assume ok: "ok b"
  have "{i. i < size b \<and> get b i} \<subseteq> {..<size b}" by auto
  then have "card {i. i < size b \<and> get b i} = card {..<size b} \<longleftrightarrow>
      {i. i < size b \<and> get b i} = {..<size b}"
    by (metis card_subset_eq finite_lessThan)
  then show ?thesis using ok by (auto simp: count_card)
qed

lemma count_put_on:
  assumes "ok b" "i < size b" "\<not> get b i"
  shows "count (put b i True) = Suc (count b)"
proof -
  have "{j. j < size b \<and> get (put b i True) j} = {j. j < size b \<and> (if j = i then True else get b j)}"
    using assms by (auto simp: get_put_eq)
  then show ?thesis using assms by (simp add: count_card ok_put card_insert_index)
qed

end

section \<open>The class\<close>

record bitset =
  bs_num_bits :: nat
  bs_num_bytes :: nat
  bs_data :: bytes
  bs_num_on :: u32

definition bs_bytes_for :: "nat \<Rightarrow> nat" where
  "bs_bytes_for num_bits = num_bits div 8 + (if num_bits mod 8 > 0 then 1 else 0)"

definition BitSet_new :: "nat \<Rightarrow> bitset" where
  "BitSet_new num_bits =
     (let num_bytes = bs_bytes_for num_bits
      in \<lparr>bs_num_bits = num_bits, bs_num_bytes = num_bytes,
          bs_data = replicate num_bytes 0x00, bs_num_on = 0\<rparr>)"

definition bs_get :: "bitset \<Rightarrow> nat \<Rightarrow> bool" where
  "bs_get bs i =
     (if i \<ge> bs_num_bits bs then False
      else let byte = i div 8; bit = i mod 8;
               b = bs_data bs ! byte AND push_bit (7 - bit) 0x01
           in b \<noteq> 0x00)"

definition bs_set :: "bitset \<Rightarrow> nat \<Rightarrow> bool \<Rightarrow> bitset" where
  "bs_set bs i on =
     (if i \<ge> bs_num_bits bs then bs
      else let byte = i div 8; bit = i mod 8
           in if on \<and> \<not> bs_get bs i then
                bs\<lparr>bs_num_on := bs_num_on bs + 1,
                   bs_data := (bs_data bs)[byte := bs_data bs ! byte OR push_bit (7 - bit) 0x01]\<rparr>
              else if \<not> on \<and> bs_get bs i then
                bs\<lparr>bs_num_on := bs_num_on bs - 1,
                   bs_data := (bs_data bs)[byte := bs_data bs ! byte AND NOT (push_bit (7 - bit) 0x01)]\<rparr>
              else bs)"

text \<open>\<^verbatim>\<open>BitSet(const Uint8* d, Uint32 num_bits)\<close>: copies the bytes and counts the on bits.\<close>

definition BitSet_of_data :: "bytes \<Rightarrow> nat \<Rightarrow> bitset" where
  "BitSet_of_data d num_bits =
     (let num_bytes = bs_bytes_for num_bits;
          bs = \<lparr>bs_num_bits = num_bits, bs_num_bytes = num_bytes,
                bs_data = take num_bytes d, bs_num_on = 0\<rparr>
      in bs\<lparr>bs_num_on := fold (\<lambda>i n. if bs_get bs i then n + 1 else n) [0..<num_bits] 0\<rparr>)"

definition bs_setAll :: "bitset \<Rightarrow> bool \<Rightarrow> bitset" where
  "bs_setAll bs on =
     bs\<lparr>bs_data := replicate (bs_num_bytes bs) (if on then 0xFF else 0x00),
        bs_num_on := if on then of_nat (bs_num_bits bs) else 0\<rparr>"

definition bs_clear :: "bitset \<Rightarrow> bitset" where
  "bs_clear bs = bs_setAll bs False"

definition bs_orBitSet :: "bitset \<Rightarrow> bitset \<Rightarrow> bitset" where
  "bs_orBitSet bs other =
     fold (\<lambda>i b. bs_set b i (bs_get b i \<or> bs_get other i)) [0..<bs_num_bits bs] bs"

definition bs_allOn :: "bitset \<Rightarrow> bool" where
  "bs_allOn bs \<longleftrightarrow> bs_num_on bs = of_nat (bs_num_bits bs)"

definition bs_eq :: "bitset \<Rightarrow> bitset \<Rightarrow> bool" where
  "bs_eq a b \<longleftrightarrow>
     bs_num_bits a = bs_num_bits b \<and>
     take (bs_num_bytes a) (bs_data a) = take (bs_num_bytes a) (bs_data b)"

abbreviation bs_numOnBits :: "bitset \<Rightarrow> nat" where
  "bs_numOnBits bs \<equiv> unat (bs_num_on bs)"

section \<open>Well-formedness\<close>

definition bs_ok :: "bitset \<Rightarrow> bool" where
  "bs_ok bs \<longleftrightarrow>
     bs_num_bits bs < 2 ^ 32 \<and> bs_num_bytes bs = bs_bytes_for (bs_num_bits bs) \<and>
     length (bs_data bs) = bs_num_bytes bs \<and>
     bs_numOnBits bs = card {i. i < bs_num_bits bs \<and> bs_get bs i}"

text \<open>The part of well-formedness that does not speak of the cached count.\<close>

definition bs_shape :: "bitset \<Rightarrow> bool" where
  "bs_shape bs \<longleftrightarrow>
     bs_num_bits bs < 2 ^ 32 \<and> bs_num_bytes bs = bs_bytes_for (bs_num_bits bs) \<and>
     length (bs_data bs) = bs_num_bytes bs"

lemma bs_ok_shape: "bs_ok bs \<Longrightarrow> bs_shape bs"
  by (simp add: bs_ok_def bs_shape_def)

lemma byte_index_bound: "i < n \<Longrightarrow> i div 8 < bs_bytes_for n"
proof -
  assume "i < n"
  then have "i div 8 \<le> n div 8" by (simp add: div_le_mono)
  moreover have "i div 8 < n div 8" if "n mod 8 = 0"
    using \<open>i < n\<close> that by (metis div_less_iff_less_mult mod_0_imp_dvd dvd_div_mult_self zero_less_numeral)
  ultimately show ?thesis by (auto simp: bs_bytes_for_def)
qed

lemma bs_get_bit:
  "i < bs_num_bits bs \<Longrightarrow> bs_get bs i \<longleftrightarrow> bit (bs_data bs ! (i div 8)) (7 - i mod 8)"
  by (simp add: bs_get_def Let_def bit_iff_and_push_bit_not_eq_0)

lemma bs_get_outside: "bs_num_bits bs \<le> i \<Longrightarrow> \<not> bs_get bs i"
  by (simp add: bs_get_def)

lemma bs_get_cong:
  "bs_data a = bs_data b \<Longrightarrow> bs_num_bits a = bs_num_bits b \<Longrightarrow> bs_get a i = bs_get b i"
  by (simp add: bs_get_def)

text \<open>Two indices address the same bit only if they are equal.\<close>

lemma bit_address_inj:
  "i div 8 = j div 8 \<Longrightarrow> 7 - i mod 8 = 7 - j mod 8 \<Longrightarrow> i = (j::nat)"
proof -
  assume "i div 8 = j div 8" "7 - i mod 8 = 7 - j mod 8"
  moreover have "i mod 8 < 8" "j mod 8 < 8" by simp_all
  ultimately have "i mod 8 = j mod 8" by linarith
  with \<open>i div 8 = j div 8\<close> show ?thesis by (metis div_mult_mod_eq)
qed

lemma bs_set_fields [simp]:
  "bs_num_bits (bs_set bs i v) = bs_num_bits bs"
  "bs_num_bytes (bs_set bs i v) = bs_num_bytes bs"
  "length (bs_data (bs_set bs i v)) = length (bs_data bs)"
  by (simp_all add: bs_set_def Let_def)

lemma bit_or_single: "k < 8 \<Longrightarrow> bit ((x :: u8) OR 2 ^ k) m \<longleftrightarrow> bit x m \<or> m = k"
  by (auto simp: bit_or_iff bit_exp_iff possible_bit_word)

lemma bit_and_not_single:
  "m < 8 \<Longrightarrow> bit ((x :: u8) AND NOT (2 ^ k)) m \<longleftrightarrow> bit x m \<and> m \<noteq> k"
  by (auto simp: bit_and_iff bit_not_iff bit_exp_iff possible_bit_word)

lemma bs_get_bs_set:
  assumes "bs_shape bs" "i < bs_num_bits bs"
  shows "bs_get (bs_set bs i v) j = (if j = i then v else bs_get bs j)"
proof (cases "j < bs_num_bits bs")
  case True
  have len: "i div 8 < length (bs_data bs)" "j div 8 < length (bs_data bs)"
    using assms True by (simp_all add: bs_shape_def byte_index_bound)
  have pos: "7 - i mod 8 < 8" "7 - j mod 8 < 8" by simp_all
  let ?x = "bs_data bs ! (i div 8)" and ?k = "7 - i mod 8"
  have upd: "bit ((bs_data bs)[i div 8 := y] ! (j div 8)) (7 - j mod 8) =
      (if j = i then bit y ?k else bs_get bs j)"
    if "\<And>m. m < 8 \<Longrightarrow> m \<noteq> ?k \<Longrightarrow> bit y m = bit ?x m" for y
    using that [OF pos(2)] len True bit_address_inj [of j i]
    by (cases "j div 8 = i div 8") (auto simp: bs_get_bit)
  have on: "bit (?x OR 2 ^ ?k) ?k" "bit (?x OR 2 ^ ?k) m = bit ?x m"
    if "m \<noteq> ?k" for m using that pos by (simp_all add: bit_or_single)
  have off: "\<not> bit (?x AND NOT (2 ^ ?k)) ?k"
      "bit (?x AND NOT (2 ^ ?k)) m = bit ?x m"
    if "m < 8" "m \<noteq> ?k" for m using that pos by (simp_all add: bit_and_not_single)
  have get': "bs_get (bs_set bs i v) j = bit (bs_data (bs_set bs i v) ! (j div 8)) (7 - j mod 8)"
    using True by (simp add: bs_get_bit)
  show ?thesis
  proof (cases "v = bs_get bs i")
    case True
    then have "bs_set bs i v = bs" by (simp add: bs_set_def Let_def)
    then show ?thesis using True by simp
  next
    case False
    then have "bs_data (bs_set bs i v) = (bs_data bs)[i div 8 :=
        (if v then ?x OR 2 ^ ?k else ?x AND NOT (2 ^ ?k))]"
      using assms by (simp add: bs_set_def Let_def)
    then show ?thesis unfolding get' using upd on off pos
      by (cases v) (auto simp: bit_or_single bit_and_not_single)
  qed
next
  case False
  then show ?thesis using assms by (auto simp: bs_get_outside)
qed

lemma bs_set_outside: "bs_num_bits bs \<le> i \<Longrightarrow> bs_set bs i v = bs"
  by (simp add: bs_set_def)

lemma bs_num_on_bs_set:
  "i < bs_num_bits bs \<Longrightarrow> bs_num_on (bs_set bs i v) =
     (if v \<and> \<not> bs_get bs i then bs_num_on bs + 1
      else if \<not> v \<and> bs_get bs i then bs_num_on bs - 1 else bs_num_on bs)"
  by (simp add: bs_set_def Let_def)

lemma bs_shape_bs_set [simp]: "bs_shape (bs_set bs i v) = bs_shape bs"
  by (simp add: bs_shape_def)

lemma bs_ok_bs_set [inv_intro]:
  assumes ok: "bs_ok bs"
  shows "bs_ok (bs_set bs i v)"
proof (cases "i < bs_num_bits bs")
  case True
  let ?n = "bs_num_bits bs" and ?c = "card {j. j < bs_num_bits bs \<and> bs_get bs j}"
  have sh: "bs_shape bs" and on: "bs_numOnBits bs = ?c" and n: "?n < 2 ^ 32"
    using ok by (simp_all add: bs_ok_def bs_shape_def)
  have card': "card {j. j < ?n \<and> bs_get (bs_set bs i v) j} =
      card {j. j < ?n \<and> (if j = i then v else bs_get bs j)}"
    using sh True by (simp add: bs_get_bs_set)
  have "bs_numOnBits (bs_set bs i v) = card {j. j < ?n \<and> (if j = i then v else bs_get bs j)}"
  proof (cases "v = bs_get bs i")
    case same: True
    have "{j. j < ?n \<and> (if j = i then v else bs_get bs j)} = {j. j < ?n \<and> bs_get bs j}"
      using same by auto
    then show ?thesis using same on True by (simp add: bs_num_on_bs_set)
  next
    case diff: False
    show ?thesis
    proof (cases v)
      case True
      have c: "card {j. j < ?n \<and> (if j = i then v else bs_get bs j)} = Suc ?c"
        using card_insert_index [of i ?n "bs_get bs"] \<open>i < ?n\<close> diff by (simp only: True) simp
      have "Suc ?c \<le> ?n"
        using card_index_le [of ?n "\<lambda>j. if j = i then v else bs_get bs j"] by (simp only: c)
      then have "bs_numOnBits bs + 1 < 2 ^ LENGTH(32)" using n on by simp
      moreover have "bs_num_on (bs_set bs i v) = bs_num_on bs + 1"
        using \<open>i < ?n\<close> diff True by (simp add: bs_num_on_bs_set)
      ultimately show ?thesis by (simp only: unat_inc c on)
    next
      case False
      have c: "Suc (card {j. j < ?n \<and> (if j = i then v else bs_get bs j)}) = ?c"
        using card_remove_index [of i ?n "bs_get bs"] \<open>i < ?n\<close> diff
        by (simp only: False) simp
      then have "0 < bs_numOnBits bs" using on by simp
      moreover have "bs_num_on (bs_set bs i v) = bs_num_on bs - 1"
        using \<open>i < ?n\<close> diff False by (simp add: bs_num_on_bs_set)
      ultimately show ?thesis using c on by (simp only: unat_dec)
    qed
  qed
  then show ?thesis using sh card' by (simp add: bs_ok_def bs_shape_def)
next
  case False
  then show ?thesis using ok by (simp add: bs_set_def)
qed

interpretation bits: counted_bit_array bs_get bs_set bs_num_bits bs_ok bs_numOnBits
  by unfold_locales
    (simp_all add: bs_get_bs_set bs_ok_shape bs_set_outside bs_get_outside bs_ok_bs_set,
     simp add: bs_ok_def)

section \<open>Construction and whole-set operations\<close>

lemma bs_new_fields [simp]:
  "bs_num_bits (BitSet_new n) = n" "bs_get (BitSet_new n) i = False"
proof -
  show "bs_num_bits (BitSet_new n) = n" by (simp add: BitSet_new_def Let_def)
  show "bs_get (BitSet_new n) i = False"
  proof (cases "i < n")
    case True
    then have "i div 8 < bs_bytes_for n" by (rule byte_index_bound)
    then show ?thesis by (simp add: bs_get_def BitSet_new_def Let_def)
  qed (simp add: bs_get_def BitSet_new_def Let_def)
qed

lemma bs_ok_new [inv_intro]: "n < 2 ^ 32 \<Longrightarrow> bs_ok (BitSet_new n)"
  by (simp add: bs_ok_def) (simp add: BitSet_new_def Let_def)

lemma fold_count_on:
  assumes "length is < 2 ^ 32" "distinct is"
  shows "unat (fold (\<lambda>i n. if P i then n + 1 else n) is (0::u32)) = length (filter P is)"
  using assms
proof (induction "is" rule: rev_induct)
  case Nil
  then show ?case by simp
next
  case (snoc x xs)
  let ?c = "fold (\<lambda>i n. if P i then n + 1 else n) xs (0::u32)"
  have IH: "unat ?c = length (filter P xs)" using snoc by simp
  have "length (filter P xs) < 2 ^ 32 - 1"
    by (rule le_less_trans [OF length_filter_le]) (use snoc.prems(1) in simp)
  then have "unat ?c + 1 < 2 ^ LENGTH(32)" using IH by simp
  then show ?case using IH by (simp add: unat_inc del: len_bit0)
qed

lemma bs_ok_of_data [inv_intro]:
  assumes "n < 2 ^ 32" "bs_bytes_for n \<le> length d"
  shows "bs_ok (BitSet_of_data d n)"
proof -
  let ?bs = "\<lparr>bs_num_bits = n, bs_num_bytes = bs_bytes_for n,
                bs_data = take (bs_bytes_for n) d, bs_num_on = 0\<rparr>"
  have get: "bs_get (BitSet_of_data d n) = bs_get ?bs"
    by (rule ext, rule bs_get_cong) (simp_all add: BitSet_of_data_def Let_def)
  have "bs_numOnBits (BitSet_of_data d n) = length (filter (bs_get ?bs) [0..<n])"
    unfolding BitSet_of_data_def Let_def using assms by (simp add: fold_count_on)
  then show ?thesis using assms
    by (simp add: bs_ok_def get filter_upt_card) (simp add: BitSet_of_data_def Let_def)
qed

lemma bs_get_of_data:
  "i < n \<Longrightarrow> bs_get (BitSet_of_data d n) i = bit (d ! (i div 8)) (7 - i mod 8)"
  by (simp add: bs_get_bit BitSet_of_data_def Let_def byte_index_bound)

lemma bs_get_setAll:
  assumes "bs_shape bs"
  shows "bs_get (bs_setAll bs on) i = (on \<and> i < bs_num_bits bs)"
proof (cases "i < bs_num_bits bs")
  case True
  then have "i div 8 < bs_num_bytes bs" using assms by (simp add: bs_shape_def byte_index_bound)
  moreover have "bit (0xFF :: u8) k" if "k < 8" for k
  proof -
    have "(0xFF :: u8) = mask 8" by (simp add: mask_numeral)
    then show ?thesis using that by (simp only: bit_mask_iff) (simp add: possible_bit_word)
  qed
  moreover have "7 - i mod 8 < 8" by simp
  ultimately show ?thesis using True by (simp add: bs_get_bit bs_setAll_def del: diff_less_Suc)
qed (simp add: bs_get_def bs_setAll_def)

lemma bs_ok_setAll [inv_intro]: "bs_shape bs \<Longrightarrow> bs_ok (bs_setAll bs on)"
proof -
  assume sh: "bs_shape bs"
  have "{i. i < n \<and> i < n} = {..<n}" for n :: nat by auto
  then show ?thesis using sh bs_get_setAll [OF sh]
    by (simp add: bs_ok_def) (simp add: bs_setAll_def bs_shape_def unat_of_nat)
qed

lemma bs_ok_orBitSet [inv_intro]: "bs_ok bs \<Longrightarrow> bs_ok (bs_orBitSet bs other)"
  unfolding bs_orBitSet_def by (rule bits.ok_fold_put [of _ "\<lambda>i b. b \<or> bs_get other i"])

section \<open>Properties\<close>

text \<open>Writing a bit changes that bit and no other, keeps the set well formed, and keeps the
  cached number of on bits equal to the number of bits that are on; an index past the end is
  ignored.\<close>

theorem bitset_set_get:
  assumes "bs_ok bs"
  shows "bs_ok (bs_set bs i v) \<and>
    bs_get (bs_set bs i v) j = (if j = i \<and> i < bs_num_bits bs then v else bs_get bs j) \<and>
    bs_numOnBits (bs_set bs i v) = card {k. k < bs_num_bits bs \<and> bs_get (bs_set bs i v) k}"
  using assms bits.count_card [OF bits.ok_put [OF assms]]
  by (simp add: bits.get_put_eq bs_ok_bs_set)

theorem bitset_set_get_witness:
  "bs_get (bs_set (BitSet_new 10) 9 True) 9 \<and> \<not> bs_get (bs_set (BitSet_new 10) 9 True) 8 \<and>
   bs_numOnBits (bs_set (BitSet_new 10) 9 True) = 1"
proof -
  have ok: "bs_ok (BitSet_new 10)" by (rule bs_ok_new) simp
  have "{k. k < (10::nat) \<and> k = 9} = {9}" by auto
  then show ?thesis
    using bitset_set_get [OF ok, of 9 True 9] bitset_set_get [OF ok, of 9 True 8]
      bitset_set_get [OF ok, of 9 True]
    by (simp add: bits.get_put_eq [OF ok])
qed

lemma bs_or_union:
  assumes "bs_ok bs"
  shows "bs_ok (bs_orBitSet bs other) \<and>
    (\<forall>j. bs_get (bs_orBitSet bs other) j =
         (bs_get bs j \<or> (j < bs_num_bits bs \<and> bs_get other j)))"
proof -
  have "bs_get (bs_orBitSet bs other) j =
      (if j < bs_num_bits bs then bs_get bs j \<or> bs_get other j else bs_get bs j)" for j
    unfolding bs_orBitSet_def
    using bits.get_fold_put [OF assms, of "[0..<bs_num_bits bs]" "\<lambda>i b. b \<or> bs_get other i" j]
    by simp
  then show ?thesis using assms by (auto simp: bs_ok_orBitSet)
qed

text \<open>\<^verbatim>\<open>orBitSet\<close> computes the union of the two sets, cut to the size of the receiver,
  whatever the size of the argument.\<close>

theorem bitset_or_union:
  assumes "bs_ok bs"
  shows "bs_ok (bs_orBitSet bs other) \<and>
    (\<forall>j. bs_get (bs_orBitSet bs other) j =
         (bs_get bs j \<or> (j < bs_num_bits bs \<and> bs_get other j)))"
  by (rule bs_or_union [OF assms])

theorem bitset_or_union_witness:
  "bs_get (bs_orBitSet (BitSet_new 4) (bs_setAll (BitSet_new 9) True)) 3 \<and>
   \<not> bs_get (bs_orBitSet (BitSet_new 4) (bs_setAll (BitSet_new 9) True)) 5"
proof -
  have ok: "bs_ok (BitSet_new 4)" "bs_ok (BitSet_new 9)" by (simp_all add: bs_ok_new)
  show ?thesis
    using bitset_or_union [OF ok(1), of "bs_setAll (BitSet_new 9) True"] bs_ok_shape [OF ok(2)]
    by (simp add: bs_get_setAll)
qed

text \<open>Equality of bit sets compares the unused bits of the last byte too, so two well-formed
  sets of the same size with the same bits can compare different: \<^verbatim>\<open>setAll(true)\<close> on four bits and
  four single writes.\<close>

theorem bitset_eq_not_extensional:
  "\<exists>a b. bs_ok a \<and> bs_ok b \<and> bs_num_bits a = bs_num_bits b \<and>
     (\<forall>i. bs_get a i = bs_get b i) \<and> bs_allOn a \<and> bs_allOn b \<and> \<not> bs_eq a b"
proof -
  let ?a = "bs_setAll (BitSet_new 4) True"
  let ?b = "bs_orBitSet (BitSet_new 4) ?a"
  have ok: "bs_ok (BitSet_new 4)" by (rule bs_ok_new) simp
  note ga = bs_get_setAll [OF bs_ok_shape [OF ok]]
  have oka: "bs_ok ?a" by (rule bs_ok_setAll) (rule bs_ok_shape [OF ok])
  have okb: "bs_ok ?b" and gb: "\<And>j. bs_get ?b j = (j < 4)"
    using bs_or_union [OF ok, of ?a] by (simp_all add: ga)
  have nb: "bs_num_bits ?b = 4"
    unfolding bs_orBitSet_def by (simp add: bits.size_fold_put [of "\<lambda>i b. b \<or> bs_get ?a i"])
  have "bs_numOnBits ?b = 4"
    using okb by (simp add: bits.count_card nb gb)
  then have on: "bs_allOn ?b" by (simp add: bs_allOn_def nb word_unat_eq_iff)
  have "\<not> bs_eq ?a ?b" by code_simp
  then show ?thesis using oka okb ga gb nb on
    by (intro exI [of _ ?a] exI [of _ ?b]) (simp add: ga bs_allOn_def [of ?a], simp add: bs_setAll_def)
qed

end
