(* ===== verification/ByteOrder.thy ===== *)
theory ByteOrder
  imports KtPrelude
begin

text \<open>
  The big-endian readers and writers of \<^verbatim>\<open>libktorrent/util/functions.cpp\<close>. A buffer is a list
  of bytes; a write is the list with the bytes at the given offsets replaced, in the order of the
  source. Every protocol component (packets, the reader, SHA-1, the distributed hash table) goes
  through these functions.
\<close>

definition WriteUint64 :: "bytes \<Rightarrow> nat \<Rightarrow> u64 \<Rightarrow> bytes" where
  "WriteUint64 buf off val =
     buf[off + 0 := ucast (drop_bit 56 (val AND 0xFF00000000000000)),
         off + 1 := ucast (drop_bit 48 (val AND 0x00FF000000000000)),
         off + 2 := ucast (drop_bit 40 (val AND 0x0000FF0000000000)),
         off + 3 := ucast (drop_bit 32 (val AND 0x000000FF00000000)),
         off + 4 := ucast (drop_bit 24 (val AND 0x00000000FF000000)),
         off + 5 := ucast (drop_bit 16 (val AND 0x0000000000FF0000)),
         off + 6 := ucast (drop_bit 8 (val AND 0x000000000000FF00)),
         off + 7 := ucast (val AND 0x00000000000000FF)]"

definition ReadUint64 :: "bytes \<Rightarrow> nat \<Rightarrow> u64" where
  "ReadUint64 buf off =
     push_bit 56 (ucast (buf ! off)) OR
     push_bit 48 (ucast (buf ! (off + 1))) OR
     push_bit 40 (ucast (buf ! (off + 2))) OR
     push_bit 32 (ucast (buf ! (off + 3))) OR
     push_bit 24 (ucast (buf ! (off + 4))) OR
     push_bit 16 (ucast (buf ! (off + 5))) OR
     push_bit 8 (ucast (buf ! (off + 6))) OR
     ucast (buf ! (off + 7))"

definition WriteUint32 :: "bytes \<Rightarrow> nat \<Rightarrow> u32 \<Rightarrow> bytes" where
  "WriteUint32 buf off val =
     buf[off + 0 := ucast (drop_bit 24 (val AND 0xFF000000)),
         off + 1 := ucast (drop_bit 16 (val AND 0x00FF0000)),
         off + 2 := ucast (drop_bit 8 (val AND 0x0000FF00)),
         off + 3 := ucast (val AND 0x000000FF)]"

definition ReadUint32 :: "bytes \<Rightarrow> nat \<Rightarrow> u32" where
  "ReadUint32 buf off =
     push_bit 24 (ucast (buf ! off)) OR push_bit 16 (ucast (buf ! (off + 1))) OR
     push_bit 8 (ucast (buf ! (off + 2))) OR ucast (buf ! (off + 3))"

definition WriteUint16 :: "bytes \<Rightarrow> nat \<Rightarrow> u16 \<Rightarrow> bytes" where
  "WriteUint16 buf off val =
     buf[off + 0 := ucast (drop_bit 8 (val AND 0xFF00)),
         off + 1 := ucast (val AND 0x00FF)]"

definition ReadUint16 :: "bytes \<Rightarrow> nat \<Rightarrow> u16" where
  "ReadUint16 buf off = push_bit 8 (ucast (buf ! off)) OR ucast (buf ! (off + 1))"

section \<open>Round trips\<close>

lemma length_WriteUint [simp]:
  "length (WriteUint64 buf off v) = length buf"
  "length (WriteUint32 buf off w) = length buf"
  "length (WriteUint16 buf off x) = length buf"
  by (simp_all add: WriteUint64_def WriteUint32_def WriteUint16_def)

text \<open>The masks of the source select one byte each.\<close>

lemma byte_masks:
  "ucast (drop_bit 8 (x AND 0xFF00)) = (ucast (drop_bit 8 x) :: u8)"
  "ucast (x AND 0x00FF) = (ucast x :: u8)"
  "ucast (drop_bit 24 (w AND 0xFF000000)) = (ucast (drop_bit 24 w) :: u8)"
  "ucast (drop_bit 16 (w AND 0x00FF0000)) = (ucast (drop_bit 16 w) :: u8)"
  "ucast (drop_bit 8 (w AND 0x0000FF00)) = (ucast (drop_bit 8 w) :: u8)"
  "ucast (w AND 0x000000FF) = (ucast w :: u8)"
  for x :: u16 and w :: u32
  using ucast_drop_bit_mask [of 8 x] ucast_drop_bit_mask [of 0 x] ucast_drop_bit_mask [of 24 w]
    ucast_drop_bit_mask [of 16 w] ucast_drop_bit_mask [of 8 w] ucast_drop_bit_mask [of 0 w]
  by (simp_all add: mask_numeral)

lemma byte_masks64:
  "ucast (drop_bit 56 (v AND 0xFF00000000000000)) = (ucast (drop_bit 56 v) :: u8)"
  "ucast (drop_bit 48 (v AND 0x00FF000000000000)) = (ucast (drop_bit 48 v) :: u8)"
  "ucast (drop_bit 40 (v AND 0x0000FF0000000000)) = (ucast (drop_bit 40 v) :: u8)"
  "ucast (drop_bit 32 (v AND 0x000000FF00000000)) = (ucast (drop_bit 32 v) :: u8)"
  "ucast (drop_bit 24 (v AND 0x00000000FF000000)) = (ucast (drop_bit 24 v) :: u8)"
  "ucast (drop_bit 16 (v AND 0x0000000000FF0000)) = (ucast (drop_bit 16 v) :: u8)"
  "ucast (drop_bit 8 (v AND 0x000000000000FF00)) = (ucast (drop_bit 8 v) :: u8)"
  "ucast (v AND 0x00000000000000FF) = (ucast v :: u8)"
  for v :: u64
  using ucast_drop_bit_mask [of 56 v] ucast_drop_bit_mask [of 48 v] ucast_drop_bit_mask [of 40 v]
    ucast_drop_bit_mask [of 32 v] ucast_drop_bit_mask [of 24 v] ucast_drop_bit_mask [of 16 v]
    ucast_drop_bit_mask [of 8 v] ucast_drop_bit_mask [of 0 v]
  by (simp_all add: mask_numeral)

text \<open>Putting the bytes of a word back at their places gives the word.\<close>

lemma join_bytes16:
  "push_bit 8 (ucast (ucast (drop_bit 8 v) :: u8)) OR ucast (ucast v :: u8) = (v :: u16)"
  by (rule bit_word_eqI) (auto simp: bit_or_iff bit_push_bit_iff bit_ucast_byte bit_drop_bit_eq
    dest: bit_imp_le_length)

lemma join_bytes32:
  "push_bit 24 (ucast (ucast (drop_bit 24 v) :: u8)) OR
   push_bit 16 (ucast (ucast (drop_bit 16 v) :: u8)) OR
   push_bit 8 (ucast (ucast (drop_bit 8 v) :: u8)) OR ucast (ucast v :: u8) = (v :: u32)"
  (is "?l = _")
proof (rule bit_word_eqI)
  fix n assume n: "n < LENGTH(32)"
  consider "n < 8" | "8 \<le> n" "n < 16" | "16 \<le> n" "n < 24" | "24 \<le> n" by linarith
  then show "bit ?l n \<longleftrightarrow> bit v n"
    using n by cases (auto simp: bit_or_iff bit_push_bit_iff bit_ucast_byte bit_drop_bit_eq)
qed

lemma join_bytes64:
  "push_bit 56 (ucast (ucast (drop_bit 56 v) :: u8)) OR
   push_bit 48 (ucast (ucast (drop_bit 48 v) :: u8)) OR
   push_bit 40 (ucast (ucast (drop_bit 40 v) :: u8)) OR
   push_bit 32 (ucast (ucast (drop_bit 32 v) :: u8)) OR
   push_bit 24 (ucast (ucast (drop_bit 24 v) :: u8)) OR
   push_bit 16 (ucast (ucast (drop_bit 16 v) :: u8)) OR
   push_bit 8 (ucast (ucast (drop_bit 8 v) :: u8)) OR ucast (ucast v :: u8) = (v :: u64)"
  (is "?l = _")
proof (rule bit_word_eqI)
  fix n assume n: "n < LENGTH(64)"
  consider "n < 8" | "8 \<le> n" "n < 16" | "16 \<le> n" "n < 24" | "24 \<le> n" "n < 32"
    | "32 \<le> n" "n < 40" | "40 \<le> n" "n < 48" | "48 \<le> n" "n < 56" | "56 \<le> n" by linarith
  then show "bit ?l n \<longleftrightarrow> bit v n"
    using n by cases (auto simp: bit_or_iff bit_push_bit_iff bit_ucast_byte bit_drop_bit_eq)
qed

lemma ReadUint16_WriteUint16 [simp]:
  "off + 2 \<le> length buf \<Longrightarrow> ReadUint16 (WriteUint16 buf off v) off = v"
  by (simp add: ReadUint16_def WriteUint16_def byte_masks join_bytes16)

lemma ReadUint32_WriteUint32 [simp]:
  "off + 4 \<le> length buf \<Longrightarrow> ReadUint32 (WriteUint32 buf off v) off = v"
  by (simp add: ReadUint32_def WriteUint32_def byte_masks join_bytes32)

lemma ReadUint64_WriteUint64 [simp]:
  "off + 8 \<le> length buf \<Longrightarrow> ReadUint64 (WriteUint64 buf off v) off = v"
  by (simp add: ReadUint64_def WriteUint64_def byte_masks64 join_bytes64)

text \<open>A write changes only its own bytes.\<close>

lemma nth_WriteUint_other:
  "i < off \<or> off + 8 \<le> i \<Longrightarrow> WriteUint64 buf off v ! i = buf ! i"
  "i < off \<or> off + 4 \<le> i \<Longrightarrow> WriteUint32 buf off w ! i = buf ! i"
  "i < off \<or> off + 2 \<le> i \<Longrightarrow> WriteUint16 buf off x ! i = buf ! i"
  by (auto simp: WriteUint64_def WriteUint32_def WriteUint16_def)

lemma ReadUint32_cong:
  "(\<And>i. off \<le> i \<Longrightarrow> i < off + 4 \<Longrightarrow> a ! i = b ! i) \<Longrightarrow> ReadUint32 a off = ReadUint32 b off"
  by (simp add: ReadUint32_def)

lemma ReadUint32_WriteUint32_other [simp]:
  "off + 4 \<le> off' \<or> off' + 4 \<le> off \<Longrightarrow>
   ReadUint32 (WriteUint32 buf off' v) off = ReadUint32 buf off"
  by (rule ReadUint32_cong) (auto simp: nth_WriteUint_other)

text \<open>The four bytes that \<open>WriteUint32\<close> stores, and what reading them from the front of a
  buffer gives.\<close>

definition u32_bytes :: "u32 \<Rightarrow> bytes" where
  "u32_bytes v = [ucast (drop_bit 24 v), ucast (drop_bit 16 v), ucast (drop_bit 8 v), ucast v]"

lemma length_u32_bytes [simp]: "length (u32_bytes v) = 4"
  by (simp add: u32_bytes_def)

lemma ReadUint32_u32_bytes [simp]: "ReadUint32 (u32_bytes v @ xs) 0 = v"
  by (simp add: ReadUint32_def u32_bytes_def join_bytes32)

lemma ReadUint32_append:
  "off + 4 \<le> length xs \<Longrightarrow> ReadUint32 (xs @ ys) off = ReadUint32 xs off"
  by (rule ReadUint32_cong) (simp add: nth_append)

text \<open>A write as a splice of the buffer.\<close>

lemma list_update_id_len: "xs[i := v] = take i xs @ v # drop (Suc i) xs" if "i < length xs"
  using that by (simp add: upd_conv_take_nth_drop)

lemma WriteUint32_split:
  "off + 4 \<le> length buf \<Longrightarrow> WriteUint32 buf off v = take off buf @ u32_bytes v @ drop (off + 4) buf"
  unfolding WriteUint32_def byte_masks u32_bytes_def
  by (simp add: list_update_id_len take_Suc_conv_app_nth numeral_eq_Suc drop_Suc_Cons
      Cons_nth_drop_Suc [symmetric])

lemma WriteUint16_split:
  "off + 2 \<le> length buf \<Longrightarrow>
   WriteUint16 buf off v = take off buf @ [ucast (drop_bit 8 v), ucast v] @ drop (off + 2) buf"
  unfolding WriteUint16_def byte_masks
  by (simp add: list_update_id_len numeral_eq_Suc Cons_nth_drop_Suc [symmetric])

end
