(* ===== verification/PacketReader.thy ===== *)
theory PacketReader
  imports ByteOrder
begin

text \<open>
  \<^verbatim>\<open>PacketReader\<close> of \<^verbatim>\<open>libktorrent/torrent/packetreader.cpp\<close>: cuts the byte stream of a peer into
  length-prefixed packets while the bytes arrive in arbitrary portions from the network thread
  (\<open>onDataReady\<close>) and complete packets are handed to the peer from the main thread (\<open>update\<close>; the
  mutex makes each call atomic, so an execution is a sequence of calls). A portion is the list of its
  bytes, its length the argument \<^verbatim>\<open>size\<close>; the sizes are far below the width of \<^verbatim>\<open>Uint32\<close> (a portion
  has at most 16393 bytes, a packet at most 16397), so they are natural numbers; the packet length
  read from the wire is a 32-bit word.

  The specification is a framer that takes one byte at a time; \<open>reader_refines\<close> shows that every
  portion has the effect of its bytes one by one, and \<open>reader_delivers_frames\<close> that any
  interleaving of portions and updates delivers the packets of the whole stream, in order.
\<close>

section \<open>State\<close>

record incoming_packet =
  ip_data :: bytes
  ip_size :: nat
  ip_read :: nat

record packet_reader =
  pr_error :: bool
  pr_queue :: "incoming_packet list"
  pr_len :: bytes
  pr_len_received :: int

text \<open>\<^verbatim>\<open>IncomingPacket(Uint32 size)\<close>: the contents of the fresh buffer are not specified in the
  source and are never read before they are written.\<close>

definition IncomingPacket_new :: "nat \<Rightarrow> incoming_packet" where
  "IncomingPacket_new n = \<lparr>ip_data = replicate n 0, ip_size = n, ip_read = 0\<rparr>"

definition PacketReader_new :: packet_reader where
  "PacketReader_new = \<lparr>pr_error = False, pr_queue = [], pr_len = replicate 4 0, pr_len_received = -1\<rparr>"

definition ip_full :: "incoming_packet \<Rightarrow> bool" where
  "ip_full pck \<longleftrightarrow> ip_read pck = ip_size pck"

section \<open>Operations\<close>

fun deliver :: "incoming_packet list \<Rightarrow> bytes list \<times> incoming_packet list" where
  "deliver [] = ([], [])"
| "deliver (pck # q) =
     (if ip_read pck = ip_size pck
      then let (out, q') = deliver q in (ip_data pck # out, q')
      else ([], pck # q))"

text \<open>\<open>update\<close> returns the packets passed to \<^verbatim>\<open>peer->packetReady\<close>, in order.\<close>

definition pr_update :: "packet_reader \<Rightarrow> packet_reader \<times> bytes list" where
  "pr_update pr =
     (if pr_error pr then (pr, [])
      else let (out, q) = deliver (pr_queue pr) in (pr\<lparr>pr_queue := q\<rparr>, out))"

definition readPacket :: "packet_reader \<Rightarrow> bytes \<Rightarrow> packet_reader \<times> nat" where
  "readPacket pr buf =
     (let size = length buf
      in if size = 0 then (pr, 0)
         else let pck = last (pr_queue pr);
                  tr = (if ip_read pck + size \<ge> ip_size pck then ip_size pck - ip_read pck else size);
                  pck' = pck\<lparr>ip_data := memcpy (ip_data pck) (ip_read pck) buf tr,
                            ip_read := ip_read pck + tr\<rparr>
              in (pr\<lparr>pr_queue := butlast (pr_queue pr) @ [pck']\<rparr>, tr))"

text \<open>The part of \<open>newPacket\<close> after the length has been read: \<open>n\<close> is \<^verbatim>\<open>am_of_len_read\<close>.\<close>

definition startPacket :: "packet_reader \<Rightarrow> bytes \<Rightarrow> u32 \<Rightarrow> nat \<Rightarrow> packet_reader \<times> nat" where
  "startPacket pr buf packet_length n =
     (if packet_length = 0 then (pr, n)
      else if unat packet_length > MAX_PIECE_LEN + 13 then (pr\<lparr>pr_error := True\<rparr>, length buf)
      else let pr1 = pr\<lparr>pr_queue := pr_queue pr @ [IncomingPacket_new (unat packet_length)]\<rparr>;
               (pr2, m) = readPacket pr1 (drop n buf)
           in (pr2, n + m))"

text \<open>\<^verbatim>\<open>len_received\<close> is a signed integer; in \<^verbatim>\<open>size < 4 - len_received\<close> the right side is converted
  to an unsigned 32-bit value.\<close>

definition newPacket :: "packet_reader \<Rightarrow> bytes \<Rightarrow> packet_reader \<times> nat" where
  "newPacket pr buf =
     (let size = length buf; lr = pr_len_received pr
      in if lr > 0 then
           (if int size < (4 - lr) mod 2 ^ 32
            then (pr\<lparr>pr_len := memcpy (pr_len pr) (nat lr) buf size, pr_len_received := lr + int size\<rparr>, size)
            else let k = nat (4 - lr);
                     len = memcpy (pr_len pr) (nat lr) buf k
                 in startPacket (pr\<lparr>pr_len := len, pr_len_received := 0\<rparr>) buf (ReadUint32 len 0) k)
         else if size < 4
         then (pr\<lparr>pr_len := memcpy (pr_len pr) 0 buf size, pr_len_received := int size\<rparr>, size)
         else startPacket pr buf (ReadUint32 buf 0) 4)"

text \<open>The loop \<^verbatim>\<open>while (ret < size && !error) ret += newPacket(buf + ret, size - ret)\<close>.\<close>

partial_function (option) feed :: "packet_reader \<Rightarrow> bytes \<Rightarrow> packet_reader option" where
  "feed pr buf =
     (if buf = [] \<or> pr_error pr then Some pr
      else feed (fst (newPacket pr buf)) (drop (snd (newPacket pr buf)) buf))"

definition onDataReady :: "packet_reader \<Rightarrow> bytes \<Rightarrow> packet_reader option" where
  "onDataReady pr buf =
     (if pr_error pr then Some pr
      else if pr_queue pr = [] then feed pr buf
      else let pck = last (pr_queue pr);
               (pr', ret) = (if ip_read pck = ip_size pck then newPacket pr buf else readPacket pr buf)
           in feed pr' (drop ret buf))"

section \<open>Well-formed readers\<close>

definition ip_ok :: "incoming_packet \<Rightarrow> bool" where
  "ip_ok pck \<longleftrightarrow> length (ip_data pck) = ip_size pck \<and> ip_read pck \<le> ip_size pck \<and>
     0 < ip_size pck \<and> ip_size pck \<le> MAX_PIECE_LEN + 13"

text \<open>Only the newest packet may be incomplete, and then no length prefix is pending.\<close>

definition pr_ok :: "packet_reader \<Rightarrow> bool" where
  "pr_ok pr \<longleftrightarrow> length (pr_len pr) = 4 \<and> -1 \<le> pr_len_received pr \<and> pr_len_received pr < 4 \<and>
     (\<forall>pck \<in> set (pr_queue pr). ip_ok pck) \<and> (\<forall>pck \<in> set (butlast (pr_queue pr)). ip_full pck) \<and>
     (pr_queue pr \<noteq> [] \<and> \<not> ip_full (last (pr_queue pr)) \<longrightarrow> pr_len_received pr \<le> 0)"

lemma pr_ok_new: "pr_ok PacketReader_new"
  by (simp add: pr_ok_def PacketReader_new_def)

section \<open>The byte-wise framer\<close>

record framer =
  fr_error :: bool
  fr_len :: bytes
  fr_done :: "bytes list"
  fr_cur :: "(nat \<times> bytes) option"

definition fr_header :: "framer \<Rightarrow> bytes \<Rightarrow> framer" where
  "fr_header a l =
     (let n = unat (ReadUint32 l 0)
      in if n = 0 then a\<lparr>fr_len := []\<rparr>
         else if n > MAX_PIECE_LEN + 13 then a\<lparr>fr_len := [], fr_error := True\<rparr>
         else a\<lparr>fr_len := [], fr_cur := Some (n, [])\<rparr>)"

definition fr_step :: "framer \<Rightarrow> u8 \<Rightarrow> framer" where
  "fr_step a c =
     (if fr_error a then a
      else case fr_cur a of
        Some (n, got) \<Rightarrow>
          (if Suc (length got) < n then a\<lparr>fr_cur := Some (n, got @ [c])\<rparr>
           else a\<lparr>fr_cur := None, fr_done := fr_done a @ [got @ [c]]\<rparr>)
      | None \<Rightarrow>
          (let l = fr_len a @ [c]
           in if length l < 4 then a\<lparr>fr_len := l\<rparr> else fr_header a l))"

abbreviation fr_run :: "framer \<Rightarrow> bytes \<Rightarrow> framer" where
  "fr_run \<equiv> foldl fr_step"

text \<open>The abstraction: what has been delivered and what is complete in the queue is done.\<close>

definition pr_abs :: "bytes list \<Rightarrow> packet_reader \<Rightarrow> framer" where
  "pr_abs out pr =
     \<lparr>fr_error = pr_error pr,
      fr_len = (if pr_len_received pr > 0 then take (nat (pr_len_received pr)) (pr_len pr) else []),
      fr_done = out @ map ip_data (filter ip_full (pr_queue pr)),
      fr_cur = (if pr_queue pr \<noteq> [] \<and> \<not> ip_full (last (pr_queue pr))
                then let pck = last (pr_queue pr) in Some (ip_size pck, take (ip_read pck) (ip_data pck))
                else None)\<rparr>"

section \<open>Running the framer\<close>

lemma fr_run_error: "fr_error a \<Longrightarrow> fr_run a xs = a"
  by (induction xs) (simp_all add: fr_step_def)

lemma fr_run_cur_partial:
  "\<not> fr_error a \<Longrightarrow> fr_cur a = Some (n, got) \<Longrightarrow> length got + length xs < n \<Longrightarrow>
   fr_run a xs = a\<lparr>fr_cur := Some (n, got @ xs)\<rparr>"
proof (induction xs arbitrary: a got)
  case Nil
  then show ?case by (cases a) simp
next
  case (Cons x xs)
  let ?a = "a\<lparr>fr_cur := Some (n, got @ [x])\<rparr>"
  have "fr_step a x = ?a" using Cons.prems by (simp add: fr_step_def)
  moreover have "fr_run ?a xs = ?a\<lparr>fr_cur := Some (n, (got @ [x]) @ xs)\<rparr>"
    using Cons.prems by (intro Cons.IH) simp_all
  ultimately show ?case by simp
qed

lemma fr_run_cur_full:
  assumes "\<not> fr_error a" "fr_cur a = Some (n, got)" "length got + length xs = n" "xs \<noteq> []"
  shows "fr_run a xs = a\<lparr>fr_cur := None, fr_done := fr_done a @ [got @ xs]\<rparr>"
proof -
  obtain ys x where xs: "xs = ys @ [x]" using assms(4) by (metis append_butlast_last_id)
  have "fr_run a ys = a\<lparr>fr_cur := Some (n, got @ ys)\<rparr>"
    using assms xs by (intro fr_run_cur_partial) simp_all
  then show ?thesis using assms xs by (simp add: fr_step_def)
qed

lemma fr_run_len_partial:
  "\<not> fr_error a \<Longrightarrow> fr_cur a = None \<Longrightarrow> length (fr_len a) + length xs < 4 \<Longrightarrow>
   fr_run a xs = a\<lparr>fr_len := fr_len a @ xs\<rparr>"
proof (induction xs arbitrary: a)
  case Nil
  then show ?case by (cases a) simp
next
  case (Cons x xs)
  let ?a = "a\<lparr>fr_len := fr_len a @ [x]\<rparr>"
  have "fr_step a x = ?a" using Cons.prems by (simp add: fr_step_def Let_def)
  moreover have "fr_run ?a xs = ?a\<lparr>fr_len := fr_len ?a @ xs\<rparr>"
    using Cons.prems by (intro Cons.IH) simp_all
  ultimately show ?case by simp
qed

lemma fr_header_len [simp]: "fr_header (a\<lparr>fr_len := l'\<rparr>) l = fr_header a l"
  by (simp add: fr_header_def Let_def)

lemma fr_run_len_full:
  assumes "\<not> fr_error a" "fr_cur a = None" "length (fr_len a) + length xs = 4" "xs \<noteq> []"
  shows "fr_run a xs = fr_header a (fr_len a @ xs)"
proof -
  obtain ys x where xs: "xs = ys @ [x]" using assms(4) by (metis append_butlast_last_id)
  have "fr_run a ys = a\<lparr>fr_len := fr_len a @ ys\<rparr>"
    using assms xs by (intro fr_run_len_partial) simp_all
  then show ?thesis using assms xs by (simp add: fr_step_def Let_def)
qed

section \<open>Each call has the effect of the bytes it takes\<close>

lemma last_not_full_filter:
  assumes "q \<noteq> []" "\<forall>pck \<in> set (butlast q). ip_full pck" "\<not> ip_full (last q)"
  shows "filter ip_full q = butlast q"
proof -
  have "q = butlast q @ [last q]" using assms(1) by simp
  then have "filter ip_full q = filter ip_full (butlast q) @ filter ip_full [last q]"
    by (metis filter_append)
  then show ?thesis using assms by (simp add: filter_True)
qed

lemma readPacket_effect:
  assumes ok: "pr_ok pr" and err: "\<not> pr_error pr" and q: "pr_queue pr \<noteq> []"
    and open_: "\<not> ip_full (last (pr_queue pr))" and rp: "readPacket pr buf = (pr', n)"
  shows "pr_ok pr' \<and> \<not> pr_error pr' \<and> n \<le> length buf \<and> (buf \<noteq> [] \<longrightarrow> 0 < n) \<and>
    pr_abs out pr' = fr_run (pr_abs out pr) (take n buf)"
proof (cases "buf = []")
  case True
  then have "pr' = pr" "n = 0" using rp by (simp_all add: readPacket_def)
  then show ?thesis using ok err True by simp
next
  case False
  let ?q = "pr_queue pr" and ?p = "last (pr_queue pr)"
  define tr where "tr = (if ip_read ?p + length buf \<ge> ip_size ?p then ip_size ?p - ip_read ?p
    else length buf)"
  let ?p' = "?p\<lparr>ip_data := memcpy (ip_data ?p) (ip_read ?p) buf tr, ip_read := ip_read ?p + tr\<rparr>"
  have "readPacket pr buf = (pr\<lparr>pr_queue := butlast ?q @ [?p']\<rparr>, tr)"
    unfolding readPacket_def Let_def tr_def [symmetric] using False by simp
  then have n: "n = tr" and pr': "pr' = pr\<lparr>pr_queue := butlast ?q @ [?p']\<rparr>"
    using rp by simp_all
  have p: "ip_ok ?p" "ip_read ?p < ip_size ?p"
    using ok q open_ by (auto simp: pr_ok_def ip_ok_def ip_full_def dest!: bspec [OF _ last_in_set])
  have tr: "tr \<le> length buf" "0 < tr" "ip_read ?p + tr \<le> ip_size ?p"
    using p(2) False by (auto simp: tr_def)
  have tr_cases: "ip_read ?p + tr = ip_size ?p \<or> ip_read ?p + tr < ip_size ?p"
    using tr by auto
  have len: "length (ip_data ?p) = ip_size ?p" using p(1) by (simp add: ip_ok_def)
  have p': "ip_ok ?p'" using p(1) tr len by (simp add: ip_ok_def)
  have full: "\<forall>pck \<in> set (butlast ?q). ip_full pck \<and> ip_ok pck"
    using ok by (auto simp: pr_ok_def dest: in_set_butlastD)
  have flt: "filter ip_full ?q = butlast ?q"
    using q full open_ by (intro last_not_full_filter) auto
  have flt': "filter ip_full (butlast ?q) = butlast ?q" using full by (simp add: filter_True)
  have lr: "pr_len_received pr \<le> 0" using ok q open_ by (simp add: pr_ok_def)
  have data': "take (ip_read ?p + tr) (ip_data ?p') = take (ip_read ?p) (ip_data ?p) @ take tr buf"
    using tr len by (simp add: take_memcpy)
  let ?a = "pr_abs out pr" and ?got = "take (ip_read ?p) (ip_data ?p)"
  have a: "\<not> fr_error ?a" "fr_cur ?a = Some (ip_size ?p, ?got)" "fr_len ?a = []"
    "fr_done ?a = out @ map ip_data (butlast ?q)"
    using err q open_ lr flt by (simp_all add: pr_abs_def Let_def)
  have ok': "pr_ok pr'" using ok lr p' full by (auto simp: pr_ok_def pr')
  have got: "length ?got = ip_read ?p" using len p(2) by simp
  have "pr_abs out pr' = fr_run ?a (take tr buf)"
  proof (cases "ip_read ?p + tr = ip_size ?p")
    case True
    then have full': "ip_full ?p'" by (simp add: ip_full_def)
    have "fr_run ?a (take tr buf) = ?a\<lparr>fr_cur := None, fr_done := fr_done ?a @ [?got @ take tr buf]\<rparr>"
      using a got tr True by (intro fr_run_cur_full) auto
    moreover have "ip_data ?p' = ?got @ take tr buf"
      using True tr len data' by (simp add: memcpy_full)
    ultimately show ?thesis using a err lr full' flt'
      by (simp add: pr_abs_def pr' flt)
  next
    case False
    then have open': "\<not> ip_full ?p'" by (simp add: ip_full_def)
    have "fr_run ?a (take tr buf) = ?a\<lparr>fr_cur := Some (ip_size ?p, ?got @ take tr buf)\<rparr>"
      using a got tr False by (intro fr_run_cur_partial) auto
    then show ?thesis using a err lr open' flt' data'
      by (simp add: pr_abs_def pr' flt Let_def)
  qed
  then show ?thesis using ok' err tr n by (simp add: pr')
qed

definition pr_idle :: "packet_reader \<Rightarrow> bool" where
  "pr_idle pr \<longleftrightarrow> pr_queue pr = [] \<or> ip_full (last (pr_queue pr))"

lemma pr_idle_all_full:
  assumes "pr_ok pr" "pr_idle pr"
  shows "\<forall>pck \<in> set (pr_queue pr). ip_full pck"
proof (cases "pr_queue pr = []")
  case False
  then have "set (pr_queue pr) = insert (last (pr_queue pr)) (set (butlast (pr_queue pr)))"
    by (metis append_butlast_last_id list.set(1,2) rotate1.simps(2) set_rotate1)
  then show ?thesis using assms False by (auto simp: pr_ok_def pr_idle_def)
qed simp

lemma startPacket_effect:
  assumes ok: "pr_ok pr" and err: "\<not> pr_error pr" and idle: "pr_idle pr"
    and lr: "pr_len_received pr \<le> 0" and n: "n \<le> length buf"
    and hd: "ReadUint32 l 0 = w" and sp: "startPacket pr buf w n = (pr', m)"
  shows "pr_ok pr' \<and> n \<le> m \<and> m \<le> length buf \<and>
    pr_abs out pr' = fr_run (fr_header (pr_abs out pr) l) (take (m - n) (drop n buf))"
proof -
  have len: "fr_len (pr_abs out pr) = []" using lr by (simp add: pr_abs_def)
  consider "w = 0" | "w \<noteq> 0" "unat w > MAX_PIECE_LEN + 13" | "w \<noteq> 0" "unat w \<le> MAX_PIECE_LEN + 13"
    by linarith
  then show ?thesis
  proof cases
    case 1
    then have "pr' = pr" "m = n" using sp by (simp_all add: startPacket_def)
    moreover have "fr_header (pr_abs out pr) l = pr_abs out pr"
      using 1 hd len by (cases "pr_abs out pr") (simp add: fr_header_def)
    ultimately show ?thesis using ok n by simp
  next
    case 2
    then have pr': "pr' = pr\<lparr>pr_error := True\<rparr>" "m = length buf"
      using sp by (auto simp: startPacket_def)
    have "fr_header (pr_abs out pr) l = pr_abs out pr'"
      using 2 hd len lr by (simp add: fr_header_def Let_def pr' unat_eq_zero) (simp add: pr_abs_def)
    moreover have "fr_error (pr_abs out pr')" by (simp add: pr_abs_def pr')
    ultimately show ?thesis using ok n by (simp add: fr_run_error pr') (simp add: pr_ok_def)
  next
    case 3
    let ?new = "IncomingPacket_new (unat w)"
    let ?pr1 = "pr\<lparr>pr_queue := pr_queue pr @ [?new]\<rparr>"
    obtain k where rp: "readPacket ?pr1 (drop n buf) = (pr', k)" and m: "m = n + k"
      using sp 3 by (auto simp: startPacket_def Let_def split: prod.splits)
    have pos: "0 < unat w" using 3 by (simp add: unat_gt_0)
    have full: "\<forall>pck \<in> set (pr_queue pr). ip_full pck" using ok idle by (rule pr_idle_all_full)
    have ok1: "pr_ok ?pr1"
      using ok full pos 3 lr by (auto simp: pr_ok_def ip_ok_def IncomingPacket_new_def)
    have new: "\<not> ip_full ?new" using pos by (simp add: ip_full_def IncomingPacket_new_def)
    have eff: "pr_ok pr' \<and> \<not> pr_error pr' \<and> k \<le> length (drop n buf) \<and> (drop n buf \<noteq> [] \<longrightarrow> 0 < k) \<and>
        pr_abs out pr' = fr_run (pr_abs out ?pr1) (take k (drop n buf))"
      using ok1 err new by (intro readPacket_effect [OF _ _ _ _ rp]) simp_all
    have "fr_header (pr_abs out pr) l = pr_abs out ?pr1"
      using 3 hd lr err idle new pos
      by (simp add: fr_header_def Let_def pr_abs_def pr_idle_def)
         (simp add: IncomingPacket_new_def)
    then show ?thesis using eff m n by auto
  qed
qed

lemma newPacket_effect:
  assumes ok: "pr_ok pr" and err: "\<not> pr_error pr" and idle: "pr_idle pr"
    and buf: "buf \<noteq> []" and np: "newPacket pr buf = (pr', m)"
  shows "pr_ok pr' \<and> 0 < m \<and> m \<le> length buf \<and> pr_abs out pr' = fr_run (pr_abs out pr) (take m buf)"
proof -
  let ?lr = "pr_len_received pr" and ?a = "pr_abs out pr"
  have a: "\<not> fr_error ?a" "fr_cur ?a = None"
    "fr_len ?a = (if ?lr > 0 then take (nat ?lr) (pr_len pr) else [])"
    using err idle by (auto simp: pr_abs_def pr_idle_def)
  have len4: "length (pr_len pr) = 4" and lr: "-1 \<le> ?lr" "?lr < 4"
    using ok by (simp_all add: pr_ok_def)
  have split: "fr_run b (take m buf) = fr_run (fr_run b (take k buf)) (take (m - k) (drop k buf))"
    if "k \<le> m" for b k
    using that by (metis foldl_append le_add_diff_inverse take_add)
  show ?thesis
  proof (cases "?lr > 0")
    case True
    let ?k = "nat (4 - ?lr)"
    have small: "(4 - ?lr) mod 2 ^ 32 = 4 - ?lr" using True lr by (intro mod_pos_pos_trivial) auto
    have la: "length (fr_len ?a) = nat ?lr" using a(3) True len4 lr by simp
    show ?thesis
    proof (cases "int (length buf) < 4 - ?lr")
      case part: True
      let ?pr = "pr\<lparr>pr_len := memcpy (pr_len pr) (nat ?lr) buf (length buf),
        pr_len_received := ?lr + int (length buf)\<rparr>"
      have "newPacket pr buf = (?pr, length buf)"
        using True part small by (simp add: newPacket_def Let_def)
      then have pr': "pr' = ?pr" "m = length buf" using np by simp_all
      have fit: "nat ?lr + length buf < 4" using part True by linarith
      have nlr: "nat (?lr + int (length buf)) = nat ?lr + length buf" using True by simp
      have "fr_run ?a (take m buf) = ?a\<lparr>fr_len := fr_len ?a @ buf\<rparr>"
        using a la fit pr' by (simp add: fr_run_len_partial)
      moreover have "pr_abs out ?pr = ?a\<lparr>fr_len := fr_len ?a @ buf\<rparr>"
        using True a(3) fit len4 nlr
        by (simp add: pr_abs_def take_memcpy)
      moreover have "pr_ok ?pr"
        using ok part True len4 fit idle
        by (auto simp: pr_ok_def pr_idle_def)
      ultimately show ?thesis using pr' buf by simp
    next
      case full: False
      let ?len = "memcpy (pr_len pr) (nat ?lr) buf ?k"
      let ?pr = "pr\<lparr>pr_len := ?len, pr_len_received := 0\<rparr>"
      have k: "?k \<le> length buf" "0 < ?k" "nat ?lr + ?k = 4" using full True lr by linarith+
      have sp: "startPacket ?pr buf (ReadUint32 ?len 0) ?k = (pr', m)"
        using np True full small by (simp add: newPacket_def Let_def)
      have l: "?len = fr_len ?a @ take ?k buf"
        using a(3) True k len4 by (simp add: memcpy_full)
      have "pr_ok ?pr" using ok k len4 by (simp add: pr_ok_def)
      moreover have "pr_idle ?pr" using idle by (simp add: pr_idle_def)
      ultimately have eff: "pr_ok pr' \<and> ?k \<le> m \<and> m \<le> length buf \<and>
          pr_abs out pr' = fr_run (fr_header (pr_abs out ?pr) ?len) (take (m - ?k) (drop ?k buf))"
        using err k by (intro startPacket_effect [OF _ _ _ _ _ _ sp]) simp_all
      have "pr_abs out ?pr = ?a\<lparr>fr_len := []\<rparr>" by (simp add: pr_abs_def)
      moreover have "fr_run ?a (take ?k buf) = fr_header ?a ?len"
        unfolding l using a la k by (intro fr_run_len_full) auto
      ultimately have "pr_abs out pr' = fr_run ?a (take m buf)" using eff k split [of ?k ?a] by simp
      moreover have "0 < m" using eff k by linarith
      ultimately show ?thesis using eff by blast
    qed
  next
    case False
    then have la: "fr_len ?a = []" using a(3) by simp
    show ?thesis
    proof (cases "length buf < 4")
      case part: True
      let ?pr = "pr\<lparr>pr_len := memcpy (pr_len pr) 0 buf (length buf), pr_len_received := int (length buf)\<rparr>"
      have "newPacket pr buf = (?pr, length buf)"
        using False part by (simp add: newPacket_def Let_def)
      then have pr': "pr' = ?pr" "m = length buf" using np by simp_all
      have "fr_run ?a (take m buf) = ?a\<lparr>fr_len := buf\<rparr>"
        using a la part pr' by (simp add: fr_run_len_partial)
      moreover have "pr_abs out ?pr = ?a\<lparr>fr_len := buf\<rparr>"
        using part len4 buf by (simp add: pr_abs_def take_memcpy [of 0, simplified])
      moreover have "pr_ok ?pr" using ok part len4 idle by (auto simp: pr_ok_def pr_idle_def)
      ultimately show ?thesis using pr' buf by simp
    next
      case full: False
      have sp: "startPacket pr buf (ReadUint32 buf 0) 4 = (pr', m)"
        using np False full by (simp add: newPacket_def Let_def)
      have rd: "ReadUint32 (take 4 buf) 0 = ReadUint32 buf 0"
        using full by (intro ReadUint32_cong) simp
      have eff: "pr_ok pr' \<and> 4 \<le> m \<and> m \<le> length buf \<and>
          pr_abs out pr' = fr_run (fr_header ?a (take 4 buf)) (take (m - 4) (drop 4 buf))"
        using ok err idle False full rd by (intro startPacket_effect [OF _ _ _ _ _ _ sp]) simp_all
      moreover have "fr_run ?a (take 4 buf) = fr_header ?a (take 4 buf)"
        using fr_run_len_full [of ?a "take 4 buf"] a la full by (cases buf) auto
      ultimately show ?thesis using split [of 4 ?a] by simp
    qed
  qed
qed

lemma pr_not_idle: "\<not> pr_idle pr \<Longrightarrow> pr_queue pr \<noteq> [] \<and> \<not> ip_full (last (pr_queue pr))"
  by (simp add: pr_idle_def)

text \<open>Between two packets of one portion the reader is idle: \<open>feed\<close> only goes on when the newest
  packet is complete, because an incomplete one has taken the rest of the portion.\<close>

lemma newPacket_idle:
  assumes "pr_ok pr" "\<not> pr_error pr" "pr_idle pr" "newPacket pr buf = (pr', m)" "m < length buf"
  shows "pr_idle pr'"
proof -
  have aux: "pr_idle q" if "startPacket p buf w n = (q, m)" "pr_idle p" "n \<le> length buf" for p q w n
    using that assms(5)
    by (auto simp: startPacket_def readPacket_def Let_def pr_idle_def ip_full_def
        IncomingPacket_new_def split: if_splits)
  let ?lr = "pr_len_received pr"
  show ?thesis
  proof (cases "?lr > 0")
    case True
    let ?len = "memcpy (pr_len pr) (nat ?lr) buf (nat (4 - ?lr))"
    let ?p = "pr\<lparr>pr_len := ?len, pr_len_received := 0\<rparr>"
    have k: "\<not> int (length buf) < (4 - ?lr) mod 2 ^ 32"
      using True assms(4,5) by (auto simp: newPacket_def Let_def)
    then have sp: "startPacket ?p buf (ReadUint32 ?len 0) (nat (4 - ?lr)) = (pr', m)"
      using True assms(4) by (simp add: newPacket_def Let_def)
    have "(4 - ?lr) mod 2 ^ 32 = 4 - ?lr"
      using True assms(1) by (intro mod_pos_pos_trivial) (auto simp: pr_ok_def)
    then show ?thesis using k assms(3) by (intro aux [OF sp]) (auto simp: pr_idle_def)
  next
    case False
    have long: "\<not> length buf < 4"
    proof
      assume "length buf < 4"
      then have "snd (newPacket pr buf) = length buf" using False by (simp add: newPacket_def Let_def)
      then show False using assms(4,5) by simp
    qed
    then have sp: "startPacket pr buf (ReadUint32 buf 0) 4 = (pr', m)"
      using False assms(4) by (simp add: newPacket_def Let_def)
    show ?thesis using assms(3) long by (intro aux [OF sp]) simp_all
  qed
qed

lemma feed_effect:
  assumes "pr_ok pr" "pr_idle pr \<or> buf = []"
  shows "\<exists>pr'. feed pr buf = Some pr' \<and> pr_ok pr' \<and> pr_abs out pr' = fr_run (pr_abs out pr) buf"
  using assms
proof (induction "length buf" arbitrary: pr buf rule: less_induct)
  case less
  show ?case
  proof (cases "buf = [] \<or> pr_error pr")
    case True
    then have "fr_run (pr_abs out pr) buf = pr_abs out pr"
      by (cases "buf = []") (simp, simp add: fr_run_error pr_abs_def)
    then show ?thesis using True less.prems by (simp add: feed.simps [of pr buf])
  next
    case False
    obtain q m where np: "newPacket pr buf = (q, m)" by (cases "newPacket pr buf")
    have eff: "pr_ok q" "0 < m" "m \<le> length buf" "pr_abs out q = fr_run (pr_abs out pr) (take m buf)"
      using newPacket_effect [OF _ _ _ _ np] less.prems False by simp_all
    have "pr_idle q \<or> drop m buf = []"
      using newPacket_idle [OF _ _ _ np] less.prems False by (cases "m < length buf") simp_all
    then obtain r where r: "feed q (drop m buf) = Some r" "pr_ok r"
        "pr_abs out r = fr_run (pr_abs out q) (drop m buf)"
      using less.hyps [of "drop m buf" q] eff False by auto
    then have "pr_abs out r = fr_run (pr_abs out pr) buf"
      by (simp add: eff(4) flip: foldl_append)
    then show ?thesis using r np False by (simp add: feed.simps [of pr buf])
  qed
qed

lemma onDataReady_effect:
  assumes ok: "pr_ok pr"
  shows "\<exists>pr'. onDataReady pr buf = Some pr' \<and> pr_ok pr' \<and>
    pr_abs out pr' = fr_run (pr_abs out pr) buf"
proof -
  consider (err) "pr_error pr" | (empty) "\<not> pr_error pr" "pr_queue pr = []"
    | (idle) "\<not> pr_error pr" "pr_queue pr \<noteq> []" "pr_idle pr"
    | (busy) "\<not> pr_error pr" "\<not> pr_idle pr" by (auto simp: pr_idle_def)
  then show ?thesis
  proof cases
    case err
    then show ?thesis using ok by (simp add: onDataReady_def fr_run_error pr_abs_def)
  next
    case empty
    then show ?thesis using feed_effect [OF ok, of buf out] by (simp add: onDataReady_def pr_idle_def)
  next
    case idle
    obtain q m where np: "newPacket pr buf = (q, m)" by (cases "newPacket pr buf")
    have od: "onDataReady pr buf = feed q (drop m buf)"
      using idle np by (auto simp: onDataReady_def pr_idle_def ip_full_def Let_def)
    show ?thesis
    proof (cases "buf = []")
      case True
      have lr: "pr_len_received pr < 4" "length (pr_len pr) = 4" using ok by (simp_all add: pr_ok_def)
      have "pr_ok q \<and> pr_abs out q = pr_abs out pr"
        using np ok lr True
        by (cases "pr_len_received pr > 0")
          (auto simp: newPacket_def Let_def pr_ok_def pr_abs_def memcpy_def)
      then show ?thesis using od True by (simp add: feed.simps [of q "[]"])
    next
      case False
      have "feed q (drop m buf) = feed pr buf" using False idle np by (simp add: feed.simps [of pr buf])
      then show ?thesis using feed_effect [OF ok, of buf out] idle od by simp
    qed
  next
    case busy
    obtain q m where rp: "readPacket pr buf = (q, m)" by (cases "readPacket pr buf")
    have od: "onDataReady pr buf = feed q (drop m buf)"
      using busy rp pr_not_idle by (auto simp: onDataReady_def ip_full_def Let_def)
    have eff: "pr_ok q" "m \<le> length buf" "pr_abs out q = fr_run (pr_abs out pr) (take m buf)"
      using readPacket_effect [OF ok _ _ _ rp] busy pr_not_idle by auto
    have "pr_idle q \<or> drop m buf = []"
    proof (cases "ip_read (last (pr_queue pr)) + length buf \<ge> ip_size (last (pr_queue pr)) \<and> buf \<noteq> []")
      case True
      have "ip_ok (last (pr_queue pr))" using ok busy pr_not_idle by (simp add: pr_ok_def)
      then have "pr_idle (fst (readPacket pr buf))" using True
        by (simp add: readPacket_def Let_def pr_idle_def ip_full_def ip_ok_def)
      then show ?thesis using rp by simp
    next
      case False
      then have "snd (readPacket pr buf) = length buf" by (auto simp: readPacket_def Let_def)
      then show ?thesis using rp by simp
    qed
    then obtain r where "feed q (drop m buf) = Some r" "pr_ok r"
        "pr_abs out r = fr_run (pr_abs out q) (drop m buf)"
      using feed_effect [OF eff(1)] by blast
    then show ?thesis using od eff by (auto simp flip: foldl_append)
  qed
qed

section \<open>Updates and whole executions\<close>

lemma deliver_spec:
  "deliver q = (map ip_data (takeWhile ip_full q), dropWhile ip_full q)"
  by (induction q) (simp_all add: ip_full_def)

lemma pr_update_effect:
  assumes ok: "pr_ok pr" and up: "pr_update pr = (pr', ps)"
  shows "pr_ok pr' \<and> pr_error pr' = pr_error pr \<and> pr_abs (out @ ps) pr' = pr_abs out pr \<and>
    (\<not> pr_error pr \<longrightarrow> filter ip_full (pr_queue pr') = [])"
proof (cases "pr_error pr")
  case True
  then have "pr' = pr" "ps = []" using up by (simp_all add: pr_update_def)
  then show ?thesis using ok True by simp
next
  case False
  let ?q = "pr_queue pr"
  have pr': "pr' = pr\<lparr>pr_queue := dropWhile ip_full ?q\<rparr>" and ps: "ps = map ip_data (takeWhile ip_full ?q)"
    using up False by (simp_all add: pr_update_def deliver_spec)
  consider (all) "dropWhile ip_full ?q = []" "takeWhile ip_full ?q = ?q" "pr_idle pr"
    | (one) "\<not> pr_idle pr" "dropWhile ip_full ?q = [last ?q]" "takeWhile ip_full ?q = butlast ?q"
  proof (cases "pr_idle pr")
    case True
    then have "\<forall>pck \<in> set ?q. ip_full pck" using ok by (intro pr_idle_all_full)
    then show ?thesis using that(1) True by simp
  next
    case False
    then have q: "?q \<noteq> []" "\<not> ip_full (last ?q)" using pr_not_idle by auto
    have full: "\<forall>pck \<in> set (butlast ?q). ip_full pck" using ok by (simp add: pr_ok_def)
    have "dropWhile ip_full (butlast ?q @ [last ?q]) = [last ?q]"
        "takeWhile ip_full (butlast ?q @ [last ?q]) = butlast ?q"
      using q full by (simp_all add: dropWhile_append2 takeWhile_append2 del: append_butlast_last_id)
    then have "dropWhile ip_full ?q = [last ?q]" "takeWhile ip_full ?q = butlast ?q"
      using q by simp_all
    then show ?thesis using that(2) False by blast
  qed
  then show ?thesis
  proof cases
    case all
    have "filter ip_full ?q = ?q" using pr_idle_all_full [OF ok all(3)] by (simp add: filter_True)
    moreover have "pr' = pr\<lparr>pr_queue := []\<rparr>" "ps = map ip_data ?q"
      by (simp_all only: pr' ps all)
    ultimately show ?thesis using ok False all(3)
      by (auto simp: pr_ok_def pr_abs_def pr_idle_def)
  next
    case one
    have nf: "?q \<noteq> []" "\<not> ip_full (last ?q)" using one(1) pr_not_idle by auto
    have "filter ip_full ?q = butlast ?q" using ok nf by (intro last_not_full_filter) (auto simp: pr_ok_def)
    moreover have "pr' = pr\<lparr>pr_queue := [last ?q]\<rparr>" "ps = map ip_data (butlast ?q)"
      by (simp_all only: pr' ps one)
    ultimately show ?thesis using ok False nf by (auto simp: pr_ok_def pr_abs_def)
  qed
qed

datatype reader_event = Data bytes | Update

text \<open>An execution: data portions and updates in any order; the second component of the result is
  what the peer has received.\<close>

fun pr_run :: "packet_reader \<Rightarrow> reader_event list \<Rightarrow> (packet_reader \<times> bytes list) option" where
  "pr_run pr [] = Some (pr, [])"
| "pr_run pr (Data b # es) =
     (case onDataReady pr b of None \<Rightarrow> None | Some pr' \<Rightarrow> pr_run pr' es)"
| "pr_run pr (Update # es) =
     (let (pr', ps) = pr_update pr
      in case pr_run pr' es of None \<Rightarrow> None | Some (q, out) \<Rightarrow> Some (q, ps @ out))"

fun stream :: "reader_event list \<Rightarrow> bytes" where
  "stream [] = []"
| "stream (Data b # es) = b @ stream es"
| "stream (Update # es) = stream es"

lemma pr_run_effect:
  "pr_ok pr \<Longrightarrow> \<exists>pr' ps. pr_run pr es = Some (pr', ps) \<and> pr_ok pr' \<and>
     pr_abs (out @ ps) pr' = fr_run (pr_abs out pr) (stream es)"
proof (induction es arbitrary: pr out)
  case Nil
  then show ?case by simp
next
  case (Cons e es)
  show ?case
  proof (cases e)
    case (Data b)
    obtain q where q: "onDataReady pr b = Some q" "pr_ok q" "pr_abs out q = fr_run (pr_abs out pr) b"
      using onDataReady_effect [OF Cons.prems] by blast
    then show ?thesis using Cons.IH [OF q(2), of out] Data by simp
  next
    case Update
    obtain q ps where up: "pr_update pr = (q, ps)" by (cases "pr_update pr")
    have eff: "pr_ok q" "pr_abs (out @ ps) q = pr_abs out pr"
      using pr_update_effect [OF Cons.prems up] by simp_all
    then show ?thesis using Cons.IH [OF eff(1), of "out @ ps"] Update up by auto
  qed
qed

section \<open>The packets of a stream\<close>

text \<open>The reference: four bytes of length, then that many bytes; length zero is a keep-alive, an
  oversized length ends the stream with an error, an incomplete packet at the end is not there yet.\<close>

function frames :: "bytes \<Rightarrow> bytes list" where
  "frames xs =
     (if length xs < 4 then []
      else let n = unat (ReadUint32 xs 0)
           in if n = 0 then frames (drop 4 xs)
              else if n > MAX_PIECE_LEN + 13 then []
              else if length xs < 4 + n then []
              else take n (drop 4 xs) # frames (drop (4 + n) xs))"
  by pat_completeness auto
termination
  by (relation "measure length") auto

function frame_error :: "bytes \<Rightarrow> bool" where
  "frame_error xs =
     (if length xs < 4 then False
      else let n = unat (ReadUint32 xs 0)
           in if n = 0 then frame_error (drop 4 xs)
              else if n > MAX_PIECE_LEN + 13 then True
              else if length xs < 4 + n then False
              else frame_error (drop (4 + n) xs))"
  by pat_completeness auto
termination
  by (relation "measure length") auto

declare frames.simps [simp del] frame_error.simps [simp del]

definition fr_clean :: "framer \<Rightarrow> bool" where
  "fr_clean a \<longleftrightarrow> \<not> fr_error a \<and> fr_len a = [] \<and> fr_cur a = None"

lemma fr_run_frames:
  "fr_clean a \<Longrightarrow> fr_done (fr_run a xs) = fr_done a @ frames xs \<and>
     fr_error (fr_run a xs) = frame_error xs"
proof (induction "length xs" arbitrary: a xs rule: less_induct)
  case less
  show ?case
  proof (cases "length xs < 4")
    case True
    then have "fr_run a xs = a\<lparr>fr_len := xs\<rparr>"
      using less.prems by (simp add: fr_clean_def fr_run_len_partial)
    then show ?thesis using True less.prems
      by (simp add: frames.simps [of xs] frame_error.simps [of xs] fr_clean_def)
  next
    case False
    let ?n = "unat (ReadUint32 xs 0)" and ?ys = "drop 4 xs"
    have rd: "ReadUint32 (take 4 xs) 0 = ReadUint32 xs 0"
      using False by (intro ReadUint32_cong) simp
    have "fr_run a (take 4 xs) = fr_header a (take 4 xs)"
      using fr_run_len_full [of a "take 4 xs"] less.prems False by (cases xs) (auto simp: fr_clean_def)
    moreover have "fr_run a xs = fr_run (fr_run a (take 4 xs)) ?ys"
      by (metis append_take_drop_id foldl_append)
    ultimately have run: "fr_run a xs = fr_run (fr_header a (take 4 xs)) ?ys" by simp
    note unf = frames.simps [of xs] frame_error.simps [of xs]
    consider "?n = 0" | "?n > MAX_PIECE_LEN + 13" | "0 < ?n" "?n \<le> MAX_PIECE_LEN + 13" "length xs < 4 + ?n"
      | "0 < ?n" "?n \<le> MAX_PIECE_LEN + 13" "4 + ?n \<le> length xs" by linarith
    then show ?thesis
    proof cases
      case 1
      then have "fr_header a (take 4 xs) = a"
        using rd less.prems by (cases a) (simp add: fr_header_def fr_clean_def)
      then show ?thesis using less.hyps [of ?ys a] less.prems False 1 run by (simp add: unf)
    next
      case 2
      then have "fr_header a (take 4 xs) = a\<lparr>fr_len := [], fr_error := True\<rparr>"
        using rd by (simp add: fr_header_def Let_def)
      then show ?thesis using False 2 run by (simp add: unf fr_run_error)
    next
      case 3
      let ?a = "a\<lparr>fr_len := [], fr_cur := Some (?n, [])\<rparr>"
      have "fr_header a (take 4 xs) = ?a" using rd 3 by (simp add: fr_header_def Let_def)
      moreover have "fr_run ?a ?ys = ?a\<lparr>fr_cur := Some (?n, [] @ ?ys)\<rparr>"
        using less.prems 3 False by (intro fr_run_cur_partial) (auto simp: fr_clean_def)
      ultimately show ?thesis using less.prems False 3 run by (simp add: unf fr_clean_def)
    next
      case 4
      let ?a = "a\<lparr>fr_len := [], fr_cur := Some (?n, [])\<rparr>"
      let ?b = "?a\<lparr>fr_cur := None, fr_done := fr_done a @ [take ?n ?ys]\<rparr>"
      have hd: "fr_header a (take 4 xs) = ?a" using rd 4 by (simp add: fr_header_def Let_def)
      have "fr_run ?a (take ?n ?ys) = ?a\<lparr>fr_cur := None, fr_done := fr_done ?a @ [[] @ take ?n ?ys]\<rparr>"
        using less.prems 4 False by (intro fr_run_cur_full) (auto simp: fr_clean_def)
      then have "fr_run ?a (take ?n ?ys) = ?b" by simp
      moreover have "fr_run ?a ?ys = fr_run (fr_run ?a (take ?n ?ys)) (drop ?n ?ys)"
        by (metis append_take_drop_id foldl_append)
      ultimately have "fr_run a xs = fr_run ?b (drop (4 + ?n) xs)" using run hd by (simp add: add.commute)
      moreover have "fr_clean ?b" using less.prems by (simp add: fr_clean_def)
      moreover have "length (drop (4 + ?n) xs) < length xs" using False by simp
      ultimately show ?thesis using less.hyps [of "drop (4 + ?n) xs" ?b] 4 False by (simp add: unf Let_def)
    qed
  qed
qed

section \<open>Properties\<close>

text \<open>Claim C23: one portion of data, of any length, in any reachable reader state, is processed in full
  (the loop of \<^verbatim>\<open>onDataReady\<close> terminates), keeps the reader well formed, and has exactly the effect
  of feeding its bytes one at a time to the framer.\<close>

theorem reader_refines:
  assumes "pr_ok pr"
  shows "\<exists>pr'. onDataReady pr buf = Some pr' \<and> pr_ok pr' \<and>
    pr_abs out pr' = foldl fr_step (pr_abs out pr) buf"
  using assms by (rule onDataReady_effect)

theorem reader_refines_witness:
  "\<exists>pr'. onDataReady PacketReader_new [0, 0, 0, 2, 7] = Some pr' \<and> pr_ok pr' \<and>
    fr_cur (pr_abs [] pr') = Some (2, [7])"
proof -
  have "fr_cur (foldl fr_step (pr_abs [] PacketReader_new) [0, 0, 0, 2, 7]) = Some (2, [7])"
    by (simp add: fr_step_def fr_header_def pr_abs_def PacketReader_new_def ReadUint32_def Let_def
        MAX_PIECE_LEN_def)
  then show ?thesis
    using reader_refines [OF pr_ok_new, of "[0, 0, 0, 2, 7]" "[]"] by auto
qed

lemma pr_run_frames:
  "\<exists>pr out. pr_run PacketReader_new es = Some (pr, out) \<and>
     out @ map ip_data (filter ip_full (pr_queue pr)) = frames (stream es) \<and>
     pr_error pr = frame_error (stream es)"
proof -
  obtain pr out where run: "pr_run PacketReader_new es = Some (pr, out)"
      "pr_abs out pr = fr_run (pr_abs [] PacketReader_new) (stream es)"
    using pr_run_effect [OF pr_ok_new, of es "[]"] by auto
  have init: "fr_clean (pr_abs [] PacketReader_new)" "fr_done (pr_abs [] PacketReader_new) = []"
    by (simp_all add: fr_clean_def pr_abs_def PacketReader_new_def)
  have "fr_done (pr_abs out pr) = frames (stream es)" "fr_error (pr_abs out pr) = frame_error (stream es)"
    using fr_run_frames [OF init(1), of "stream es"] init(2) by (simp_all add: run(2))
  then show ?thesis using run(1) by (auto simp: pr_abs_def)
qed

text \<open>Claim C1: whatever the division of the stream into portions and whenever updates run, the packets
  handed to the peer followed by the complete packets still queued are exactly the packets of the
  concatenated stream, in order, and the reader is in the error state exactly when the stream holds
  an oversized length.\<close>

theorem reader_delivers_frames:
  "\<exists>pr out. pr_run PacketReader_new es = Some (pr, out) \<and>
     out @ map ip_data (filter ip_full (pr_queue pr)) = frames (stream es) \<and>
     pr_error pr = frame_error (stream es)"
  by (rule pr_run_frames)

text \<open>An update of a reader that has seen no error leaves no complete packet behind: after it,
  the peer has received every packet of the stream so far.\<close>

theorem reader_update_drains:
  assumes "pr_run PacketReader_new es = Some (pr, out)" "\<not> frame_error (stream es)"
    and "pr_update pr = (pr', ps)"
  shows "out @ ps = frames (stream es) \<and> filter ip_full (pr_queue pr') = []"
proof -
  have ok: "pr_ok pr" using pr_run_effect [OF pr_ok_new, of es "[]"] assms(1) by auto
  have fr: "out @ map ip_data (filter ip_full (pr_queue pr)) = frames (stream es)" "\<not> pr_error pr"
    using pr_run_frames [of es] assms(1,2) by auto
  have up: "pr_abs (out @ ps) pr' = pr_abs out pr" "filter ip_full (pr_queue pr') = []"
    using pr_update_effect [OF ok assms(3), of out] fr(2) by simp_all
  have "fr_done (pr_abs (out @ ps) pr') = fr_done (pr_abs out pr)" using up(1) by simp
  then have "out @ ps @ map ip_data (filter ip_full (pr_queue pr')) =
      out @ map ip_data (filter ip_full (pr_queue pr))" by (simp add: pr_abs_def)
  then show ?thesis using up(2) fr(1) by simp
qed

theorem reader_update_drains_witness:
  "\<exists>pr out pr' ps. pr_run PacketReader_new [Data [0, 0, 0], Data [2, 7], Update, Data [9, 0]] = Some (pr, out) \<and>
     pr_update pr = (pr', ps) \<and> out @ ps = [[7, 9]]"
proof -
  let ?es = "[Data [0, 0, 0], Data [2, 7], Update, Data [9, 0]]"
  have fr: "frames (stream ?es) = [[7, 9]]" "\<not> frame_error (stream ?es)"
    by (simp_all add: frames.simps frame_error.simps ReadUint32_def MAX_PIECE_LEN_def)
  obtain pr out where run: "pr_run PacketReader_new ?es = Some (pr, out)"
    using pr_run_effect [OF pr_ok_new, of ?es "[]"] by auto
  obtain pr' ps where up: "pr_update pr = (pr', ps)" by (cases "pr_update pr")
  show ?thesis using reader_update_drains [OF run fr(2) up] run up fr(1) by auto
qed

end
