(* ===== verification/Packets.thy ===== *)
theory Packets
  imports ByteOrder BitSets
begin

text \<open>
  Requests and outgoing packets: \<^verbatim>\<open>libktorrent/torrent/request.h\<close>, \<^verbatim>\<open>packet.h\<close> and
  \<^verbatim>\<open>packet.cpp\<close>, with the message identifiers of \<^verbatim>\<open>util/constants.h\<close>. A packet is its
  buffer, its size and the number of bytes already written, the last two kept at their width.
  The constructor for pieces returns no packet where the source would read or write outside a
  buffer; the caller that can reach this case is \<open>sendChunk\<close> in \<open>PacketWriter\<close>.
\<close>

section \<open>Message identifiers\<close>

definition CHOKE :: u8 where "CHOKE = 0"
definition UNCHOKE :: u8 where "UNCHOKE = 1"
definition INTERESTED :: u8 where "INTERESTED = 2"
definition NOT_INTERESTED :: u8 where "NOT_INTERESTED = 3"
definition HAVE :: u8 where "HAVE = 4"
definition BITFIELD :: u8 where "BITFIELD = 5"
definition REQUEST :: u8 where "REQUEST = 6"
definition PIECE :: u8 where "PIECE = 7"
definition CANCEL :: u8 where "CANCEL = 8"
definition PORT :: u8 where "PORT = 9"
definition SUGGEST_PIECE :: u8 where "SUGGEST_PIECE = 13"
definition HAVE_ALL :: u8 where "HAVE_ALL = 14"
definition HAVE_NONE :: u8 where "HAVE_NONE = 15"
definition REJECT_REQUEST :: u8 where "REJECT_REQUEST = 16"
definition ALLOWED_FAST :: u8 where "ALLOWED_FAST = 17"
definition EXTENDED :: u8 where "EXTENDED = 20"

lemmas message_ids = CHOKE_def UNCHOKE_def INTERESTED_def NOT_INTERESTED_def HAVE_def BITFIELD_def
  REQUEST_def PIECE_def CANCEL_def PORT_def SUGGEST_PIECE_def HAVE_ALL_def HAVE_NONE_def
  REJECT_REQUEST_def ALLOWED_FAST_def EXTENDED_def

section \<open>Requests\<close>

record request =
  rq_index :: u32
  rq_off :: u32
  rq_len :: u32
  rq_peer :: u32

definition Request :: "u32 \<Rightarrow> u32 \<Rightarrow> u32 \<Rightarrow> u32 \<Rightarrow> request" where
  "Request index off len peer =
     \<lparr>rq_index = index, rq_off = off, rq_len = len, rq_peer = peer\<rparr>"

text \<open>\<^verbatim>\<open>operator==\<close> ignores the peer.\<close>

definition rq_eq :: "request \<Rightarrow> request \<Rightarrow> bool" where
  "rq_eq a b \<longleftrightarrow> rq_index a = rq_index b \<and> rq_len a = rq_len b \<and> rq_off a = rq_off b"

lemma rq_eq_refl [simp]: "rq_eq a a"
  by (simp add: rq_eq_def)

lemma rq_eq_sym: "rq_eq a b \<Longrightarrow> rq_eq b a"
  by (simp add: rq_eq_def)

lemma rq_eq_trans: "rq_eq a b \<Longrightarrow> rq_eq b c \<Longrightarrow> rq_eq a c"
  by (simp add: rq_eq_def)

section \<open>Packets\<close>

record packet =
  pk_data :: bytes
  pk_size :: u32
  pk_written :: u32

text \<open>\<^verbatim>\<open>AllocPacket\<close>: the fresh buffer has unspecified contents, written as zeros here; the
  layout lemmas below show that every constructor overwrites all of them.\<close>

definition AllocPacket :: "u32 \<Rightarrow> u8 \<Rightarrow> bytes" where
  "AllocPacket n type =
     (let data = replicate (unat n) 0;
          data = WriteUint32 data 0 (n - 4)
      in data[4 := type])"

definition mk_packet :: "u32 \<Rightarrow> bytes \<Rightarrow> packet" where
  "mk_packet n data = \<lparr>pk_data = data, pk_size = n, pk_written = 0\<rparr>"

definition Packet_type :: "u8 \<Rightarrow> packet" where
  "Packet_type type = mk_packet 5 (AllocPacket 5 type)"

definition Packet_port :: "u16 \<Rightarrow> packet" where
  "Packet_port port = mk_packet 7 (WriteUint16 (AllocPacket 7 PORT) 5 port)"

definition Packet_chunk :: "u32 \<Rightarrow> u8 \<Rightarrow> packet" where
  "Packet_chunk chunk type = mk_packet 9 (WriteUint32 (AllocPacket 9 type) 5 chunk)"

definition Packet_bitset :: "bitset \<Rightarrow> packet" where
  "Packet_bitset bs =
     (let n = 5 + of_nat (bs_num_bytes bs);
          data = AllocPacket n BITFIELD
      in mk_packet n (memcpy data 5 (bs_data bs) (bs_num_bytes bs)))"

definition Packet_request :: "request \<Rightarrow> u8 \<Rightarrow> packet" where
  "Packet_request r type =
     (let data = AllocPacket 17 type;
          data = WriteUint32 data 5 (rq_index r);
          data = WriteUint32 data 9 (rq_off r);
          data = WriteUint32 data 13 (rq_len r)
      in mk_packet 17 data)"

text \<open>The piece packet: \<open>ch\<close> is the data of the chunk. \<^verbatim>\<open>size = 13 + len\<close> wraps around;
  when it does, the writes go past the allocated buffer, and when \<open>begin + len\<close> is past
  the chunk the copy reads outside the chunk. Both cases are \<open>None\<close>.\<close>

definition Packet_piece :: "u32 \<Rightarrow> u32 \<Rightarrow> u32 \<Rightarrow> bytes \<Rightarrow> packet option" where
  "Packet_piece index beg len ch =
     (let n = 13 + len in
      if unat n \<noteq> 13 + unat len \<or> length ch < unat beg + unat len then None
      else
        let data = AllocPacket n PIECE;
            data = WriteUint32 data 5 index;
            data = WriteUint32 data 9 beg
        in Some (mk_packet n (memcpy data 13 (drop (unat beg) ch) (unat len))))"

definition Packet_ext :: "u8 \<Rightarrow> bytes \<Rightarrow> packet" where
  "Packet_ext ext_id ext_data =
     (let n = 6 + of_nat (length ext_data);
          data = AllocPacket n EXTENDED;
          data = data[5 := ext_id]
      in mk_packet n (memcpy data 6 ext_data (length ext_data)))"

definition pk_getType :: "packet \<Rightarrow> u8" where
  "pk_getType p = pk_data p ! 4"

definition pk_isSent :: "packet \<Rightarrow> bool" where
  "pk_isSent p \<longleftrightarrow> pk_written p = pk_size p"

definition pk_sending :: "packet \<Rightarrow> bool" where
  "pk_sending p \<longleftrightarrow> 0 < pk_written p"

text \<open>\<^verbatim>\<open>isPiece\<close> compares the bytes at 13 with the length of the request. A PIECE packet has no
  length field: its data starts there. \<open>None\<close> is the read past a piece of fewer than four
  bytes.\<close>

definition pk_isPiece :: "packet \<Rightarrow> request \<Rightarrow> bool option" where
  "pk_isPiece p req =
     (if pk_getType p = PIECE then
        if ReadUint32 (pk_data p) 5 \<noteq> rq_index req then Some False
        else if ReadUint32 (pk_data p) 9 \<noteq> rq_off req then Some False
        else if length (pk_data p) < 17 then None
        else if ReadUint32 (pk_data p) 13 \<noteq> rq_len req then Some False
        else Some True
      else Some False)"

definition makeRejectOfPiece :: "packet \<Rightarrow> packet option" where
  "makeRejectOfPiece p =
     (if pk_getType p \<noteq> PIECE then None
      else
        let idx = ReadUint32 (pk_data p) 5;
            off = ReadUint32 (pk_data p) 9;
            len = pk_size p - 13
        in Some (Packet_request (Request idx off len 0) REJECT_REQUEST))"

text \<open>\<^verbatim>\<open>putInOutputBuffer\<close>: the packet after the call and the bytes put; their number is the
  value returned.\<close>

definition putInOutputBuffer :: "packet \<Rightarrow> nat \<Rightarrow> packet \<times> bytes \<times> bool" where
  "putInOutputBuffer p max_to_put =
     (let piece = (pk_data p ! 4 = PIECE);
          bw = unat (pk_size p - pk_written p)
      in if bw = 0 then (p, [], piece)
         else
           let bw = (if max_to_put < bw then max_to_put else bw)
           in (p\<lparr>pk_written := pk_written p + of_nat bw\<rparr>,
               take bw (drop (unat (pk_written p)) (pk_data p)), piece))"

section \<open>Layout of the packets\<close>

text \<open>The bytes of a frame with the given payload.\<close>

definition frame_bytes :: "bytes \<Rightarrow> bytes" where
  "frame_bytes payload = u32_bytes (of_nat (length payload)) @ payload"

text \<open>A well-formed packet: the buffer is one whole frame with a non-empty payload, and no more
  was written than there is.\<close>

definition pk_ok :: "packet \<Rightarrow> bool" where
  "pk_ok p \<longleftrightarrow>
     length (pk_data p) = unat (pk_size p) \<and> 5 \<le> unat (pk_size p) \<and>
     pk_data p = frame_bytes (drop 4 (pk_data p)) \<and> pk_written p \<le> pk_size p"

lemma AllocPacket_split:
  "5 \<le> unat n \<Longrightarrow> AllocPacket n t = u32_bytes (n - 4) @ [t] @ replicate (unat n - 5) 0"
proof -
  assume n: "5 \<le> unat n"
  then have "replicate (unat n) (0::u8) = replicate 4 0 @ [0] @ replicate (unat n - 5) 0"
    by (simp flip: replicate_add replicate_Suc)
  then show ?thesis
    using n by (simp add: AllocPacket_def Let_def WriteUint32_split list_update_append u32_bytes_def
        numeral_eq_Suc)
qed

lemma length_AllocPacket [simp]: "5 \<le> unat n \<Longrightarrow> length (AllocPacket n t) = unat n"
  by (simp add: AllocPacket_split)


lemma frame_bytes_length [simp]: "length (frame_bytes pl) = 4 + length pl"
  by (simp add: frame_bytes_def)

lemma drop_frame_bytes [simp]: "drop 4 (frame_bytes pl) = pl"
  by (simp add: frame_bytes_def)

lemma pk_ok_mk:
  assumes "data = u32_bytes (n - 4) @ pl" "unat n = 4 + length pl" "pl \<noteq> []"
  shows "pk_ok (mk_packet n data)"
proof -
  have "n = word_of_nat (4 + length pl)"
    using assms(2) by (rule unat_eq_of_nat)
  then have n: "n - 4 = of_nat (length pl)" by simp
  have data: "data = frame_bytes pl"
    by (simp only: assms(1) frame_bytes_def n)
  show ?thesis
    using assms(2,3) by (cases pl) (simp_all add: pk_ok_def mk_packet_def data)
qed

lemma Packet_type_data: "pk_data (Packet_type t) = frame_bytes [t]"
  by (simp add: Packet_type_def mk_packet_def AllocPacket_split frame_bytes_def)

lemma Packet_port_data:
  "pk_data (Packet_port p) = frame_bytes [PORT, ucast (drop_bit 8 p), ucast p]"
  by (simp add: Packet_port_def mk_packet_def AllocPacket_split WriteUint16_split frame_bytes_def)

lemma Packet_chunk_data: "pk_data (Packet_chunk c t) = frame_bytes (t # u32_bytes c)"
  by (simp add: Packet_chunk_def mk_packet_def AllocPacket_split WriteUint32_split frame_bytes_def)

lemma Packet_request_data:
  "pk_data (Packet_request r t) =
   frame_bytes (t # u32_bytes (rq_index r) @ u32_bytes (rq_off r) @ u32_bytes (rq_len r))"
  by (simp add: Packet_request_def mk_packet_def AllocPacket_split WriteUint32_split
      frame_bytes_def Let_def)

lemma Packet_fixed_ok:
  "pk_ok (Packet_type t)" "pk_ok (Packet_port p)" "pk_ok (Packet_chunk c t)" "pk_ok (Packet_request r t)"
  using Packet_type_data [of t] Packet_port_data [of p] Packet_chunk_data [of c t]
    Packet_request_data [of r t]
  by (auto simp: pk_ok_def Packet_type_def Packet_port_def Packet_chunk_def Packet_request_def
      mk_packet_def Let_def)

lemma Packet_bitset_data:
  assumes "bs_num_bytes bs < 2 ^ 32 - 5" "length (bs_data bs) = bs_num_bytes bs"
  shows "pk_data (Packet_bitset bs) = frame_bytes (BITFIELD # bs_data bs)"
    "pk_ok (Packet_bitset bs)"
proof -
  define n :: u32 where "n = 5 + of_nat (bs_num_bytes bs)"
  have "n = of_nat (5 + bs_num_bytes bs)" by (simp add: n_def)
  then have n: "unat n = 5 + bs_num_bytes bs"
    using assms(1) by (simp add: unat_of_nat_small del: of_nat_add)
  have len: "n - 4 = of_nat (1 + bs_num_bytes bs)" by (simp add: n_def)
  have *: "pk_data (Packet_bitset bs) = u32_bytes (n - 4) @ BITFIELD # bs_data bs"
    using assms(2) n
    by (simp add: Packet_bitset_def Let_def mk_packet_def n_def [symmetric] AllocPacket_split
        memcpy_def)
  then show "pk_data (Packet_bitset bs) = frame_bytes (BITFIELD # bs_data bs)"
    using len assms(2) by (simp add: frame_bytes_def)
  have "Packet_bitset bs = mk_packet n (pk_data (Packet_bitset bs))"
    by (simp add: Packet_bitset_def Let_def mk_packet_def n_def)
  then show "pk_ok (Packet_bitset bs)"
    using * n assms(2) pk_ok_mk [of "pk_data (Packet_bitset bs)" n "BITFIELD # bs_data bs"] by simp
qed

lemma Packet_ext_data:
  assumes "length d < 2 ^ 32 - 6"
  shows "pk_data (Packet_ext i d) = frame_bytes (EXTENDED # i # d)"
    "pk_ok (Packet_ext i d)"
proof -
  define n :: u32 where "n = 6 + of_nat (length d)"
  have "n = of_nat (6 + length d)" by (simp add: n_def)
  then have n: "unat n = 6 + length d"
    using assms(1) by (simp add: unat_of_nat_small del: of_nat_add)
  have len: "n - 4 = of_nat (2 + length d)" by (simp add: n_def)
  have *: "pk_data (Packet_ext i d) = u32_bytes (n - 4) @ EXTENDED # i # d"
    using n
    by (simp add: Packet_ext_def Let_def mk_packet_def n_def [symmetric] AllocPacket_split
        memcpy_def list_update_append)
  then show "pk_data (Packet_ext i d) = frame_bytes (EXTENDED # i # d)"
    using len by (simp add: frame_bytes_def)
  have "Packet_ext i d = mk_packet n (pk_data (Packet_ext i d))"
    by (simp add: Packet_ext_def Let_def mk_packet_def n_def)
  then show "pk_ok (Packet_ext i d)"
    using * n pk_ok_mk [of "pk_data (Packet_ext i d)" n "EXTENDED # i # d"] by simp
qed

lemma Packet_piece_Some:
  assumes "Packet_piece index beg len ch = Some p"
  shows "pk_data p = frame_bytes (PIECE # u32_bytes index @ u32_bytes beg @
            take (unat len) (drop (unat beg) ch))"
    "pk_ok p" "pk_written p = 0" "pk_size p = 13 + len"
    "unat (13 + len) = 13 + unat len" "unat beg + unat len \<le> length ch"
proof -
  have n: "unat (13 + len) = 13 + unat len" and l: "unat beg + unat len \<le> length ch"
    and p: "p = mk_packet (13 + len) (memcpy (WriteUint32 (WriteUint32 (AllocPacket (13 + len) PIECE)
       5 index) 9 beg) 13 (drop (unat beg) ch) (unat len))"
    using assms by (auto simp: Packet_piece_def Let_def split: if_splits)
  let ?d = "take (unat len) (drop (unat beg) ch)"
  have ld: "length ?d = unat len" using l by simp
  have "AllocPacket (13 + len) PIECE =
      u32_bytes (9 + len) @ [PIECE] @ replicate 8 0 @ replicate (unat len) 0"
    using n by (simp add: AllocPacket_split flip: replicate_add)
  then have *: "pk_data p = u32_bytes (9 + len) @ PIECE # u32_bytes index @ u32_bytes beg @ ?d"
    by (simp add: p mk_packet_def WriteUint32_split memcpy_def)
  have "of_nat (length (PIECE # u32_bytes index @ u32_bytes beg @ ?d)) = 9 + len"
    using ld by simp
  with * show "pk_data p = frame_bytes (PIECE # u32_bytes index @ u32_bytes beg @ ?d)"
    by (simp only: frame_bytes_def append_Cons append_assoc)
  show "pk_ok p"
    using * n ld pk_ok_mk [of "pk_data p" "13 + len" "PIECE # u32_bytes index @ u32_bytes beg @ ?d"]
    by (simp add: p mk_packet_def)
qed (use assms in \<open>auto simp: Packet_piece_def Let_def mk_packet_def split: if_splits\<close>)

lemma mk_packet_fields [simp]:
  "pk_written (mk_packet n d) = 0" "pk_size (mk_packet n d) = n" "pk_data (mk_packet n d) = d"
  by (simp_all add: mk_packet_def)

lemma fresh_written [simp]:
  "pk_written (Packet_type t) = 0" "pk_written (Packet_port po) = 0"
  "pk_written (Packet_chunk c t) = 0" "pk_written (Packet_bitset bs) = 0"
  "pk_written (Packet_request r t) = 0" "pk_written (Packet_ext i d) = 0"
  by (simp_all add: Packet_type_def Packet_port_def Packet_chunk_def Packet_bitset_def
      Packet_request_def Packet_ext_def Let_def)

lemma getType_frame [simp]: "pk_data p = frame_bytes (t # pl) \<Longrightarrow> pk_getType p = t"
  by (simp add: pk_getType_def frame_bytes_def u32_bytes_def)

text \<open>Writing: a chunk of the packet's bytes after those already written.\<close>

lemma putInOutputBuffer_spec:
  assumes "pk_ok p" "putInOutputBuffer p n = (p', out, piece)"
  shows "pk_data p' = pk_data p" "pk_size p' = pk_size p" "pk_ok p'"
    "piece \<longleftrightarrow> pk_getType p = PIECE"
    "take (unat (pk_written p')) (pk_data p) = take (unat (pk_written p)) (pk_data p) @ out"
    "length out = min n (unat (pk_size p) - unat (pk_written p))"
    "unat (pk_written p') = unat (pk_written p) + length out"
proof -
  let ?w = "unat (pk_written p)" and ?s = "unat (pk_size p)"
  have le: "?w \<le> ?s" and len: "length (pk_data p) = ?s"
    using assms(1) by (auto simp: pk_ok_def word_le_nat_alt)
  have sub: "unat (pk_size p - pk_written p) = ?s - ?w"
    using assms(1) by (simp add: pk_ok_def unat_sub)
  define k where "k = min n (?s - ?w)"
  have wr: "unat (pk_written p + of_nat k) = ?w + k"
  proof -
    have "?w + k < 2 ^ 32" using le unat_bound [of "pk_size p"] by (simp add: k_def)
    then show ?thesis by (simp add: unat_add_of_nat)
  qed
  have p': "p' = (if ?s - ?w = 0 then p else p\<lparr>pk_written := pk_written p + of_nat k\<rparr>)"
    and out: "out = take k (drop ?w (pk_data p))" and piece: "piece \<longleftrightarrow> pk_getType p = PIECE"
    using assms(2) by (auto simp: putInOutputBuffer_def sub Let_def k_def pk_getType_def min_def
        split: if_splits)
  have w': "unat (pk_written p') = ?w + k"
    using wr by (auto simp: p' k_def)
  show "pk_data p' = pk_data p" "pk_size p' = pk_size p" by (auto simp: p')
  then show "pk_ok p'"
    using assms(1) w' le by (auto simp: pk_ok_def word_le_nat_alt k_def)
  show "piece \<longleftrightarrow> pk_getType p = PIECE" by (fact piece)
  show lo: "length out = min n (?s - ?w)" by (simp add: out len k_def)
  show "unat (pk_written p') = ?w + length out" using w' lo by (simp add: k_def)
  show "take (unat (pk_written p')) (pk_data p) = take ?w (pk_data p) @ out"
    by (simp add: w' out take_add)
qed

end
