(* ===== verification/PacketWriter.thy ===== *)
theory PacketWriter
  imports Packets
begin

text \<open>
  The outgoing side of a connection: \<^verbatim>\<open>libktorrent/torrent/packetwriter.h\<close> and
  \<^verbatim>\<open>packetwriter.cpp\<close>. Packets are shared by pointer between the two queues and
  \<^verbatim>\<open>curr_packet\<close>, are written to through the latter and deleted while a queue is walked, so they
  live in a store from addresses to packets. Following a deleted pointer, popping an empty queue
  and the out-of-bounds piece of \<open>Packet_piece\<close> are \<open>None\<close>; the invariant
  \<open>pw_ok\<close> excludes the first two. Locking and the wake-up of the upload thread have no
  counterpart.
\<close>

record packet_writer =
  pw_heap :: "nat \<rightharpoonup> packet"
  pw_next :: nat
  pw_control :: "nat list"
  pw_data :: "nat list"
  pw_curr :: "nat option"
  pw_ctrl_sent :: u32
  pw_uploaded :: u32
  pw_uploaded_non_data :: u32

text \<open>The fields of the peer that the writer sets.\<close>

record peer_am =
  am_choked :: bool
  am_interested :: bool
  has_upload_slot :: bool

section \<open>Operations\<close>

definition PacketWriter_new :: packet_writer where
  "PacketWriter_new =
     \<lparr>pw_heap = Map.empty, pw_next = 0, pw_control = [], pw_data = [], pw_curr = None,
      pw_ctrl_sent = 0, pw_uploaded = 0, pw_uploaded_non_data = 0\<rparr>"

definition queuePacket :: "packet_writer \<Rightarrow> packet \<Rightarrow> packet_writer" where
  "queuePacket w p =
     (let a = pw_next w;
          w = w\<lparr>pw_heap := (pw_heap w)(a \<mapsto> p), pw_next := a + 1\<rparr>
      in if pk_getType p = PIECE then w\<lparr>pw_data := pw_data w @ [a]\<rparr>
         else w\<lparr>pw_control := pw_control w @ [a]\<rparr>)"

definition sendChoke :: "peer_am \<times> packet_writer \<Rightarrow> peer_am \<times> packet_writer" where
  "sendChoke s = (case s of (peer, w) \<Rightarrow>
     if am_choked peer then (peer, w)
     else (peer\<lparr>am_choked := True, has_upload_slot := False\<rparr>, queuePacket w (Packet_type CHOKE)))"

definition sendUnchoke :: "peer_am \<times> packet_writer \<Rightarrow> peer_am \<times> packet_writer" where
  "sendUnchoke s = (case s of (peer, w) \<Rightarrow>
     if \<not> am_choked peer then (peer, w)
     else (peer\<lparr>am_choked := False, has_upload_slot := True\<rparr>, queuePacket w (Packet_type UNCHOKE)))"

definition sendEvilUnchoke :: "peer_am \<times> packet_writer \<Rightarrow> peer_am \<times> packet_writer" where
  "sendEvilUnchoke s = (case s of (peer, w) \<Rightarrow>
     (peer\<lparr>am_choked := True, has_upload_slot := False\<rparr>, queuePacket w (Packet_type UNCHOKE)))"

definition sendInterested :: "peer_am \<times> packet_writer \<Rightarrow> peer_am \<times> packet_writer" where
  "sendInterested s = (case s of (peer, w) \<Rightarrow>
     if am_interested peer then (peer, w)
     else (peer\<lparr>am_interested := True\<rparr>, queuePacket w (Packet_type INTERESTED)))"

definition sendNotInterested :: "peer_am \<times> packet_writer \<Rightarrow> peer_am \<times> packet_writer" where
  "sendNotInterested s = (case s of (peer, w) \<Rightarrow>
     if \<not> am_interested peer then (peer, w)
     else (peer\<lparr>am_interested := False\<rparr>, queuePacket w (Packet_type NOT_INTERESTED)))"

definition sendRequest :: "packet_writer \<Rightarrow> request \<Rightarrow> packet_writer" where
  "sendRequest w r = queuePacket w (Packet_request r REQUEST)"

definition sendCancel :: "packet_writer \<Rightarrow> request \<Rightarrow> packet_writer" where
  "sendCancel w r = queuePacket w (Packet_request r CANCEL)"

definition sendReject :: "packet_writer \<Rightarrow> request \<Rightarrow> packet_writer" where
  "sendReject w r = queuePacket w (Packet_request r REJECT_REQUEST)"

definition sendHave :: "packet_writer \<Rightarrow> u32 \<Rightarrow> packet_writer" where
  "sendHave w index = queuePacket w (Packet_chunk index HAVE)"

definition sendPort :: "packet_writer \<Rightarrow> u16 \<Rightarrow> packet_writer" where
  "sendPort w port = queuePacket w (Packet_port port)"

definition sendBitSet :: "packet_writer \<Rightarrow> bitset \<Rightarrow> packet_writer" where
  "sendBitSet w bs = queuePacket w (Packet_bitset bs)"

definition sendHaveAll :: "packet_writer \<Rightarrow> packet_writer" where
  "sendHaveAll w = queuePacket w (Packet_type HAVE_ALL)"

definition sendHaveNone :: "packet_writer \<Rightarrow> packet_writer" where
  "sendHaveNone w = queuePacket w (Packet_type HAVE_NONE)"

definition sendSuggestPiece :: "packet_writer \<Rightarrow> u32 \<Rightarrow> packet_writer" where
  "sendSuggestPiece w index = queuePacket w (Packet_chunk index SUGGEST_PIECE)"

definition sendAllowedFast :: "packet_writer \<Rightarrow> u32 \<Rightarrow> packet_writer" where
  "sendAllowedFast w index = queuePacket w (Packet_chunk index ALLOWED_FAST)"

text \<open>\<^verbatim>\<open>sendChunk\<close>: a chunk is its size and its data, if it is in memory. The bound check is the
  source's, in 32-bit arithmetic; the outer \<open>None\<close> is the out-of-bounds copy.\<close>

definition sendChunk ::
    "packet_writer \<Rightarrow> u32 \<Rightarrow> u32 \<Rightarrow> u32 \<Rightarrow> u32 \<Rightarrow> bytes option \<Rightarrow> (packet_writer \<times> bool) option" where
  "sendChunk w index beg len ch_size ch_data =
     (if ch_size \<le> beg \<or> ch_size < beg + len then Some (w, False)
      else case ch_data of None \<Rightarrow> Some (w, False)
      | Some d \<Rightarrow> (case Packet_piece index beg len d of None \<Rightarrow> None
         | Some p \<Rightarrow> Some (queuePacket w p, True)))"

definition sendExtProtMsg :: "packet_writer \<Rightarrow> u8 \<Rightarrow> bytes \<Rightarrow> packet_writer" where
  "sendExtProtMsg w i d = queuePacket w (Packet_ext i d)"

definition selectPacket :: "packet_writer \<Rightarrow> packet_writer" where
  "selectPacket w =
     (if pw_ctrl_sent w < 3 then
        (case pw_control w of c # _ \<Rightarrow> w\<lparr>pw_curr := Some c\<rparr>
         | [] \<Rightarrow> (case pw_data w of d # _ \<Rightarrow> w\<lparr>pw_curr := Some d\<rparr> | [] \<Rightarrow> w\<lparr>pw_curr := None\<rparr>))
      else
        (case pw_data w of d # _ \<Rightarrow> w\<lparr>pw_ctrl_sent := 0, pw_curr := Some d\<rparr>
         | [] \<Rightarrow> (case pw_control w of c # _ \<Rightarrow> w\<lparr>pw_curr := Some c\<rparr> | [] \<Rightarrow> w\<lparr>pw_curr := None\<rparr>)))"

text \<open>One pass of the loop of \<^verbatim>\<open>onReadyToWrite\<close>, for the current packet \<open>a\<close> and
  \<open>room\<close> bytes of room: the new state, the bytes written, and whether the loop goes on.\<close>

definition write_step :: "packet_writer \<Rightarrow> nat \<Rightarrow> nat \<Rightarrow> (packet_writer \<times> bytes \<times> bool) option" where
  "write_step w a room =
     (case pw_heap w a of None \<Rightarrow> None
      | Some p \<Rightarrow>
        (case putInOutputBuffer p room of (p', out, count_as_data) \<Rightarrow>
         let w = w\<lparr>pw_heap := (pw_heap w)(a \<mapsto> p')\<rparr>;
             w = (if count_as_data then w\<lparr>pw_uploaded := pw_uploaded w + of_nat (length out)\<rparr>
                  else w\<lparr>pw_uploaded_non_data := pw_uploaded_non_data w + of_nat (length out)\<rparr>)
         in if pk_isSent p' then
              if pk_getType p' = PIECE then
                (case pw_data w of [] \<Rightarrow> None
                 | _ # ds \<Rightarrow> Some (selectPacket (w\<lparr>pw_data := ds,
                     pw_heap := (pw_heap w)(a := None), pw_ctrl_sent := 0\<rparr>), out, True))
              else
                (case pw_control w of [] \<Rightarrow> None
                 | _ # cs \<Rightarrow> Some (selectPacket (w\<lparr>pw_control := cs,
                     pw_heap := (pw_heap w)(a := None), pw_ctrl_sent := pw_ctrl_sent w + 1\<rparr>), out, True))
            else Some (w, out, False)))"

definition queued :: "packet_writer \<Rightarrow> nat" where
  "queued w = length (pw_control w) + length (pw_data w)"

lemma selectPacket_fields [simp]:
  "pw_control (selectPacket w) = pw_control w" "pw_data (selectPacket w) = pw_data w"
  "pw_heap (selectPacket w) = pw_heap w" "pw_next (selectPacket w) = pw_next w"
  "pw_uploaded (selectPacket w) = pw_uploaded w"
  "pw_uploaded_non_data (selectPacket w) = pw_uploaded_non_data w"
  by (auto simp: selectPacket_def split: list.split)

lemma write_step_queued: "write_step w a room = Some (w', out, True) \<Longrightarrow> queued w' < queued w"
  by (auto simp: write_step_def queued_def Let_def split: option.splits prod.splits if_splits
      list.splits)

function write_loop :: "packet_writer \<Rightarrow> nat \<Rightarrow> bytes \<Rightarrow> (packet_writer \<times> bytes) option" where
  "write_loop w max_to_write written =
     (case pw_curr w of None \<Rightarrow> Some (w, written)
      | Some a \<Rightarrow>
        if length written < max_to_write then
          (case write_step w a (max_to_write - length written) of None \<Rightarrow> None
           | Some (w', out, cont) \<Rightarrow>
               if cont then write_loop w' max_to_write (written @ out) else Some (w', written @ out))
        else Some (w, written))"
  by pat_completeness auto
termination
  by (relation "measure (\<lambda>(w, _). queued w)") (auto dest: write_step_queued)

declare write_loop.simps [simp del]

definition onReadyToWrite :: "packet_writer \<Rightarrow> nat \<Rightarrow> (packet_writer \<times> bytes) option" where
  "onReadyToWrite w max_to_write =
     write_loop (if pw_curr w = None then selectPacket w else w) max_to_write []"

definition getNumPacketsToWrite :: "packet_writer \<Rightarrow> nat" where
  "getNumPacketsToWrite w = length (pw_data w) + length (pw_control w)"

definition getNumDataPacketsToWrite :: "packet_writer \<Rightarrow> nat" where
  "getNumDataPacketsToWrite w = length (pw_data w)"

definition hasBytesToWrite :: "packet_writer \<Rightarrow> bool" where
  "hasBytesToWrite w \<longleftrightarrow> getNumPacketsToWrite w > 0"

definition getUploadedDataBytes :: "packet_writer \<Rightarrow> packet_writer \<times> u32" where
  "getUploadedDataBytes w = (w\<lparr>pw_uploaded := 0\<rparr>, pw_uploaded w)"

definition getUploadedNonDataBytes :: "packet_writer \<Rightarrow> packet_writer \<times> u32" where
  "getUploadedNonDataBytes w = (w\<lparr>pw_uploaded_non_data := 0\<rparr>, pw_uploaded_non_data w)"

text \<open>The walks over \<^verbatim>\<open>data_packets\<close>: the list argument is the part from the iterator on.\<close>

definition doNotSend_remove :: "packet_writer \<Rightarrow> request \<Rightarrow> bool \<Rightarrow> nat \<Rightarrow> packet_writer" where
  "doNotSend_remove w req reject a =
     (let w = (if pw_curr w = Some a then w\<lparr>pw_curr := None\<rparr> else w);
          w = w\<lparr>pw_data := remove1 a (pw_data w)\<rparr>;
          w = (if reject then sendReject w req else w)
      in w\<lparr>pw_heap := (pw_heap w)(a := None)\<rparr>)"

fun doNotSend_walk :: "packet_writer \<Rightarrow> request \<Rightarrow> bool \<Rightarrow> nat list \<Rightarrow> packet_writer option" where
  "doNotSend_walk w req reject [] = Some w"
| "doNotSend_walk w req reject (a # as) =
     (case pw_heap w a of None \<Rightarrow> None
      | Some p \<Rightarrow> (case pk_isPiece p req of None \<Rightarrow> None
        | Some m \<Rightarrow>
          if m \<and> \<not> pk_sending p then doNotSend_walk (doNotSend_remove w req reject a) req reject as
          else doNotSend_walk w req reject as))"

definition doNotSendPiece :: "packet_writer \<Rightarrow> request \<Rightarrow> bool \<Rightarrow> packet_writer option" where
  "doNotSendPiece w req reject = doNotSend_walk w req reject (pw_data w)"

definition clear_remove :: "packet_writer \<Rightarrow> bool \<Rightarrow> nat \<Rightarrow> packet \<Rightarrow> packet_writer" where
  "clear_remove w reject a p =
     (let w = (if pw_curr w = Some a then w\<lparr>pw_curr := None\<rparr> else w);
          w = (if reject then queuePacket w (the (makeRejectOfPiece p)) else w);
          w = w\<lparr>pw_data := remove1 a (pw_data w)\<rparr>
      in w\<lparr>pw_heap := (pw_heap w)(a := None)\<rparr>)"

fun clear_walk :: "packet_writer \<Rightarrow> bool \<Rightarrow> nat list \<Rightarrow> packet_writer option" where
  "clear_walk w reject [] = Some w"
| "clear_walk w reject (a # as) =
     (case pw_heap w a of None \<Rightarrow> None
      | Some p \<Rightarrow>
          if pk_getType p = PIECE \<and> \<not> pk_sending p then clear_walk (clear_remove w reject a p) reject as
          else clear_walk w reject as)"

definition clearPieces :: "packet_writer \<Rightarrow> bool \<Rightarrow> packet_writer option" where
  "clearPieces w reject = clear_walk w reject (pw_data w)"


section \<open>The invariant: no dangling pointers\<close>

definition pk_fresh :: "nat \<Rightarrow> packet \<Rightarrow> bool" where
  "pk_fresh L p \<longleftrightarrow> pk_ok p \<and> length (pk_data p) \<le> L \<and> pk_written p = 0 \<and> (pk_getType p = PIECE \<longrightarrow> 17 \<le> length (pk_data p))"

text \<open>The packet at an address, for addresses that are in use.\<close>

definition pw_at :: "packet_writer \<Rightarrow> nat \<Rightarrow> packet" where
  "pw_at w a = the (pw_heap w a)"

text \<open>\<open>a\<close> is the front of the queue of its kind.\<close>

definition front :: "packet_writer \<Rightarrow> nat \<Rightarrow> bool" where
  "front w a \<longleftrightarrow> (\<exists>cs. pw_control w = a # cs) \<or> (\<exists>ds. pw_data w = a # ds)"

definition pw_ok :: "nat \<Rightarrow> packet_writer \<Rightarrow> bool" where
  "pw_ok L w \<longleftrightarrow> 17 \<le> L \<and>
     distinct (pw_control w @ pw_data w) \<and>
     (\<forall>a \<in> set (pw_control w @ pw_data w). a < pw_next w) \<and>
     (\<forall>a \<in> set (pw_control w @ pw_data w). pw_heap w a = Some (pw_at w a) \<and> pk_ok (pw_at w a) \<and>
        length (pk_data (pw_at w a)) \<le> L \<and> \<not> pk_isSent (pw_at w a) \<and> (pw_curr w \<noteq> Some a \<longrightarrow> pk_written (pw_at w a) = 0)) \<and>
     (\<forall>a \<in> set (pw_control w). pk_getType (pw_at w a) \<noteq> PIECE) \<and>
     (\<forall>a \<in> set (pw_data w). pk_getType (pw_at w a) = PIECE \<and> 17 \<le> length (pk_data (pw_at w a))) \<and>
     (\<forall>a. pw_curr w = Some a \<longrightarrow> front w a)"

lemma pw_ok_new: "17 \<le> L \<Longrightarrow> pw_ok L PacketWriter_new"
  by (simp add: pw_ok_def PacketWriter_new_def)

lemma pk_fresh_not_sent: "pk_fresh L p \<Longrightarrow> \<not> pk_isSent p"
  by (auto simp: pk_fresh_def pk_ok_def pk_isSent_def)

lemma queuePacket_simps [simp]:
  "pw_curr (queuePacket w p) = pw_curr w" "pw_ctrl_sent (queuePacket w p) = pw_ctrl_sent w"
  "pw_next (queuePacket w p) = pw_next w + 1"
  "pw_heap (queuePacket w p) = (pw_heap w)(pw_next w \<mapsto> p)"
  "pw_control (queuePacket w p) =
     (if pk_getType p = PIECE then pw_control w else pw_control w @ [pw_next w])"
  "pw_data (queuePacket w p) = (if pk_getType p = PIECE then pw_data w @ [pw_next w] else pw_data w)"
  by (simp_all add: queuePacket_def Let_def)

lemma pw_ok_at_old:
  "pw_ok L w \<Longrightarrow> a \<in> set (pw_control w) \<union> set (pw_data w) \<Longrightarrow> pw_at (queuePacket w p) a = pw_at w a"
  by (auto simp: pw_ok_def pw_at_def)

lemma pw_ok_queue [inv_intro]:
  assumes "pw_ok L w" "pk_fresh L p"
  shows "pw_ok L (queuePacket w p)"
proof -
  let ?n = "pw_next w" and ?w = "queuePacket w p"
  have at: "pw_at ?w a = (if a = ?n then p else pw_at w a)" for a
    by (simp add: pw_at_def)
  have new: "?n \<notin> set (pw_control w)" "?n \<notin> set (pw_data w)" "pw_curr w \<noteq> Some ?n"
    using assms(1) by (auto simp: pw_ok_def front_def)
  show ?thesis
    using assms new pk_fresh_not_sent [OF assms(2)]
    unfolding pw_ok_def at
    by (auto simp: pk_fresh_def front_def less_Suc_eq)
qed

definition erase_data :: "packet_writer \<Rightarrow> nat \<Rightarrow> packet_writer" where
  "erase_data w a = w\<lparr>pw_curr := (if pw_curr w = Some a then None else pw_curr w),
     pw_data := remove1 a (pw_data w), pw_heap := (pw_heap w)(a := None)\<rparr>"

lemma pw_ok_erase [inv_intro]:
  assumes "pw_ok L w" "a \<in> set (pw_data w)"
  shows "pw_ok L (erase_data w a)"
proof -
  have d: "distinct (pw_data w)" "a \<notin> set (pw_control w)"
    using assms by (auto simp: pw_ok_def)
  have at: "b \<noteq> a \<Longrightarrow> pw_at (erase_data w a) b = pw_at w b" for b
    by (simp add: pw_at_def erase_data_def)
  have fr: "front w c \<Longrightarrow> c \<noteq> a \<Longrightarrow> front (erase_data w a) c" for c
    by (auto simp: front_def erase_data_def)
  have curr: "pw_curr (erase_data w a) = Some c \<longleftrightarrow> pw_curr w = Some c \<and> c \<noteq> a" for c
    by (auto simp: erase_data_def)
  have sets: "set (pw_control (erase_data w a)) = set (pw_control w)"
    "set (pw_data (erase_data w a)) = set (pw_data w) - {a}"
    using d by (auto simp: erase_data_def)
  have rest: "distinct (pw_control (erase_data w a) @ pw_data (erase_data w a))"
    "pw_next (erase_data w a) = pw_next w"
    "b \<noteq> a \<Longrightarrow> pw_heap (erase_data w a) b = pw_heap w b" for b
    using assms d by (auto simp: erase_data_def pw_ok_def)
  show ?thesis
    unfolding pw_ok_def set_append sets rest(2)
  proof (intro conjI ballI allI impI)
    fix b assume "b \<in> set (pw_control w) \<union> (set (pw_data w) - {a})"
    then have b: "b \<noteq> a" "b \<in> set (pw_control w @ pw_data w)" using d by auto
    have old: "b < pw_next w" "pw_heap w b = Some (pw_at w b)" "pk_ok (pw_at w b)"
      "\<not> pk_isSent (pw_at w b)" "pw_curr w \<noteq> Some b \<longrightarrow> pk_written (pw_at w b) = 0"
      "length (pk_data (pw_at w b)) \<le> L"
      using assms(1) b(2) unfolding pw_ok_def by blast+
    show "b < pw_next w" by (fact old(1))
    show "pw_heap (erase_data w a) b = Some (pw_at (erase_data w a) b)"
      "pk_ok (pw_at (erase_data w a) b)" "\<not> pk_isSent (pw_at (erase_data w a) b)"
      "length (pk_data (pw_at (erase_data w a) b)) \<le> L"
      using old at [OF b(1)] rest(3) [OF b(1)] by simp_all
    assume "pw_curr (erase_data w a) \<noteq> Some b"
    then show "pk_written (pw_at (erase_data w a) b) = 0"
      using old(5) at [OF b(1)] curr b(1) by simp
  next
    fix b assume "b \<in> set (pw_control w)"
    then show "pk_getType (pw_at (erase_data w a) b) \<noteq> PIECE"
      using assms(1) at [of b] d(2) unfolding pw_ok_def by metis
  next
    fix b assume b: "b \<in> set (pw_data w) - {a}"
    then have "pk_getType (pw_at w b) = PIECE \<and> 17 \<le> length (pk_data (pw_at w b))"
      using assms(1) unfolding pw_ok_def by blast
    then show "pk_getType (pw_at (erase_data w a) b) = PIECE"
      "17 \<le> length (pk_data (pw_at (erase_data w a) b))" using b at [of b] by simp_all
  next
    fix c assume "pw_curr (erase_data w a) = Some c"
    then show "front (erase_data w a) c"
      using fr curr assms(1) unfolding pw_ok_def by blast
  qed (use rest(1) assms(1) in \<open>simp_all add: pw_ok_def\<close>)
qed


section \<open>The order of the packets\<close>

text \<open>The specification of the order in which queued frames leave, for \<open>k\<close> control packets
  already sent: control packets first until three are sent or none is left, then a data packet.\<close>

function schedule :: "u32 \<Rightarrow> bytes list \<Rightarrow> bytes list \<Rightarrow> bytes list" where
  "schedule k cs ds =
     (if k < 3 then
        (case cs of c # cs' \<Rightarrow> c # schedule (k + 1) cs' ds
         | [] \<Rightarrow> (case ds of d # ds' \<Rightarrow> d # schedule 0 [] ds' | [] \<Rightarrow> []))
      else
        (case ds of d # ds' \<Rightarrow> d # schedule 0 cs ds'
         | [] \<Rightarrow> (case cs of c # cs' \<Rightarrow> c # schedule (k + 1) cs' [] | [] \<Rightarrow> [])))"
  by pat_completeness auto
termination
  by (relation "measure (\<lambda>(k, cs, ds). length cs + length ds)") auto

declare schedule.simps [simp del]

definition frames_at :: "packet_writer \<Rightarrow> nat list \<Rightarrow> bytes list" where
  "frames_at w as = map (\<lambda>a. pk_data (pw_at w a)) as"

lemma frames_at_simps [simp]:
  "frames_at w [] = []" "frames_at w (a # as) = pk_data (pw_at w a) # frames_at w as"
  by (simp_all add: frames_at_def)

text \<open>The frames still to leave a writer, in order, when nothing else happens to it.\<close>

definition pw_order :: "packet_writer \<Rightarrow> bytes list" where
  "pw_order w =
     (let cs = frames_at w (pw_control w); ds = frames_at w (pw_data w)
      in case pw_curr w of None \<Rightarrow> schedule (pw_ctrl_sent w) cs ds
         | Some a \<Rightarrow>
             if pk_getType (pw_at w a) = PIECE then hd ds # schedule 0 cs (tl ds)
             else hd cs # schedule (pw_ctrl_sent w + 1) (tl cs) ds)"

text \<open>The part of the current packet that is already written.\<close>

definition pw_partial :: "packet_writer \<Rightarrow> bytes" where
  "pw_partial w = (case pw_curr w of None \<Rightarrow> []
     | Some a \<Rightarrow> take (unat (pk_written (pw_at w a))) (pk_data (pw_at w a)))"

definition pw_pending :: "packet_writer \<Rightarrow> bytes" where
  "pw_pending w = drop (length (pw_partial w)) (concat (pw_order w))"

lemma pw_okD:
  assumes "pw_ok L w" "a \<in> set (pw_control w) \<union> set (pw_data w)"
  shows "pw_heap w a = Some (pw_at w a)" "pk_ok (pw_at w a)" "\<not> pk_isSent (pw_at w a)"
    "a < pw_next w" "pw_curr w \<noteq> Some a \<Longrightarrow> pk_written (pw_at w a) = 0"
    "pk_getType (pw_at w a) = PIECE \<longleftrightarrow> a \<in> set (pw_data w)" "length (pk_data (pw_at w a)) \<le> L"
    "a \<in> set (pw_control w) \<longleftrightarrow> a \<notin> set (pw_data w)"
  using assms unfolding pw_ok_def by auto

lemma pw_ok_front:
  assumes "pw_ok L w" "pw_curr w = Some a"
  shows "(pk_getType (pw_at w a) = PIECE \<and> (\<exists>ds. pw_data w = a # ds)) \<or>
    (pk_getType (pw_at w a) \<noteq> PIECE \<and> (\<exists>cs. pw_control w = a # cs))"
  using assms unfolding pw_ok_def front_def by fastforce

lemma selectPacket_curr:
  "pw_curr (selectPacket w) = Some a \<Longrightarrow> front w a"
  by (auto simp: selectPacket_def front_def split: if_splits list.splits)

lemma pw_ok_select [inv_intro]:
  assumes "pw_ok L w" "pw_curr w = None"
  shows "pw_ok L (selectPacket w)"
proof -
  have at: "pw_at (selectPacket w) a = pw_at w a" for a by (simp add: pw_at_def)
  show ?thesis
    using assms selectPacket_curr [of w] unfolding pw_ok_def at
    by (auto simp: front_def)
qed

lemma pw_order_select:
  assumes "pw_ok L w" "pw_curr w = None"
  shows "pw_order (selectPacket w) = pw_order w" "pw_partial (selectPacket w) = []"
proof -
  have at: "pw_at (selectPacket w) a = pw_at w a" for a by (simp add: pw_at_def)
  have fr: "frames_at (selectPacket w) as = frames_at w as" for as by (simp add: frames_at_def at)
  have ty: "a \<in> set (pw_data w) \<Longrightarrow> pk_getType (pw_at w a) = PIECE"
    "a \<in> set (pw_control w) \<Longrightarrow> pk_getType (pw_at w a) \<noteq> PIECE" for a
    using assms(1) by (auto simp: pw_ok_def)
  show "pw_order (selectPacket w) = pw_order w"
    unfolding pw_order_def Let_def fr at selectPacket_fields assms(2)
    using ty [of "hd (pw_data w)"] ty [of "hd (pw_control w)"]
      schedule.simps [of "pw_ctrl_sent w" "frames_at w (pw_control w)" "frames_at w (pw_data w)"]
    by (cases "pw_control w"; cases "pw_data w") (auto simp: selectPacket_def frames_at_def)
  show "pw_partial (selectPacket w) = []"
    using selectPacket_curr [of w] pw_okD(5) [OF assms(1)] assms(2)
    unfolding pw_partial_def at front_def by (fastforce split: option.split)
qed

text \<open>What a pop of the current packet does to the queues.\<close>

definition pop_curr :: "packet_writer \<Rightarrow> nat \<Rightarrow> packet_writer" where
  "pop_curr w a =
     (if pk_getType (pw_at w a) = PIECE then
        w\<lparr>pw_data := tl (pw_data w), pw_heap := (pw_heap w)(a := None), pw_ctrl_sent := 0,
          pw_curr := None\<rparr>
      else w\<lparr>pw_control := tl (pw_control w), pw_heap := (pw_heap w)(a := None),
          pw_ctrl_sent := pw_ctrl_sent w + 1, pw_curr := None\<rparr>)"

lemma pop_curr_at: "b \<noteq> a \<Longrightarrow> pw_at (pop_curr w a) b = pw_at w b"
  by (simp add: pop_curr_def pw_at_def)

lemma pop_curr_fields:
  "pw_curr (pop_curr w a) = None" "pw_next (pop_curr w a) = pw_next w"
  "pw_control (pop_curr w a) =
     (if pk_getType (pw_at w a) = PIECE then pw_control w else tl (pw_control w))"
  "pw_data (pop_curr w a) = (if pk_getType (pw_at w a) = PIECE then tl (pw_data w) else pw_data w)"
  "pw_ctrl_sent (pop_curr w a) =
     (if pk_getType (pw_at w a) = PIECE then 0 else pw_ctrl_sent w + 1)"
  by (simp_all add: pop_curr_def)

lemma pw_ok_pop [inv_intro]:
  assumes "pw_ok L w" "pw_curr w = Some a"
  shows "pw_ok L (pop_curr w a)"
proof -
  have sets: "set (pw_control (pop_curr w a)) \<subseteq> set (pw_control w) - {a}"
    "set (pw_data (pop_curr w a)) \<subseteq> set (pw_data w) - {a}"
    "distinct (pw_control (pop_curr w a) @ pw_data (pop_curr w a))"
    using pw_ok_front [OF assms] assms(1) by (auto simp: pop_curr_def pw_ok_def)
  have heap: "pw_heap (pop_curr w a) b = pw_heap w b" if "b \<noteq> a" for b
    using that by (simp add: pop_curr_def)
  have flds: "pw_curr (pop_curr w a) = None" "pw_next (pop_curr w a) = pw_next w"
    by (simp_all add: pop_curr_def)
  show ?thesis
    unfolding pw_ok_def flds
  proof (intro conjI ballI allI impI)
    fix b assume "b \<in> set (pw_control (pop_curr w a) @ pw_data (pop_curr w a))"
    then have b: "b \<noteq> a" "b \<in> set (pw_control w) \<union> set (pw_data w)" using sets by auto
    note old = pw_okD [OF assms(1) b(2)]
    show "b < pw_next w" by (fact old(4))
    show "pw_heap (pop_curr w a) b = Some (pw_at (pop_curr w a) b)" "pk_ok (pw_at (pop_curr w a) b)"
      "\<not> pk_isSent (pw_at (pop_curr w a) b)" "pk_written (pw_at (pop_curr w a) b) = 0"
      "length (pk_data (pw_at (pop_curr w a) b)) \<le> L"
      using old heap [OF b(1)] b assms(2) by (simp_all add: pop_curr_at)
  next
    fix b assume "b \<in> set (pw_control (pop_curr w a))"
    then have "b \<in> set (pw_control w)" "b \<noteq> a" using sets by auto
    then show "pk_getType (pw_at (pop_curr w a) b) \<noteq> PIECE"
      using assms(1) by (simp add: pop_curr_at pw_ok_def)
  next
    fix b assume "b \<in> set (pw_data (pop_curr w a))"
    then have "b \<in> set (pw_data w)" "b \<noteq> a" using sets by auto
    then show "pk_getType (pw_at (pop_curr w a) b) = PIECE"
      "17 \<le> length (pk_data (pw_at (pop_curr w a) b))"
      using assms(1) by (simp_all add: pop_curr_at pw_ok_def)
  qed (use sets assms(1) in \<open>auto simp: pw_ok_def\<close>)
qed

lemma pw_order_pop:
  assumes "pw_ok L w" "pw_curr w = Some a"
  shows "pw_order w = pk_data (pw_at w a) # pw_order (pop_curr w a)"
proof -
  have d: "distinct (pw_control w @ pw_data w)" using assms(1) by (simp add: pw_ok_def)
  have fr: "a \<notin> set as \<Longrightarrow> frames_at (pop_curr w a) as = frames_at w as" for as
    by (auto simp: frames_at_def intro!: arg_cong [where f = pk_data] pop_curr_at)
  show ?thesis
    using pw_ok_front [OF assms]
  proof
    assume "pk_getType (pw_at w a) = PIECE \<and> (\<exists>ds. pw_data w = a # ds)"
    then obtain ds where ds: "pw_data w = a # ds" "pk_getType (pw_at w a) = PIECE" by blast
    then have "a \<notin> set ds" "a \<notin> set (pw_control w)" using d by auto
    then have "frames_at (pop_curr w a) ds = frames_at w ds"
      "frames_at (pop_curr w a) (pw_control w) = frames_at w (pw_control w)" by (simp_all add: fr)
    then show ?thesis
      using ds assms(2) by (simp add: pw_order_def Let_def pop_curr_fields)
  next
    assume "pk_getType (pw_at w a) \<noteq> PIECE \<and> (\<exists>cs. pw_control w = a # cs)"
    then obtain cs where cs: "pw_control w = a # cs" "pk_getType (pw_at w a) \<noteq> PIECE" by blast
    then have "a \<notin> set cs" "a \<notin> set (pw_data w)" using d by auto
    then have "frames_at (pop_curr w a) cs = frames_at w cs"
      "frames_at (pop_curr w a) (pw_data w) = frames_at w (pw_data w)" by (simp_all add: fr)
    then show ?thesis
      using cs assms(2) by (simp add: pw_order_def Let_def pop_curr_fields)
  qed
qed


section \<open>Writing\<close>

definition count_up :: "packet_writer \<Rightarrow> bool \<Rightarrow> nat \<Rightarrow> packet_writer" where
  "count_up w piece n =
     (if piece then w\<lparr>pw_uploaded := pw_uploaded w + of_nat n\<rparr>
      else w\<lparr>pw_uploaded_non_data := pw_uploaded_non_data w + of_nat n\<rparr>)"

lemma count_up_simps [simp]:
  "pw_heap (count_up w b n) = pw_heap w" "pw_next (count_up w b n) = pw_next w"
  "pw_control (count_up w b n) = pw_control w" "pw_data (count_up w b n) = pw_data w"
  "pw_curr (count_up w b n) = pw_curr w" "pw_ctrl_sent (count_up w b n) = pw_ctrl_sent w"
  "pw_at (count_up w b n) a = pw_at w a" "front (count_up w b n) a = front w a"
  "frames_at (count_up w b n) as = frames_at w as"
  by (simp_all add: count_up_def pw_at_def front_def frames_at_def)

lemma count_up_inv [simp]:
  "pw_ok L (count_up w b n) = pw_ok L w" "pw_order (count_up w b n) = pw_order w"
  "pw_partial (count_up w b n) = pw_partial w"
  by (simp_all add: pw_ok_def pw_order_def pw_partial_def Let_def split: option.split)

text \<open>The store with the current packet advanced.\<close>

definition pw_put :: "packet_writer \<Rightarrow> nat \<Rightarrow> packet \<Rightarrow> packet_writer" where
  "pw_put w a p = w\<lparr>pw_heap := (pw_heap w)(a \<mapsto> p)\<rparr>"

lemma pw_put_simps [simp]:
  "pw_next (pw_put w a p) = pw_next w" "pw_control (pw_put w a p) = pw_control w"
  "pw_data (pw_put w a p) = pw_data w" "pw_curr (pw_put w a p) = pw_curr w"
  "pw_ctrl_sent (pw_put w a p) = pw_ctrl_sent w"
  "pw_at (pw_put w a p) b = (if b = a then p else pw_at w b)"
  "pw_heap (pw_put w a p) b = (if b = a then Some p else pw_heap w b)"
  "front (pw_put w a p) b = front w b"
  by (simp_all add: pw_put_def pw_at_def front_def)

lemma pw_ok_put:
  assumes "pw_ok L w" "pw_curr w = Some a" "pk_ok p" "\<not> pk_isSent p" "pk_data p = pk_data (pw_at w a)"
    "length (pk_data (pw_at w a)) \<le> L"
  shows "pw_ok L (pw_put w a p)"
  using assms unfolding pw_ok_def pk_getType_def by auto

lemma pw_order_put:
  assumes "pk_data p = pk_data (pw_at w a)"
  shows "pw_order (pw_put w a p) = pw_order w"
proof -
  have "frames_at (pw_put w a p) as = frames_at w as" for as
    using assms by (simp add: frames_at_def)
  then show ?thesis
    using assms by (simp add: pw_order_def Let_def pk_getType_def split: option.split)
qed

lemma write_step_form:
  assumes "pw_ok L w" "pw_curr w = Some a" "putInOutputBuffer (pw_at w a) room = (p', out, piece)"
  shows "write_step w a room =
    (if pk_isSent p' then Some (selectPacket (count_up (pop_curr w a) piece (length out)), out, True)
     else Some (count_up (pw_put w a p') piece (length out), out, False))"
proof -
  have heap: "pw_heap w a = Some (pw_at w a)" and ok: "pk_ok (pw_at w a)"
    using pw_okD [OF assms(1), of a] pw_ok_front [OF assms(1,2)] by auto
  note put = putInOutputBuffer_spec [OF ok assms(3)]
  have ty: "pk_getType p' = pk_getType (pw_at w a)" using put(1) by (simp add: pk_getType_def)
  have "selectPacket (v\<lparr>pw_curr := None\<rparr>) = selectPacket v" for v
    by (simp add: selectPacket_def split: list.split)
  then have sel: "u\<lparr>pw_curr := None\<rparr> = v\<lparr>pw_curr := None\<rparr> \<Longrightarrow> selectPacket u = selectPacket v" for u v
    by metis
  show ?thesis
    using pw_ok_front [OF assms(1,2)] heap put(4)
    by (auto simp: write_step_def assms(3) ty Let_def pw_put_def count_up_def pop_curr_def
        intro!: sel)
qed

lemma selectPacket_None: "pw_curr (selectPacket v) = None \<Longrightarrow> pw_order (selectPacket v) = []"
  using schedule.simps [of "pw_ctrl_sent (selectPacket v)" "[]" "[]"]
  by (auto simp: selectPacket_def pw_order_def split: if_splits list.splits)

lemma write_step_spec:
  assumes "pw_ok L w" "pw_curr w = Some a" "0 < room"
  shows "\<exists>w' out cont sent. write_step w a room = Some (w', out, cont) \<and> pw_ok L w' \<and>
    pw_order w = sent @ pw_order w' \<and> pw_partial w @ out = concat sent @ pw_partial w' \<and>
    length out \<le> room \<and> (\<not> cont \<longrightarrow> length out = room) \<and>
    (cont \<longrightarrow> pw_curr w' = None \<longrightarrow> pw_order w' = [])"
proof -
  obtain p' out piece where put: "putInOutputBuffer (pw_at w a) room = (p', out, piece)"
    by (cases "putInOutputBuffer (pw_at w a) room") auto
  have ok: "pk_ok (pw_at w a)"
    using pw_okD [OF assms(1), of a] pw_ok_front [OF assms(1,2)] by auto
  note spec = putInOutputBuffer_spec [OF ok put]
  have lL: "length (pk_data (pw_at w a)) \<le> L"
    using pw_okD [OF assms(1), of a] pw_ok_front [OF assms(1,2)] by auto
  have len: "length (pk_data (pw_at w a)) = unat (pk_size (pw_at w a))"
    using ok by (simp add: pk_ok_def)
  have le: "unat (pk_written (pw_at w a)) \<le> unat (pk_size (pw_at w a))"
    using ok by (simp add: pk_ok_def word_le_nat_alt)
  have part: "pw_partial w @ out = take (unat (pk_written p')) (pk_data (pw_at w a))"
    using spec(5) assms(2) by (simp add: pw_partial_def)
  show ?thesis
  proof (cases "pk_isSent p'")
    case True
    then have all: "pw_partial w @ out = pk_data (pw_at w a)"
      using part spec(2) len by (simp add: pk_isSent_def)
    define v where "v = count_up (pop_curr w a) piece (length out)"
    have v: "pw_ok L v" "pw_curr v = None"
      using pw_ok_pop [OF assms(1,2)] by (simp_all add: v_def pop_curr_def)
    have "pw_order w = [pk_data (pw_at w a)] @ pw_order (selectPacket v)"
      using pw_order_pop [OF assms(1,2)] pw_order_select(1) [OF v] by (simp add: v_def)
    then show ?thesis
      using True write_step_form [OF assms(1,2) put] pw_ok_select [OF v] all spec(6)
        pw_order_select(2) [OF v] selectPacket_None [of v] by (fastforce simp: v_def)
  next
    case False
    let ?w' = "count_up (pw_put w a p') piece (length out)"
    have "unat (pk_written p') \<noteq> unat (pk_size p')" using False by (simp add: pk_isSent_def word_unat_eq_iff)
    then have "length out = room" using spec(2,6,7) le by (auto simp: min_def split: if_splits)
    moreover have "pw_ok L ?w'" "pw_order ?w' = pw_order w"
      using pw_ok_put [OF assms(1,2) spec(3) False spec(1) lL] pw_order_put [OF spec(1)] by simp_all
    moreover have "pw_partial ?w' = pw_partial w @ out"
      using part assms(2) spec(1) by (simp add: pw_partial_def)
    moreover have "write_step w a room = Some (?w', out, False)"
      using write_step_form [OF assms(1,2) put] False by simp
    ultimately show ?thesis by (intro exI [of _ ?w'] exI [of _ out] exI [of _ False] exI [of _ "[]"]) simp
  qed
qed


lemma write_loop_spec:
  assumes "pw_ok L w" "pw_curr w = None \<longrightarrow> pw_order w = []" "length written \<le> m"
  shows "\<exists>w' out sent. write_loop w m written = Some (w', written @ out) \<and> pw_ok L w' \<and>
    pw_order w = sent @ pw_order w' \<and> pw_partial w @ out = concat sent @ pw_partial w' \<and>
    length (written @ out) \<le> m \<and> (length (written @ out) = m \<or> pw_order w' = [])"
  using assms
proof (induction w m written rule: write_loop.induct)
  case (1 w m written)
  show ?case
  proof (cases "pw_curr w")
    case None
    then show ?thesis
      using 1 by (auto simp: write_loop.simps [of w] pw_partial_def)
  next
    case (Some a)
    show ?thesis
    proof (cases "length written < m")
      case False
      then show ?thesis using Some 1 by (auto simp: write_loop.simps [of w])
    next
      case True
      then obtain w1 out1 cont sent1 where step: "write_step w a (m - length written) = Some (w1, out1, cont)"
        and w1: "pw_ok L w1" "pw_order w = sent1 @ pw_order w1"
          "pw_partial w @ out1 = concat sent1 @ pw_partial w1" "length out1 \<le> m - length written"
          "\<not> cont \<longrightarrow> length out1 = m - length written"
          "cont \<longrightarrow> pw_curr w1 = None \<longrightarrow> pw_order w1 = []"
        using write_step_spec [OF 1(2) Some, of "m - length written"] by (metis zero_less_diff)
      show ?thesis
      proof (cases cont)
        case False
        have "length (written @ out1) = m" using w1(5) False True by simp
        then show ?thesis
          using Some True step False w1
          by (intro exI [of _ w1] exI [of _ out1] exI [of _ sent1])
             (simp add: write_loop.simps [of w])
      next
        case ct: True
        have "length (written @ out1) \<le> m" using w1(4) True by simp
        then obtain w2 out2 sent2 where
          "write_loop w1 m (written @ out1) = Some (w2, (written @ out1) @ out2)" and
          w2: "pw_ok L w2" "pw_order w1 = sent2 @ pw_order w2"
          "pw_partial w1 @ out2 = concat sent2 @ pw_partial w2"
          "length ((written @ out1) @ out2) \<le> m"
          "length ((written @ out1) @ out2) = m \<or> pw_order w2 = []"
          using "1.IH" [OF Some True step refl refl ct w1(1)] w1(6) ct by blast
        moreover have "pw_partial w @ out1 @ out2 = concat (sent1 @ sent2) @ pw_partial w2"
          using w1(3) w2(3) by (metis append_assoc concat_append)
        ultimately show ?thesis
          using Some True step ct w1(2)
          by (intro exI [of _ w2] exI [of _ "out1 @ out2"] exI [of _ "sent1 @ sent2"])
             (simp add: write_loop.simps [of w])
      qed
    qed
  qed
qed

lemma onReadyToWrite_effect:
  assumes "pw_ok L w"
  shows "\<exists>w' out sent. onReadyToWrite w m = Some (w', out) \<and> pw_ok L w' \<and>
    pw_order w = sent @ pw_order w' \<and> pw_partial w @ out = concat sent @ pw_partial w' \<and>
    length out \<le> m \<and> (length out = m \<or> pw_order w' = [])"
proof -
  let ?v = "if pw_curr w = None then selectPacket w else w"
  have v: "pw_ok L ?v" "pw_order ?v = pw_order w" "pw_partial ?v = pw_partial w"
    using assms pw_ok_select pw_order_select by (auto simp: pw_partial_def)
  have "pw_curr ?v = None \<longrightarrow> pw_order ?v = []" using selectPacket_None by auto
  from write_loop_spec [OF v(1) this, of "[]" m] show ?thesis
    using v(2,3) by (simp add: onReadyToWrite_def)
qed

lemma pw_partial_prefix:
  assumes "pw_ok L w"
  shows "\<exists>rest. concat (pw_order w) = pw_partial w @ rest"
proof (cases "pw_curr w")
  case None
  then show ?thesis by (simp add: pw_partial_def)
next
  case (Some a)
  then show ?thesis
    using pw_order_pop [OF assms Some] append_take_drop_id
    by (auto simp: pw_partial_def) (metis append_assoc append_take_drop_id)
qed


section \<open>Dropping queued pieces\<close>

lemma pk_fresh_request: "t \<noteq> PIECE \<Longrightarrow> 17 \<le> L \<Longrightarrow> pk_fresh L (Packet_request r t)"
  using Packet_fixed_ok(4) [of r t] Packet_request_data [of r t] by (simp add: pk_fresh_def)

lemma pk_fresh_reject: "17 \<le> L \<Longrightarrow> makeRejectOfPiece p = Some q \<Longrightarrow> pk_fresh L q \<and> pk_getType q \<noteq> PIECE"
  using Packet_request_data [of _ REJECT_REQUEST]
  by (auto simp: makeRejectOfPiece_def Let_def split: if_splits intro!: pk_fresh_request)
     (simp_all add: message_ids)

lemma pw_partial_queue:
  assumes "pw_ok L w"
  shows "pw_partial (queuePacket w p) = pw_partial w"
proof (cases "pw_curr w")
  case (Some a)
  then have "a \<in> set (pw_control w) \<union> set (pw_data w)"
    using assms pw_ok_front [OF assms Some] by auto
  then show ?thesis using Some pw_ok_at_old [OF assms] by (simp add: pw_partial_def)
qed (simp add: pw_partial_def)

lemma pw_partial_erase:
  assumes "pk_written (pw_at w a) = 0"
  shows "pw_partial (erase_data w a) = pw_partial w"
  using assms by (auto simp: pw_partial_def erase_data_def pw_at_def split: option.split)

text \<open>One removal of the walks: the packet leaves the queue and the store, possibly after a
  reject was queued.\<close>

lemma erase_steps:
  assumes "pw_ok L w" "a \<in> set (pw_data w)" "pk_written (pw_at w a) = 0"
    "rej = None \<or> (\<exists>q. rej = Some q \<and> pk_fresh L q \<and> pk_getType q \<noteq> PIECE)"
    "v = (case rej of None \<Rightarrow> w | Some q \<Rightarrow> queuePacket w q)"
  shows "pw_ok L (erase_data v a)" "pw_partial (erase_data v a) = pw_partial w"
    "pw_data (erase_data v a) = remove1 a (pw_data w)"
proof -
  have v: "pw_ok L v" "pw_data v = pw_data w" "pw_partial v = pw_partial w" "pw_at v a = pw_at w a"
    using assms pw_ok_queue pw_partial_queue pw_ok_at_old by (auto split: option.split)
  show "pw_ok L (erase_data v a)" using pw_ok_erase [OF v(1)] assms(2) v(2) by simp
  show "pw_partial (erase_data v a) = pw_partial w"
    using pw_partial_erase [of v a] v assms(3) by simp
  show "pw_data (erase_data v a) = remove1 a (pw_data w)" by (simp add: erase_data_def v(2))
qed

lemma walk_rest:
  assumes "pw_ok L w" "set (a # as) \<subseteq> set (pw_data w)" "distinct (a # as)"
  shows "set as \<subseteq> set (remove1 a (pw_data w))" "pw_heap w a = Some (pw_at w a)"
    "a \<in> set (pw_data w)" "pk_getType (pw_at w a) = PIECE" "pk_ok (pw_at w a)"
    "17 \<le> length (pk_data (pw_at w a))" "17 \<le> L"
proof -
  have "distinct (pw_data w)" using assms(1) by (simp add: pw_ok_def)
  then show "set as \<subseteq> set (remove1 a (pw_data w))" using assms(2,3) by auto
  show "pw_heap w a = Some (pw_at w a)" "a \<in> set (pw_data w)" "pk_getType (pw_at w a) = PIECE"
    "pk_ok (pw_at w a)" "17 \<le> length (pk_data (pw_at w a))" "17 \<le> L"
    using assms(1,2) by (auto simp: pw_ok_def)
qed

lemma pk_sending_iff: "\<not> pk_sending p \<longleftrightarrow> pk_written p = 0"
  by (simp add: pk_sending_def word_gt_0)

lemma clear_walk_effect:
  assumes "pw_ok L w" "set as \<subseteq> set (pw_data w)" "distinct as"
  shows "\<exists>w'. clear_walk w reject as = Some w' \<and> pw_ok L w' \<and> pw_partial w' = pw_partial w \<and>
    set (pw_data w') = {a \<in> set (pw_data w). a \<in> set as \<longrightarrow> pk_sending (pw_at w a)}"
  using assms
proof (induction as arbitrary: w)
  case (Cons a as)
  note rest = walk_rest [OF Cons.prems(1) Cons.prems(2,3)]
  have d: "distinct (pw_data w)" using Cons.prems(1) by (simp add: pw_ok_def)
  show ?case
  proof (cases "pk_sending (pw_at w a)")
    case True
    then show ?thesis
      using Cons.IH [OF Cons.prems(1)] Cons.prems rest(2,4) by (auto simp: Let_def)
  next
    case False
    let ?rej = "if reject then makeRejectOfPiece (pw_at w a) else None"
    define v where "v = (case ?rej of None \<Rightarrow> w | Some q \<Rightarrow> queuePacket w q)"
    have rej: "?rej = None \<or> (\<exists>q. ?rej = Some q \<and> pk_fresh L q \<and> pk_getType q \<noteq> PIECE)"
      using pk_fresh_reject [OF rest(7)] by (cases "makeRejectOfPiece (pw_at w a)") auto
    have "pk_written (pw_at w a) = 0" using False pk_sending_iff by blast
    note st = erase_steps [OF Cons.prems(1) rest(3) this rej v_def]
    have "reject \<Longrightarrow> \<exists>q. makeRejectOfPiece (pw_at w a) = Some q"
      using rest(4) by (simp add: makeRejectOfPiece_def Let_def)
    then have "clear_remove w reject a (pw_at w a) = erase_data v a"
      using pk_fresh_reject [OF rest(7), of "pw_at w a"]
      by (intro packet_writer.equality) (auto simp: clear_remove_def Let_def erase_data_def v_def
          queuePacket_def)
    then have step: "clear_walk w reject (a # as) = clear_walk (erase_data v a) reject as"
      using False rest(2,4) by simp
    have at: "pw_at (erase_data v a) b = pw_at w b" if "b \<in> set (pw_data w)" "b \<noteq> a" for b
      using that pw_ok_at_old [OF Cons.prems(1)] rej
      by (auto simp: v_def erase_data_def pw_at_def split: option.split)
    obtain w' where w': "clear_walk (erase_data v a) reject as = Some w'" "pw_ok L w'"
      "pw_partial w' = pw_partial (erase_data v a)"
      "set (pw_data w') = {b \<in> set (remove1 a (pw_data w)). b \<in> set as \<longrightarrow>
         pk_sending (pw_at (erase_data v a) b)}"
      using Cons.IH [OF st(1)] st(3) rest(1) Cons.prems(3) by auto
    then show ?thesis
      using step st(2) at False d by auto
  qed
qed simp

lemma pk_isPiece_Some:
  "17 \<le> length (pk_data p) \<Longrightarrow> \<exists>m. pk_isPiece p req = Some m"
  by (auto simp: pk_isPiece_def)

lemma doNotSend_walk_effect:
  assumes "pw_ok L w" "set as \<subseteq> set (pw_data w)" "distinct as"
  shows "\<exists>w'. doNotSend_walk w req reject as = Some w' \<and> pw_ok L w' \<and> pw_partial w' = pw_partial w"
  using assms
proof (induction as arbitrary: w)
  case (Cons a as)
  note rest = walk_rest [OF Cons.prems(1) Cons.prems(2,3)]
  obtain m where m: "pk_isPiece (pw_at w a) req = Some m" using pk_isPiece_Some rest(6) by blast
  show ?case
  proof (cases "m \<and> \<not> pk_sending (pw_at w a)")
    case False
    have "doNotSend_walk w req reject (a # as) = doNotSend_walk w req reject as"
      using False m rest(2) by auto
    then show ?thesis using Cons.IH [OF Cons.prems(1)] Cons.prems(2,3) by auto
  next
    case True
    let ?rej = "if reject then Some (Packet_request req REJECT_REQUEST) else None"
    define v where "v = (case ?rej of None \<Rightarrow> w | Some q \<Rightarrow> queuePacket w q)"
    have q: "pk_fresh L (Packet_request req REJECT_REQUEST)"
      "pk_getType (Packet_request req REJECT_REQUEST) \<noteq> PIECE"
      using pk_fresh_request [OF _ rest(7)] getType_frame [OF Packet_request_data]
      by (simp_all add: message_ids)
    have "pk_written (pw_at w a) = 0" using True pk_sending_iff by blast
    note st = erase_steps [OF Cons.prems(1) rest(3) this _ v_def]
    have "doNotSend_remove w req reject a = erase_data v a"
      using q(2)
      by (intro packet_writer.equality) (auto simp: doNotSend_remove_def Let_def erase_data_def v_def
          queuePacket_def sendReject_def)
    then have "doNotSend_walk w req reject (a # as) = doNotSend_walk (erase_data v a) req reject as"
      using True m rest(2) by simp
    then show ?thesis
      using Cons.IH [OF st(1)] st q rest(1) Cons.prems(3) by (auto split: if_splits)
  qed
qed simp


section \<open>Runs of a writer\<close>

text \<open>What happens to a writer: a packet is queued, the upload thread asks for bytes, pieces are
  dropped, the counters are read.\<close>

datatype writer_event =
    Queue packet
  | Write nat
  | ClearPieces bool
  | DoNotSend request bool
  | TakeUploaded

fun pw_run :: "packet_writer \<Rightarrow> writer_event list \<Rightarrow> (packet_writer \<times> bytes) option" where
  "pw_run w [] = Some (w, [])"
| "pw_run w (Queue p # es) = pw_run (queuePacket w p) es"
| "pw_run w (Write m # es) =
     (case onReadyToWrite w m of None \<Rightarrow> None
      | Some (w', out) \<Rightarrow> (case pw_run w' es of None \<Rightarrow> None | Some (w'', out') \<Rightarrow> Some (w'', out @ out')))"
| "pw_run w (ClearPieces rej # es) =
     (case clearPieces w rej of None \<Rightarrow> None | Some w' \<Rightarrow> pw_run w' es)"
| "pw_run w (DoNotSend req rej # es) =
     (case doNotSendPiece w req rej of None \<Rightarrow> None | Some w' \<Rightarrow> pw_run w' es)"
| "pw_run w (TakeUploaded # es) =
     pw_run (fst (getUploadedNonDataBytes (fst (getUploadedDataBytes w)))) es"

definition fresh_events :: "nat \<Rightarrow> writer_event list \<Rightarrow> bool" where
  "fresh_events L es \<longleftrightarrow> 17 \<le> L \<and> (\<forall>p. Queue p \<in> set es \<longrightarrow> pk_fresh L p)"

definition is_frame :: "nat \<Rightarrow> bytes \<Rightarrow> bool" where
  "is_frame L f \<longleftrightarrow> f = frame_bytes (drop 4 f) \<and> 5 \<le> length f \<and> length f \<le> L"

lemma pk_ok_frame: "pk_ok p \<Longrightarrow> length (pk_data p) \<le> L \<Longrightarrow> is_frame L (pk_data p)"
  by (simp add: pk_ok_def is_frame_def)

lemma schedule_set: "set (schedule k cs ds) = set cs \<union> set ds"
proof (induction k cs ds rule: schedule.induct)
  case (1 k cs ds)
  then show ?case
    by (subst schedule.simps) (auto split: list.splits)
qed

lemma pw_order_frames:
  assumes "pw_ok L w" "f \<in> set (pw_order w)"
  shows "is_frame L f"
proof -
  have at: "is_frame L (pk_data (pw_at w a))" if "a \<in> set (pw_control w) \<union> set (pw_data w)" for a
    using pw_okD(2,7) [OF assms(1) that] by (rule pk_ok_frame)
  show ?thesis
    using assms(2) pw_ok_front [OF assms(1)] at
    by (auto simp: pw_order_def Let_def schedule_set frames_at_def split: option.splits if_splits)
qed

lemma taken_counters:
  "pw_ok L (fst (getUploadedNonDataBytes (fst (getUploadedDataBytes w)))) = pw_ok L w"
  "pw_partial (fst (getUploadedNonDataBytes (fst (getUploadedDataBytes w)))) = pw_partial w"
  by (simp_all add: getUploadedNonDataBytes_def getUploadedDataBytes_def pw_ok_def pw_at_def
      pw_partial_def front_def split: option.split)

lemma pw_run_effect:
  assumes "pw_ok L w" "fresh_events L es"
  shows "\<exists>w' out sent. pw_run w es = Some (w', out) \<and> pw_ok L w' \<and>
    pw_partial w @ out = concat sent @ pw_partial w' \<and> (\<forall>f \<in> set sent. is_frame L f)"
  using assms
proof (induction es arbitrary: w)
  case (Cons e es)
  have fe: "fresh_events L es" using Cons.prems(2) by (simp add: fresh_events_def)
  show ?case
  proof (cases e)
    case (Queue p)
    then have "pk_fresh L p" using Cons.prems(2) by (simp add: fresh_events_def)
    then show ?thesis
      using Cons.IH [OF pw_ok_queue [OF Cons.prems(1)] fe, of p] Queue
        pw_partial_queue [OF Cons.prems(1)] by simp
  next
    case (Write m)
    obtain w1 out1 sent1 where w1: "onReadyToWrite w m = Some (w1, out1)" "pw_ok L w1"
      "pw_order w = sent1 @ pw_order w1" "pw_partial w @ out1 = concat sent1 @ pw_partial w1"
      using onReadyToWrite_effect [OF Cons.prems(1)] by blast
    obtain w2 out2 sent2 where w2: "pw_run w1 es = Some (w2, out2)" "pw_ok L w2"
      "pw_partial w1 @ out2 = concat sent2 @ pw_partial w2" "\<forall>f \<in> set sent2. is_frame L f"
      using Cons.IH [OF w1(2) fe] by blast
    have "pw_partial w @ out1 @ out2 = concat (sent1 @ sent2) @ pw_partial w2"
      using w1(4) w2(3) by (metis append_assoc concat_append)
    moreover have "\<forall>f \<in> set (sent1 @ sent2). is_frame L f"
      using pw_order_frames [OF Cons.prems(1)] w1(3) w2(4) by auto
    ultimately show ?thesis
      using Write w1(1) w2(1,2) by (intro exI [of _ w2] exI [of _ "out1 @ out2"] exI [of _ "sent1 @ sent2"]) simp
  next
    case (ClearPieces rej)
    obtain w1 where "clearPieces w rej = Some w1" "pw_ok L w1" "pw_partial w1 = pw_partial w"
      using clear_walk_effect [OF Cons.prems(1), of "pw_data w" rej] Cons.prems(1)
      by (auto simp: clearPieces_def pw_ok_def)
    then show ?thesis using Cons.IH [of w1] fe ClearPieces by simp
  next
    case (DoNotSend req rej)
    obtain w1 where "doNotSendPiece w req rej = Some w1" "pw_ok L w1" "pw_partial w1 = pw_partial w"
      using doNotSend_walk_effect [OF Cons.prems(1), of "pw_data w" req rej] Cons.prems(1)
      by (auto simp: doNotSendPiece_def pw_ok_def)
    then show ?thesis using Cons.IH [of w1] fe DoNotSend by simp
  next
    case TakeUploaded
    then show ?thesis using Cons.IH [of "fst (getUploadedNonDataBytes (fst (getUploadedDataBytes w)))"]
        taken_counters Cons.prems(1) fe by simp
  qed
qed (auto intro!: exI [of _ "[]"])

lemma pw_run_new:
  assumes "fresh_events L es"
  shows "\<exists>w out sent. pw_run PacketWriter_new es = Some (w, out) \<and> pw_ok L w \<and>
    out = concat sent @ pw_partial w \<and> (\<forall>f \<in> set sent. is_frame L f)"
  using pw_run_effect [OF pw_ok_new assms] assms
  by (simp add: PacketWriter_new_def pw_partial_def fresh_events_def)

text \<open>A write puts out the next bytes of the schedule and nothing else.\<close>

lemma write_pending:
  assumes "pw_ok L w"
  shows "\<exists>w'. onReadyToWrite w m = Some (w', take m (pw_pending w)) \<and> pw_ok L w' \<and>
    pw_pending w' = drop m (pw_pending w)"
proof -
  obtain w' out sent where w': "onReadyToWrite w m = Some (w', out)" "pw_ok L w'"
    "pw_order w = sent @ pw_order w'" "pw_partial w @ out = concat sent @ pw_partial w'"
    "length out \<le> m" "length out = m \<or> pw_order w' = []"
    using onReadyToWrite_effect [OF assms] by blast
  obtain rest where rest: "concat (pw_order w') = pw_partial w' @ rest"
    using pw_partial_prefix [OF w'(2)] by blast
  have "concat (pw_order w) = pw_partial w @ out @ rest"
    using w'(3,4) rest by (metis append_assoc concat_append)
  then have p: "pw_pending w = out @ rest" "pw_pending w' = rest"
    by (simp_all add: pw_pending_def rest)
  have "length out = m \<or> rest = []" using w'(6) rest by auto
  then show ?thesis using w'(1,2,5) p by auto
qed

lemma pw_run_writes:
  assumes "pw_ok L w"
  shows "\<exists>w'. pw_run w (map Write ms) = Some (w', take (sum_list ms) (pw_pending w)) \<and> pw_ok L w'"
  using assms
proof (induction ms arbitrary: w)
  case (Cons m ms)
  obtain w1 where w1: "onReadyToWrite w m = Some (w1, take m (pw_pending w))" "pw_ok L w1"
    "pw_pending w1 = drop m (pw_pending w)" using write_pending [OF Cons.prems] by blast
  show ?case using Cons.IH [OF w1(2)] w1 by (auto simp: take_add)
qed simp

lemma pw_run_append:
  "pw_run w (es @ es') = (case pw_run w es of None \<Rightarrow> None | Some (w', out) \<Rightarrow>
     (case pw_run w' es' of None \<Rightarrow> None | Some (w'', out') \<Rightarrow> Some (w'', out @ out')))"
proof (induction es arbitrary: w)
  case (Cons e es)
  show ?case
    by (cases e) (auto simp: Cons.IH split: option.splits prod.splits)
qed (auto split: option.splits)

lemma pw_run_queue:
  assumes "pw_ok L w" "\<forall>p \<in> set ps. pk_fresh L p"
  shows "\<exists>w'. pw_run w (map Queue ps) = Some (w', []) \<and> pw_ok L w' \<and> pw_curr w' = pw_curr w \<and>
    pw_ctrl_sent w' = pw_ctrl_sent w \<and>
    frames_at w' (pw_control w') = frames_at w (pw_control w) @
      map pk_data (filter (\<lambda>p. pk_getType p \<noteq> PIECE) ps) \<and>
    frames_at w' (pw_data w') = frames_at w (pw_data w) @
      map pk_data (filter (\<lambda>p. pk_getType p = PIECE) ps)"
  using assms
proof (induction ps arbitrary: w)
  case (Cons p ps)
  let ?v = "queuePacket w p"
  have v: "pw_ok L ?v" using pw_ok_queue Cons.prems by simp
  have old: "set as \<subseteq> set (pw_control w) \<union> set (pw_data w) \<Longrightarrow> frames_at ?v as = frames_at w as" for as
    using pw_ok_at_old [OF Cons.prems(1)] by (auto simp: frames_at_def)
  have new: "frames_at ?v (as @ [pw_next w]) = frames_at ?v as @ [pk_data p]" for as
    by (simp add: frames_at_def pw_at_def)
  show ?case
    using Cons.IH [OF v] Cons.prems(2) by (auto simp: new old)
qed simp

section \<open>Properties\<close>

text \<open>Claim C6: whatever is queued, dropped and written, in whatever order and in portions of
  whatever size, a packet writer never follows a pointer to a deleted packet and never pops an
  empty queue, and the bytes it hands to the socket are always whole frames followed by the
  written part of the packet it is sending.\<close>

theorem writer_stream:
  assumes "fresh_events L es"
  shows "\<exists>w sent. pw_run PacketWriter_new es = Some (w, concat sent @ pw_partial w) \<and>
    (\<forall>f \<in> set sent. is_frame L f)"
  using pw_run_new [OF assms] by blast

lemma eleven_ok: "pk_fresh 17 (Packet_chunk 11 HAVE)"
  using Packet_fixed_ok(3) [of 11 HAVE] getType_frame [OF Packet_chunk_data [of 11 HAVE]]
    Packet_chunk_data [of 11 HAVE]
  by (simp add: pk_fresh_def message_ids)

theorem writer_stream_witness:
  "\<exists>w sent. pw_run PacketWriter_new [Queue (Packet_chunk 11 HAVE), Write 4, ClearPieces True, Write 3] =
     Some (w, concat sent @ pw_partial w) \<and> (\<forall>f \<in> set sent. is_frame 17 f)"
proof -
  have "fresh_events 17 [Queue (Packet_chunk 11 HAVE), Write 4, ClearPieces True, Write 3]"
    using eleven_ok by (auto simp: fresh_events_def)
  then show ?thesis by (rule writer_stream)
qed

text \<open>Claim C10: packets queued on a fresh writer leave in the order of the schedule, byte for
  byte, whatever the sizes of the portions in which the socket takes them: per kind first in
  first out, a data packet after every three control packets or when no control packet waits.\<close>

theorem writer_order:
  assumes "\<forall>p \<in> set ps. pk_fresh L p" "17 \<le> L"
  shows "\<exists>w. pw_run PacketWriter_new (map Queue ps @ map Write ms) =
    Some (w, take (sum_list ms) (concat (schedule 0
      (map pk_data (filter (\<lambda>p. pk_getType p \<noteq> PIECE) ps))
      (map pk_data (filter (\<lambda>p. pk_getType p = PIECE) ps)))))"
proof -
  obtain w where w: "pw_run PacketWriter_new (map Queue ps) = Some (w, [])" "pw_ok L w" "pw_curr w = None"
    "pw_ctrl_sent w = 0"
    "frames_at w (pw_control w) = map pk_data (filter (\<lambda>p. pk_getType p \<noteq> PIECE) ps)"
    "frames_at w (pw_data w) = map pk_data (filter (\<lambda>p. pk_getType p = PIECE) ps)"
    using pw_run_queue [OF pw_ok_new assms(1)] assms(2) by (auto simp: PacketWriter_new_def)
  obtain w' where "pw_run w (map Write ms) = Some (w', take (sum_list ms) (pw_pending w))"
    using pw_run_writes [OF w(2)] by blast
  then show ?thesis
    using w by (simp add: pw_run_append pw_pending_def pw_order_def pw_partial_def)
qed

theorem writer_order_witness:
  "\<exists>w. pw_run PacketWriter_new (map Queue [Packet_chunk 11 HAVE] @ map Write [2, 3]) =
    Some (w, take (sum_list [2, 3]) (concat (schedule 0
      (map pk_data (filter (\<lambda>p. pk_getType p \<noteq> PIECE) [Packet_chunk 11 HAVE]))
      (map pk_data (filter (\<lambda>p. pk_getType p = PIECE) [Packet_chunk 11 HAVE])))))"
  by (rule writer_order [of _ 17]) (simp_all add: eleven_ok)

text \<open>The two rules of the schedule: after three control packets a data packet, and data packets
  back to back only when no control packet is left.\<close>

lemma schedule_round:
  "schedule 0 (c1 # c2 # c3 # cs) (d # ds) = c1 # c2 # c3 # d # schedule 0 cs ds"
  by (simp add: schedule.simps [of 0] schedule.simps [of 1] schedule.simps [of 2]
      schedule.simps [of 3])

lemma schedule_data: "schedule k [] ds = ds"
proof (induction ds arbitrary: k)
  case Nil
  show ?case by (simp add: schedule.simps [of k "[]" "[]"])
next
  case (Cons d ds)
  show ?case by (simp add: schedule.simps [of k "[]" "d # ds"] Cons.IH)
qed

text \<open>A piece that was queued for a request is not recognised by the request that
  asked for it, except by accident: \<^verbatim>\<open>isPiece\<close> compares the first four bytes of the piece's data
  with the requested length.\<close>

theorem isPiece_compares_payload:
  assumes "Packet_piece index beg len ch = Some p" "4 \<le> unat len"
  shows "pk_isPiece p (Request index beg len peer) =
    Some (ReadUint32 (drop (unat beg) ch) 0 = len)"
proof -
  note d = Packet_piece_Some [OF assms(1)]
  let ?pl = "take (unat len) (drop (unat beg) ch)"
  let ?pre = "u32_bytes (of_nat (length (PIECE # u32_bytes index @ u32_bytes beg @ ?pl))) @ [PIECE]"
  have data: "pk_data p = ?pre @ u32_bytes index @ u32_bytes beg @ ?pl"
    using d(1) by (simp add: frame_bytes_def)
  have pre: "length ?pre = 5" by simp
  have rd: "ReadUint32 (xs @ ys) (length xs) = ReadUint32 ys 0" for xs ys
    by (simp add: ReadUint32_def nth_append numeral_2_eq_2 numeral_3_eq_3)
  have "ReadUint32 (pk_data p) 5 = index"
    using rd [of ?pre "u32_bytes index @ u32_bytes beg @ ?pl"] by (simp add: data)
  moreover have "ReadUint32 (pk_data p) 9 = beg"
    using rd [of "?pre @ u32_bytes index" "u32_bytes beg @ ?pl"] by (simp add: data)
  moreover have "ReadUint32 (pk_data p) 13 = ReadUint32 ?pl 0"
    using rd [of "?pre @ u32_bytes index @ u32_bytes beg" ?pl] by (simp add: data)
  moreover have "ReadUint32 ?pl 0 = ReadUint32 (drop (unat beg) ch) 0"
    using assms(2) by (simp add: ReadUint32_def)
  moreover have "17 \<le> length (pk_data p)"
    using assms(2) d(6) by (simp add: data)
  moreover have "pk_getType p = PIECE" using d(1) by simp
  ultimately show ?thesis by (simp add: pk_isPiece_def Request_def)
qed

theorem isPiece_compares_payload_witness:
  "\<exists>p. Packet_piece 3 0 4 [1, 2, 3, 4, 5] = Some p \<and> pk_isPiece p (Request 3 0 4 0) = Some False"
proof -
  obtain p where p: "Packet_piece 3 0 4 [1, 2, 3, 4, 5] = Some p"
    by (simp add: Packet_piece_def Let_def)
  have "pk_isPiece p (Request 3 0 4 0) = Some (ReadUint32 (drop (unat (0::u32)) [1, 2, 3, 4, 5]) 0 = 4)"
    by (rule isPiece_compares_payload [OF p]) simp
  moreover have "ReadUint32 [1, 2, 3, 4, 5] 0 \<noteq> 4" by (simp add: ReadUint32_def)
  ultimately show ?thesis using p by simp
qed



text \<open>The commands for choking and interest; the state of the other side is what the last packet
  of each kind in its input says.\<close>

datatype am_command = Choke | Unchoke | EvilUnchoke | Interested | NotInterested

definition am_do :: "am_command \<Rightarrow> peer_am \<times> packet_writer \<Rightarrow> peer_am \<times> packet_writer" where
  "am_do c = (case c of Choke \<Rightarrow> sendChoke | Unchoke \<Rightarrow> sendUnchoke | EvilUnchoke \<Rightarrow> sendEvilUnchoke
     | Interested \<Rightarrow> sendInterested | NotInterested \<Rightarrow> sendNotInterested)"

text \<open>The state of the other side after the given frames.\<close>

definition remote_choked :: "bytes list \<Rightarrow> bool \<Rightarrow> bool" where
  "remote_choked = fold (\<lambda>f c. if f ! 4 = CHOKE then True else if f ! 4 = UNCHOKE then False else c)"

definition remote_interested :: "bytes list \<Rightarrow> bool \<Rightarrow> bool" where
  "remote_interested = fold (\<lambda>f c. if f ! 4 = INTERESTED then True
     else if f ! 4 = NOT_INTERESTED then False else c)"

definition am_view :: "bool \<Rightarrow> bool \<Rightarrow> peer_am \<times> packet_writer \<Rightarrow> bool \<times> bool" where
  "am_view c i s = (case s of (peer, w) \<Rightarrow>
     (remote_choked (frames_at w (pw_control w)) c, remote_interested (frames_at w (pw_control w)) i))"

lemma remote_snoc:
  "remote_choked (fs @ [f]) c =
     (if f ! 4 = CHOKE then True else if f ! 4 = UNCHOKE then False else remote_choked fs c)"
  "remote_interested (fs @ [f]) i =
     (if f ! 4 = INTERESTED then True else if f ! 4 = NOT_INTERESTED then False
      else remote_interested fs i)"
  by (simp_all only: remote_choked_def remote_interested_def fold_append fold.simps comp_apply id_apply)

lemma Packet_type_getType [simp]: "pk_getType (Packet_type t) = t"
  using getType_frame [OF Packet_type_data] by simp

lemma frames_queue_type:
  assumes "pw_ok L w" "t \<noteq> PIECE"
  shows "frames_at (queuePacket w (Packet_type t)) (pw_control (queuePacket w (Packet_type t))) =
    frames_at w (pw_control w) @ [frame_bytes [t]]"
  using assms pw_ok_at_old [OF assms(1)] by (simp add: frames_at_def Packet_type_data pw_at_def)

lemma am_fold:
  assumes "pw_ok 17 w" "EvilUnchoke \<notin> set cs"
    "am_view c i (peer, w) = (am_choked peer, am_interested peer)"
  shows "\<exists>peer' w'. fold am_do cs (peer, w) = (peer', w') \<and> pw_ok 17 w' \<and>
    am_view c i (peer', w') = (am_choked peer', am_interested peer')"
  using assms
proof (induction cs arbitrary: peer w)
  case (Cons a cs)
  obtain peer1 w1 where s1: "am_do a (peer, w) = (peer1, w1)" by fastforce
  have fresh: "pk_fresh 17 (Packet_type t)" if "t \<noteq> PIECE" for t
    using Packet_fixed_ok(1) that by (simp add: pk_fresh_def Packet_type_data)
  have hd4: "frame_bytes [t] ! 4 = t" for t by (simp add: frame_bytes_def u32_bytes_def)
  have ids: "CHOKE \<noteq> PIECE" "UNCHOKE \<noteq> PIECE" "INTERESTED \<noteq> PIECE" "NOT_INTERESTED \<noteq> PIECE"
    by (simp_all add: message_ids)
  have view: "am_view c i (pr, queuePacket w (Packet_type t)) =
     (if t = CHOKE then True else if t = UNCHOKE then False else am_choked peer,
      if t = INTERESTED then True else if t = NOT_INTERESTED then False else am_interested peer)"
    if "t \<noteq> PIECE" for pr t
    using Cons.prems(3) frames_queue_type [OF Cons.prems(1) that]
    by (simp only: am_view_def remote_snoc hd4 prod.case prod.inject)
  have "pw_ok 17 w1 \<and> am_view c i (peer1, w1) = (am_choked peer1, am_interested peer1)"
    using s1 Cons.prems ids view [OF ids(1)] view [OF ids(2)] view [OF ids(3)] view [OF ids(4)]
      pw_ok_queue [OF Cons.prems(1) fresh [OF ids(1)]] pw_ok_queue [OF Cons.prems(1) fresh [OF ids(2)]]
      pw_ok_queue [OF Cons.prems(1) fresh [OF ids(3)]] pw_ok_queue [OF Cons.prems(1) fresh [OF ids(4)]]
    by (cases a) (auto simp: am_do_def sendChoke_def sendUnchoke_def sendInterested_def
        sendNotInterested_def message_ids am_view_def split: if_splits)
  then show ?case using Cons.IH Cons.prems(2) s1 by auto
qed auto

text \<open>After any sequence of choke, unchoke, interested and not interested calls, what
  the queued packets tell the other side is exactly what the peer object records, starting from
  the choked and not interested state of a new connection.\<close>

theorem am_state_announced:
  assumes "EvilUnchoke \<notin> set cs"
  shows "\<exists>peer w. fold am_do cs (\<lparr>am_choked = True, am_interested = False, has_upload_slot = False\<rparr>,
      PacketWriter_new) = (peer, w) \<and> pw_ok 17 w \<and>
    am_view True False (peer, w) = (am_choked peer, am_interested peer)"
  by (rule am_fold [OF pw_ok_new [OF order_refl] assms])
     (simp add: am_view_def remote_choked_def remote_interested_def PacketWriter_new_def)

theorem am_state_announced_witness:
  "\<exists>peer w. fold am_do [Unchoke, Interested, Unchoke]
      (\<lparr>am_choked = True, am_interested = False, has_upload_slot = False\<rparr>, PacketWriter_new) = (peer, w) \<and>
    pw_ok 17 w \<and> am_view True False (peer, w) = (am_choked peer, am_interested peer)"
  by (rule am_state_announced) simp

end
