(* ===== verification/Wire.thy ===== *)
theory Wire
  imports PacketReader PacketWriter
begin

text \<open>
  The two ends of a connection together: what a packet writer puts on the wire, cut into
  arbitrary portions, is what a packet reader hands to the other peer. The socket is not
  modelled here: it transports the bytes in order.
\<close>

lemma unat_frame_length:
  "length pl < 2 ^ 32 \<Longrightarrow> unat (of_nat (length pl) :: u32) = length pl"
  by (simp add: unat_of_nat_small)

lemma frames_frame:
  assumes "is_frame (MAX_PIECE_LEN + 17) f"
  shows "frames (f @ xs) = drop 4 f # frames xs" "frame_error (f @ xs) = frame_error xs"
proof -
  define pl where "pl = drop 4 f"
  have f: "f = frame_bytes pl" "pl \<noteq> []" "length pl \<le> MAX_PIECE_LEN + 13"
    using assms by (auto simp: is_frame_def pl_def)
  have n: "unat (ReadUint32 (f @ xs) 0) = length pl"
    using f(3) by (simp add: f(1) frame_bytes_def unat_frame_length MAX_PIECE_LEN_def)
  have l: "length f = 4 + length pl" by (simp add: f(1))
  have dr: "take (length pl) (drop 4 (f @ xs)) = pl" "drop (4 + length pl) (f @ xs) = xs"
    using l by (simp_all add: f(1))
  have "frames (f @ xs) = pl # frames xs" "frame_error (f @ xs) = frame_error xs"
    using f(2,3) l dr n
    by (simp_all add: frames.simps [of "f @ xs"] frame_error.simps [of "f @ xs"] Let_def)
  then show "frames (f @ xs) = drop 4 f # frames xs" "frame_error (f @ xs) = frame_error xs"
    by (simp_all add: pl_def)
qed

lemma frames_concat:
  "\<forall>f \<in> set fs. is_frame (MAX_PIECE_LEN + 17) f \<Longrightarrow>
   frames (concat fs @ xs) = map (drop 4) fs @ frames xs \<and>
   frame_error (concat fs @ xs) = frame_error xs"
  by (induction fs) (simp_all add: frames_frame)

lemma frames_prefix:
  assumes "is_frame (MAX_PIECE_LEN + 17) f" "k < length f"
  shows "frames (take k f) = []" "\<not> frame_error (take k f)"
proof -
  define pl where "pl = drop 4 f"
  have f: "f = frame_bytes pl" "pl \<noteq> []" "length pl \<le> MAX_PIECE_LEN + 13"
    using assms(1) by (auto simp: is_frame_def pl_def)
  have n: "unat (ReadUint32 (take k f) 0) = length pl" if "4 \<le> k"
  proof -
    have "take k f = u32_bytes (of_nat (length pl)) @ take (k - 4) pl"
      using that by (simp add: f(1) frame_bytes_def)
    then show ?thesis
      using f(3) by (simp add: unat_frame_length MAX_PIECE_LEN_def)
  qed
  have l: "length f = 4 + length pl" by (simp add: f(1))
  show "frames (take k f) = []" "\<not> frame_error (take k f)"
    using assms(2) f(2,3) l n
    by (cases "4 \<le> k"; simp add: frames.simps [of "take k f"] frame_error.simps [of "take k f"] Let_def)+
qed

lemma pw_partial_frames:
  assumes "pw_ok (MAX_PIECE_LEN + 17) w"
  shows "frames (pw_partial w) = [] \<and> \<not> frame_error (pw_partial w)"
proof (cases "pw_curr w")
  case None
  then show ?thesis
    by (simp add: pw_partial_def frames.simps [of "[]"] frame_error.simps [of "[]"])
next
  case (Some a)
  then have a: "a \<in> set (pw_control w) \<union> set (pw_data w)"
    using pw_ok_front [OF assms Some] by auto
  note p = pw_okD [OF assms a]
  have "is_frame (MAX_PIECE_LEN + 17) (pk_data (pw_at w a))" using p(2,7) by (rule pk_ok_frame)
  moreover have "unat (pk_written (pw_at w a)) < length (pk_data (pw_at w a))"
    using p(2,3) by (auto simp: pk_ok_def pk_isSent_def word_le_nat_alt word_unat_eq_iff)
  ultimately show ?thesis
    using Some frames_prefix by (simp add: pw_partial_def)
qed

text \<open>Claim C3: end to end: for every run of a writer with packets a reader accepts and every way
  the bytes arrive at a reader on the other side, that reader reports no error, and what it has
  delivered, followed by the complete packets still in its queue, is exactly the payloads of the
  packets the writer has sent in full, in their order.\<close>

theorem wire_delivers:
  assumes "fresh_events (MAX_PIECE_LEN + 17) es" "pw_run PacketWriter_new es = Some (w, out)"
    and "stream rs = out"
  shows "\<exists>sent pr got. out = concat sent @ pw_partial w \<and>
    pr_run PacketReader_new rs = Some (pr, got) \<and> \<not> pr_error pr \<and>
    got @ map ip_data (filter ip_full (pr_queue pr)) = map (drop 4) sent"
proof -
  obtain sent where w: "pw_ok (MAX_PIECE_LEN + 17) w" "out = concat sent @ pw_partial w"
    "\<forall>f \<in> set sent. is_frame (MAX_PIECE_LEN + 17) f"
    using pw_run_new [OF assms(1)] assms(2) by auto
  have "frames (stream rs) = map (drop 4) sent" "\<not> frame_error (stream rs)"
    using frames_concat [OF w(3), of "pw_partial w"] pw_partial_frames [OF w(1)] assms(3) w(2)
    by simp_all
  then show ?thesis using pr_run_frames [of rs] w(2) by auto
qed

theorem wire_delivers_witness:
  "\<exists>w out. pw_run PacketWriter_new [Queue (Packet_chunk 11 HAVE), Write 4, Write 100] = Some (w, out) \<and>
    (\<exists>sent pr got. out = concat sent @ pw_partial w \<and>
     pr_run PacketReader_new [Data out, Update] = Some (pr, got) \<and> \<not> pr_error pr \<and>
     got @ map ip_data (filter ip_full (pr_queue pr)) = map (drop 4) sent)"
proof -
  have "pk_fresh (MAX_PIECE_LEN + 17) (Packet_chunk 11 HAVE)"
    using eleven_ok by (simp add: pk_fresh_def)
  then have fe: "fresh_events (MAX_PIECE_LEN + 17) [Queue (Packet_chunk 11 HAVE), Write 4, Write 100]"
    by (auto simp: fresh_events_def)
  obtain w out where run: "pw_run PacketWriter_new [Queue (Packet_chunk 11 HAVE), Write 4, Write 100] = Some (w, out)"
    using pw_run_new [OF fe] by blast
  show ?thesis
    using wire_delivers [OF fe run, of "[Data out, Update]"] run by auto
qed

end
