(* ===== verification/Sha1.thy ===== *)
theory Sha1
  imports ByteOrder
begin

text \<open>
  The SHA-1 generator of \<^verbatim>\<open>libktorrent/util/sha1hashgen.cpp\<close> and the hash values of
  \<^verbatim>\<open>util/sha1hash.cpp\<close>. A generator hashes a whole buffer (\<open>sha_generate\<close>) or a stream of
  portions (\<open>sha_start\<close>, \<open>sha_update\<close>, \<open>sha_end\<close>, \<open>sha_get\<close>); it keeps the five chaining
  words, the 64-byte buffer with its fill count and the number of bytes so far, which is a
  32-bit word. The specification is the padded message of the standard, hashed block by block.
\<close>

type_synonym chain = "u32 \<times> u32 \<times> u32 \<times> u32 \<times> u32"

record sha1 =
  sh_h :: chain
  sh_tmp :: bytes
  sh_tmp_len :: nat
  sh_total_len :: u32

definition LeftRotate :: "u32 \<Rightarrow> nat \<Rightarrow> u32" where
  "LeftRotate x n = push_bit n x OR drop_bit (32 - n) (x AND 0xFFFFFFFF)"

text \<open>The message schedule: the loop that fills \<^verbatim>\<open>w\<close>.\<close>

definition sha_w :: "bytes \<Rightarrow> u32 list" where
  "sha_w chunk =
     fold (\<lambda>i w. w @ [if i < 16 then
         push_bit 24 (ucast (chunk ! (4 * i))) OR push_bit 16 (ucast (chunk ! (4 * i + 1))) OR
         push_bit 8 (ucast (chunk ! (4 * i + 2))) OR ucast (chunk ! (4 * i + 3))
       else LeftRotate (w ! (i - 3) XOR w ! (i - 8) XOR w ! (i - 14) XOR w ! (i - 16)) 1])
       [0..<80] []"

definition sha_round :: "u32 list \<Rightarrow> nat \<Rightarrow> chain \<Rightarrow> chain" where
  "sha_round w i s = (case s of (a, b, c, d, e) \<Rightarrow>
     let (f, k) =
       (if i < 20 then ((b AND c) OR (NOT b AND d), 0x5A827999)
        else if i < 40 then (b XOR c XOR d, 0x6ED9EBA1)
        else if i < 60 then ((b AND c) OR (b AND d) OR (c AND d), 0x8F1BBCDC)
        else (b XOR c XOR d, 0xCA62C1D6));
         temp = LeftRotate a 5 + f + e + k + w ! i
     in (temp, a, LeftRotate b 30, c, d))"

definition processChunk :: "bytes \<Rightarrow> chain \<Rightarrow> chain" where
  "processChunk chunk s = (case s of (h0, h1, h2, h3, h4) \<Rightarrow>
     case fold (sha_round (sha_w chunk)) [0..<80] s of (a, b, c, d, e) \<Rightarrow>
       ((h0 + a) AND 0xffffffff, (h1 + b) AND 0xffffffff, (h2 + c) AND 0xffffffff,
        (h3 + d) AND 0xffffffff, (h4 + e) AND 0xffffffff))"

definition sha_init :: chain where
  "sha_init = (0x67452301, 0xEFCDAB89, 0x98BADCFE, 0x10325476, 0xC3D2E1F0)"

text \<open>The constructor leaves the chaining words and the buffer unset; every use starts with
  \<open>sha_generate\<close> or \<open>sha_start\<close>, which set them.\<close>

definition sha_digest :: "chain \<Rightarrow> bytes" where
  "sha_digest s = (case s of (h0, h1, h2, h3, h4) \<Rightarrow>
     let hash = replicate 20 0;
         hash = WriteUint32 hash 0 h0;
         hash = WriteUint32 hash 4 h1;
         hash = WriteUint32 hash 8 h2;
         hash = WriteUint32 hash 12 h3
     in WriteUint32 hash 16 h4)"

text \<open>\<^verbatim>\<open>for (i = a;i < b;i++) tmp[i] = 0\<close>\<close>

definition zero_range :: "bytes \<Rightarrow> nat \<Rightarrow> nat \<Rightarrow> bytes" where
  "zero_range tmp a b = fold (\<lambda>i t. t[i := 0]) [a..<b] tmp"

text \<open>The chunk loop: \<open>n\<close> chunks of 64 bytes from \<open>off\<close>.\<close>

definition process_loop :: "bytes \<Rightarrow> nat \<Rightarrow> nat \<Rightarrow> chain \<Rightarrow> chain" where
  "process_loop data off n s = fold (\<lambda>i s. processChunk (drop (off + 64 * i) data) s) [0..<n] s"

text \<open>The two words of the length in bits; \<open>total[0]\<close> can never be smaller than the 32-bit
  length, so the carry stays 0.\<close>

definition sha_length_words :: "u32 \<Rightarrow> u32 \<times> u32" where
  "sha_length_words len =
     (let total0 = (0 + len) AND 0xFFFFFFFF;
          total1 = (if total0 < len then 1 else 0 :: u32)
      in (drop_bit 29 total0 OR push_bit 3 total1, push_bit 3 total0))"

definition put_length :: "bytes \<Rightarrow> u32 \<Rightarrow> bytes" where
  "put_length tmp len = (case sha_length_words len of (high, low) \<Rightarrow>
     WriteUint32 (WriteUint32 tmp 56 high) 60 low)"

definition sha_generate :: "sha1 \<Rightarrow> bytes \<Rightarrow> sha1 \<times> bytes" where
  "sha_generate g data =
     (let len = length data;
          n = len div 64;
          left_over = len mod 64;
          h = process_loop data 0 n sha_init;
          tmp = sh_tmp g;
          (tmp, h) =
            (if left_over = 0 then
               let tmp = tmp[0 := 0x80];
                   tmp = zero_range tmp 1 56;
                   tmp = put_length tmp (of_nat len)
               in (tmp, processChunk tmp h)
             else if left_over < 56 then
               let tmp = memcpy tmp 0 (drop (n * 64) data) left_over;
                   tmp = tmp[left_over := 0x80];
                   tmp = zero_range tmp (left_over + 1) 56;
                   tmp = put_length tmp (of_nat len)
               in (tmp, processChunk tmp h)
             else
               let tmp = memcpy tmp 0 (drop (n * 64) data) left_over;
                   tmp = tmp[left_over := 0x80];
                   tmp = zero_range tmp (left_over + 1) 64;
                   h = processChunk tmp h;
                   tmp = zero_range tmp 0 56;
                   tmp = put_length tmp (of_nat len)
               in (tmp, processChunk tmp h))
      in (g\<lparr>sh_h := h, sh_tmp := tmp\<rparr>, sha_digest h))"

definition sha_start :: "sha1 \<Rightarrow> sha1" where
  "sha_start g = g\<lparr>sh_h := sha_init, sh_tmp := replicate 64 0, sh_tmp_len := 0, sh_total_len := 0\<rparr>"

definition sha_update :: "sha1 \<Rightarrow> bytes \<Rightarrow> sha1" where
  "sha_update g data =
     (let len = length data; tmp_len = sh_tmp_len g in
      if tmp_len = 0 then
        let n = len div 64;
            left_over = len mod 64;
            g = g\<lparr>sh_h := process_loop data 0 n (sh_h g)\<rparr>;
            g = (if left_over > 0 then
                   g\<lparr>sh_tmp := memcpy (sh_tmp g) 0 (drop (64 * n) data) left_over, sh_tmp_len := left_over\<rparr>
                 else g)
        in g\<lparr>sh_total_len := sh_total_len g + of_nat len\<rparr>
      else if tmp_len + len < 64 then
        g\<lparr>sh_tmp := memcpy (sh_tmp g) tmp_len data len, sh_tmp_len := tmp_len + len,
          sh_total_len := sh_total_len g + of_nat len\<rparr>
      else
        let off = 64 - tmp_len;
            tmp = memcpy (sh_tmp g) tmp_len data (64 - tmp_len);
            h = processChunk tmp (sh_h g);
            n = (len - off) div 64;
            left_over = (len - off) mod 64;
            h = process_loop data off n h;
            g = g\<lparr>sh_h := h, sh_tmp := tmp, sh_tmp_len := 0\<rparr>;
            g = (if left_over > 0 then
                   g\<lparr>sh_tmp := memcpy tmp 0 (drop (off + 64 * n) data) left_over, sh_tmp_len := left_over\<rparr>
                 else g)
        in g\<lparr>sh_total_len := sh_total_len g + of_nat len\<rparr>)"

definition sha_end :: "sha1 \<Rightarrow> sha1" where
  "sha_end g =
     (let total = sh_total_len g; tmp = sh_tmp g; tmp_len = sh_tmp_len g in
      if tmp_len = 0 then
        let tmp = tmp[0 := 0x80];
            tmp = zero_range tmp 1 56;
            tmp = put_length tmp total
        in g\<lparr>sh_tmp := tmp, sh_h := processChunk tmp (sh_h g)\<rparr>
      else if tmp_len < 56 then
        let tmp = tmp[tmp_len := 0x80];
            tmp = zero_range tmp (tmp_len + 1) 56;
            tmp = put_length tmp total
        in g\<lparr>sh_tmp := tmp, sh_h := processChunk tmp (sh_h g)\<rparr>
      else
        let tmp = tmp[tmp_len := 0x80];
            tmp = zero_range tmp (tmp_len + 1) 56;
            h = processChunk tmp (sh_h g);
            tmp = zero_range tmp 0 56;
            tmp = put_length tmp total
        in g\<lparr>sh_tmp := tmp, sh_h := processChunk tmp h\<rparr>)"

definition sha_get :: "sha1 \<Rightarrow> bytes" where
  "sha_get g = sha_digest (sh_h g)"


section \<open>The standard\<close>

text \<open>Hashing block by block; a rest of less than a block is left alone.\<close>

function hash_blocks :: "chain \<Rightarrow> bytes \<Rightarrow> chain" where
  "hash_blocks s xs = (if length xs < 64 then s else hash_blocks (processChunk (take 64 xs) s) (drop 64 xs))"
  by pat_completeness auto
termination
  by (relation "measure (\<lambda>(_, xs). length xs)") auto

declare hash_blocks.simps [simp del]

text \<open>The padding: a one bit, zeros up to eight bytes before the end of a block, and the length in
  bits as a 64-bit big-endian number.\<close>

definition be64 :: "nat \<Rightarrow> bytes" where
  "be64 n = u32_bytes (of_nat (n div 2 ^ 32)) @ u32_bytes (of_nat n)"

definition pad_zeros :: "nat \<Rightarrow> nat" where
  "pad_zeros n = (119 - n mod 64) mod 64"

definition sha_pad :: "bytes \<Rightarrow> bytes" where
  "sha_pad data = data @ 0x80 # replicate (pad_zeros (length data)) 0 @ be64 (8 * length data)"

definition sha1_spec :: "bytes \<Rightarrow> bytes" where
  "sha1_spec data = sha_digest (hash_blocks sha_init (sha_pad data))"

text \<open>The padded message is whole blocks.\<close>

lemma sha_pad_length: "64 dvd length (sha_pad data)"
proof -
  have "(n + 9 + (119 - n mod 64) mod 64) mod 64 = 0" for n :: nat
  proof -
    define r where "r = n mod 64"
    have "r < 64" by (simp add: r_def)
    have "(119 - r) mod 64 = (if r \<le> 55 then 55 - r else 119 - r)"
    proof (cases "r \<le> 55")
      case True
      then have "119 - r = 64 + (55 - r)" by simp
      then show ?thesis using True by (simp only: mod_add_self1) simp
    qed (use \<open>r < 64\<close> in simp)
    then have "(r + (9 + (119 - r) mod 64)) mod 64 = 0" using \<open>r < 64\<close> by auto
    then show ?thesis
      by (simp only: r_def mod_add_left_eq add.assoc)
  qed
  moreover have "length (sha_pad data) = length data + 9 + (119 - length data mod 64) mod 64"
    by (simp add: sha_pad_def pad_zeros_def be64_def)
  ultimately show ?thesis by (simp only: dvd_eq_mod_eq_0)
qed

section \<open>The chunk loop\<close>

lemma sha_w_take: "64 \<le> length xs \<Longrightarrow> sha_w (take 64 xs) = sha_w xs"
  unfolding sha_w_def by (intro fold_cong) (auto simp: fun_eq_iff)

lemma processChunk_take: "64 \<le> length xs \<Longrightarrow> processChunk (take 64 xs) s = processChunk xs s"
  by (simp add: processChunk_def sha_w_take)

lemma hash_blocks_short: "length xs < 64 \<Longrightarrow> hash_blocks s xs = s"
  by (simp add: hash_blocks.simps)

lemma hash_blocks_block: "length b = 64 \<Longrightarrow> hash_blocks s (b @ xs) = hash_blocks (processChunk b s) xs"
  by (simp add: hash_blocks.simps [of s "b @ xs"])

lemma hash_blocks_append:
  "64 dvd length xs \<Longrightarrow> hash_blocks s (xs @ ys) = hash_blocks (hash_blocks s xs) ys"
proof (induction "length xs" arbitrary: s xs rule: less_induct)
  case less
  show ?case
  proof (cases "xs = []")
    case True
    then show ?thesis by (simp add: hash_blocks.simps [of s "[]"])
  next
    case False
    then have l: "64 \<le> length xs" using less.prems by (auto intro!: dvd_imp_le)
    have "hash_blocks s (xs @ ys) = hash_blocks (processChunk (take 64 xs) s) (drop 64 xs @ ys)"
      using l by (simp add: hash_blocks.simps [of s "xs @ ys"])
    also have "\<dots> = hash_blocks (hash_blocks (processChunk (take 64 xs) s) (drop 64 xs)) ys"
      using l less.prems by (intro less.hyps) (auto simp: dvd_diff_nat)
    also have "hash_blocks (processChunk (take 64 xs) s) (drop 64 xs) = hash_blocks s xs"
      using l by (simp add: hash_blocks.simps [of s xs])
    finally show ?thesis .
  qed
qed

lemma process_loop_eq:
  "off + 64 * n \<le> length data \<Longrightarrow>
   process_loop data off n s = hash_blocks s (take (64 * n) (drop off data))"
proof (induction n)
  case 0
  then show ?case by (simp add: process_loop_def hash_blocks_short)
next
  case (Suc n)
  have len: "length (take (64 * n) (drop off data)) = 64 * n" using Suc.prems by simp
  have split: "take (64 * Suc n) (drop off data) =
      take (64 * n) (drop off data) @ take 64 (drop (off + 64 * n) data)"
    by (simp only: mult_Suc_right add.commute [of 64] take_add drop_drop) (simp add: add.commute)
  have b: "64 \<le> length (drop (off + 64 * n) data)" using Suc.prems by simp
  have "process_loop data off (Suc n) s =
      processChunk (drop (off + 64 * n) data) (process_loop data off n s)"
    by (simp add: process_loop_def)
  also have "\<dots> = processChunk (take 64 (drop (off + 64 * n) data))
      (hash_blocks s (take (64 * n) (drop off data)))"
    using Suc processChunk_take [OF b] by simp
  also have "\<dots> = hash_blocks s (take (64 * Suc n) (drop off data))"
    using b hash_blocks_block [of "take 64 (drop (off + 64 * n) data)" _ "[]"]
    by (simp only: split) (simp add: hash_blocks_append len hash_blocks_short)
  finally show ?case .
qed

lemma process_loop_all:
  "process_loop data 0 (length data div 64) s = hash_blocks s data"
proof -
  let ?n = "length data div 64"
  have le: "64 * ?n \<le> length data" by simp
  have "hash_blocks s data = hash_blocks s (take (64 * ?n) data @ drop (64 * ?n) data)" by simp
  also have "\<dots> = hash_blocks s (take (64 * ?n) data)"
    using le by (simp add: hash_blocks_append hash_blocks_short minus_mult_div_eq_mod
        del: append_take_drop_id)
  finally show ?thesis using process_loop_eq [of 0 ?n data s] le by simp
qed

section \<open>The padding blocks\<close>

lemma length_zero_range [simp]: "length (zero_range t a b) = length t"
proof -
  have "length (fold (\<lambda>i t. t[i := 0]) is t) = length t" for "is" and t :: bytes
    by (induction "is" arbitrary: t) simp_all
  then show ?thesis by (simp add: zero_range_def)
qed

lemma zero_range_eq:
  "a \<le> b \<Longrightarrow> b \<le> length t \<Longrightarrow> zero_range t a b = take a t @ replicate (b - a) 0 @ drop b t"
proof (induction "b - a" arbitrary: b)
  case 0
  then show ?case by (simp add: zero_range_def)
next
  case (Suc n)
  then obtain c where c: "b = Suc c" "a \<le> c" by (cases b) auto
  have "zero_range t a b = (zero_range t a c)[c := 0]"
    using c by (simp add: zero_range_def)
  also have "\<dots> = take a t @ replicate (c - a) 0 @ (drop c t)[0 := 0]"
    using Suc c by (simp add: list_update_append)
  also have "(drop c t)[0 := 0] = 0 # drop (Suc c) t"
    using Suc.prems c by (simp add: list_update_code Cons_nth_drop_Suc [symmetric])
  finally show ?case
    unfolding c(1) using c(2) by (simp add: Suc_diff_le replicate_app_Cons_same)
qed

lemma sha_length_words_eq:
  assumes "n < 2 ^ 32"
  shows "u32_bytes (fst (sha_length_words (of_nat n))) @ u32_bytes (snd (sha_length_words (of_nat n))) =
    be64 (8 * n)"
proof -
  have and1: "(x AND 0xFFFFFFFF) = x" for x :: u32
  proof -
    have "(0xFFFFFFFF :: u32) = - 1" by simp
    then show ?thesis by (metis and.right_neutral)
  qed
  have n: "unat (of_nat n :: u32) = n" using assms by (simp add: unat_of_nat_small)
  have "drop_bit 29 (of_nat n :: u32) = of_nat (n div 2 ^ 29)"
    by (rule unat_eq_of_nat) (simp only: unat_drop_bit_eq n, simp add: drop_bit_eq_div)
  moreover have "8 * n div 2 ^ 32 = n div 2 ^ 29" by simp
  moreover have "push_bit 3 (of_nat n :: u32) = of_nat (8 * n)"
    by (simp add: push_bit_eq_mult)
  ultimately show ?thesis by (simp add: sha_length_words_def Let_def and1 be64_def)
qed

lemma put_length_eq:
  assumes "length t = 64" "n < 2 ^ 32"
  shows "put_length t (of_nat n) = take 56 t @ be64 (8 * n)"
proof -
  show ?thesis
    using assms sha_length_words_eq [OF assms(2)]
    by (cases "sha_length_words (of_nat n)") (simp add: put_length_def WriteUint32_split)
qed


lemma pad_zeros_cases:
  "n mod 64 < 56 \<Longrightarrow> pad_zeros n = 55 - n mod 64"
  "56 \<le> n mod 64 \<Longrightarrow> pad_zeros n = (63 - n mod 64) + 56"
proof -
  assume "n mod 64 < 56"
  then have "119 - n mod 64 = 64 + (55 - n mod 64)" by simp
  then show "pad_zeros n = 55 - n mod 64" by (simp only: pad_zeros_def mod_add_self1) simp
next
  define r where "r = n mod 64"
  assume "56 \<le> n mod 64"
  then have "56 \<le> r" "r < 64" by (simp_all add: r_def)
  then have "(119 - r) mod 64 = (63 - r) + 56" by simp
  then show "pad_zeros n = (63 - n mod 64) + 56" by (simp only: pad_zeros_def r_def)
qed

text \<open>The last blocks, from a buffer \<open>t\<close> that starts with the rest of the message.\<close>

lemma update_at: "k < length t \<Longrightarrow> t[k := v] = take k t @ v # drop (Suc k) t"
  by (simp add: upd_conv_take_nth_drop)

lemma last_block_small:
  assumes "length t = 64" "l < 56" "n < 2 ^ 32"
  shows "put_length (zero_range (t[l := 0x80]) (l + 1) 56) (of_nat n) =
    take l t @ 0x80 # replicate (55 - l) 0 @ be64 (8 * n)"
proof -
  let ?t = "t[l := 0x80]"
  have "zero_range ?t (l + 1) 56 = take (l + 1) ?t @ replicate (56 - (l + 1)) 0 @ drop 56 ?t"
    using assms by (intro zero_range_eq) auto
  moreover have "take (l + 1) ?t = take l t @ [0x80]"
    using assms by (simp add: take_Suc_conv_app_nth)
  ultimately have z: "zero_range ?t (l + 1) 56 = (take l t @ 0x80 # replicate (55 - l) 0) @ drop 56 ?t"
    by simp
  have "length (take l t @ 0x80 # replicate (55 - l) (0 :: u8)) = 56" using assms by simp
  then have "take 56 (zero_range ?t (l + 1) 56) = take l t @ 0x80 # replicate (55 - l) 0"
    unfolding z by (metis append_eq_conv_conj)
  then show ?thesis using assms by (simp add: put_length_eq)
qed

lemma last_block_first:
  assumes "length t = 64" "56 \<le> l" "l < 64"
  shows "zero_range (t[l := 0x80]) (l + 1) 64 = take l t @ 0x80 # replicate (63 - l) 0"
  using assms by (simp add: zero_range_eq update_at)

lemma last_block_second:
  assumes "length t = 64" "n < 2 ^ 32"
  shows "put_length (zero_range t 0 56) (of_nat n) = replicate 56 0 @ be64 (8 * n)"
  using assms by (simp add: zero_range_eq put_length_eq)

definition rest64 :: "bytes \<Rightarrow> bytes" where
  "rest64 data = drop (64 * (length data div 64)) data"

lemma length_rest64 [simp]: "length (rest64 data) = length data mod 64"
  by (simp add: rest64_def minus_mult_div_eq_mod)

lemma hash_blocks_rest: "hash_blocks s (data @ xs) = hash_blocks (hash_blocks s data) (rest64 data @ xs)"
proof -
  let ?f = "take (64 * (length data div 64)) data"
  have d: "data = ?f @ rest64 data" by (simp add: rest64_def)
  have f: "64 dvd length ?f" by simp
  have "hash_blocks s data = hash_blocks s ?f"
    using hash_blocks_append [OF f, of s "rest64 data"] d by (simp add: hash_blocks_short)
  moreover have "hash_blocks s (data @ xs) = hash_blocks (hash_blocks s ?f) (rest64 data @ xs)"
    using hash_blocks_append [OF f, of s "rest64 data @ xs"] d by (metis append_assoc)
  ultimately show ?thesis by simp
qed

lemma length_be64 [simp]: "length (be64 n) = 8"
  by (simp add: be64_def)

lemma hash_pad_small:
  assumes "length data mod 64 < 56"
  shows "hash_blocks s (sha_pad data) =
    processChunk (rest64 data @ 0x80 # replicate (55 - length data mod 64) 0 @ be64 (8 * length data))
      (hash_blocks s data)"
proof -
  let ?b = "rest64 data @ 0x80 # replicate (55 - length data mod 64) 0 @ be64 (8 * length data)"
  have "hash_blocks s (sha_pad data) = hash_blocks (hash_blocks s data) ?b"
    using assms by (simp add: sha_pad_def hash_blocks_rest [of s data] pad_zeros_cases)
  moreover have "length ?b = 64" using assms by simp
  ultimately show ?thesis
    using hash_blocks_block [of ?b _ "[]"] by (simp add: hash_blocks_short)
qed

lemma hash_pad_big:
  assumes "56 \<le> length data mod 64"
  shows "hash_blocks s (sha_pad data) =
    processChunk (replicate 56 0 @ be64 (8 * length data))
      (processChunk (rest64 data @ 0x80 # replicate (63 - length data mod 64) 0) (hash_blocks s data))"
proof -
  let ?a = "rest64 data @ 0x80 # replicate (63 - length data mod 64) 0"
  let ?b = "replicate 56 0 @ be64 (8 * length data)"
  have "hash_blocks s (sha_pad data) = hash_blocks (hash_blocks s data) (?a @ ?b)"
    by (simp only: sha_pad_def hash_blocks_rest [of s data] pad_zeros_cases(2) [OF assms] replicate_add
        append_assoc append_Cons)
  moreover have "length ?a = 64" using assms mod_less_divisor [of 64 "length data"] by simp
  moreover have "length ?b = 64" by simp
  ultimately show ?thesis
    using hash_blocks_block [of ?b _ "[]"] hash_blocks_block [of ?a _ ?b]
    by (simp add: hash_blocks_short)
qed

section \<open>Hashing a buffer\<close>

lemma memcpy_rest:
  assumes "length t = 64"
  shows "length (memcpy t 0 (rest64 data) (length data mod 64)) = 64"
    "take (length data mod 64) (memcpy t 0 (rest64 data) (length data mod 64)) = rest64 data"
  using assms mod_less_divisor [of 64 "length data"]
  by (simp_all add: memcpy_def)

lemma sha_generate_correct:
  assumes "length data < 2 ^ 32" "length (sh_tmp g) = 64"
  shows "snd (sha_generate g data) = sha1_spec data"
proof -
  let ?l = "length data mod 64"
  have rest: "drop (length data div 64 * 64) data = rest64 data"
    by (simp add: rest64_def mult.commute)
  note mr = memcpy_rest [OF assms(2), of data]
  consider (zero) "?l = 0" | (small) "?l \<noteq> 0" "?l < 56" | (big) "56 \<le> ?l" by linarith
  then show ?thesis
  proof cases
    case zero
    have "rest64 data = []" using zero length_rest64 [of data] by (metis length_0_conv)
    then show ?thesis
      using zero last_block_small [OF assms(2), of 0 "length data"] assms
        hash_pad_small [of data sha_init]
      by (simp add: sha_generate_def Let_def process_loop_all sha1_spec_def)
  next
    case small
    then show ?thesis
      using last_block_small [OF mr(1) small(2) assms(1)] hash_pad_small [OF small(2), of sha_init]
      by (simp add: sha_generate_def Let_def process_loop_all sha1_spec_def rest mr(2))
  next
    case big
    then have l: "?l \<noteq> 0" "\<not> ?l < 56" "?l < 64" by simp_all
    show ?thesis
      using l last_block_first [OF mr(1) big l(3)] hash_pad_big [OF big, of sha_init]
        last_block_second [OF _ assms(1)] mr(1)
      by (simp add: sha_generate_def Let_def process_loop_all sha1_spec_def rest mr(2))
  qed
qed


section \<open>Hashing a stream\<close>

text \<open>The state of a generator that has seen the bytes \<open>data\<close>.\<close>

definition sha_seen :: "sha1 \<Rightarrow> bytes \<Rightarrow> bool" where
  "sha_seen g data \<longleftrightarrow>
     sh_h g = hash_blocks sha_init data \<and> length (sh_tmp g) = 64 \<and>
     sh_tmp_len g = length data mod 64 \<and> take (sh_tmp_len g) (sh_tmp g) = rest64 data \<and>
     sh_total_len g = of_nat (length data)"

lemma sha_seen_start: "sha_seen (sha_start g) []"
  by (simp add: sha_seen_def sha_start_def hash_blocks_short rest64_def)

lemma rest64_append:
  assumes "64 dvd length xs"
  shows "rest64 (xs @ ys) = rest64 ys"
proof -
  obtain k where k: "length xs = 64 * k" using assms by (auto elim: dvdE)
  then have "(length xs + length ys) div 64 = k + length ys div 64" by simp
  then show ?thesis by (simp add: rest64_def k distrib_left)
qed

text \<open>A message is its full blocks followed by the rest; appending to it appends to the rest.\<close>

lemma split64: "\<exists>full. data = full @ rest64 data \<and> 64 dvd length full"
  by (rule exI [of _ "take (64 * (length data div 64)) data"]) (simp add: rest64_def)

lemma rest64_extend: "rest64 (data @ x) = rest64 (rest64 data @ x)"
proof -
  obtain full where f: "data = full @ rest64 data" "64 dvd length full" using split64 by blast
  have "rest64 (data @ x) = rest64 (full @ rest64 data @ x)" using f(1) by (metis append_assoc)
  then show ?thesis by (simp add: rest64_append [OF f(2)])
qed

lemma length_mod_extend: "length (data @ x) mod 64 = (length data mod 64 + length x) mod 64"
  by (simp add: mod_simps)

lemma rest64_short: "length x < 64 \<Longrightarrow> rest64 x = x"
  by (simp add: rest64_def)

text \<open>What a portion leaves in the buffer after the consumed bytes.\<close>

definition fill :: "bytes \<Rightarrow> bytes \<Rightarrow> bytes" where
  "fill t x = (if rest64 x = [] then t else memcpy t 0 (rest64 x) (length x mod 64))"

lemma fill_spec:
  assumes "length t = 64"
  shows "length (fill t x) = 64" "take (length x mod 64) (fill t x) = rest64 x"
proof -
  have "rest64 x = [] \<Longrightarrow> length x mod 64 = 0" using length_rest64 [of x] by (metis list.size(3))
  then show "length (fill t x) = 64" "take (length x mod 64) (fill t x) = rest64 x"
    using assms memcpy_rest [OF assms, of x] by (auto simp: fill_def)
qed

lemma sha_update_seen:
  assumes "sha_seen g data"
  shows "sha_seen (sha_update g x) (data @ x)"
proof -
  define l where "l = length data mod 64"
  have g: "sh_h g = hash_blocks sha_init data" "length (sh_tmp g) = 64" "sh_tmp_len g = l"
    "take l (sh_tmp g) = rest64 data" "sh_total_len g = of_nat (length data)" "l < 64"
    "length (rest64 data) = l"
    using assms by (auto simp: sha_seen_def l_def)
  have total: "sh_total_len (sha_update g x) = of_nat (length (data @ x))"
    using g(5) by (simp add: sha_update_def Let_def)
  consider (empty) "l = 0" | (small) "l \<noteq> 0" "l + length x < 64" | (full) "l \<noteq> 0" "64 \<le> l + length x"
    by linarith
  then show ?thesis
  proof cases
    case empty
    then have r: "rest64 data = []" using g(7) empty by (metis length_0_conv)
    have h: "hash_blocks sha_init (data @ x) = hash_blocks (hash_blocks sha_init data) x"
      using hash_blocks_rest [of sha_init data x] r by simp
    have upd: "sh_h (sha_update g x) = process_loop x 0 (length x div 64) (sh_h g)"
      "sh_tmp (sha_update g x) = fill (sh_tmp g) x" "sh_tmp_len (sha_update g x) = length x mod 64"
      using g(3) empty length_rest64 [of x]
      by (auto simp: sha_update_def Let_def fill_def rest64_def)
    have "length (data @ x) mod 64 = length x mod 64" "rest64 (data @ x) = rest64 x"
      using length_mod_extend [of data x] rest64_extend [of data x] r empty by (simp_all add: l_def)
    then show ?thesis
      using total upd h g(1) fill_spec [OF g(2), of x] by (simp add: sha_seen_def process_loop_all)
  next
    case small
    have upd: "sha_update g x = g\<lparr>sh_tmp := memcpy (sh_tmp g) l x (length x), sh_tmp_len := l + length x,
        sh_total_len := sh_total_len g + of_nat (length x)\<rparr>"
      using g(3) small by (simp add: sha_update_def Let_def)
    have "hash_blocks sha_init (data @ x) = hash_blocks sha_init data"
      using hash_blocks_rest [of sha_init data x] g(7) small by (simp add: hash_blocks_short)
    moreover have "rest64 (data @ x) = rest64 data @ x"
      using rest64_extend [of data x] g(7) small by (simp add: rest64_short)
    moreover have "length (data @ x) mod 64 = l + length x"
      using length_mod_extend [of data x] small by (simp add: l_def)
    ultimately show ?thesis
      using total upd g small take_memcpy [of l "length x" "sh_tmp g" x]
      by (simp add: sha_seen_def)
  next
    case full
    define off where "off = 64 - l"
    define y where "y = drop off x"
    have offx: "off \<le> length x" "l + off = 64" using full g(6) by (simp_all add: off_def)
    have x: "x = take off x @ y" by (simp add: y_def)
    have ly: "length y = length x - off" by (simp add: y_def)
    define t where "t = memcpy (sh_tmp g) l x off"
    have t: "t = rest64 data @ take off x" "length t = 64"
      using memcpy_full [of l off "sh_tmp g" x] g(2,4) offx g(7) by (simp_all add: t_def)
    have upd: "sh_h (sha_update g x) = process_loop x off (length y div 64) (processChunk t (sh_h g))"
      "sh_tmp (sha_update g x) = fill t y" "sh_tmp_len (sha_update g x) = length y mod 64"
      using g(3) full length_rest64 [of y]
      by (auto simp: sha_update_def Let_def fill_def t_def off_def [symmetric] ly rest64_def y_def add.commute)
    have loop: "process_loop x off (length y div 64) s = hash_blocks s y" for s
    proof -
      have "off + 64 * (length y div 64) \<le> length x" using ly offx by simp
      then have "process_loop x off (length y div 64) s = hash_blocks s (take (64 * (length y div 64)) y)"
        by (simp add: process_loop_eq y_def)
      also have "\<dots> = process_loop y 0 (length y div 64) s" by (simp add: process_loop_eq)
      finally show ?thesis by (simp add: process_loop_all)
    qed
    have ext: "rest64 data @ x = t @ y" using x t(1) by (metis append_assoc)
    have "hash_blocks sha_init (data @ x) = hash_blocks (processChunk t (hash_blocks sha_init data)) y"
      using hash_blocks_rest [of sha_init data x] hash_blocks_block [OF t(2)] ext by simp
    moreover have "rest64 (data @ x) = rest64 y"
      using rest64_extend [of data x] ext t(2) rest64_append [of t y] by simp
    moreover have "length (data @ x) mod 64 = length y mod 64"
    proof -
      have "length (data @ x) mod 64 = (length (rest64 data @ x)) mod 64"
        by (simp add: length_mod_extend del: length_append)
      then show ?thesis unfolding ext using t(2) by simp
    qed
    ultimately show ?thesis
      using total upd loop g(1) fill_spec [OF t(2), of y] by (simp add: sha_seen_def)
  qed
qed

lemma sha_updates_seen:
  "sha_seen g data \<Longrightarrow> sha_seen (fold (\<lambda>x g. sha_update g x) ps g) (data @ concat ps)"
proof (induction ps arbitrary: g data)
  case (Cons p ps)
  then show ?case using Cons.IH [OF sha_update_seen [OF Cons.prems, of p]] by simp
qed simp

text \<open>The end of a stream: correct when the bytes after the rest in the buffer are zeros, or do
  not matter.\<close>

lemma sha_end_correct:
  assumes "sha_seen g data" "length data < 2 ^ 32"
    and "length data mod 64 < 56 \<or> drop (Suc (length data mod 64)) (sh_tmp g) =
      replicate (63 - length data mod 64) 0"
  shows "sha_get (sha_end g) = sha1_spec data"
proof -
  let ?l = "length data mod 64" and ?t = "sh_tmp g"
  have g: "sh_h g = hash_blocks sha_init data" "length ?t = 64" "sh_tmp_len g = ?l"
    "take ?l ?t = rest64 data" "sh_total_len g = of_nat (length data)"
    using assms(1) by (auto simp: sha_seen_def)
  consider (zero) "?l = 0" | (small) "?l \<noteq> 0" "?l < 56" | (big) "56 \<le> ?l" by linarith
  then show ?thesis
  proof cases
    case zero
    have "rest64 data = []" using zero length_rest64 [of data] by (metis length_0_conv)
    then show ?thesis
      using zero last_block_small [OF g(2), of 0 "length data"] assms(2) g
        hash_pad_small [of data sha_init]
      by (simp add: sha_end_def sha_get_def Let_def sha1_spec_def)
  next
    case small
    then show ?thesis
      using last_block_small [OF g(2) small(2) assms(2)] hash_pad_small [OF small(2), of sha_init] g
      by (simp add: sha_end_def sha_get_def Let_def sha1_spec_def)
  next
    case big
    then have l: "?l \<noteq> 0" "\<not> ?l < 56" "?l < 64" by simp_all
    have "zero_range (?t[?l := 0x80]) (?l + 1) 56 = ?t[?l := 0x80]"
      using big by (simp add: zero_range_def)
    also have "\<dots> = rest64 data @ 0x80 # replicate (63 - ?l) 0"
      using assms(3) l g(2,4) by (simp add: update_at)
    finally show ?thesis
      using l hash_pad_big [OF big, of sha_init] last_block_second [OF _ assms(2)] g
      by (simp add: sha_end_def sha_get_def Let_def sha1_spec_def)
  qed
qed

text \<open>With portions of whole blocks the buffer stays zero until the last portion.\<close>

lemma sha_update_aligned:
  "64 dvd length x \<Longrightarrow> sh_tmp_len g = 0 \<Longrightarrow>
   sh_tmp (sha_update g x) = sh_tmp g \<and> sh_tmp_len (sha_update g x) = 0"
  by (simp add: sha_update_def Let_def dvd_eq_mod_eq_0)

lemma sha_updates_aligned:
  "\<forall>x \<in> set ps. 64 dvd length x \<Longrightarrow> sh_tmp_len g = 0 \<Longrightarrow>
   sh_tmp (fold (\<lambda>x g. sha_update g x) ps g) = sh_tmp g \<and>
   sh_tmp_len (fold (\<lambda>x g. sha_update g x) ps g) = 0"
  by (induction ps arbitrary: g) (simp_all add: sha_update_aligned)

lemma sha_last_zero:
  assumes "length (sh_tmp g) = 64" "sh_tmp g = replicate 64 0" "sh_tmp_len g = 0"
  shows "drop (Suc (length x mod 64)) (sh_tmp (sha_update g x)) = replicate (63 - length x mod 64) 0"
proof -
  have "length x mod 64 < 64" by simp
  then show ?thesis
    using assms
    by (auto simp: sha_update_def Let_def memcpy_def minus_mult_div_eq_mod drop_Cons' min_def)
qed


text \<open>Feeding a list of portions to a fresh generator.\<close>

definition sha_stream :: "sha1 \<Rightarrow> bytes list \<Rightarrow> bytes" where
  "sha_stream g ps = sha_get (sha_end (fold (\<lambda>x g. sha_update g x) ps (sha_start g)))"

lemma sha_stream_correct:
  assumes "length (concat ps) < 2 ^ 32"
    "length (concat ps) mod 64 < 56 \<or> (\<forall>x \<in> set (butlast ps). 64 dvd length x)"
  shows "sha_stream g ps = sha1_spec (concat ps)"
proof -
  let ?g = "fold (\<lambda>x g. sha_update g x) ps (sha_start g)"
  have seen: "sha_seen ?g (concat ps)"
    using sha_updates_seen [OF sha_seen_start, of ps g] by simp
  have "length (concat ps) mod 64 < 56 \<or> drop (Suc (length (concat ps) mod 64)) (sh_tmp ?g) =
      replicate (63 - length (concat ps) mod 64) 0"
  proof (cases "ps = [] \<or> length (concat ps) mod 64 < 56")
    case False
    then have al: "\<forall>x \<in> set (butlast ps). 64 dvd length x" using assms(2) by auto
    let ?v = "fold (\<lambda>x g. sha_update g x) (butlast ps) (sha_start g)"
    have v: "sh_tmp ?v = replicate 64 0" "sh_tmp_len ?v = 0"
      using sha_updates_aligned [OF al, of "sha_start g"] by (simp_all add: sha_start_def)
    have ps: "ps = butlast ps @ [last ps]" using False by simp
    have "?g = sha_update ?v (last ps)" by (subst ps) simp
    moreover have "length (concat ps) mod 64 = length (last ps) mod 64"
    proof -
      have "\<forall>x \<in> set qs. 64 dvd length x \<Longrightarrow> 64 dvd length (concat qs)" for qs :: "bytes list"
        by (induction qs) simp_all
      from this [OF al] obtain k where "length (concat (butlast ps)) = 64 * k" by (auto elim: dvdE)
      moreover have "concat ps = concat (butlast ps) @ last ps"
        by (subst ps) (simp del: append_butlast_last_id)
      ultimately show ?thesis by simp
    qed
    ultimately show ?thesis using sha_last_zero [OF _ v(1,2), of "last ps"] v(1) by simp
  qed auto
  then show ?thesis
    using sha_end_correct [OF seen assms(1)] by (simp add: sha_stream_def)
qed

section \<open>Properties\<close>


definition sha_fresh :: sha1 where
  "sha_fresh = \<lparr>sh_h = sha_init, sh_tmp = replicate 64 0, sh_tmp_len = 0, sh_total_len = 0\<rparr>"




text \<open>In general the two disagree on what they hash: after two portions of sixty bytes the
  first of the two final blocks still holds bytes of the message behind the padding bit, because
  \<open>sha_end\<close> clears the buffer up to byte 56 only, where the standard has zeros.\<close>

theorem sha1_stream_stale_padding:
  "\<exists>b b' l s. sh_h (sha_end (fold (\<lambda>x g. sha_update g x) [replicate 60 0xFF, replicate 60 0xFF]
       (sha_start sha_fresh))) = processChunk l (processChunk b s) \<and>
     hash_blocks sha_init (sha_pad (replicate 120 0xFF)) = processChunk l (processChunk b' s) \<and>
     b ! 57 = 0xFF \<and> b' ! 57 = 0"
proof -
  let ?D = "replicate 120 (0xFF :: u8)"
  define g where "g = fold (\<lambda>x g. sha_update g x) [replicate 60 0xFF, replicate 60 0xFF] (sha_start sha_fresh)"
  have "concat [replicate 60 0xFF, replicate 60 0xFF] = ?D" by (simp flip: replicate_add)
  then have seen: "sha_seen g ?D"
    using sha_updates_seen [OF sha_seen_start, of "[replicate 60 0xFF, replicate 60 0xFF]" sha_fresh]
    by (simp add: g_def)
  have tmp: "sh_tmp g = replicate 64 0xFF"
    by (simp add: g_def sha_start_def sha_update_def Let_def memcpy_def flip: replicate_add)
  have g: "sh_tmp_len g = 56" "sh_total_len g = of_nat 120" "sh_h g = hash_blocks sha_init ?D"
    using seen by (simp_all add: sha_seen_def)
  let ?b = "(replicate 64 0xFF :: bytes)[56 := 0x80]"
  let ?b' = "rest64 ?D @ 0x80 # replicate 7 0"
  let ?l = "replicate 56 0 @ be64 (8 * 120)"
  have "sh_h (sha_end g) = processChunk ?l (processChunk ?b (hash_blocks sha_init ?D))"
    using last_block_second [of ?b 120] g(3)
    by (simp add: sha_end_def g(1,2) tmp Let_def zero_range_def)
  moreover have "hash_blocks sha_init (sha_pad ?D) =
      processChunk ?l (processChunk ?b' (hash_blocks sha_init ?D))"
    using hash_pad_big [of ?D sha_init] by simp
  moreover have "?b ! 57 = 0xFF" "?b' ! 57 = 0" by (simp_all add: nth_append)
  ultimately show ?thesis unfolding g_def by blast
qed

end
