(* ===== verification/Chunks.thy ===== *)
theory Chunks
  imports Sha1
begin

text \<open>
  Chunks: \<^verbatim>\<open>libktorrent/torrent/chunk.h\<close> and \<^verbatim>\<open>chunk.cpp\<close>. The data pointer is an optional
  byte list; whether it owns its memory is told by the status, as in the source. Sizes are
  naturals below \<open>2 ^ 32\<close>.
\<close>

datatype priority = EXCLUDED | ONLY_SEED_PRIORITY | LAST_PRIORITY | NORMAL_PRIORITY | FIRST_PRIORITY
  | PREVIEW_PRIORITY

text \<open>The values of the enumeration, by which priorities are compared.\<close>

fun priority_value :: "priority \<Rightarrow> nat" where
  "priority_value PREVIEW_PRIORITY = 60"
| "priority_value FIRST_PRIORITY = 50"
| "priority_value NORMAL_PRIORITY = 40"
| "priority_value LAST_PRIORITY = 30"
| "priority_value ONLY_SEED_PRIORITY = 20"
| "priority_value EXCLUDED = 10"

lemma priority_value_inj: "priority_value a = priority_value b \<Longrightarrow> a = b"
  by (cases a; cases b) simp_all

instantiation priority :: linorder
begin

definition less_eq_priority :: "priority \<Rightarrow> priority \<Rightarrow> bool" where
  "a \<le> b \<longleftrightarrow> priority_value a \<le> priority_value b"

definition less_priority :: "priority \<Rightarrow> priority \<Rightarrow> bool" where
  "a < b \<longleftrightarrow> priority_value a < priority_value b"

instance
  by standard (auto simp: less_eq_priority_def less_priority_def priority_value_inj)

end

datatype chunk_status = MMAPPED | BUFFERED | ON_DISK | NOT_DOWNLOADED

record chunk =
  ch_status :: chunk_status
  ch_index :: nat
  ch_data :: "bytes option"
  ch_size :: nat
  ch_ref_count :: int
  ch_priority :: priority

definition Chunk_new :: "nat \<Rightarrow> nat \<Rightarrow> chunk" where
  "Chunk_new index sz = \<lparr>ch_status = NOT_DOWNLOADED, ch_index = index, ch_data = None, ch_size = sz,
     ch_ref_count = 0, ch_priority = NORMAL_PRIORITY\<rparr>"

definition ch_clear :: "chunk \<Rightarrow> chunk" where
  "ch_clear c = (if ch_data c \<noteq> None then c\<lparr>ch_data := None\<rparr> else c)"

definition ch_setData :: "chunk \<Rightarrow> bytes option \<Rightarrow> chunk_status \<Rightarrow> chunk" where
  "ch_setData c d nstatus = (ch_clear c)\<lparr>ch_status := nstatus, ch_data := d\<rparr>"

text \<open>The allocated bytes have unspecified contents, the argument \<open>fresh\<close>.\<close>

definition ch_allocate :: "chunk \<Rightarrow> bytes \<Rightarrow> chunk" where
  "ch_allocate c fresh =
     (ch_clear c)\<lparr>ch_status := BUFFERED,
       ch_data := Some (take (ch_size c) (fresh @ replicate (ch_size c) 0))\<rparr>"

definition ch_unmapped :: "chunk \<Rightarrow> chunk" where
  "ch_unmapped c = ch_setData c None ON_DISK"

definition ch_isExcluded :: "chunk \<Rightarrow> bool" where
  "ch_isExcluded c \<longleftrightarrow> ch_priority c = EXCLUDED"

definition ch_isExcludedForDownloading :: "chunk \<Rightarrow> bool" where
  "ch_isExcludedForDownloading c \<longleftrightarrow> ch_priority c = ONLY_SEED_PRIORITY"

definition ch_setExclude :: "chunk \<Rightarrow> bool \<Rightarrow> chunk" where
  "ch_setExclude c yes = c\<lparr>ch_priority := (if yes then EXCLUDED else NORMAL_PRIORITY)\<rparr>"

definition ch_taken :: "chunk \<Rightarrow> bool" where
  "ch_taken c \<longleftrightarrow> ch_ref_count c > 0"

text \<open>\<^verbatim>\<open>checkHash\<close>: reading a chunk whose data pointer is null, or shorter than its size, is
  \<open>None\<close>.\<close>

definition ch_checkHash :: "chunk \<Rightarrow> bytes \<Rightarrow> bool option" where
  "ch_checkHash c h =
     (if ch_status c \<noteq> BUFFERED \<and> ch_status c \<noteq> MMAPPED then Some False
      else case ch_data c of None \<Rightarrow> None
      | Some d \<Rightarrow> if length d < ch_size c then None
                  else Some (snd (sha_generate sha_fresh (take (ch_size c) d)) = h))"

lemma length_allocate [simp]: "ch_data (ch_allocate c fresh) = Some d \<Longrightarrow> length d = ch_size c"
  by (auto simp: ch_allocate_def)

end
