(* ===== verification/PeerDownloader.thy ===== *)
theory PeerDownloader
  imports Packets "HOL-Library.Monad_Syntax"
begin

text \<open>
  The request queue of one peer: \<^verbatim>\<open>libktorrent/torrent/peerdownloader.h\<close> and
  \<^verbatim>\<open>peerdownloader.cpp\<close>. The peer is seen through the fields the downloader reads; it can be
  gone (\<^verbatim>\<open>peerDestroyed\<close>), and the operations that use it without a test are then \<open>None\<close>.
  The packets given to the peer's packet writer are appended to \<open>pd_sent\<close>, and the
  \<^verbatim>\<open>rejected\<close> signals an operation emits are part of its result. The clock
  (\<^verbatim>\<open>bt::GetCurrentTime\<close>) is the argument \<open>now\<close>. The ceiling of \<open>10 * rate / 16384\<close>, which the
  source computes in doubles, is exact there: the product has fewer than 53 bits and the
  divisor is a power of two.
\<close>

record peer_view =
  pv_id :: u32
  pv_choked :: bool
  pv_rate :: u32
  pv_fast :: bool
  pv_bits :: bitset

datatype pd_packet = SendRequest request | SendCancel request

record peer_downloader =
  pd_peer :: "peer_view option"
  pd_reqs :: "(request \<times> u64) list"
  pd_wait :: "request list"
  pd_max_wait :: nat
  pd_grabbed :: int
  pd_chunk_size :: nat
  pd_nearly_done :: bool
  pd_sent :: "pd_packet list"

definition PeerDownloader_new :: "peer_view \<Rightarrow> u32 \<Rightarrow> peer_downloader" where
  "PeerDownloader_new peer chunk_size =
     \<lparr>pd_peer = Some peer, pd_reqs = [], pd_wait = [], pd_max_wait = 25, pd_grabbed = 0,
      pd_chunk_size = unat chunk_size div MAX_PIECE_LEN, pd_nearly_done = False, pd_sent = []\<rparr>"

definition canAddRequest :: "peer_downloader \<Rightarrow> bool" where
  "canAddRequest pd \<longleftrightarrow> length (pd_wait pd) < pd_max_wait pd"

definition getNumRequests :: "peer_downloader \<Rightarrow> nat" where
  "getNumRequests pd = length (pd_reqs pd)"

definition pd_isNearlyDone :: "peer_downloader \<Rightarrow> bool" where
  "pd_isNearlyDone pd \<longleftrightarrow> pd_grabbed pd = 1 \<and> pd_nearly_done pd"

definition pd_grab :: "peer_downloader \<Rightarrow> peer_downloader" where
  "pd_grab pd = pd\<lparr>pd_grabbed := pd_grabbed pd + 1\<rparr>"

definition pd_release :: "peer_downloader \<Rightarrow> peer_downloader" where
  "pd_release pd = (let g = pd_grabbed pd - 1 in pd\<lparr>pd_grabbed := (if g < 0 then 0 else g)\<rparr>)"

text \<open>\<^verbatim>\<open>contains\<close> and \<^verbatim>\<open>remove\<close> of the lists go by \<^verbatim>\<open>operator==\<close> and remove every equal element.\<close>

definition rq_mem :: "request \<Rightarrow> request list \<Rightarrow> bool" where
  "rq_mem r rs \<longleftrightarrow> list_ex (rq_eq r) rs"

definition rq_remove :: "request \<Rightarrow> request list \<Rightarrow> request list" where
  "rq_remove r rs = filter (\<lambda>x. \<not> rq_eq r x) rs"

definition ts_mem :: "request \<Rightarrow> (request \<times> u64) list \<Rightarrow> bool" where
  "ts_mem r rs \<longleftrightarrow> list_ex (\<lambda>x. rq_eq r (fst x)) rs"

definition ts_remove :: "request \<Rightarrow> (request \<times> u64) list \<Rightarrow> (request \<times> u64) list" where
  "ts_remove r rs = filter (\<lambda>x. \<not> rq_eq r (fst x)) rs"

definition pd_max_reqs :: "u32 \<Rightarrow> nat" where
  "pd_max_reqs rate = 1 + (10 * unat rate + (MAX_PIECE_LEN - 1)) div MAX_PIECE_LEN"

function pd_send_loop :: "peer_downloader \<Rightarrow> nat \<Rightarrow> u64 \<Rightarrow> peer_downloader" where
  "pd_send_loop pd max_reqs now =
     (if length (pd_wait pd) > 0 \<and> length (pd_reqs pd) < max_reqs then
        let req = hd (pd_wait pd);
            pd = pd\<lparr>pd_wait := tl (pd_wait pd)\<rparr>;
            pd = pd\<lparr>pd_reqs := pd_reqs pd @ [(req, now)]\<rparr>;
            pd = pd\<lparr>pd_sent := pd_sent pd @ [SendRequest req]\<rparr>
        in pd_send_loop pd max_reqs now
      else pd)"
  by pat_completeness auto
termination
  by (relation "measure (\<lambda>(pd, _). length (pd_wait pd))") auto

declare pd_send_loop.simps [simp del]

definition pd_update :: "peer_downloader \<Rightarrow> u64 \<Rightarrow> peer_downloader option" where
  "pd_update pd now =
     (case pd_peer pd of None \<Rightarrow> None
      | Some peer \<Rightarrow>
          let max_reqs = pd_max_reqs (pv_rate peer);
              pd = pd_send_loop pd max_reqs now;
              pd = pd\<lparr>pd_max_wait := 2 * max_reqs\<rparr>
          in Some (if pd_max_wait pd < 10 then pd\<lparr>pd_max_wait := 10\<rparr> else pd))"

definition pd_download :: "peer_downloader \<Rightarrow> request \<Rightarrow> u64 \<Rightarrow> peer_downloader option" where
  "pd_download pd req now =
     (if pd_peer pd = None then Some pd
      else pd_update (pd\<lparr>pd_wait := pd_wait pd @ [req]\<rparr>) now)"

definition pd_cancel :: "peer_downloader \<Rightarrow> request \<Rightarrow> peer_downloader" where
  "pd_cancel pd req =
     (if pd_peer pd = None then pd
      else if rq_mem req (pd_wait pd) then pd\<lparr>pd_wait := rq_remove req (pd_wait pd)\<rparr>
      else if ts_mem req (pd_reqs pd) then
        pd\<lparr>pd_reqs := ts_remove req (pd_reqs pd), pd_sent := pd_sent pd @ [SendCancel req]\<rparr>
      else pd)"

text \<open>\<^verbatim>\<open>onRejected\<close>: the second component is the signal.\<close>

definition pd_onRejected :: "peer_downloader \<Rightarrow> request \<Rightarrow> peer_downloader \<times> request list" where
  "pd_onRejected pd req =
     (if pd_peer pd = None then (pd, [])
      else if ts_mem req (pd_reqs pd) then (pd\<lparr>pd_reqs := ts_remove req (pd_reqs pd)\<rparr>, [req])
      else (pd, []))"

definition pd_cancelAll :: "peer_downloader \<Rightarrow> peer_downloader" where
  "pd_cancelAll pd =
     (let pd = (if pd_peer pd \<noteq> None then
          pd\<lparr>pd_sent := pd_sent pd @ map (\<lambda>tr. SendCancel (fst tr)) (pd_reqs pd)\<rparr> else pd)
      in pd\<lparr>pd_wait := [], pd_reqs := []\<rparr>)"

text \<open>\<^verbatim>\<open>piece\<close>: the piece seen as a request; it emits \<^verbatim>\<open>downloaded\<close> and sends the next ones.\<close>

definition pd_piece :: "peer_downloader \<Rightarrow> request \<Rightarrow> u64 \<Rightarrow> peer_downloader option" where
  "pd_piece pd r now =
     (let pd = (if rq_mem r (pd_wait pd) then pd\<lparr>pd_wait := rq_remove r (pd_wait pd)\<rparr>
                else if ts_mem r (pd_reqs pd) then pd\<lparr>pd_reqs := ts_remove r (pd_reqs pd)\<rparr>
                else pd)
      in pd_update pd now)"

definition pd_peerDestroyed :: "peer_downloader \<Rightarrow> peer_downloader" where
  "pd_peerDestroyed pd = pd\<lparr>pd_peer := None\<rparr>"

definition pd_isChoked :: "peer_downloader \<Rightarrow> bool" where
  "pd_isChoked pd = (case pd_peer pd of None \<Rightarrow> True | Some p \<Rightarrow> pv_choked p)"

definition pd_hasChunk :: "peer_downloader \<Rightarrow> nat \<Rightarrow> bool" where
  "pd_hasChunk pd idx = (case pd_peer pd of None \<Rightarrow> False | Some p \<Rightarrow> bs_get (pv_bits p) idx)"

definition pd_getDownloadRate :: "peer_downloader \<Rightarrow> u32" where
  "pd_getDownloadRate pd = (case pd_peer pd of None \<Rightarrow> 0 | Some p \<Rightarrow> pv_rate p)"

text \<open>\<^verbatim>\<open>checkTimeouts\<close>: the iterator is always at the front of the list, because every entry it
  passes is erased and appended at the end. After erasing the only entry the iterator is at the
  end, which the append does not change, and the loop is over. The age is computed in 64 bits and
  is huge for a time stamp in the future.\<close>

definition timed_out :: "u64 \<Rightarrow> request \<times> u64 \<Rightarrow> bool" where
  "timed_out now tr \<longleftrightarrow> now - snd tr > 60 * 1000"

function timeout_loop :: "peer_downloader \<Rightarrow> u64 \<Rightarrow> peer_downloader" where
  "timeout_loop pd now =
     (case pd_reqs pd of [] \<Rightarrow> pd
      | tr # rest \<Rightarrow>
          if timed_out now tr then
            let pd = pd\<lparr>pd_sent := pd_sent pd @ [SendCancel (fst tr)]\<rparr>;
                pd = pd\<lparr>pd_sent := pd_sent pd @ [SendRequest (fst tr)]\<rparr>;
                pd = pd\<lparr>pd_reqs := rest @ [(fst tr, now)]\<rparr>
            in if rest = [] then pd else timeout_loop pd now
          else pd)"
  by pat_completeness auto
termination
  by (relation "measure (\<lambda>(pd, now). length (filter (timed_out now) (pd_reqs pd)))")
     (auto simp: timed_out_def)

declare timeout_loop.simps [simp del]

definition checkTimeouts :: "peer_downloader \<Rightarrow> u64 \<Rightarrow> peer_downloader option" where
  "checkTimeouts pd now =
     (if pd_peer pd = None \<and> (case pd_reqs pd of [] \<Rightarrow> False | tr # _ \<Rightarrow> timed_out now tr) then None
      else Some (timeout_loop pd now))"

text \<open>\<^verbatim>\<open>getMaxChunkDownloads\<close>: \<open>None\<close> is the division by zero, for chunks smaller than a piece.\<close>

definition getMaxChunkDownloads :: "peer_downloader \<Rightarrow> u32 option" where
  "getMaxChunkDownloads pd =
     (case pd_peer pd of None \<Rightarrow> None
      | Some p \<Rightarrow>
          let rate_kbs = unat (pv_rate p) div 1024;
              num_extra = rate_kbs div 50
          in if pd_chunk_size pd \<ge> 16 then Some (of_nat (1 + 16 * num_extra div pd_chunk_size pd))
             else if pd_chunk_size pd = 0 then None
             else Some (of_nat (1 + (16 div pd_chunk_size pd) * num_extra)))"

text \<open>\<^verbatim>\<open>choked\<close>: the second component is the \<^verbatim>\<open>rejected\<close> signals.\<close>

definition pd_choked :: "peer_downloader \<Rightarrow> (peer_downloader \<times> request list) option" where
  "pd_choked pd =
     (case pd_peer pd of None \<Rightarrow> None
      | Some p \<Rightarrow>
          if pv_fast p then Some (pd, [])
          else Some (pd\<lparr>pd_reqs := [], pd_wait := []\<rparr>, map fst (pd_reqs pd) @ pd_wait pd))"

section \<open>What the loops do\<close>

lemma pd_send_loop_eq:
  "pd_send_loop pd m now =
     (let k = min (length (pd_wait pd)) (m - length (pd_reqs pd))
      in pd\<lparr>pd_wait := drop k (pd_wait pd),
            pd_reqs := pd_reqs pd @ map (\<lambda>r. (r, now)) (take k (pd_wait pd)),
            pd_sent := pd_sent pd @ map SendRequest (take k (pd_wait pd))\<rparr>)"
proof (induction pd m now rule: pd_send_loop.induct)
  case (1 pd m now)
  show ?case
  proof (cases "length (pd_wait pd) > 0 \<and> length (pd_reqs pd) < m")
    case True
    then obtain r rs where w: "pd_wait pd = r # rs" by (cases "pd_wait pd") auto
    obtain d where d: "m - length (pd_reqs pd) = Suc d" using True by (cases "m - length (pd_reqs pd)") auto
    then have d': "m - Suc (length (pd_reqs pd)) = d" by simp
    show ?thesis
      using "1.IH" [OF True refl refl refl refl] True
      by (subst pd_send_loop.simps) (simp add: w Let_def d d')
  next
    case False
    then have "min (length (pd_wait pd)) (m - length (pd_reqs pd)) = 0" by auto
    then show ?thesis using False by (subst pd_send_loop.simps) (simp only: if_False, simp)
  qed
qed

lemma pd_update_eq:
  assumes "pd_peer pd = Some p"
  shows "pd_update pd now =
    (let m = pd_max_reqs (pv_rate p); k = min (length (pd_wait pd)) (m - length (pd_reqs pd))
     in Some (pd\<lparr>pd_wait := drop k (pd_wait pd),
            pd_reqs := pd_reqs pd @ map (\<lambda>r. (r, now)) (take k (pd_wait pd)),
            pd_max_wait := max 10 (2 * m),
            pd_sent := pd_sent pd @ map SendRequest (take k (pd_wait pd))\<rparr>))"
  using assms by (simp add: pd_update_def pd_send_loop_eq Let_def max_def)

lemma timeout_loop_eq:
  "pd_reqs pd = xs @ map (\<lambda>tr. (fst tr, now)) ys \<Longrightarrow>
   timeout_loop pd now =
     (let late = takeWhile (timed_out now) xs
      in pd\<lparr>pd_reqs := dropWhile (timed_out now) xs @ map (\<lambda>tr. (fst tr, now)) (ys @ late),
            pd_sent := pd_sent pd @
              concat (map (\<lambda>tr. [SendCancel (fst tr), SendRequest (fst tr)]) late)\<rparr>)"
proof (induction xs arbitrary: pd ys)
  case Nil
  then show ?case
    by (cases ys) (simp_all add: timeout_loop.simps [of pd] timed_out_def)
next
  case (Cons tr xs)
  show ?case
  proof (cases "timed_out now tr")
    case False
    then show ?thesis using Cons.prems by (simp add: timeout_loop.simps [of pd])
  next
    case True
    let ?pd = "pd\<lparr>pd_sent := (pd_sent pd @ [SendCancel (fst tr)]) @ [SendRequest (fst tr)],
      pd_reqs := (xs @ map (\<lambda>tr. (fst tr, now)) ys) @ [(fst tr, now)]\<rparr>"
    show ?thesis
    proof (cases "xs @ map (\<lambda>tr. (fst tr, now)) ys = []")
      case True
      then show ?thesis
        using Cons.prems \<open>timed_out now tr\<close> by (simp add: timeout_loop.simps [of pd] Let_def)
    next
      case False
      have "timeout_loop pd now = timeout_loop ?pd now"
        using Cons.prems True False by (subst timeout_loop.simps) (auto simp: Let_def)
      moreover have "pd_reqs ?pd = xs @ map (\<lambda>tr. (fst tr, now)) (ys @ [tr])" by simp
      ultimately show ?thesis
        using Cons.IH [of ?pd "ys @ [tr]"] True by (simp add: Let_def)
    qed
  qed
qed

lemma checkTimeouts_eq:
  "pd_peer pd = Some p \<Longrightarrow> checkTimeouts pd now =
     (let late = takeWhile (timed_out now) (pd_reqs pd)
      in Some (pd\<lparr>pd_reqs := dropWhile (timed_out now) (pd_reqs pd) @ map (\<lambda>tr. (fst tr, now)) late,
            pd_sent := pd_sent pd @
              concat (map (\<lambda>tr. [SendCancel (fst tr), SendRequest (fst tr)]) late)\<rparr>))"
  using timeout_loop_eq [of pd "pd_reqs pd" now "[]"] by (simp add: checkTimeouts_def Let_def)

section \<open>Runs\<close>

text \<open>What can happen to the downloader of a peer that stays connected.\<close>

datatype pd_event =
    Download request
  | Cancel request
  | GotPiece request
  | GotReject request
  | GotChoke
  | GotUnchoke
  | CancelAll
  | CheckTimeouts
  | RateChange u32

fun pd_do :: "pd_event \<Rightarrow> u64 \<Rightarrow> peer_downloader \<Rightarrow> peer_downloader option" where
  "pd_do (Download r) now pd = pd_download pd r now"
| "pd_do (Cancel r) now pd = Some (pd_cancel pd r)"
| "pd_do (GotPiece r) now pd = pd_piece pd r now"
| "pd_do (GotReject r) now pd = Some (fst (pd_onRejected pd r))"
| "pd_do GotChoke now pd = map_option fst (pd_choked pd)"
| "pd_do GotUnchoke now pd = Some (pd\<lparr>pd_peer := map_option (pv_choked_update (\<lambda>_. False)) (pd_peer pd)\<rparr>)"
| "pd_do CancelAll now pd = Some (pd_cancelAll pd)"
| "pd_do CheckTimeouts now pd = checkTimeouts pd now"
| "pd_do (RateChange rate) now pd =
     Some (pd\<lparr>pd_peer := map_option (pv_rate_update (\<lambda>_. rate)) (pd_peer pd)\<rparr>)"

fun pd_run :: "(pd_event \<times> u64) list \<Rightarrow> peer_downloader \<Rightarrow> peer_downloader option" where
  "pd_run [] pd = Some pd"
| "pd_run ((e, now) # es) pd = do { pd' \<leftarrow> pd_do e now pd; pd_run es pd' }"

text \<open>How often a request is open on the wire: requested and not cancelled since.\<close>

definition asked :: "request \<Rightarrow> pd_packet list \<Rightarrow> nat" where
  "asked r ps = length (filter (\<lambda>p. case p of SendRequest q \<Rightarrow> rq_eq r q | SendCancel q \<Rightarrow> False) ps)"

definition cancelled :: "request \<Rightarrow> pd_packet list \<Rightarrow> nat" where
  "cancelled r ps = length (filter (\<lambda>p. case p of SendRequest q \<Rightarrow> False | SendCancel q \<Rightarrow> rq_eq r q) ps)"

definition open_reqs :: "request \<Rightarrow> (request \<times> u64) list \<Rightarrow> nat" where
  "open_reqs r ts = length (filter (\<lambda>x. rq_eq r (fst x)) ts)"

definition pd_ok :: "peer_downloader \<Rightarrow> bool" where
  "pd_ok pd \<longleftrightarrow> (\<forall>r. open_reqs r (pd_reqs pd) + cancelled r (pd_sent pd) \<le> asked r (pd_sent pd)) \<and>
     pd_peer pd \<noteq> None \<and> 10 \<le> pd_max_wait pd"

lemma asked_simps [simp]:
  "asked r (xs @ ys) = asked r xs + asked r ys" "cancelled r (xs @ ys) = cancelled r xs + cancelled r ys"
  "open_reqs r (ts @ us) = open_reqs r ts + open_reqs r us"
  "asked r [] = 0" "cancelled r [] = 0" "open_reqs r [] = 0"
  "asked r (SendRequest q # xs) = (if rq_eq r q then 1 else 0) + asked r xs"
  "asked r (SendCancel q # xs) = asked r xs"
  "cancelled r (SendCancel q # xs) = (if rq_eq r q then 1 else 0) + cancelled r xs"
  "cancelled r (SendRequest q # xs) = cancelled r xs"
  "open_reqs r (x # ts) = (if rq_eq r (fst x) then 1 else 0) + open_reqs r ts"
  by (simp_all add: asked_def cancelled_def open_reqs_def)

lemma asked_sent [simp]:
  "open_reqs r (map (\<lambda>r. (r, now)) rs) = asked r (map SendRequest rs)"
  "cancelled r (map SendRequest rs) = 0"
  "cancelled r (map (\<lambda>tr. SendCancel (fst tr)) ts) = open_reqs r ts"
  "asked r (map (\<lambda>tr. SendCancel (fst tr)) ts) = 0"
  "asked r (concat (map (\<lambda>tr. [SendCancel (fst tr), SendRequest (fst tr)]) ts)) = open_reqs r ts"
  "cancelled r (concat (map (\<lambda>tr. [SendCancel (fst tr), SendRequest (fst tr)]) ts)) = open_reqs r ts"
  "open_reqs r (map (\<lambda>tr. (fst tr, now)) ts) = open_reqs r ts"
  by (induction rs; simp; fail) (induction rs; simp; fail | induction ts; simp; fail)+


lemma open_reqs_take: "open_reqs r (takeWhile P ts) + open_reqs r (dropWhile P ts) = open_reqs r ts"
  using asked_simps(3) [of r "takeWhile P ts" "dropWhile P ts"] by simp

lemma open_reqs_remove: "open_reqs r (ts_remove q ts) = (if rq_eq q r then 0 else open_reqs r ts)"
proof (induction ts)
  case (Cons x ts)
  then show ?case
    using rq_eq_trans [of q r "fst x"] rq_eq_trans [of q "fst x" r] rq_eq_sym [of r "fst x"]
    by (auto simp: ts_remove_def)
qed (simp add: ts_remove_def)

lemma open_reqs_mem: "ts_mem q ts \<Longrightarrow> rq_eq r q \<Longrightarrow> 0 < open_reqs r ts"
  by (induction ts) (auto simp: ts_mem_def dest: rq_eq_trans)

lemma pd_ok_update:
  assumes "pd_peer pd \<noteq> None" "\<forall>r. open_reqs r (pd_reqs pd) + cancelled r (pd_sent pd) \<le> asked r (pd_sent pd)"
  shows "\<exists>pd'. pd_update pd now = Some pd' \<and> pd_ok pd'"
  using assms by (auto simp: pd_update_eq Let_def pd_ok_def)

lemma pd_ok_do [inv_intro]:
  assumes "pd_ok pd"
  shows "\<exists>pd'. pd_do e now pd = Some pd' \<and> pd_ok pd'"
proof -
  have inv: "open_reqs r (pd_reqs pd) + cancelled r (pd_sent pd) \<le> asked r (pd_sent pd)" for r
    using assms by (simp add: pd_ok_def)
  have le: "open_reqs r (ts_remove q (pd_reqs pd)) + cancelled r (pd_sent pd) \<le> asked r (pd_sent pd)" for r q
    using inv [of r] by (simp add: open_reqs_remove)
  obtain p where p: "pd_peer pd = Some p" using assms by (auto simp: pd_ok_def)
  show ?thesis
  proof (cases e)
    case (Download r)
    then show ?thesis
      using pd_ok_update [of "pd\<lparr>pd_wait := pd_wait pd @ [r]\<rparr>" now] inv p by (simp add: pd_download_def)
  next
    case (Cancel r)
    have "open_reqs q (ts_remove r (pd_reqs pd)) + (cancelled q (pd_sent pd) + (if rq_eq q r then 1 else 0)) \<le>
        asked q (pd_sent pd)" if "ts_mem r (pd_reqs pd)" for q
      using inv [of q] open_reqs_mem [OF that, of q] by (auto simp: open_reqs_remove dest: rq_eq_sym)
    then show ?thesis using assms Cancel by (auto simp: pd_cancel_def pd_ok_def)
  next
    case (GotPiece r)
    let ?pd = "if rq_mem r (pd_wait pd) then pd\<lparr>pd_wait := rq_remove r (pd_wait pd)\<rparr>
                else if ts_mem r (pd_reqs pd) then pd\<lparr>pd_reqs := ts_remove r (pd_reqs pd)\<rparr>
                else pd"
    have "pd_peer ?pd \<noteq> None"
      "\<forall>r. open_reqs r (pd_reqs ?pd) + cancelled r (pd_sent ?pd) \<le> asked r (pd_sent ?pd)"
      using p inv le by auto
    then show ?thesis using pd_ok_update [of ?pd now] GotPiece by (simp add: pd_piece_def)
  next
    case (GotReject r)
    then show ?thesis using assms le by (auto simp: pd_onRejected_def pd_ok_def)
  next
    case GotChoke
    have "cancelled r (pd_sent pd) \<le> asked r (pd_sent pd)" for r using inv [of r] by simp
    then show ?thesis using assms p GotChoke by (auto simp: pd_choked_def pd_ok_def)
  next
    case CancelAll
    then show ?thesis using assms inv by (auto simp: pd_cancelAll_def pd_ok_def Let_def add.commute)
  next
    case CheckTimeouts
    have "open_reqs r (dropWhile (timed_out now) (pd_reqs pd)) + open_reqs r (takeWhile (timed_out now) (pd_reqs pd)) +
       (cancelled r (pd_sent pd) + open_reqs r (takeWhile (timed_out now) (pd_reqs pd))) \<le>
       asked r (pd_sent pd) + open_reqs r (takeWhile (timed_out now) (pd_reqs pd))" for r
      using inv [of r] open_reqs_take [of r "timed_out now" "pd_reqs pd"] by simp
    then show ?thesis using assms p CheckTimeouts by (simp add: checkTimeouts_eq Let_def pd_ok_def)
  qed (use assms in \<open>auto simp: pd_ok_def\<close>)
qed

lemma pd_ok_run: "pd_ok pd \<Longrightarrow> \<exists>pd'. pd_run es pd = Some pd' \<and> pd_ok pd'"
proof (induction es arbitrary: pd)
  case (Cons e es)
  obtain a now where e: "e = (a, now)" by fastforce
  obtain pd1 where "pd_do a now pd = Some pd1" "pd_ok pd1" using pd_ok_do [OF Cons.prems] by blast
  then show ?case using Cons.IH e by simp
qed simp

lemma pd_ok_new: "pd_ok (PeerDownloader_new p sz)"
  by (simp add: pd_ok_def PeerDownloader_new_def)

section \<open>Properties\<close>

text \<open>Claim C15: an update sends the oldest waiting requests, in order and each once, and stops
  exactly when nothing waits or the pipeline is full: one request plus what ten seconds at the
  current rate amount to. The queue limit becomes twice the pipeline, at least ten.\<close>

theorem pd_update_pipeline:
  assumes "pd_peer pd = Some p"
  shows "\<exists>pd' k. pd_update pd now = Some pd' \<and>
    pd_reqs pd' = pd_reqs pd @ map (\<lambda>r. (r, now)) (take k (pd_wait pd)) \<and>
    pd_wait pd' = drop k (pd_wait pd) \<and>
    pd_sent pd' = pd_sent pd @ map SendRequest (take k (pd_wait pd)) \<and>
    (pd_wait pd' = [] \<or> pd_max_reqs (pv_rate p) \<le> length (pd_reqs pd')) \<and>
    length (pd_reqs pd') \<le> max (length (pd_reqs pd)) (pd_max_reqs (pv_rate p)) \<and>
    pd_max_wait pd' = max 10 (2 * pd_max_reqs (pv_rate p))"
proof -
  let ?m = "pd_max_reqs (pv_rate p)"
  let ?k = "min (length (pd_wait pd)) (?m - length (pd_reqs pd))"
  have "length (pd_reqs pd) + ?k \<le> max (length (pd_reqs pd)) ?m"
    "length (pd_wait pd) \<le> ?k \<or> ?m \<le> length (pd_reqs pd) + ?k" by linarith+
  then show ?thesis
    by (intro exI [of _ "the (pd_update pd now)"] exI [of _ ?k])
       (simp add: pd_update_eq [OF assms] Let_def min.absorb1)
qed

definition some_peer :: peer_view where
  "some_peer = \<lparr>pv_id = 7, pv_choked = False, pv_rate = 16384, pv_fast = False, pv_bits = BitSet_new 4\<rparr>"

theorem pd_update_pipeline_witness:
  "\<exists>pd' k. pd_update (PeerDownloader_new some_peer 65536) 5 = Some pd' \<and>
    pd_reqs pd' = pd_reqs (PeerDownloader_new some_peer 65536) @
      map (\<lambda>r. (r, 5)) (take k (pd_wait (PeerDownloader_new some_peer 65536))) \<and>
    pd_max_wait pd' = max 10 (2 * pd_max_reqs (pv_rate some_peer))"
  using pd_update_pipeline [of "PeerDownloader_new some_peer 65536" some_peer 5]
  by (auto simp: PeerDownloader_new_def)

text \<open>The timeout check ends, cancels and repeats every request at the front of the list
  that is older than a minute, in order, moves those to the end with a fresh time stamp, and
  leaves the others alone.\<close>

theorem pd_timeouts:
  assumes "pd_peer pd = Some p"
  shows "checkTimeouts pd now =
    (let late = takeWhile (timed_out now) (pd_reqs pd)
     in Some (pd\<lparr>pd_reqs := dropWhile (timed_out now) (pd_reqs pd) @ map (\<lambda>tr. (fst tr, now)) late,
           pd_sent := pd_sent pd @
             concat (map (\<lambda>tr. [SendCancel (fst tr), SendRequest (fst tr)]) late)\<rparr>))"
  by (rule checkTimeouts_eq [OF assms])

theorem pd_timeouts_witness:
  "checkTimeouts (PeerDownloader_new some_peer 65536) 5 =
    (let late = takeWhile (timed_out 5) (pd_reqs (PeerDownloader_new some_peer 65536))
     in Some (PeerDownloader_new some_peer 65536\<lparr>
       pd_reqs := dropWhile (timed_out 5) (pd_reqs (PeerDownloader_new some_peer 65536)) @
         map (\<lambda>tr. (fst tr, 5)) late,
       pd_sent := pd_sent (PeerDownloader_new some_peer 65536) @
         concat (map (\<lambda>tr. [SendCancel (fst tr), SendRequest (fst tr)]) late)\<rparr>))"
  by (rule pd_timeouts [of _ some_peer]) (simp add: PeerDownloader_new_def)

text \<open>Claim C32: in every run of a downloader whose peer stays connected, no operation fails, and a
  cancel is only ever sent for a request that is open: for every request, the cancels sent and
  the entries still waiting for an answer together are at most the requests sent.\<close>

theorem pd_cancels_are_for_requests:
  "\<exists>pd. pd_run es (PeerDownloader_new p sz) = Some pd \<and>
    (\<forall>r. open_reqs r (pd_reqs pd) + cancelled r (pd_sent pd) \<le> asked r (pd_sent pd))"
  using pd_ok_run [OF pd_ok_new, of es p sz] by (auto simp: pd_ok_def)

text \<open>The number of chunks a peer may download at once is undefined for chunks smaller
  than 16 KiB: the constructor divides their size down to zero pieces and the query divides by it.\<close>

theorem pd_small_chunk_division:
  assumes "unat sz < MAX_PIECE_LEN"
  shows "getMaxChunkDownloads (PeerDownloader_new p sz) = None"
  using assms by (simp add: getMaxChunkDownloads_def PeerDownloader_new_def)

theorem pd_small_chunk_division_witness:
  "getMaxChunkDownloads (PeerDownloader_new some_peer 8192) = None"
  by (rule pd_small_chunk_division) (simp add: MAX_PIECE_LEN_def)

end
