(* ===== verification/ChunkDownload.thy ===== *)
theory ChunkDownload
  imports Chunks PeerDownloader "HOL-Library.Multiset"
begin

text \<open>
  The download of one chunk from several peers: \<^verbatim>\<open>libktorrent/torrent/chunkdownload.h\<close> and
  \<^verbatim>\<open>chunkdownload.cpp\<close>. The peer downloaders are shared with other chunk downloads, so they
  are a separate store, from the identifier of the peer to its downloader; \<^verbatim>\<open>pdown\<close> lists
  identifiers. A missing peer, a null chunk buffer and a copy that leaves the chunk are
  \<open>None\<close>. The timer and the statistics for the user interface are not modelled.
\<close>

type_synonym pds = "u32 \<Rightarrow> peer_downloader"

text \<open>\<^verbatim>\<open>Piece\<close>: a request with its data.\<close>

record piece =
  pc_req :: request
  pc_data :: bytes

record chunk_download =
  cd_pieces :: bitset
  cd_queue :: "nat list"
  cd_chunk :: chunk
  cd_num :: nat
  cd_num_downloaded :: nat
  cd_last_size :: nat
  cd_pdown :: "u32 list"
  cd_dstatus :: "u32 \<rightharpoonup> nat set"
  cd_providers :: "u32 set"
  cd_hash :: sha1
  cd_in_hash :: nat

definition usingContinuousHashing :: "chunk_download \<Rightarrow> bool" where
  "usingContinuousHashing cd \<longleftrightarrow> bs_num_bits (cd_pieces cd) > 64"

definition ChunkDownload_new :: "chunk \<Rightarrow> chunk_download" where
  "ChunkDownload_new c =
     (let num = ch_size c div MAX_PIECE_LEN;
          (last_size, num) =
            (if ch_size c mod MAX_PIECE_LEN \<noteq> 0 then (ch_size c mod MAX_PIECE_LEN, num + 1)
             else (MAX_PIECE_LEN, num));
          cd = \<lparr>cd_pieces = bs_clear (BitSet_new num), cd_queue = [0..<num],
                cd_chunk = c\<lparr>ch_ref_count := ch_ref_count c + 1\<rparr>, cd_num = num,
                cd_num_downloaded = 0, cd_last_size = last_size, cd_pdown = [],
                cd_dstatus = Map.empty, cd_providers = {}, cd_hash = sha_fresh, cd_in_hash = 0\<rparr>
      in if usingContinuousHashing cd then cd\<lparr>cd_hash := sha_start (cd_hash cd)\<rparr> else cd)"

definition piece_size :: "chunk_download \<Rightarrow> nat \<Rightarrow> nat" where
  "piece_size cd i = (if i + 1 < cd_num cd then MAX_PIECE_LEN else cd_last_size cd)"

definition cd_request :: "chunk_download \<Rightarrow> nat \<Rightarrow> u32 \<Rightarrow> request" where
  "cd_request cd i peer = Request (of_nat (ch_index (cd_chunk cd))) (of_nat (i * MAX_PIECE_LEN))
     (of_nat (piece_size cd i)) peer"

text \<open>The loop of \<^verbatim>\<open>sendRequests\<close>: \<open>k\<close> visits are left; the queue, the pieces already asked of
  this peer and its downloader change. Every visit moves the front of the queue to its end.\<close>

fun send_loop :: "chunk_download \<Rightarrow> u32 \<Rightarrow> u64 \<Rightarrow> nat \<Rightarrow> nat list \<times> nat set \<times> peer_downloader \<Rightarrow>
    (nat list \<times> nat set \<times> peer_downloader) option" where
  "send_loop cd peer now 0 s = Some s"
| "send_loop cd peer now (Suc k) (q, ds, pd) =
     (if canAddRequest pd then
        let i = hd q in
        do {
          (ds, pd) \<leftarrow> (if i \<notin> ds then do { pd \<leftarrow> pd_download pd (cd_request cd i peer) now;
                                        Some (insert i ds, pd) }
                     else Some (ds, pd));
          send_loop cd peer now k (tl q @ [i], ds, pd)
        }
      else Some (q, ds, pd))"

definition sendRequests :: "u64 \<Rightarrow> u32 \<Rightarrow> chunk_download \<times> pds \<Rightarrow> (chunk_download \<times> pds) option" where
  "sendRequests now pid s = (case s of (cd, pds) \<Rightarrow>
     case pd_peer (pds pid) of None \<Rightarrow> None
     | Some peer \<Rightarrow>
       (case cd_dstatus cd (pv_id peer) of None \<Rightarrow> Some (cd, pds)
        | Some ds \<Rightarrow>
            if pd_isChoked (pds pid) then Some (cd, pds)
            else do {
              (q, ds, pd) \<leftarrow> send_loop cd (pv_id peer) now (length (cd_queue cd)) (cd_queue cd, ds, pds pid);
              let pd = (if length q < 2 \<and> length q > 0 then pd\<lparr>pd_nearly_done := True\<rparr> else pd);
              Some (cd\<lparr>cd_queue := q, cd_dstatus := (cd_dstatus cd)(pv_id peer \<mapsto> ds)\<rparr>, pds(pid := pd))
            }))"

text \<open>The loops over \<^verbatim>\<open>pdown\<close>.\<close>

fun sendRequests_all :: "u64 \<Rightarrow> u32 list \<Rightarrow> chunk_download \<times> pds \<Rightarrow> (chunk_download \<times> pds) option" where
  "sendRequests_all now [] s = Some s"
| "sendRequests_all now (pid # pids) s = do { s \<leftarrow> sendRequests now pid s; sendRequests_all now pids s }"

definition cd_update :: "u64 \<Rightarrow> chunk_download \<times> pds \<Rightarrow> (chunk_download \<times> pds) option" where
  "cd_update now s = sendRequests_all now (cd_pdown (fst s)) s"

fun cd_releaseAllPDs :: "chunk_download \<times> pds \<Rightarrow> chunk_download \<times> pds" where
  "cd_releaseAllPDs (cd, pds) =
     (cd\<lparr>cd_dstatus := Map.empty, cd_pdown := []\<rparr>,
      fold (\<lambda>pid pds. pds(pid := pd_release (pds pid))) (cd_pdown cd) pds)"

definition cd_assignPeer :: "u64 \<Rightarrow> u32 \<Rightarrow> chunk_download \<times> pds \<Rightarrow> ((chunk_download \<times> pds) \<times> bool) option" where
  "cd_assignPeer now pid s = (case s of (cd, pds) \<Rightarrow>
     if pid \<in> set (cd_pdown cd) then Some (s, False)
     else case pd_peer (pds pid) of None \<Rightarrow> None
     | Some peer \<Rightarrow> do {
         let pds = pds(pid := pd_grab (pds pid));
         let cd = cd\<lparr>cd_pdown := cd_pdown cd @ [pid], cd_dstatus := (cd_dstatus cd)(pv_id peer \<mapsto> {})\<rparr>;
         s \<leftarrow> sendRequests now pid (cd, pds);
         Some (s, True)
       })"

definition cd_notDownloaded :: "u64 \<Rightarrow> request \<Rightarrow> chunk_download \<times> pds \<Rightarrow> (chunk_download \<times> pds) option" where
  "cd_notDownloaded now r s = (case s of (cd, pds) \<Rightarrow>
     let cd = (case cd_dstatus cd (rq_peer r) of None \<Rightarrow> cd
               | Some ds \<Rightarrow> cd\<lparr>cd_dstatus := (cd_dstatus cd)(rq_peer r \<mapsto> ds - {unat (rq_off r) div MAX_PIECE_LEN})\<rparr>)
     in sendRequests_all now (cd_pdown cd) (cd, pds))"

text \<open>\<^verbatim>\<open>onRejected\<close> and \<^verbatim>\<open>onTimeout\<close>.\<close>

definition cd_onRejected :: "u64 \<Rightarrow> request \<Rightarrow> chunk_download \<times> pds \<Rightarrow> (chunk_download \<times> pds) option" where
  "cd_onRejected now r s =
     (if of_nat (ch_index (cd_chunk (fst s))) = rq_index r then cd_notDownloaded now r s else Some s)"

definition cd_peerKilled :: "u32 \<Rightarrow> chunk_download \<times> pds \<Rightarrow> (chunk_download \<times> pds) option" where
  "cd_peerKilled pid s = (case s of (cd, pds) \<Rightarrow>
     if pid \<notin> set (cd_pdown cd) then Some s
     else case pd_peer (pds pid) of None \<Rightarrow> None
     | Some peer \<Rightarrow> Some (cd\<lparr>cd_dstatus := (cd_dstatus cd)(pv_id peer := None),
         cd_pdown := removeAll pid (cd_pdown cd)\<rparr>, pds))"

text \<open>\<^verbatim>\<open>endgameCancel\<close>, one step of its loop.\<close>

definition endgame_step :: "piece \<Rightarrow> u32 \<Rightarrow> chunk_download \<times> pds \<Rightarrow> (chunk_download \<times> pds) option" where
  "endgame_step p pid s = (case s of (cd, pds) \<Rightarrow>
     case pd_peer (pds pid) of None \<Rightarrow> None
     | Some peer \<Rightarrow>
         let pp = unat (rq_off (pc_req p)) div MAX_PIECE_LEN in
         (case cd_dstatus cd (pv_id peer) of None \<Rightarrow> Some s
          | Some ds \<Rightarrow>
              if pp \<in> ds then
                Some (cd\<lparr>cd_dstatus := (cd_dstatus cd)(pv_id peer \<mapsto> ds - {pp})\<rparr>,
                      pds(pid := pd_cancel (pds pid) (pc_req p)))
              else Some s))"

fun endgame_loop :: "piece \<Rightarrow> u32 list \<Rightarrow> chunk_download \<times> pds \<Rightarrow> (chunk_download \<times> pds) option" where
  "endgame_loop p [] s = Some s"
| "endgame_loop p (pid # pids) s = do { s \<leftarrow> endgame_step p pid s; endgame_loop p pids s }"

definition endgameCancel :: "piece \<Rightarrow> chunk_download \<times> pds \<Rightarrow> (chunk_download \<times> pds) option" where
  "endgameCancel p s = endgame_loop p (cd_pdown (fst s)) s"

text \<open>\<^verbatim>\<open>sendCancels\<close>: the set is walked in ascending order.\<close>

definition sendCancels :: "u32 \<Rightarrow> chunk_download \<times> pds \<Rightarrow> (chunk_download \<times> pds) option" where
  "sendCancels pid s = (case s of (cd, pds) \<Rightarrow>
     case pd_peer (pds pid) of None \<Rightarrow> None
     | Some peer \<Rightarrow>
       (case cd_dstatus cd (pv_id peer) of None \<Rightarrow> Some s
        | Some ds \<Rightarrow>
            Some (cd\<lparr>cd_dstatus := (cd_dstatus cd)(pv_id peer \<mapsto> {})\<rparr>,
                  pds(pid := fold (\<lambda>i pd. pd_cancel pd (cd_request cd i 0)) (sorted_list_of_set ds) (pds pid)))))"

fun cancel_loop :: "u32 list \<Rightarrow> chunk_download \<times> pds \<Rightarrow> (chunk_download \<times> pds) option" where
  "cancel_loop [] s = Some s"
| "cancel_loop (pid # pids) s = do { s \<leftarrow> sendCancels pid s; cancel_loop pids s }"

definition cd_cancelAll :: "chunk_download \<times> pds \<Rightarrow> (chunk_download \<times> pds) option" where
  "cd_cancelAll s = cancel_loop (cd_pdown (fst s)) s"

text \<open>\<^verbatim>\<open>updateHash\<close>: the next piece that is missing, then the pieces up to it are hashed.\<close>

function hash_scan :: "chunk_download \<Rightarrow> nat \<Rightarrow> nat" where
  "hash_scan cd nn = (if bs_get (cd_pieces cd) nn \<and> nn < cd_num cd then hash_scan cd (nn + 1) else nn)"
  by pat_completeness auto
termination
  by (relation "measure (\<lambda>(cd, nn). cd_num cd - nn)") auto

declare hash_scan.simps [simp del]

fun hash_pieces :: "chunk_download \<Rightarrow> bytes \<Rightarrow> nat list \<Rightarrow> sha1 \<Rightarrow> sha1 option" where
  "hash_pieces cd data [] g = Some g"
| "hash_pieces cd data (i # is) g =
     (let n = (if i = cd_num cd - 1 then cd_last_size cd else MAX_PIECE_LEN)
      in if length data < i * MAX_PIECE_LEN + n then None
         else hash_pieces cd data is (sha_update g (take n (drop (i * MAX_PIECE_LEN) data))))"

definition updateHash :: "chunk_download \<Rightarrow> chunk_download option" where
  "updateHash cd =
     (let nn = hash_scan cd (cd_in_hash cd) in
      if nn = cd_in_hash cd then Some cd
      else case ch_data (cd_chunk cd) of None \<Rightarrow> None
      | Some data \<Rightarrow> do {
          g \<leftarrow> hash_pieces cd data [cd_in_hash cd..<nn] (cd_hash cd);
          Some (cd\<lparr>cd_hash := g, cd_in_hash := nn\<rparr>)
        })"

definition cd_getHash :: "chunk_download \<Rightarrow> bytes" where
  "cd_getHash cd = sha_get (cd_hash cd)"

text \<open>\<^verbatim>\<open>piece\<close>: the bookkeeping for a piece with its data stored.\<close>

definition store_piece :: "piece \<Rightarrow> bytes \<Rightarrow> chunk_download \<Rightarrow> chunk_download option" where
  "store_piece p buf cd =
     (let off = unat (rq_off (pc_req p)); pp = off div MAX_PIECE_LEN; len = unat (rq_len (pc_req p)) in
      if length buf < off + len \<or> length (pc_data p) < len then None
      else Some (cd\<lparr>cd_chunk := (cd_chunk cd)\<lparr>ch_data := Some (memcpy buf off (pc_data p) len)\<rparr>,
                    cd_pieces := bs_set (cd_pieces cd) pp True,
                    cd_queue := removeAll pp (cd_queue cd),
                    cd_providers := insert (rq_peer (pc_req p)) (cd_providers cd),
                    cd_num_downloaded := cd_num_downloaded cd + 1\<rparr>))"

text \<open>The result: the state, the value returned (the chunk is complete) and \<^verbatim>\<open>ok\<close>.\<close>

definition cd_piece :: "u64 \<Rightarrow> piece \<Rightarrow> chunk_download \<times> pds \<Rightarrow> ((chunk_download \<times> pds) \<times> bool \<times> bool) option" where
  "cd_piece now p s = (case s of (cd, pds) \<Rightarrow>
     let pp = unat (rq_off (pc_req p)) div MAX_PIECE_LEN; peer = rq_peer (pc_req p) in
     if bs_get (cd_pieces cd) pp then Some (s, False, False)
     else
       let cd = (case cd_dstatus cd peer of None \<Rightarrow> cd
                 | Some ds \<Rightarrow> cd\<lparr>cd_dstatus := (cd_dstatus cd)(peer \<mapsto> ds - {pp})\<rparr>)
       in case ch_data (cd_chunk cd) of
         None \<Rightarrow> do { s \<leftarrow> sendRequests_all now (cd_pdown cd) (cd, pds); Some (s, False, False) }
       | Some buf \<Rightarrow> do {
           cd \<leftarrow> store_piece p buf cd;
           (cd, pds) \<leftarrow> (if length (cd_pdown cd) > 1 then endgameCancel p (cd, pds) else Some (cd, pds));
           cd \<leftarrow> (if usingContinuousHashing cd then updateHash cd else Some cd);
           (if cd_num_downloaded cd \<ge> cd_num cd then
              let cd = (if usingContinuousHashing cd then cd\<lparr>cd_hash := sha_end (cd_hash cd)\<rparr> else cd)
              in Some (cd_releaseAllPDs (cd, pds), True, True)
            else do { s \<leftarrow> sendRequests_all now (cd_pdown cd) (cd, pds); Some (s, False, True) })
         })"

text \<open>Saving and loading: the header, the bits and, for a buffered chunk, its data.\<close>

record cd_header =
  hdr_index :: nat
  hdr_num_bits :: nat
  hdr_buffered :: bool

definition cd_save :: "chunk_download \<Rightarrow> chunk_download \<times> cd_header \<times> bytes \<times> bytes option" where
  "cd_save cd =
     (let c = cd_chunk cd;
          hdr = \<lparr>hdr_index = ch_index c, hdr_num_bits = bs_num_bits (cd_pieces cd),
                 hdr_buffered = (ch_status c = BUFFERED)\<rparr>
      in if hdr_buffered hdr then
           (cd\<lparr>cd_chunk := (ch_clear c)\<lparr>ch_status := ON_DISK\<rparr>\<rparr>, hdr, bs_data (cd_pieces cd), ch_data c)
         else (cd, hdr, bs_data (cd_pieces cd), None))"

text \<open>The bytes read from the file for the bits and for the data are arguments; a short read of the
  data makes \<^verbatim>\<open>load\<close> fail.\<close>

definition cd_load :: "chunk_download \<Rightarrow> cd_header \<Rightarrow> bytes \<Rightarrow> bytes \<Rightarrow> (chunk_download \<times> bool) option" where
  "cd_load cd hdr bits data =
     (if hdr_num_bits hdr \<noteq> cd_num cd then Some (cd, False)
      else
        let pieces = BitSet_of_data bits (hdr_num_bits hdr);
            cd = cd\<lparr>cd_pieces := pieces, cd_num_downloaded := bs_numOnBits pieces\<rparr> in
        if hdr_buffered hdr \<and> length data \<noteq> ch_size (cd_chunk cd) then Some (cd, False)
        else
          let cd = (if hdr_buffered hdr then cd\<lparr>cd_chunk := (cd_chunk cd)\<lparr>ch_data := Some data\<rparr>\<rparr> else cd);
              cd = cd\<lparr>cd_queue := fold (\<lambda>i q. if bs_get pieces i then removeAll i q else q)
                      [0..<bs_num_bits pieces] (cd_queue cd)\<rparr>
          in do { cd \<leftarrow> updateHash cd; Some (cd, True) })"

definition bytesDownloaded :: "chunk_download \<Rightarrow> nat" where
  "bytesDownloaded cd =
     fold (\<lambda>i n. if bs_get (cd_pieces cd) i then n + (if i = cd_num cd - 1 then cd_last_size cd else MAX_PIECE_LEN)
                else n) [0..<cd_num cd] 0"

definition getOnlyDownloader :: "chunk_download \<Rightarrow> u32 option" where
  "getOnlyDownloader cd =
     (if card (cd_providers cd) = 1 then Some (the_elem (cd_providers cd)) else None)"

definition cd_isChoked :: "chunk_download \<times> pds \<Rightarrow> bool" where
  "cd_isChoked s \<longleftrightarrow> list_all (\<lambda>pid. pd_isChoked (snd s pid)) (cd_pdown (fst s))"


section \<open>Sending requests\<close>

text \<open>The peers of a download are connected and known under their own identifiers.\<close>

definition pds_ok :: "u32 list \<Rightarrow> pds \<Rightarrow> bool" where
  "pds_ok pids pds \<longleftrightarrow> (\<forall>pid \<in> set pids. \<exists>p. pd_peer (pds pid) = Some p \<and> pv_id p = pid)"

lemma pd_update_keeps:
  assumes "pd_peer pd = Some p"
  shows "\<exists>pd'. pd_update pd now = Some pd' \<and> pd_peer pd' = pd_peer pd \<and>
    map fst (pd_reqs pd') @ pd_wait pd' = map fst (pd_reqs pd) @ pd_wait pd"
proof -
  have "map fst (map (\<lambda>r. (r, now)) (take k w)) @ drop k w = w" for k and w :: "request list"
    by (simp add: comp_def)
  then show ?thesis
    by (intro exI [of _ "the (pd_update pd now)"]) (simp add: pd_update_eq [OF assms] Let_def)
qed

lemma pd_download_spec:
  assumes "pd_peer pd \<noteq> None"
  shows "\<exists>pd'. pd_download pd r now = Some pd' \<and> pd_peer pd' = pd_peer pd \<and>
    map fst (pd_reqs pd') @ pd_wait pd' = map fst (pd_reqs pd) @ pd_wait pd @ [r]"
proof -
  obtain p where p: "pd_peer pd = Some p" using assms by auto
  then have "pd_peer (pd\<lparr>pd_wait := pd_wait pd @ [r]\<rparr>) = Some p" by simp
  from pd_update_keeps [OF this, of now] show ?thesis
    using p by (simp add: pd_download_def)
qed

text \<open>What one round of requests does: the pieces \<open>is\<close> are asked, each once and none that was
  asked of this peer before; the queue is rotated.\<close>

lemma send_loop_spec:
  assumes "pd_peer pd \<noteq> None" "k \<le> length q"
  shows "\<exists>q' ds' pd' is. send_loop cd peer now k (q, ds, pd) = Some (q', ds', pd') \<and>
    mset q' = mset q \<and> ds' = ds \<union> set is \<and> distinct is \<and> set is \<inter> ds = {} \<and> set is \<subseteq> set q \<and>
    pd_peer pd' = pd_peer pd \<and>
    map fst (pd_reqs pd') @ pd_wait pd' =
      map fst (pd_reqs pd) @ pd_wait pd @ map (\<lambda>i. cd_request cd i peer) is"
  using assms
proof (induction k arbitrary: q ds pd)
  case 0
  then show ?case
    by (intro exI [of _ q] exI [of _ ds] exI [of _ pd] exI [of _ "[]"]) simp
next
  case (Suc k)
  then obtain i t where q: "q = i # t" by (cases q) auto
  have k: "k \<le> length (t @ [i])" using Suc.prems(2) q by simp
  show ?case
  proof (cases "canAddRequest pd")
    case False
    then show ?thesis
      by (intro exI [of _ q] exI [of _ ds] exI [of _ pd] exI [of _ "[]"]) simp
  next
    case can: True
    show ?thesis
    proof (cases "i \<in> ds")
      case True
      have "send_loop cd peer now (Suc k) (q, ds, pd) = send_loop cd peer now k (t @ [i], ds, pd)"
        using can True q by simp
      moreover have "mset q = mset (t @ [i])" "set q = set (t @ [i])" by (simp_all add: q)
      ultimately show ?thesis using Suc.IH [OF Suc.prems(1) k, of ds] by simp
    next
      case False
      obtain pd1 where pd1: "pd_download pd (cd_request cd i peer) now = Some pd1"
        "pd_peer pd1 = pd_peer pd"
        "map fst (pd_reqs pd1) @ pd_wait pd1 = map fst (pd_reqs pd) @ pd_wait pd @ [cd_request cd i peer]"
        using pd_download_spec [OF Suc.prems(1)] by blast
      have ne: "pd_peer pd1 \<noteq> None" using pd1(2) Suc.prems(1) by simp
      obtain q' ds' pd' js where IH: "send_loop cd peer now k (t @ [i], insert i ds, pd1) = Some (q', ds', pd')"
        "mset q' = mset (t @ [i])" "ds' = insert i ds \<union> set js" "distinct js" "set js \<inter> insert i ds = {}"
        "set js \<subseteq> set (t @ [i])" "pd_peer pd' = pd_peer pd1"
        "map fst (pd_reqs pd') @ pd_wait pd' =
          map fst (pd_reqs pd1) @ pd_wait pd1 @ map (\<lambda>i. cd_request cd i peer) js"
        using Suc.IH [OF ne k, of "insert i ds"] by (elim exE conjE) rule
      have "map fst (pd_reqs pd') @ pd_wait pd' =
          (map fst (pd_reqs pd1) @ pd_wait pd1) @ map (\<lambda>i. cd_request cd i peer) js"
        using IH(8) by simp
      also note pd1(3)
      finally have "map fst (pd_reqs pd') @ pd_wait pd' =
          map fst (pd_reqs pd) @ pd_wait pd @ map (\<lambda>i. cd_request cd i peer) (i # js)" by simp
      moreover have "send_loop cd peer now (Suc k) (q, ds, pd) = Some (q', ds', pd')"
        using can False q pd1(1) IH(1) by simp
      moreover have "distinct (i # js)" "set (i # js) \<inter> ds = {}" using False IH(4,5) by auto
      moreover have "mset q' = mset q" "set (i # js) \<subseteq> set q" using IH(2,6) q by auto
      moreover have "ds' = ds \<union> set (i # js)" using IH(3) by auto
      ultimately show ?thesis
        using IH(7) pd1(2)
        by (intro exI [of _ q'] exI [of _ ds'] exI [of _ pd'] exI [of _ "i # js"] conjI) simp_all
    qed
  qed
qed

lemma sendRequests_spec:
  assumes "pd_peer (pds pid) = Some p" "pv_id p = pid"
  shows "\<exists>q ds' pds' is. sendRequests now pid (cd, pds) = Some (cd\<lparr>cd_queue := q, cd_dstatus := ds'\<rparr>, pds') \<and>
    mset q = mset (cd_queue cd) \<and> (\<forall>x. pd_peer (pds' x) = pd_peer (pds x)) \<and>
    (\<forall>x. x \<noteq> pid \<longrightarrow> ds' x = cd_dstatus cd x \<and> pds' x = pds x) \<and>
    distinct is \<and> set is \<subseteq> set (cd_queue cd) \<and>
    (\<forall>ds. cd_dstatus cd pid = Some ds \<longrightarrow> set is \<inter> ds = {} \<and> ds' pid = Some (ds \<union> set is)) \<and>
    (cd_dstatus cd pid = None \<longrightarrow> is = [] \<and> ds' pid = None) \<and>
    map fst (pd_reqs (pds' pid)) @ pd_wait (pds' pid) =
      map fst (pd_reqs (pds pid)) @ pd_wait (pds pid) @ map (\<lambda>i. cd_request cd i pid) is"
proof -
  have triv: ?thesis if "sendRequests now pid (cd, pds) = Some (cd, pds)"
  proof -
    have "cd = cd\<lparr>cd_queue := cd_queue cd, cd_dstatus := cd_dstatus cd\<rparr>" by simp
    with that show ?thesis by (intro exI [of _ "cd_queue cd"] exI [of _ "cd_dstatus cd"] exI [of _ pds]
        exI [of _ "[]"]) simp
  qed
  show ?thesis
  proof (cases "cd_dstatus cd pid")
    case None
    then show ?thesis by (intro triv) (simp add: sendRequests_def assms)
  next
    case (Some ds)
    show ?thesis
    proof (cases "pd_isChoked (pds pid)")
      case True
      then show ?thesis by (intro triv) (simp add: sendRequests_def assms Some)
    next
      case False
      obtain q' ds' pd' "is" where l: "send_loop cd pid now (length (cd_queue cd)) (cd_queue cd, ds, pds pid) = Some (q', ds', pd')"
        "mset q' = mset (cd_queue cd)" "ds' = ds \<union> set is" "distinct is" "set is \<inter> ds = {}"
        "set is \<subseteq> set (cd_queue cd)" "pd_peer pd' = pd_peer (pds pid)"
        "map fst (pd_reqs pd') @ pd_wait pd' =
          map fst (pd_reqs (pds pid)) @ pd_wait (pds pid) @ map (\<lambda>i. cd_request cd i pid) is"
        using send_loop_spec [of "pds pid" "length (cd_queue cd)" "cd_queue cd" cd pid now ds] assms(1) by auto
      let ?pd = "if length q' < 2 \<and> length q' > 0 then pd'\<lparr>pd_nearly_done := True\<rparr> else pd'"
      have "sendRequests now pid (cd, pds) =
          Some (cd\<lparr>cd_queue := q', cd_dstatus := (cd_dstatus cd)(pid \<mapsto> ds')\<rparr>, pds(pid := ?pd))"
        using assms Some False l(1) by (simp add: sendRequests_def Let_def)
      then show ?thesis
        using l Some by (intro exI [of _ q'] exI [of _ "(cd_dstatus cd)(pid \<mapsto> ds')"]
            exI [of _ "pds(pid := ?pd)"] exI [of _ "is"]) auto
    qed
  qed
qed

lemma sendRequests_all_spec:
  assumes "pds_ok pids pds"
  shows "\<exists>q ds' pds'. sendRequests_all now pids (cd, pds) = Some (cd\<lparr>cd_queue := q, cd_dstatus := ds'\<rparr>, pds') \<and>
    mset q = mset (cd_queue cd) \<and> (\<forall>x. pd_peer (pds' x) = pd_peer (pds x))"
  using assms
proof (induction pids arbitrary: cd pds)
  case Nil
  have "cd = cd\<lparr>cd_queue := cd_queue cd, cd_dstatus := cd_dstatus cd\<rparr>" by simp
  then show ?case by (intro exI [of _ "cd_queue cd"] exI [of _ "cd_dstatus cd"] exI [of _ pds]) simp
next
  case (Cons pid pids)
  obtain p where p: "pd_peer (pds pid) = Some p" "pv_id p = pid" using Cons.prems by (auto simp: pds_ok_def)
  obtain q1 ds1 pds1 where s1: "sendRequests now pid (cd, pds) = Some (cd\<lparr>cd_queue := q1, cd_dstatus := ds1\<rparr>, pds1)"
    "mset q1 = mset (cd_queue cd)" "\<forall>x. pd_peer (pds1 x) = pd_peer (pds x)"
    using sendRequests_spec [of pds pid p now cd] p by blast
  have "pds_ok pids pds1" using Cons.prems s1(3) by (simp add: pds_ok_def)
  from Cons.IH [OF this, of "cd\<lparr>cd_queue := q1, cd_dstatus := ds1\<rparr>"] show ?case
    using s1 by auto
qed

lemma endgame_loop_spec:
  assumes "pds_ok pids pds" "pp = unat (rq_off (pc_req p)) div MAX_PIECE_LEN"
  shows "\<exists>ds' pds'. endgame_loop p pids (cd, pds) = Some (cd\<lparr>cd_dstatus := ds'\<rparr>, pds') \<and>
    (\<forall>x. pd_peer (pds' x) = pd_peer (pds x)) \<and>
    (\<forall>pid. ds' pid = (if pid \<in> set pids then map_option (\<lambda>ds. ds - {pp}) (cd_dstatus cd pid)
                    else cd_dstatus cd pid))"
  using assms(1)
proof (induction pids arbitrary: cd pds)
  case Nil
  have "cd = cd\<lparr>cd_dstatus := cd_dstatus cd\<rparr>" by simp
  then show ?case by (intro exI [of _ "cd_dstatus cd"] exI [of _ pds]) simp
next
  case (Cons pid pids)
  obtain q where q: "pd_peer (pds pid) = Some q" "pv_id q = pid" using Cons.prems by (auto simp: pds_ok_def)
  have canc: "pd_peer (pd_cancel pd r) = pd_peer pd" for pd r by (simp add: pd_cancel_def)
  obtain ds1 pds1 where s1: "endgame_step p pid (cd, pds) = Some (cd\<lparr>cd_dstatus := ds1\<rparr>, pds1)"
    "\<forall>x. pd_peer (pds1 x) = pd_peer (pds x)"
    "\<forall>x. ds1 x = (if x = pid then map_option (\<lambda>ds. ds - {pp}) (cd_dstatus cd pid) else cd_dstatus cd x)"
  proof (cases "cd_dstatus cd pid")
    case None
    have "cd = cd\<lparr>cd_dstatus := cd_dstatus cd\<rparr>" by simp
    then show ?thesis using that [of "cd_dstatus cd" pds] None q by (simp add: endgame_step_def)
  next
    case (Some ds)
    show ?thesis
    proof (cases "pp \<in> ds")
      case True
      then show ?thesis
        using that [of "(cd_dstatus cd)(pid \<mapsto> ds - {pp})" "pds(pid := pd_cancel (pds pid) (pc_req p))"]
          Some q assms(2) canc by (simp add: endgame_step_def Let_def)
    next
      case False
      have "cd = cd\<lparr>cd_dstatus := cd_dstatus cd\<rparr>" by simp
      then show ?thesis
        using that [of "cd_dstatus cd" pds] False Some q assms(2) by (simp add: endgame_step_def Let_def)
    qed
  qed
  have "pds_ok pids pds1" using Cons.prems s1(2) by (simp add: pds_ok_def)
  from Cons.IH [OF this, of "cd\<lparr>cd_dstatus := ds1\<rparr>"] show ?case
    using s1 by (fastforce simp: option.map_comp comp_def)
qed


section \<open>The invariant of a download\<close>

definition cd_geometry :: "chunk_download \<Rightarrow> bool" where
  "cd_geometry cd \<longleftrightarrow> 0 < cd_num cd \<and> 0 < cd_last_size cd \<and> cd_last_size cd \<le> MAX_PIECE_LEN \<and>
     ch_size (cd_chunk cd) = (cd_num cd - 1) * MAX_PIECE_LEN + cd_last_size cd \<and>
     ch_size (cd_chunk cd) < 2 ^ 32"

definition cd_ok :: "chunk_download \<Rightarrow> bool" where
  "cd_ok cd \<longleftrightarrow> cd_geometry cd \<and>
     bs_ok (cd_pieces cd) \<and> bs_num_bits (cd_pieces cd) = cd_num cd \<and>
     distinct (cd_queue cd) \<and> set (cd_queue cd) = {i. i < cd_num cd \<and> \<not> bs_get (cd_pieces cd) i} \<and>
     cd_num_downloaded cd = bs_numOnBits (cd_pieces cd) \<and>
     (\<exists>d. ch_data (cd_chunk cd) = Some d \<and> length d = ch_size (cd_chunk cd))"

text \<open>A piece that answers a request of this download.\<close>

definition piece_wf :: "chunk_download \<Rightarrow> piece \<Rightarrow> nat \<Rightarrow> bool" where
  "piece_wf cd p i \<longleftrightarrow> i < cd_num cd \<and> unat (rq_off (pc_req p)) = i * MAX_PIECE_LEN \<and>
     unat (rq_len (pc_req p)) = piece_size cd i \<and> length (pc_data p) = piece_size cd i"

lemma piece_size_bounds:
  assumes "cd_geometry cd" "i < cd_num cd"
  shows "0 < piece_size cd i" "piece_size cd i \<le> MAX_PIECE_LEN"
    "i * MAX_PIECE_LEN + piece_size cd i \<le> ch_size (cd_chunk cd)"
    "i + 1 < cd_num cd \<Longrightarrow> (i + 1) * MAX_PIECE_LEN \<le> ch_size (cd_chunk cd)"
    "i + 1 = cd_num cd \<Longrightarrow> i * MAX_PIECE_LEN + piece_size cd i = ch_size (cd_chunk cd)"
proof -
  have le: "i + 1 < cd_num cd \<Longrightarrow> (i + 1) * MAX_PIECE_LEN \<le> (cd_num cd - 1) * MAX_PIECE_LEN"
    by (intro mult_le_mono1) simp
  show "0 < piece_size cd i" "piece_size cd i \<le> MAX_PIECE_LEN"
    using assms by (auto simp: piece_size_def cd_geometry_def MAX_PIECE_LEN_def)
  show "i + 1 < cd_num cd \<Longrightarrow> (i + 1) * MAX_PIECE_LEN \<le> ch_size (cd_chunk cd)"
    using le assms by (simp add: cd_geometry_def)
  show last: "i + 1 = cd_num cd \<Longrightarrow> i * MAX_PIECE_LEN + piece_size cd i = ch_size (cd_chunk cd)"
    using assms by (auto simp: cd_geometry_def piece_size_def)
  show "i * MAX_PIECE_LEN + piece_size cd i \<le> ch_size (cd_chunk cd)"
    using le last assms by (cases "i + 1 < cd_num cd") (auto simp: cd_geometry_def piece_size_def)
qed

text \<open>The data of a piece within the chunk.\<close>

definition block :: "chunk_download \<Rightarrow> bytes \<Rightarrow> nat \<Rightarrow> bytes" where
  "block cd d i = take (piece_size cd i) (drop (i * MAX_PIECE_LEN) d)"

lemma blocks_concat:
  assumes "cd_geometry cd" "length d = ch_size (cd_chunk cd)"
  shows "concat (map (block cd d) [0..<cd_num cd]) = d"
proof -
  have "k \<le> cd_num cd \<Longrightarrow> concat (map (block cd d) [0..<k]) =
      take (if k < cd_num cd then k * MAX_PIECE_LEN else length d) d" for k
  proof (induction k)
    case 0
    then show ?case using assms(1) by (simp add: cd_geometry_def)
  next
    case (Suc k)
    have k: "k < cd_num cd" using Suc.prems by simp
    have ih: "concat (map (block cd d) [0..<k]) = take (k * MAX_PIECE_LEN) d" using Suc k by simp
    show ?case
    proof (cases "Suc k < cd_num cd")
      case True
      then have "piece_size cd k = MAX_PIECE_LEN" by (simp add: piece_size_def)
      moreover have "take (k * MAX_PIECE_LEN + MAX_PIECE_LEN) d =
          take (k * MAX_PIECE_LEN) d @ take MAX_PIECE_LEN (drop (k * MAX_PIECE_LEN) d)" by (rule take_add)
      ultimately show ?thesis
        using ih True by (simp add: block_def [of cd d k] add.commute)
    next
      case False
      then have "k * MAX_PIECE_LEN + piece_size cd k = length d"
        using piece_size_bounds(5) [OF assms(1) k] assms(2) k by simp
      moreover have "take (k * MAX_PIECE_LEN + piece_size cd k) d =
          take (k * MAX_PIECE_LEN) d @ take (piece_size cd k) (drop (k * MAX_PIECE_LEN) d)" by (rule take_add)
      ultimately show ?thesis
        using ih False by (simp add: block_def [of cd d k])
    qed
  qed
  from this [of "cd_num cd"] show ?thesis by simp
qed

lemma block_memcpy:
  assumes "cd_geometry cd" "length d = ch_size (cd_chunk cd)" "i < cd_num cd" "j < cd_num cd"
    "length x = piece_size cd i"
  shows "block cd (memcpy d (i * MAX_PIECE_LEN) x (piece_size cd i)) j = (if j = i then x else block cd d j)"
proof -
  let ?d = "memcpy d (i * MAX_PIECE_LEN) x (piece_size cd i)"
  note bi = piece_size_bounds [OF assms(1,3)] and bj = piece_size_bounds [OF assms(1,4)]
  have d: "?d = take (i * MAX_PIECE_LEN) d @ x @ drop (i * MAX_PIECE_LEN + piece_size cd i) d"
    using assms(5) by (simp add: memcpy_def)
  have len: "length ?d = length d" using bi(3) assms(2,5) by simp
  consider "j = i" | "j < i" | "i < j" by linarith
  then show ?thesis
  proof cases
    case 1
    then show ?thesis using bi(3) assms(2,5) by (simp add: block_def d)
  next
    case 2
    then have "(j + 1) * MAX_PIECE_LEN \<le> i * MAX_PIECE_LEN" by (intro mult_le_mono1) simp
    then have "j * MAX_PIECE_LEN + piece_size cd j \<le> i * MAX_PIECE_LEN" using bj(2) by simp
    then have "\<forall>k. j * MAX_PIECE_LEN \<le> k \<longrightarrow> k < j * MAX_PIECE_LEN + piece_size cd j \<longrightarrow> ?d ! k = d ! k"
      using bi(3) assms(2) by (auto simp: d nth_append)
    then show ?thesis
      using 2 len bj(3) assms(2) by (auto simp: block_def intro!: nth_equalityI)
  next
    case 3
    then have "(i + 1) * MAX_PIECE_LEN \<le> j * MAX_PIECE_LEN" by (intro mult_le_mono1) simp
    moreover have "i + 1 < cd_num cd" using 3 assms(4) by simp
    ultimately have "i * MAX_PIECE_LEN + piece_size cd i \<le> j * MAX_PIECE_LEN"
      using bi(2) by simp
    then have "\<forall>k. j * MAX_PIECE_LEN \<le> k \<longrightarrow> k < j * MAX_PIECE_LEN + piece_size cd j \<longrightarrow> ?d ! k = d ! k"
      using bi(3) bj(3) assms(2,5) by (auto simp: d nth_append)
    then show ?thesis
      using 3 len bj(3) assms(2) by (auto simp: block_def intro!: nth_equalityI)
  qed
qed

lemma cd_ok_new:
  assumes "0 < ch_size c" "ch_size c < 2 ^ 32" "ch_data c = Some d" "length d = ch_size c"
  shows "cd_ok (ChunkDownload_new c)" "cd_dstatus (ChunkDownload_new c) = Map.empty"
    "cd_pdown (ChunkDownload_new c) = []" "\<forall>i. \<not> bs_get (cd_pieces (ChunkDownload_new c)) i"
proof -
  let ?cd = "ChunkDownload_new c"
  let ?n = "if ch_size c mod MAX_PIECE_LEN \<noteq> 0 then ch_size c div MAX_PIECE_LEN + 1
      else ch_size c div MAX_PIECE_LEN"
  have num: "cd_num ?cd = ?n"
    and last: "cd_last_size ?cd = (if ch_size c mod MAX_PIECE_LEN \<noteq> 0 then ch_size c mod MAX_PIECE_LEN
      else MAX_PIECE_LEN)"
    and rest: "cd_queue ?cd = [0..<?n]" "cd_pieces ?cd = bs_clear (BitSet_new ?n)"
      "cd_num_downloaded ?cd = 0" "ch_data (cd_chunk ?cd) = Some d" "ch_size (cd_chunk ?cd) = ch_size c"
    using assms(3) by (auto simp: ChunkDownload_new_def Let_def)
  have pos: "0 < ?n" using assms(1) by (auto simp: MAX_PIECE_LEN_def)
  have lt: "?n < 2 ^ 32"
    using assms(2) div_le_dividend [of "ch_size c" MAX_PIECE_LEN]
      by (auto simp: MAX_PIECE_LEN_def)
  have geo: "cd_geometry ?cd"
  proof -
    have "ch_size c = (?n - 1) * MAX_PIECE_LEN + cd_last_size ?cd"
    proof (cases "ch_size c mod MAX_PIECE_LEN = 0")
      case False
      then show ?thesis using last by simp
    next
      case True
      then obtain k where k: "ch_size c = MAX_PIECE_LEN * k" by (auto simp: mod_eq_0_iff_dvd elim: dvdE)
      then have "0 < k" using assms(1) by (cases k) auto
      then show ?thesis
        using True last k by (cases k) (simp_all add: MAX_PIECE_LEN_def)
    qed
    then show ?thesis
      using pos num last assms(2) rest(5) by (auto simp: cd_geometry_def MAX_PIECE_LEN_def)
  qed
  have shape: "bs_shape (BitSet_new ?n)" using bs_ok_new [OF lt] bs_ok_shape by blast
  have ok: "bs_ok (cd_pieces ?cd)" "\<And>i. \<not> bs_get (cd_pieces ?cd) i" "bs_num_bits (cd_pieces ?cd) = ?n"
    using bs_ok_setAll [OF shape, of False] bs_get_setAll [OF shape, of False]
    by (simp_all only: rest(2) bs_clear_def) (simp_all add: bs_setAll_def)
  have "bs_numOnBits (cd_pieces ?cd) = 0"
    using bits.count_zero_iff [OF ok(1)] ok(2) by simp
  then show "cd_ok ?cd"
    using geo ok num rest assms(4) by (auto simp: cd_ok_def)
  show "cd_dstatus ?cd = Map.empty" "cd_pdown ?cd = []"
    by (auto simp: ChunkDownload_new_def Let_def)
  show "\<forall>i. \<not> bs_get (cd_pieces ?cd) i" using ok(2) by blast
qed


section \<open>Continuous hashing\<close>

text \<open>The number of bytes before piece \<open>a\<close>.\<close>

definition hash_pos :: "chunk_download \<Rightarrow> nat \<Rightarrow> nat" where
  "hash_pos cd a = (if a < cd_num cd then a * MAX_PIECE_LEN else ch_size (cd_chunk cd))"

definition hash_state :: "chunk_download \<Rightarrow> bytes \<Rightarrow> nat \<Rightarrow> sha1 \<Rightarrow> bool" where
  "hash_state cd d a g \<longleftrightarrow> sha_seen g (take (hash_pos cd a) d) \<and>
     (a < cd_num cd \<longrightarrow> sh_tmp g = replicate 64 0 \<and> sh_tmp_len g = 0) \<and>
     (a = cd_num cd \<longrightarrow> drop (Suc (ch_size (cd_chunk cd) mod 64)) (sh_tmp g) =
        replicate (63 - ch_size (cd_chunk cd) mod 64) 0)"

lemma hash_state_step:
  assumes "cd_geometry cd" "length d = ch_size (cd_chunk cd)" "a < cd_num cd" "hash_state cd d a g"
  shows "hash_state cd d (a + 1) (sha_update g (block cd d a))"
proof -
  have g: "sha_seen g (take (a * MAX_PIECE_LEN) d)" "sh_tmp g = replicate 64 0" "sh_tmp_len g = 0"
    using assms(3,4) by (auto simp: hash_state_def hash_pos_def)
  have pos: "hash_pos cd (a + 1) = a * MAX_PIECE_LEN + piece_size cd a"
    using piece_size_bounds(5) [OF assms(1,3)] assms(3) by (auto simp: hash_pos_def piece_size_def)
  have "take (hash_pos cd (a + 1)) d = take (a * MAX_PIECE_LEN) d @ block cd d a"
    unfolding pos by (simp add: block_def take_add)
  then have seen: "sha_seen (sha_update g (block cd d a)) (take (hash_pos cd (a + 1)) d)"
    using sha_update_seen [OF g(1), of "block cd d a"] by simp
  have lb: "length (block cd d a) = piece_size cd a"
    using piece_size_bounds(3) [OF assms(1,3)] assms(2) by (simp add: block_def)
  show ?thesis
  proof (cases "a + 1 < cd_num cd")
    case True
    then have "64 dvd length (block cd d a)" by (simp add: lb piece_size_def MAX_PIECE_LEN_def)
    then show ?thesis
      using seen True sha_update_aligned [of "block cd d a" g] g by (simp add: hash_state_def)
  next
    case False
    then have last: "a + 1 = cd_num cd" using assms(3) by simp
    have "ch_size (cd_chunk cd) = 64 * (a * 256) + length (block cd d a)"
      using piece_size_bounds(5) [OF assms(1,3) last] lb by (simp add: MAX_PIECE_LEN_def)
    then have "ch_size (cd_chunk cd) mod 64 = length (block cd d a) mod 64"
      by (simp only: mod_mult_self4)
    then show ?thesis
      using seen last sha_last_zero [of g "block cd d a"] g by (simp add: hash_state_def)
  qed
qed

lemma hash_pieces_spec:
  assumes "cd_geometry cd" "length d = ch_size (cd_chunk cd)"
  shows "a \<le> b \<Longrightarrow> b \<le> cd_num cd \<Longrightarrow> hash_state cd d a g \<Longrightarrow>
    \<exists>g'. hash_pieces cd d [a..<b] g = Some g' \<and> hash_state cd d b g'"
proof (induction "b - a" arbitrary: a g)
  case 0
  then show ?case by simp
next
  case (Suc n)
  then have a: "a < b" "a < cd_num cd" by simp_all
  have n: "(if a = cd_num cd - 1 then cd_last_size cd else MAX_PIECE_LEN) = piece_size cd a"
    using a(2) by (auto simp: piece_size_def)
  have "hash_state cd d (a + 1) (sha_update g (block cd d a))"
    using hash_state_step [OF assms a(2) Suc.prems(3)] .
  then have "\<exists>g'. hash_pieces cd d [a + 1..<b] (sha_update g (block cd d a)) = Some g' \<and> hash_state cd d b g'"
    using Suc.hyps(2) Suc.prems(2) a(1) by (intro Suc.hyps(1)) auto
  moreover have "\<not> length d < a * MAX_PIECE_LEN + piece_size cd a"
    using piece_size_bounds(3) [OF assms(1) a(2)] assms(2) by simp
  ultimately show ?case
    using a(1) n by (simp add: upt_conv_Cons Let_def block_def)
qed

lemma hash_scan_spec:
  "a \<le> cd_num cd \<Longrightarrow> a \<le> hash_scan cd a \<and> hash_scan cd a \<le> cd_num cd \<and>
   (\<forall>j. a \<le> j \<longrightarrow> j < hash_scan cd a \<longrightarrow> bs_get (cd_pieces cd) j) \<and>
   (hash_scan cd a < cd_num cd \<longrightarrow> \<not> bs_get (cd_pieces cd) (hash_scan cd a))"
proof (induction cd a rule: hash_scan.induct)
  case (1 cd a)
  show ?case
  proof (cases "bs_get (cd_pieces cd) a \<and> a < cd_num cd")
    case True
    have "j = a \<or> a + 1 \<le> j" if "a \<le> j" for j using that by auto
    then show ?thesis
      using 1 True by (subst (1 2 3 4 5) hash_scan.simps) (auto simp: Suc_le_eq)
  next
    case False
    then show ?thesis using 1 by (subst (1 2 3 4 5) hash_scan.simps) auto
  qed
qed

text \<open>The invariant of the hash: it has seen the data up to the first missing piece.\<close>

definition cd_hash_ok :: "chunk_download \<Rightarrow> bool" where
  "cd_hash_ok cd \<longleftrightarrow> (usingContinuousHashing cd \<longrightarrow>
     cd_in_hash cd \<le> cd_num cd \<and> (\<forall>j < cd_in_hash cd. bs_get (cd_pieces cd) j) \<and>
     (cd_in_hash cd < cd_num cd \<longrightarrow> \<not> bs_get (cd_pieces cd) (cd_in_hash cd)) \<and>
     hash_state cd (the (ch_data (cd_chunk cd))) (cd_in_hash cd) (cd_hash cd))"

lemma updateHash_spec:
  assumes "cd_ok cd" "cd_in_hash cd \<le> cd_num cd" "\<forall>j < cd_in_hash cd. bs_get (cd_pieces cd) j"
    "hash_state cd (the (ch_data (cd_chunk cd))) (cd_in_hash cd) (cd_hash cd)"
  shows "\<exists>g n. updateHash cd = Some (cd\<lparr>cd_hash := g, cd_in_hash := n\<rparr>) \<and>
    cd_hash_ok (cd\<lparr>cd_hash := g, cd_in_hash := n\<rparr>)"
proof -
  obtain d where d: "ch_data (cd_chunk cd) = Some d" "length d = ch_size (cd_chunk cd)"
    and geo: "cd_geometry cd" using assms(1) by (auto simp: cd_ok_def)
  let ?n = "hash_scan cd (cd_in_hash cd)"
  note sc = hash_scan_spec [OF assms(2)]
  have all: "\<forall>j < ?n. bs_get (cd_pieces cd) j" using sc assms(3) by (meson linorder_not_less)
  have upd: "hash_state (cd\<lparr>cd_hash := g, cd_in_hash := n\<rparr>) = hash_state cd" for g n
    by (simp add: fun_eq_iff hash_state_def hash_pos_def)
  show ?thesis
  proof (cases "?n = cd_in_hash cd")
    case True
    have "cd = cd\<lparr>cd_hash := cd_hash cd, cd_in_hash := cd_in_hash cd\<rparr>" by simp
    moreover have "updateHash cd = Some cd" using True by (simp add: updateHash_def)
    moreover have "cd_hash_ok cd" using True sc assms by (simp add: cd_hash_ok_def)
    ultimately show ?thesis by (metis (no_types))
  next
    case False
    obtain g where g: "hash_pieces cd d [cd_in_hash cd..<?n] (cd_hash cd) = Some g" "hash_state cd d ?n g"
      using hash_pieces_spec [OF geo d(2), of "cd_in_hash cd" ?n "cd_hash cd"] sc assms(4) d(1) by auto
    have "updateHash cd = Some (cd\<lparr>cd_hash := g, cd_in_hash := ?n\<rparr>)"
      using False d(1) g(1) by (simp add: updateHash_def Let_def)
    moreover have "cd_hash_ok (cd\<lparr>cd_hash := g, cd_in_hash := ?n\<rparr>)"
      using sc all g(2) d(1) by (simp add: cd_hash_ok_def upd)
    ultimately show ?thesis by blast
  qed
qed


section \<open>The arrival of a piece\<close>

text \<open>The fields a download shares with what it was before other fields changed.\<close>

lemma cd_ok_requests:
  assumes "mset q = mset (cd_queue cd)"
  shows "cd_ok (cd\<lparr>cd_queue := q, cd_dstatus := ds\<rparr>) = cd_ok cd"
    "cd_hash_ok (cd\<lparr>cd_queue := q, cd_dstatus := ds\<rparr>) = cd_hash_ok cd"
proof -
  have "distinct q = distinct (cd_queue cd)" "set q = set (cd_queue cd)"
    using assms mset_eq_imp_distinct_iff mset_eq_setD by blast+
  then show "cd_ok (cd\<lparr>cd_queue := q, cd_dstatus := ds\<rparr>) = cd_ok cd"
    by (simp add: cd_ok_def cd_geometry_def)
  show "cd_hash_ok (cd\<lparr>cd_queue := q, cd_dstatus := ds\<rparr>) = cd_hash_ok cd"
    by (simp add: cd_hash_ok_def usingContinuousHashing_def hash_state_def hash_pos_def)
qed

lemma cd_ok_dstatus [simp]:
  "cd_ok (cd\<lparr>cd_dstatus := ds\<rparr>) = cd_ok cd" "cd_hash_ok (cd\<lparr>cd_dstatus := ds\<rparr>) = cd_hash_ok cd"
  "usingContinuousHashing (cd\<lparr>cd_dstatus := ds\<rparr>) = usingContinuousHashing cd"
  "cd_ok (cd\<lparr>cd_dstatus := ds, cd_pdown := pids\<rparr>) = cd_ok cd"
  "cd_ok (cd\<lparr>cd_hash := g, cd_in_hash := n\<rparr>) = cd_ok cd" "cd_ok (cd\<lparr>cd_hash := g\<rparr>) = cd_ok cd"
  "cd_ok (cd\<lparr>cd_in_hash := n\<rparr>) = cd_ok cd"
  "cd_hash_ok (cd\<lparr>cd_dstatus := ds, cd_pdown := pids\<rparr>) = cd_hash_ok cd"
  by (simp_all add: cd_ok_def cd_geometry_def cd_hash_ok_def usingContinuousHashing_def hash_state_def
      hash_pos_def)

text \<open>What the download holds: the data of the pieces it has.\<close>

definition cd_contents :: "chunk_download \<Rightarrow> nat \<Rightarrow> bytes option" where
  "cd_contents cd i =
     (if i < cd_num cd \<and> bs_get (cd_pieces cd) i
      then Some (block cd (the (ch_data (cd_chunk cd))) i) else None)"

lemma cd_contents_simps [simp]:
  "cd_contents (cd\<lparr>cd_dstatus := ds\<rparr>) = cd_contents cd"
  "cd_contents (cd\<lparr>cd_queue := q, cd_dstatus := ds\<rparr>) = cd_contents cd"
  "cd_contents (cd\<lparr>cd_dstatus := ds, cd_pdown := pids\<rparr>) = cd_contents cd"
  "cd_contents (cd\<lparr>cd_hash := g, cd_in_hash := n\<rparr>) = cd_contents cd"
  "cd_contents (cd\<lparr>cd_hash := g\<rparr>) = cd_contents cd"
  "cd_contents (cd\<lparr>cd_in_hash := n\<rparr>) = cd_contents cd"
  "cd_contents (cd\<lparr>cd_queue := q\<rparr>) = cd_contents cd"
  by (simp_all add: fun_eq_iff cd_contents_def block_def piece_size_def)

text \<open>The first piece that arrives for an index counts.\<close>

definition assemble :: "nat \<Rightarrow> bytes \<Rightarrow> (nat \<Rightarrow> bytes option) \<Rightarrow> nat \<Rightarrow> bytes option" where
  "assemble i x m = (if m i = None then m(i \<mapsto> x) else m)"

lemma store_piece_spec:
  assumes "cd_ok cd" "cd_hash_ok cd" "piece_wf cd p i" "\<not> bs_get (cd_pieces cd) i"
    "ch_data (cd_chunk cd) = Some d"
  shows "\<exists>cd'. store_piece p d cd = Some cd' \<and> cd_ok cd' \<and> cd_contents cd' = (cd_contents cd)(i \<mapsto> pc_data p) \<and>
    cd_pdown cd' = cd_pdown cd \<and> cd_dstatus cd' = cd_dstatus cd \<and> cd_num cd' = cd_num cd \<and>
    cd_chunk cd' = (cd_chunk cd)\<lparr>ch_data := Some (memcpy d (i * MAX_PIECE_LEN) (pc_data p) (piece_size cd i))\<rparr> \<and>
    bs_num_bits (cd_pieces cd') = bs_num_bits (cd_pieces cd) \<and>
    (usingContinuousHashing cd' \<longrightarrow> cd_in_hash cd' \<le> cd_num cd' \<and>
      (\<forall>j < cd_in_hash cd'. bs_get (cd_pieces cd') j) \<and>
      hash_state cd' (the (ch_data (cd_chunk cd'))) (cd_in_hash cd') (cd_hash cd'))"
proof -
  have geo: "cd_geometry cd" and okb: "bs_ok (cd_pieces cd)" "bs_num_bits (cd_pieces cd) = cd_num cd"
    and q: "distinct (cd_queue cd)" "set (cd_queue cd) = {i. i < cd_num cd \<and> \<not> bs_get (cd_pieces cd) i}"
    and nd: "cd_num_downloaded cd = bs_numOnBits (cd_pieces cd)"
    and ld: "length d = ch_size (cd_chunk cd)"
    using assms(1,5) by (auto simp: cd_ok_def)
  have p: "i < cd_num cd" "unat (rq_off (pc_req p)) = i * MAX_PIECE_LEN"
    "unat (rq_len (pc_req p)) = piece_size cd i" "length (pc_data p) = piece_size cd i"
    using assms(3) by (simp_all add: piece_wf_def)
  have div: "i * MAX_PIECE_LEN div MAX_PIECE_LEN = i" by (simp add: MAX_PIECE_LEN_def)
  note sz = piece_size_bounds [OF geo p(1)]
  let ?d = "memcpy d (i * MAX_PIECE_LEN) (pc_data p) (piece_size cd i)"
  let ?cd = "cd\<lparr>cd_chunk := (cd_chunk cd)\<lparr>ch_data := Some ?d\<rparr>,
    cd_pieces := bs_set (cd_pieces cd) i True, cd_queue := removeAll i (cd_queue cd),
    cd_providers := insert (rq_peer (pc_req p)) (cd_providers cd),
    cd_num_downloaded := cd_num_downloaded cd + 1\<rparr>"
  have st: "store_piece p d cd = Some ?cd"
    using sz(3) ld p by (simp add: store_piece_def Let_def div)
  have get: "bs_get (bs_set (cd_pieces cd) i True) j \<longleftrightarrow> j = i \<or> bs_get (cd_pieces cd) j" for j
    using bits.get_put_eq [OF okb(1), of i True j] okb(2) p(1) by auto
  have ldd: "length ?d = ch_size (cd_chunk cd)" using sz(3) ld p(4) by simp
  have ok: "cd_ok ?cd"
    using geo okb bs_ok_bs_set [OF okb(1), of i True] q nd ldd get
      bits.count_put_on [OF okb(1), of i] p(1) assms(4)
    by (auto simp: cd_ok_def cd_geometry_def distinct_removeAll)
  have "block ?cd ?d j = block cd ?d j" for j by (simp add: block_def piece_size_def)
  then have blk: "j < cd_num cd \<Longrightarrow> block ?cd ?d j = (if j = i then pc_data p else block cd d j)" for j
    using block_memcpy [OF geo ld p(1) _ p(4)] by simp
  have cont: "cd_contents ?cd = (cd_contents cd)(i \<mapsto> pc_data p)"
    using p(1) get blk assms(5) by (auto simp: fun_eq_iff cd_contents_def)
  have hash: "cd_in_hash cd \<le> cd_num cd \<and> (\<forall>j < cd_in_hash cd. bs_get (cd_pieces ?cd) j) \<and>
      hash_state ?cd ?d (cd_in_hash cd) (cd_hash cd)" if "usingContinuousHashing ?cd"
  proof -
    have h: "cd_in_hash cd \<le> cd_num cd" "\<forall>j < cd_in_hash cd. bs_get (cd_pieces cd) j"
      "hash_state cd d (cd_in_hash cd) (cd_hash cd)"
      using that assms(2,5) by (simp_all add: cd_hash_ok_def usingContinuousHashing_def)
    then have "cd_in_hash cd \<le> i" using assms(4) by (meson linorder_not_less)
    then have lt: "cd_in_hash cd < cd_num cd" "hash_pos cd (cd_in_hash cd) \<le> i * MAX_PIECE_LEN"
      using p(1) by (auto simp: hash_pos_def)
    have "take (hash_pos cd (cd_in_hash cd)) ?d = take (hash_pos cd (cd_in_hash cd)) d"
      using lt(2) sz(3) ld by (simp add: memcpy_def min.absorb1)
    moreover have "hash_pos ?cd (cd_in_hash cd) = hash_pos cd (cd_in_hash cd)" by (simp add: hash_pos_def)
    ultimately have "hash_state ?cd ?d (cd_in_hash cd) (cd_hash cd)"
      using h(3) by (simp add: hash_state_def)
    then show ?thesis using h get by simp
  qed
  show ?thesis
    using st ok cont hash by (intro exI [of _ ?cd]) simp
qed


definition complete :: "chunk_download \<Rightarrow> bool" where
  "complete cd \<longleftrightarrow> (\<forall>i < cd_num cd. bs_get (cd_pieces cd) i)"

lemma downloaded_all_iff: "cd_ok cd \<Longrightarrow> cd_num cd \<le> cd_num_downloaded cd \<longleftrightarrow> complete cd"
proof -
  assume ok: "cd_ok cd"
  then have p: "bs_ok (cd_pieces cd)" "bs_num_bits (cd_pieces cd) = cd_num cd"
    "cd_num_downloaded cd = bs_numOnBits (cd_pieces cd)" by (simp_all add: cd_ok_def)
  have "cd_num_downloaded cd \<le> cd_num cd" using bits.count_le_size [OF p(1)] p by simp
  moreover have "cd_num_downloaded cd = cd_num cd \<longleftrightarrow> complete cd"
    using bits.count_all_iff [OF p(1)] p by (simp add: complete_def)
  ultimately show ?thesis by linarith
qed

lemma complete_contents: "complete cd \<longleftrightarrow> (\<forall>i < cd_num cd. cd_contents cd i \<noteq> None)"
  by (auto simp: complete_def cd_contents_def)

lemma sha_end_get:
  assumes "cd_geometry cd" "length d = ch_size (cd_chunk cd)" "hash_state cd d (cd_num cd) g"
  shows "sha_get (sha_end g) = sha1_spec d"
proof -
  have "take (hash_pos cd (cd_num cd)) d = d" using assms(2) by (simp add: hash_pos_def)
  then have seen: "sha_seen g d" using assms(3) by (simp add: hash_state_def)
  have "length d < 2 ^ 32" using assms(1,2) by (simp add: cd_geometry_def)
  then show ?thesis
    using sha_end_correct [OF seen] assms(2,3) by (simp add: hash_state_def)
qed

lemma hash_complete:
  assumes "cd_ok cd" "cd_hash_ok cd" "usingContinuousHashing cd" "complete cd"
  shows "sha_get (sha_end (cd_hash cd)) = sha1_spec (the (ch_data (cd_chunk cd)))"
proof -
  have h: "cd_in_hash cd \<le> cd_num cd"
    "cd_in_hash cd < cd_num cd \<longrightarrow> \<not> bs_get (cd_pieces cd) (cd_in_hash cd)"
    "hash_state cd (the (ch_data (cd_chunk cd))) (cd_in_hash cd) (cd_hash cd)"
    using assms(2,3) unfolding cd_hash_ok_def by blast+
  have "cd_in_hash cd = cd_num cd"
    using h(1,2) assms(4) unfolding complete_def by (meson le_neq_implies_less)
  then have hs: "hash_state cd (the (ch_data (cd_chunk cd))) (cd_num cd) (cd_hash cd)"
    using h(3) by (simp only:)
  obtain d where d: "ch_data (cd_chunk cd) = Some d" "length d = ch_size (cd_chunk cd)"
    using assms(1) unfolding cd_ok_def by blast
  have geo: "cd_geometry cd" using assms(1) unfolding cd_ok_def by blast
  show ?thesis using sha_end_get [OF geo d(2)] hs unfolding d(1) option.sel by blast
qed

lemma pds_ok_cong: "\<forall>x. pd_peer (pds' x) = pd_peer (pds x) \<Longrightarrow> pds_ok pids pds' = pds_ok pids pds"
  by (simp add: pds_ok_def)

text \<open>The whole operation for a piece that was asked for. \<open>done\<close> is the value returned.\<close>

lemma cd_piece_effect:
  assumes "cd_ok cd" "cd_hash_ok cd" "piece_wf cd p i" "pds_ok (cd_pdown cd) pds"
  shows "\<exists>cd' pds' fin ok. cd_piece now p (cd, pds) = Some ((cd', pds'), fin, ok) \<and> cd_ok cd' \<and>
    cd_num cd' = cd_num cd \<and> cd_last_size cd' = cd_last_size cd \<and>
    (fin \<longrightarrow> complete cd') \<and> (\<not> fin \<longrightarrow> cd_hash_ok cd' \<and> cd_pdown cd' = cd_pdown cd) \<and>
    (\<forall>x. pd_peer (pds' x) = pd_peer (pds x)) \<and>
    cd_contents cd' = assemble i (pc_data p) (cd_contents cd) \<and>
    (cd_contents cd i = None \<longrightarrow> fin = complete cd') \<and>
    (fin \<and> usingContinuousHashing cd' \<longrightarrow> cd_getHash cd' = sha1_spec (the (ch_data (cd_chunk cd'))))"
proof -
  obtain d where d: "ch_data (cd_chunk cd) = Some d" using assms(1) by (auto simp: cd_ok_def)
  have ci: "cd_contents cd i = None \<longleftrightarrow> \<not> bs_get (cd_pieces cd) i"
    using assms(3) by (auto simp: cd_contents_def piece_wf_def)
  have pp: "unat (rq_off (pc_req p)) div MAX_PIECE_LEN = i"
    using assms(3) by (simp add: piece_wf_def MAX_PIECE_LEN_def)
  show ?thesis
  proof (cases "bs_get (cd_pieces cd) i")
    case True
    then have "cd_piece now p (cd, pds) = Some ((cd, pds), False, False)"
      by (simp add: cd_piece_def pp Let_def)
    moreover have "assemble i (pc_data p) (cd_contents cd) = cd_contents cd" "cd_contents cd i \<noteq> None"
      using ci True by (auto simp: assemble_def)
    ultimately show ?thesis
      using assms(1,2)
      by (intro exI [of _ cd] exI [of _ pds] exI [of _ False] exI [of _ False]) auto
  next
    case False
    define cd0 where "cd0 = (case cd_dstatus cd (rq_peer (pc_req p)) of None \<Rightarrow> cd
       | Some ds \<Rightarrow> cd\<lparr>cd_dstatus := (cd_dstatus cd)(rq_peer (pc_req p) \<mapsto> ds - {i})\<rparr>)"
    have cd0: "cd_ok cd0" "cd_hash_ok cd0" "piece_wf cd0 p i" "\<not> bs_get (cd_pieces cd0) i"
      "ch_data (cd_chunk cd0) = Some d" "cd_contents cd0 = cd_contents cd" "cd_pdown cd0 = cd_pdown cd"
      "cd_num cd0 = cd_num cd" "cd_last_size cd0 = cd_last_size cd"
      using assms(1,2,3) False d by (auto simp: cd0_def piece_wf_def piece_size_def split: option.split)
    obtain cd1 where cd1: "store_piece p d cd0 = Some cd1" "cd_ok cd1"
      "cd_contents cd1 = (cd_contents cd)(i \<mapsto> pc_data p)" "cd_pdown cd1 = cd_pdown cd" "cd_num cd1 = cd_num cd"
      "usingContinuousHashing cd1 \<longrightarrow> cd_in_hash cd1 \<le> cd_num cd1 \<and>
        (\<forall>j < cd_in_hash cd1. bs_get (cd_pieces cd1) j) \<and>
        hash_state cd1 (the (ch_data (cd_chunk cd1))) (cd_in_hash cd1) (cd_hash cd1)"
      using store_piece_spec [OF cd0(1-5)] cd0 by auto
    have ls: "cd_last_size cd1 = cd_last_size cd"
      using cd1(1) cd0(9) by (auto simp: store_piece_def Let_def split: if_splits)
    obtain ds2 pds2 where s2: "(if length (cd_pdown cd1) > 1 then endgameCancel p (cd1, pds) else Some (cd1, pds)) =
        Some (cd1\<lparr>cd_dstatus := ds2\<rparr>, pds2)" "\<forall>x. pd_peer (pds2 x) = pd_peer (pds x)"
    proof (cases "length (cd_pdown cd1) > 1")
      case True
      have "pds_ok (cd_pdown cd1) pds" using assms(4) cd1(4) by simp
      from endgame_loop_spec [OF this refl, of p cd1] obtain ds2 pds2 where
        "endgame_loop p (cd_pdown cd1) (cd1, pds) = Some (cd1\<lparr>cd_dstatus := ds2\<rparr>, pds2)"
        "\<forall>x. pd_peer (pds2 x) = pd_peer (pds x)" by blast
      then show ?thesis using that True by (simp add: endgameCancel_def)
    next
      case False
      have "cd1 = cd1\<lparr>cd_dstatus := cd_dstatus cd1\<rparr>" by simp
      then show ?thesis using that [of "cd_dstatus cd1" pds] False by simp
    qed
    let ?cd2 = "cd1\<lparr>cd_dstatus := ds2\<rparr>"
    obtain g n where s3: "(if usingContinuousHashing ?cd2 then updateHash ?cd2 else Some ?cd2) =
        Some (?cd2\<lparr>cd_hash := g, cd_in_hash := n\<rparr>)" "cd_hash_ok (?cd2\<lparr>cd_hash := g, cd_in_hash := n\<rparr>)"
    proof (cases "usingContinuousHashing ?cd2")
      case True
      have "hash_state ?cd2 = hash_state cd1" by (simp add: fun_eq_iff hash_state_def hash_pos_def)
      then show ?thesis
        using that updateHash_spec [of ?cd2] True cd1(2,6) by auto
    next
      case False
      have "?cd2 = ?cd2\<lparr>cd_hash := cd_hash cd1, cd_in_hash := cd_in_hash cd1\<rparr>" by simp
      moreover have "cd_hash_ok ?cd2" using False by (simp add: cd_hash_ok_def)
      ultimately show ?thesis
        using that [where g = "cd_hash cd1" and n = "cd_in_hash cd1"] False by simp
    qed
    let ?cd3 = "?cd2\<lparr>cd_hash := g, cd_in_hash := n\<rparr>"
    have ok3: "cd_ok ?cd3" using cd1(2) by simp
    have cont3: "cd_contents ?cd3 = assemble i (pc_data p) (cd_contents cd)"
      using cd1(3) ci False by (simp add: assemble_def)
    have step: "cd_piece now p (cd, pds) =
      (if cd_num_downloaded ?cd3 \<ge> cd_num ?cd3 then
         (let c = (if usingContinuousHashing ?cd3 then ?cd3\<lparr>cd_hash := sha_end (cd_hash ?cd3)\<rparr> else ?cd3)
          in Some (cd_releaseAllPDs (c, pds2), True, True))
       else do { s \<leftarrow> sendRequests_all now (cd_pdown ?cd3) (?cd3, pds2); Some (s, False, True) })"
    proof -
      have "cd_piece now p (cd, pds) = do {
           cd \<leftarrow> store_piece p d cd0;
           (cd, pds) \<leftarrow> (if length (cd_pdown cd) > 1 then endgameCancel p (cd, pds) else Some (cd, pds));
           cd \<leftarrow> (if usingContinuousHashing cd then updateHash cd else Some cd);
           (if cd_num_downloaded cd \<ge> cd_num cd then
              let cd = (if usingContinuousHashing cd then cd\<lparr>cd_hash := sha_end (cd_hash cd)\<rparr> else cd)
              in Some (cd_releaseAllPDs (cd, pds), True, True)
            else do { s \<leftarrow> sendRequests_all now (cd_pdown cd) (cd, pds); Some (s, False, True) })
         }"
        using False cd0(5) by (simp add: cd_piece_def pp Let_def cd0_def)
      then show ?thesis by (simp only: cd1(1) s2(1) s3(1) bind.simps prod.case)
    qed
    show ?thesis
    proof (cases "cd_num ?cd3 \<le> cd_num_downloaded ?cd3")
      case True
      let ?c = "if usingContinuousHashing ?cd3 then ?cd3\<lparr>cd_hash := sha_end (cd_hash ?cd3)\<rparr> else ?cd3"
      let ?cd' = "?c\<lparr>cd_dstatus := Map.empty, cd_pdown := []\<rparr>"
      let ?pds' = "fold (\<lambda>pid pds. pds(pid := pd_release (pds pid))) (cd_pdown ?c) pds2"
      have comp: "complete ?cd3" using True downloaded_all_iff [OF ok3] by simp
      have peers: "\<forall>x. pd_peer (fold (\<lambda>pid pds. pds(pid := pd_release (pds pid))) pids v x) = pd_peer (v x)" for pids v
        by (induction pids arbitrary: v) (simp_all add: pd_release_def Let_def)
      have cok: "cd_ok ?c" "cd_contents ?c = cd_contents ?cd3" "complete ?c" "cd_num ?c = cd_num cd"
        "cd_last_size ?c = cd_last_size cd"
        using ok3 comp cd1(5) ls by (auto simp: complete_def)
      have hash: "usingContinuousHashing ?cd' \<longrightarrow> cd_getHash ?cd' = sha1_spec (the (ch_data (cd_chunk ?cd')))"
      proof
        assume "usingContinuousHashing ?cd'"
        then have u: "usingContinuousHashing ?cd3" by (simp add: usingContinuousHashing_def split: if_splits)
        from hash_complete [OF ok3 s3(2) u comp]
        show "cd_getHash ?cd' = sha1_spec (the (ch_data (cd_chunk ?cd')))"
          using u by (simp add: cd_getHash_def)
      qed
      have "cd_piece now p (cd, pds) = Some ((?cd', ?pds'), True, True)"
        using step True by (simp only: if_True Let_def cd_releaseAllPDs.simps)
      moreover have "cd_ok ?cd'" "cd_contents ?cd' = assemble i (pc_data p) (cd_contents cd)" "complete ?cd'"
        "cd_num ?cd' = cd_num cd" "cd_last_size ?cd' = cd_last_size cd"
        using cok cont3 by (simp_all add: complete_def)
      moreover have "\<forall>x. pd_peer (?pds' x) = pd_peer (pds x)" using s2(2) by (simp add: peers)
      ultimately show ?thesis using hash by blast
    next
      case nd: False
      have "pds_ok (cd_pdown ?cd3) pds2" using assms(4) cd1(4) pds_ok_cong [OF s2(2)] by simp
      from sendRequests_all_spec [OF this, of now ?cd3] obtain q ds4 pds4 where
        s4: "sendRequests_all now (cd_pdown ?cd3) (?cd3, pds2) = Some (?cd3\<lparr>cd_queue := q, cd_dstatus := ds4\<rparr>, pds4)"
        "mset q = mset (cd_queue ?cd3)" "\<forall>x. pd_peer (pds4 x) = pd_peer (pds2 x)" by blast
      let ?cd' = "?cd3\<lparr>cd_queue := q, cd_dstatus := ds4\<rparr>"
      have "cd_piece now p (cd, pds) = Some ((?cd', pds4), False, True)"
        using step nd s4(1) by (simp only: if_False bind.simps)
      moreover have "cd_ok ?cd'" "cd_hash_ok ?cd'"
        using cd_ok_requests [OF s4(2)] ok3 s3(2) by simp_all
      moreover have "cd_contents ?cd' = assemble i (pc_data p) (cd_contents cd)" using cont3 by simp
      moreover have "\<not> complete ?cd'" using nd downloaded_all_iff [OF ok3] by (simp add: complete_def)
      moreover have "cd_num ?cd' = cd_num cd" "cd_last_size ?cd' = cd_last_size cd" "cd_pdown ?cd' = cd_pdown cd"
        using cd1(4,5) ls by simp_all
      moreover have "\<forall>x. pd_peer (pds4 x) = pd_peer (pds x)" using s4(3) s2(2) by simp
      ultimately show ?thesis by blast
    qed
  qed
qed


section \<open>Runs\<close>

text \<open>A list of arriving pieces, each with the time; the run ends when the chunk is complete.\<close>

fun cd_run :: "(u64 \<times> piece) list \<Rightarrow> chunk_download \<times> pds \<Rightarrow> ((chunk_download \<times> pds) \<times> bool) option" where
  "cd_run [] s = Some (s, False)"
| "cd_run ((now, p) # ps) s =
     (case cd_piece now p s of None \<Rightarrow> None
      | Some (s', fin, ok) \<Rightarrow> if fin then Some (s', True) else cd_run ps s')"

text \<open>The pieces answer requests of a chunk of the given number and last size.\<close>

definition answer :: "nat \<Rightarrow> nat \<Rightarrow> piece \<Rightarrow> bool" where
  "answer num last_sz p \<longleftrightarrow> (\<exists>i < num. unat (rq_off (pc_req p)) = i * MAX_PIECE_LEN \<and>
     unat (rq_len (pc_req p)) = (if i + 1 < num then MAX_PIECE_LEN else last_sz) \<and>
     length (pc_data p) = (if i + 1 < num then MAX_PIECE_LEN else last_sz))"

definition piece_index :: "piece \<Rightarrow> nat" where
  "piece_index p = unat (rq_off (pc_req p)) div MAX_PIECE_LEN"

definition assemble_all :: "piece list \<Rightarrow> (nat \<Rightarrow> bytes option) \<Rightarrow> nat \<Rightarrow> bytes option" where
  "assemble_all ps = fold (\<lambda>p. assemble (piece_index p) (pc_data p)) ps"

lemma answer_wf: "answer (cd_num cd) (cd_last_size cd) p \<Longrightarrow> piece_wf cd p (piece_index p)"
  by (auto simp: answer_def piece_wf_def piece_size_def piece_index_def MAX_PIECE_LEN_def)

lemma cd_run_effect:
  assumes "cd_ok cd" "cd_hash_ok cd" "\<not> complete cd"
    "\<forall>x \<in> set ps. answer (cd_num cd) (cd_last_size cd) (snd x)" "pds_ok (cd_pdown cd) pds"
  shows "\<exists>cd' pds' fin n. cd_run ps (cd, pds) = Some ((cd', pds'), fin) \<and> cd_ok cd' \<and> n \<le> length ps \<and>
    cd_contents cd' = assemble_all (map snd (take n ps)) (cd_contents cd) \<and> (\<not> fin \<longrightarrow> n = length ps) \<and>
    fin = complete cd' \<and>
    (fin \<and> usingContinuousHashing cd' \<longrightarrow> cd_getHash cd' = sha1_spec (the (ch_data (cd_chunk cd'))))"
  using assms
proof (induction ps arbitrary: cd pds)
  case Nil
  then show ?case
    by (intro exI [of _ cd] exI [of _ pds] exI [of _ False] exI [of _ 0]) (simp add: assemble_all_def)
next
  case (Cons x ps)
  obtain now p where x: "x = (now, p)" by fastforce
  let ?i = "piece_index p"
  have wf: "piece_wf cd p ?i" using answer_wf Cons.prems(4) x by simp
  obtain cd1 pds1 fin ok where s1: "cd_piece now p (cd, pds) = Some ((cd1, pds1), fin, ok)" "cd_ok cd1"
    "cd_num cd1 = cd_num cd" "cd_last_size cd1 = cd_last_size cd" "fin \<longrightarrow> complete cd1"
    "\<not> fin \<longrightarrow> cd_hash_ok cd1 \<and> cd_pdown cd1 = cd_pdown cd" "\<forall>x. pd_peer (pds1 x) = pd_peer (pds x)"
    "cd_contents cd1 = assemble ?i (pc_data p) (cd_contents cd)"
    "cd_contents cd ?i = None \<longrightarrow> fin = complete cd1"
    "fin \<and> usingContinuousHashing cd1 \<longrightarrow> cd_getHash cd1 = sha1_spec (the (ch_data (cd_chunk cd1)))"
    using cd_piece_effect [OF Cons.prems(1,2) wf Cons.prems(5), of now] by (elim exE conjE) rule
  have fin: "fin = complete cd1"
  proof (cases "cd_contents cd ?i")
    case (Some y)
    then have "cd_contents cd1 = cd_contents cd" using s1(8) by (simp add: assemble_def)
    then have "\<not> complete cd1" using Cons.prems(3) s1(3) by (simp add: complete_contents)
    then show ?thesis using s1(5) by blast
  qed (use s1(9) in blast)
  show ?case
  proof (cases fin)
    case True
    then show ?thesis
      using s1 x fin by (intro exI [of _ cd1] exI [of _ pds1] exI [of _ True] exI [of _ 1])
        (simp add: assemble_all_def)
  next
    case False
    have "pds_ok (cd_pdown cd1) pds1"
      using Cons.prems(5) s1(6,7) False by (simp add: pds_ok_def)
    then obtain cd' pds' fin' n where IH: "cd_run ps (cd1, pds1) = Some ((cd', pds'), fin')" "cd_ok cd'"
      "n \<le> length ps" "cd_contents cd' = assemble_all (map snd (take n ps)) (cd_contents cd1)"
      "\<not> fin' \<longrightarrow> n = length ps" "fin' = complete cd'"
      "fin' \<and> usingContinuousHashing cd' \<longrightarrow> cd_getHash cd' = sha1_spec (the (ch_data (cd_chunk cd')))"
      using Cons.IH [OF s1(2), of pds1] s1(3,4,6) False fin Cons.prems(4) by auto
    then show ?thesis
      using s1(1,8) x False
      by (intro exI [of _ cd'] exI [of _ pds'] exI [of _ fin'] exI [of _ "Suc n"])
        (simp add: assemble_all_def)
  qed
qed

section \<open>Properties\<close>

lemma hash_ok_new:
  assumes "0 < ch_size c" "ch_size c < 2 ^ 32" "ch_data c = Some d" "length d = ch_size c"
  shows "cd_hash_ok (ChunkDownload_new c)"
proof (cases "usingContinuousHashing (ChunkDownload_new c)")
  case True
  have st: "cd_in_hash (ChunkDownload_new c) = 0" "cd_hash (ChunkDownload_new c) = sha_start sha_fresh"
    using True by (auto simp: ChunkDownload_new_def Let_def usingContinuousHashing_def split: if_splits)
  have num: "0 < cd_num (ChunkDownload_new c)"
    using cd_ok_new(1) [OF assms] by (simp add: cd_ok_def cd_geometry_def)
  have "hash_state (ChunkDownload_new c) x 0 (sha_start sha_fresh)" for x
    using sha_seen_start num by (simp add: hash_state_def hash_pos_def sha_start_def)
  then show ?thesis
    using st cd_ok_new(4) [OF assms] by (simp add: cd_hash_ok_def)
qed (simp add: cd_hash_ok_def)


definition small_chunk :: chunk where
  "small_chunk = ch_allocate (Chunk_new 3 2) []"






text \<open>The pieces of a message are not checked. A piece whose offset is the size of the chunk
  and that has no data is accepted and counted: one such message completes a chunk of one piece
  of which nothing was downloaded. A piece that ends behind the chunk is copied past its end.\<close>

theorem unchecked_pieces:
  "(\<exists>cd pds'. cd_piece 0 \<lparr>pc_req = Request 3 16384 0 9, pc_data = []\<rparr>
       (ChunkDownload_new (ch_allocate (Chunk_new 3 16384) []), pds) = Some ((cd, pds'), True, True) \<and>
     \<not> bs_get (cd_pieces cd) 0) \<and>
   cd_piece 0 \<lparr>pc_req = Request 3 16380 8 9, pc_data = replicate 8 0\<rparr>
       (ChunkDownload_new (ch_allocate (Chunk_new 3 16384) []), pds) = None"
proof -
  let ?c = "ch_allocate (Chunk_new 3 16384) []"
  let ?cd = "ChunkDownload_new ?c"
  have size: "ch_size ?c = 16384"
    by (simp add: Chunk_new_def ch_allocate_def ch_clear_def)
  obtain d where d: "ch_data ?c = Some d" by (simp add: ch_allocate_def)
  then have ld: "length d = 16384" using length_allocate [OF d] size
    by (simp add: Chunk_new_def)
  have c: "0 < ch_size ?c" "ch_size ?c < 2 ^ 32" "length d = ch_size ?c"
    using size ld by simp_all
  note new = cd_ok_new [OF c(1,2) d c(3)]
  have cd: "cd_num ?cd = 1" "cd_num_downloaded ?cd = 0" "ch_data (cd_chunk ?cd) = Some d"
    using d size by (simp_all add: ChunkDownload_new_def Let_def MAX_PIECE_LEN_def)
  then have bits: "bs_num_bits (cd_pieces ?cd) = 1" using new(1) by (simp add: cd_ok_def)
  have out: "bs_set (cd_pieces ?cd) 1 True = cd_pieces ?cd"
    using bs_set_outside [of "cd_pieces ?cd" 1 True] bits by simp
  have st: "store_piece \<lparr>pc_req = Request 3 16384 0 9, pc_data = []\<rparr> d ?cd =
    Some (?cd\<lparr>cd_chunk := (cd_chunk ?cd)\<lparr>ch_data := Some (memcpy d 16384 [] 0)\<rparr>,
      cd_pieces := cd_pieces ?cd, cd_queue := removeAll 1 (cd_queue ?cd),
      cd_providers := insert 9 (cd_providers ?cd), cd_num_downloaded := 1\<rparr>)"
    using ld cd out by (simp add: store_piece_def Request_def Let_def MAX_PIECE_LEN_def)
  have ov: "store_piece \<lparr>pc_req = Request 3 16380 8 9, pc_data = replicate 8 0\<rparr> d ?cd = None"
    using ld by (simp add: store_piece_def Request_def Let_def)
  have nh: "\<not> usingContinuousHashing (?cd\<lparr>cd_chunk := x, cd_pieces := cd_pieces ?cd, cd_queue := y,
      cd_providers := z, cd_num_downloaded := 1\<rparr>)" for x y z
    using bits by (simp add: usingContinuousHashing_def)
  show ?thesis
    using new(2,3,4) cd st ov nh
    by (simp add: cd_piece_def Request_def Let_def MAX_PIECE_LEN_def)
qed

end
