(* ===== verification/TorrentFiles.thy ===== *)
theory TorrentFiles
  imports BitSets Chunks
begin

text \<open>
  The files of a torrent: \<^verbatim>\<open>libktorrent/torrent/torrentfile.h\<close> and \<^verbatim>\<open>torrentfile.cpp\<close> with the
  base class in \<^verbatim>\<open>interfaces/torrentfileinterface.cpp\<close>, and the part of \<^verbatim>\<open>torrent/torrent.cpp\<close>
  that maps chunks to files. Sizes and offsets are naturals below \<open>2 ^ 64\<close>, chunk indices below
  \<open>2 ^ 32\<close>. Whether a file is multimedia, which the source decides by its name, is a field. The
  percentage signal, a display value, is left out.

  A setter is the list of its assignments, each with the \<^verbatim>\<open>downloadPriorityChanged(new, old)\<close>
  signal it emits, if any: the slots run at the assignment, before the next one.
\<close>

record torrent_file =
  tf_index :: nat
  tf_size :: nat
  tf_off :: nat
  tf_first :: nat
  tf_first_off :: nat
  tf_last :: nat
  tf_last_size :: nat
  tf_priority :: priority
  tf_old :: priority
  tf_missing :: bool
  tf_multimedia :: bool
  tf_emit :: bool
  tf_num_downloaded :: nat
  tf_preview :: bool

text \<open>The constructor computes in 64 bits and keeps chunk indices in 32.\<close>

definition TorrentFile_new :: "nat \<Rightarrow> bool \<Rightarrow> nat \<Rightarrow> nat \<Rightarrow> nat \<Rightarrow> torrent_file option" where
  "TorrentFile_new index multimedia off sz chunk_size =
     (if chunk_size = 0 then None
      else let fst_chunk = (off div chunk_size) mod 2 ^ 32;
               lst_chunk = (if sz > 0 then (((off + sz - 1) mod 2 ^ 64) div chunk_size) mod 2 ^ 32 else fst_chunk)
           in Some \<lparr>tf_index = index, tf_size = sz, tf_off = off, tf_first = fst_chunk,
                tf_first_off = off mod chunk_size, tf_last = lst_chunk,
                tf_last_size = nat ((int (off + sz) - int (lst_chunk * chunk_size)) mod 2 ^ 64),
                tf_priority = NORMAL_PRIORITY, tf_old = NORMAL_PRIORITY, tf_missing = False,
                tf_multimedia = multimedia, tf_emit = True, tf_num_downloaded = 0, tf_preview = False\<rparr>)"

definition tf_doNotDownload :: "torrent_file \<Rightarrow> bool" where
  "tf_doNotDownload tf \<longleftrightarrow> tf_priority tf = EXCLUDED"

text \<open>A step: the old priority and the priority it assigns, and whether the signal with these two
  values is emitted.\<close>

type_synonym tf_step = "priority \<times> priority \<times> bool"

definition tf_apply :: "tf_step \<Rightarrow> torrent_file \<Rightarrow> torrent_file" where
  "tf_apply st tf = (case st of (old, prio, _) \<Rightarrow> tf\<lparr>tf_old := old, tf_priority := prio\<rparr>)"

text \<open>One branch of \<^verbatim>\<open>setDoNotDownload\<close>: the old priority is only remembered when signals are on.\<close>

definition tf_change :: "torrent_file \<Rightarrow> priority \<Rightarrow> tf_step list" where
  "tf_change tf p = [(if tf_emit tf then tf_priority tf else tf_old tf, p, tf_emit tf)]"

definition tf_setDoNotDownload :: "torrent_file \<Rightarrow> bool \<Rightarrow> tf_step list" where
  "tf_setDoNotDownload tf dnd =
     (if tf_priority tf \<noteq> EXCLUDED \<and> dnd then tf_change tf EXCLUDED
      else if tf_priority tf = EXCLUDED \<and> \<not> dnd then tf_change tf NORMAL_PRIORITY
      else [])"

definition tf_emitDownloadStatusChanged :: "torrent_file \<Rightarrow> (priority \<times> priority) option" where
  "tf_emitDownloadStatusChanged tf =
     (if tf_priority tf \<noteq> tf_old tf then Some (tf_priority tf, tf_old tf) else None)"

definition tf_setPriority :: "torrent_file \<Rightarrow> priority \<Rightarrow> tf_step list" where
  "tf_setPriority tf newpriority =
     (if tf_priority tf \<noteq> newpriority then
        let st = (if tf_priority tf = EXCLUDED then tf_setDoNotDownload tf False else []);
            tf1 = fold tf_apply st tf
        in st @ (if newpriority = EXCLUDED then tf_setDoNotDownload tf1 True
                 else [(tf_priority tf1, newpriority, True)])
      else [])"

lemma tf_setPriority_sets: "tf_priority (fold tf_apply (tf_setPriority tf p) tf) = p"
  by (auto simp: tf_setPriority_def tf_setDoNotDownload_def tf_change_def tf_apply_def Let_def)

definition tf_fileOffset :: "torrent_file \<Rightarrow> nat \<Rightarrow> nat \<Rightarrow> nat" where
  "tf_fileOffset tf cindex chunk_size =
     (if tf_first_off tf = 0 then (cindex - tf_first tf) * chunk_size
      else (if cindex - tf_first tf > 0 then (cindex - tf_first tf - 1) * chunk_size else 0) +
           (if cindex > 0 then chunk_size - tf_first_off tf else 0))"

text \<open>\<^verbatim>\<open>updateNumDownloadedChunks\<close> with the value of the \<^verbatim>\<open>previewAvailable\<close> signal, if emitted.\<close>

definition tf_updateNumDownloadedChunks :: "bitset \<Rightarrow> torrent_file \<Rightarrow> torrent_file \<times> bool option" where
  "tf_updateNumDownloadedChunks bs tf =
     (let is = [tf_first tf..<Suc (tf_last tf)];
          n = length (filter (bs_get bs) is);
          p = (\<forall>i \<in> set is. \<not> bs_get bs i \<longrightarrow> \<not> (i = tf_first tf \<or> i = tf_first tf + 1));
          pv = (tf_multimedia tf \<and> p)
      in (tf\<lparr>tf_num_downloaded := n, tf_preview := pv\<rparr>,
          if tf_preview tf \<noteq> pv then Some pv else None))"

text \<open>\<^verbatim>\<open>Torrent::calcChunkPos\<close> and \<^verbatim>\<open>Torrent::updateFilePercentage\<close>; \<open>n\<close> is the number of chunks.\<close>

definition calcChunkPos :: "nat \<Rightarrow> torrent_file list \<Rightarrow> nat \<Rightarrow> nat list" where
  "calcChunkPos n files chunk =
     (if chunk \<ge> n \<or> files = [] then []
      else map tf_index (filter (\<lambda>f. chunk \<ge> tf_first f \<and> chunk \<le> tf_last f \<and> tf_size f \<noteq> 0) files))"

definition updateFilePercentage_all :: "bitset \<Rightarrow> torrent_file list \<Rightarrow> torrent_file list" where
  "updateFilePercentage_all bs files = map (\<lambda>f. fst (tf_updateNumDownloadedChunks bs f)) files"

definition updateFilePercentage :: "nat \<Rightarrow> nat \<Rightarrow> bitset \<Rightarrow> torrent_file list \<Rightarrow> torrent_file list" where
  "updateFilePercentage n chunk bs files =
     fold (\<lambda>k fs. if k < length fs then fs[k := fst (tf_updateNumDownloadedChunks bs (fs ! k))] else fs)
       (calcChunkPos n files chunk) files"

section \<open>Layout\<close>

text \<open>The files as \<^verbatim>\<open>Torrent::load\<close> lays them out: numbered in order, one behind the other.\<close>

fun laid_out :: "nat \<Rightarrow> nat \<Rightarrow> nat \<Rightarrow> torrent_file list \<Rightarrow> bool" where
  "laid_out cs k off [] \<longleftrightarrow> True"
| "laid_out cs k off (f # fs) \<longleftrightarrow> tf_index f = k \<and> tf_off f = off \<and> tf_first f = off div cs \<and>
     tf_last f = (if tf_size f > 0 then (off + tf_size f - 1) div cs else off div cs) \<and>
     laid_out cs (Suc k) (off + tf_size f) fs"

lemma laid_out_index: "laid_out cs k off fs \<Longrightarrow> i < length fs \<Longrightarrow> tf_index (fs ! i) = k + i"
proof (induction fs arbitrary: k off i)
  case (Cons f fs)
  then show ?case by (cases i) auto
qed simp

lemma laid_out_chunks:
  "laid_out cs k off fs \<Longrightarrow> i < length fs \<Longrightarrow>
   tf_first (fs ! i) = tf_off (fs ! i) div cs \<and>
   (0 < tf_size (fs ! i) \<longrightarrow> tf_last (fs ! i) = (tf_off (fs ! i) + tf_size (fs ! i) - 1) div cs) \<and>
   tf_first (fs ! i) \<le> tf_last (fs ! i) \<and> off \<le> tf_off (fs ! i)"
proof (induction fs arbitrary: k off i)
  case (Cons f fs)
  show ?case
  proof (cases i)
    case 0
    then show ?thesis using Cons.prems by (auto intro: div_le_mono)
  next
    case (Suc j)
    then have "laid_out cs (Suc k) (off + tf_size f) fs" "j < length fs"
      using Cons.prems by simp_all
    from Cons.IH [OF this] show ?thesis using Suc by simp
  qed
qed simp

lemma laid_out_order:
  "laid_out cs k off fs \<Longrightarrow> i < j \<Longrightarrow> j < length fs \<Longrightarrow>
   tf_off (fs ! i) + tf_size (fs ! i) \<le> tf_off (fs ! j)"
proof (induction fs arbitrary: k off i j)
  case (Cons f fs)
  then obtain j' where j: "j = Suc j'" by (cases j) auto
  have l: "laid_out cs (Suc k) (off + tf_size f) fs" "j' < length fs" using Cons.prems j by simp_all
  show ?case
  proof (cases i)
    case 0
    then show ?thesis using laid_out_chunks [OF l] Cons.prems j by simp
  next
    case (Suc i')
    then show ?thesis using Cons.IH [OF l(1), of i' j'] Cons.prems j l(2) by simp
  qed
qed simp

text \<open>The chunks strictly inside a file belong to it alone; two files with data only meet at the
  last chunk of the first and the first chunk of the second.\<close>

lemma laid_out_meet:
  assumes l: "laid_out cs k off fs" and ij: "i < j" "j < length fs"
    and sz: "0 < tf_size (fs ! i)" "0 < tf_size (fs ! j)" and cs: "0 < cs"
  shows "tf_last (fs ! i) \<le> tf_first (fs ! j)"
proof -
  have i: "i < length fs" using ij by simp
  have "tf_off (fs ! i) + tf_size (fs ! i) - 1 \<le> tf_off (fs ! j)"
    using laid_out_order [OF l ij] by simp
  then show ?thesis
    using laid_out_chunks [OF l i] laid_out_chunks [OF l ij(2)] sz by (simp add: div_le_mono)
qed

lemma in_calcChunkPos:
  assumes "laid_out cs 0 0 fs"
  shows "k \<in> set (calcChunkPos n fs c) \<longleftrightarrow>
    c < n \<and> k < length fs \<and> tf_first (fs ! k) \<le> c \<and> c \<le> tf_last (fs ! k) \<and> tf_size (fs ! k) \<noteq> 0"
proof -
  let ?P = "\<lambda>f. tf_first f \<le> c \<and> c \<le> tf_last f \<and> tf_size f \<noteq> 0"
  have idx: "i < length fs \<Longrightarrow> tf_index (fs ! i) = i" for i using laid_out_index [OF assms] by simp
  have "k \<in> tf_index ` {f \<in> set fs. ?P f} \<longleftrightarrow> k < length fs \<and> ?P (fs ! k)"
  proof
    assume "k \<in> tf_index ` {f \<in> set fs. ?P f}"
    then obtain i where "i < length fs" "k = tf_index (fs ! i)" "?P (fs ! i)" by (auto simp: in_set_conv_nth)
    then show "k < length fs \<and> ?P (fs ! k)" using idx by simp
  next
    assume "k < length fs \<and> ?P (fs ! k)"
    then show "k \<in> tf_index ` {f \<in> set fs. ?P f}"
      using idx [of k] by (intro image_eqI [of _ _ "fs ! k"]) auto
  qed
  then show ?thesis by (auto simp: calcChunkPos_def)
qed

lemma distinct_calcChunkPos:
  assumes "laid_out cs 0 0 fs"
  shows "distinct (calcChunkPos n fs c)"
proof -
  have "map tf_index fs = [0..<length fs]"
    using laid_out_index [OF assms] by (intro nth_equalityI) auto
  then have "distinct (map tf_index fs)" by simp
  then show ?thesis by (auto simp: calcChunkPos_def distinct_map_filter)
qed

text \<open>The offset of a chunk in its file, for every chunk but a shared first one.\<close>

lemma fileOffset_inside:
  assumes "TorrentFile_new k mm off sz cs = Some tf" "tf_first tf < c \<or> tf_first_off tf = 0 \<and> tf_first tf \<le> c"
    and "off div cs < 2 ^ 32"
  shows "int (tf_fileOffset tf c cs) = int (c * cs) - int off"
proof -
  have cs: "0 < cs" using assms(1) by (simp add: TorrentFile_new_def split: if_splits)
  have f: "tf_first tf = off div cs" "tf_first_off tf = off mod cs"
    using assms(1,3) by (auto simp: TorrentFile_new_def Let_def split: if_splits)
  have off: "off = off div cs * cs + off mod cs" by simp
  have lt: "off mod cs < cs" using cs by simp
  have "int off = int (off div cs) * int cs + int (off mod cs)"
    by (metis off of_nat_add of_nat_mult)
  moreover obtain d where d: "c = off div cs + d" "off mod cs = 0 \<or> 0 < d"
    using assms(2) f by (metis le_iff_add less_imp_le_nat less_add_same_cancel1)
  moreover have "int (d - 1) * int cs + (int cs - int (off mod cs)) = int d * int cs - int (off mod cs)"
    if "0 < d" using that by (cases d) (simp_all add: algebra_simps)
  ultimately show ?thesis
    using lt by (auto simp: tf_fileOffset_def f algebra_simps of_nat_diff)
qed

end
