(* ===== verification/FileCache.thy ===== *)
theory FileCache
  imports Chunks
begin

text \<open>
  Where chunks live on disk: \<^verbatim>\<open>libktorrent/torrent/cachefile.cpp\<close> and
  \<^verbatim>\<open>singlefilecache.cpp\<close>, behind the virtual interface of \<^verbatim>\<open>cache.h\<close>, which here is a record of
  functions. An \<^verbatim>\<open>Error\<close> that is thrown is \<open>None\<close>. The file is its bytes; \<^verbatim>\<open>cf_mmap\<close> are the
  answers of the operating system to the coming \<^verbatim>\<open>mmap\<close> calls (when the list is used up they fail),
  the other system calls succeed. A shared mapping is a copy of its range that is written back
  when it is unmapped; the chunks of a torrent do not overlap, so nobody else sees the range in
  between. Opening and closing the descriptor behind the scenes, and mapping at page boundaries,
  do not show.
\<close>

datatype cf_mode = READ | WRITE | RW

record cache_file =
  cf_read_only :: bool
  cf_max :: nat
  cf_data :: bytes
  cf_mmap :: "bool list"

text \<open>The loop of \<^verbatim>\<open>growFile\<close>: zeros, written in portions of 1024 bytes.\<close>

function grow_loop :: "nat \<Rightarrow> bytes \<Rightarrow> bytes" where
  "grow_loop to_write d =
     (if to_write > 0 then
        let nb = (if to_write > 1024 then 1024 else to_write)
        in grow_loop (to_write - nb) (d @ replicate nb 0)
      else d)"
  by pat_completeness auto
termination by (relation "measure fst") auto

declare grow_loop.simps [simp del]

definition growFile :: "nat \<Rightarrow> cache_file \<Rightarrow> cache_file option" where
  "growFile to_write cf =
     (if cf_read_only cf then None else Some (cf\<lparr>cf_data := grow_loop to_write (cf_data cf)\<rparr>))"

definition cf_pop :: "cache_file \<Rightarrow> cache_file \<times> bool" where
  "cf_pop cf = (case cf_mmap cf of [] \<Rightarrow> (cf, False) | b # bs \<Rightarrow> (cf\<lparr>cf_mmap := bs\<rparr>, b))"

definition cf_map :: "cache_file \<Rightarrow> nat \<Rightarrow> nat \<Rightarrow> cf_mode \<Rightarrow> (cache_file \<times> bytes option) option" where
  "cf_map cf off sz mode =
     (if cf_read_only cf \<and> mode \<noteq> READ then None
      else if off + sz > cf_max cf then Some (cf, None)
      else case (if off + sz > length (cf_data cf) then growFile (off + sz - length (cf_data cf)) cf
                 else Some cf) of
        None \<Rightarrow> None
      | Some cf \<Rightarrow> (case cf_pop cf of (cf, granted) \<Rightarrow>
          Some (cf, if granted then Some (take sz (drop off (cf_data cf))) else None)))"

text \<open>Putting bytes into the file at an offset; a gap behind the end of the file, which a mapping
  never has, because \<^verbatim>\<open>map\<close> grows the file, would be filled with zeros.\<close>

definition cf_put :: "bytes \<Rightarrow> nat \<Rightarrow> cache_file \<Rightarrow> cache_file" where
  "cf_put d off cf =
     cf\<lparr>cf_data := take off (cf_data cf @ replicate (off - length (cf_data cf)) 0) @ d @
          drop (off + length d) (cf_data cf)\<rparr>"

definition cf_unmap :: "bytes \<Rightarrow> nat \<Rightarrow> cache_file \<Rightarrow> cache_file" where
  "cf_unmap d off cf = (if cf_read_only cf then cf else cf_put d off cf)"

definition cf_read :: "cache_file \<Rightarrow> nat \<Rightarrow> nat \<Rightarrow> bytes option" where
  "cf_read cf sz off =
     (if off \<ge> length (cf_data cf) \<or> off \<ge> cf_max cf then None
      else if length (take sz (drop off (cf_data cf))) \<noteq> sz then None
      else Some (take sz (drop off (cf_data cf))))"

definition cf_write :: "bytes \<Rightarrow> nat \<Rightarrow> cache_file \<Rightarrow> cache_file option" where
  "cf_write d off cf =
     (if cf_read_only cf then None
      else case (if length (cf_data cf) < off then growFile (off - length (cf_data cf)) cf else Some cf) of
        None \<Rightarrow> None
      | Some cf \<Rightarrow> Some (cf_put d off cf))"

section \<open>The cache interface\<close>

record 'k cache_ops =
  co_load :: "'k \<Rightarrow> chunk \<Rightarrow> ('k \<times> chunk) option"
  co_save :: "'k \<Rightarrow> chunk \<Rightarrow> ('k \<times> chunk) option"
  co_prep :: "'k \<Rightarrow> chunk \<Rightarrow> ('k \<times> chunk) option"

text \<open>What the chunk manager relies on: \<open>stored k i\<close> is what the disk holds of chunk \<open>i\<close>, if it
  holds all of it, \<open>fits k i n\<close> says that the torrent has a chunk \<open>i\<close> of that size and \<open>mappable k i\<close>
  that it can be mapped. Saving stores the data
  of a chunk in memory and leaves the other chunks alone, loading brings it back.\<close>

fun save_all :: "'k cache_ops \<Rightarrow> 'k \<Rightarrow> chunk list \<Rightarrow> 'k option" where
  "save_all ops k [] = Some k"
| "save_all ops k (c # cs) = (case co_save ops k c of None \<Rightarrow> None | Some (k', _) \<Rightarrow> save_all ops k' cs)"

definition in_memory :: "chunk \<Rightarrow> bytes \<Rightarrow> bool" where
  "in_memory c d \<longleftrightarrow> (ch_status c = MMAPPED \<or> ch_status c = BUFFERED) \<and> ch_data c = Some d \<and> length d = ch_size c"

locale chunk_cache =
  fixes ops :: "'k cache_ops"
    and stored :: "'k \<Rightarrow> nat \<Rightarrow> bytes option"
    and fits :: "'k \<Rightarrow> nat \<Rightarrow> nat \<Rightarrow> bool"
    and mappable :: "'k \<Rightarrow> nat \<Rightarrow> bool"
    and ok :: "'k \<Rightarrow> bool"
  assumes save_memory: "ok k \<Longrightarrow> fits k (ch_index c) (ch_size c) \<Longrightarrow> ch_status c = MMAPPED \<or> ch_status c = BUFFERED \<Longrightarrow>
      (ch_status c = MMAPPED \<longrightarrow> mappable k (ch_index c)) \<Longrightarrow> ch_data c = Some d \<Longrightarrow> length d = ch_size c \<Longrightarrow>
      \<exists>k'. co_save ops k c = Some (k', (ch_clear c)\<lparr>ch_status := ON_DISK\<rparr>) \<and> ok k' \<and> fits k' = fits k \<and> mappable k' = mappable k \<and>
        stored k' (ch_index c) = Some d \<and>
        (\<forall>j x. j \<noteq> ch_index c \<longrightarrow> stored k j = Some x \<longrightarrow> stored k' j = Some x)"
    and load_stored: "ok k \<Longrightarrow> fits k (ch_index c) (ch_size c) \<Longrightarrow> stored k (ch_index c) = Some d \<Longrightarrow>
      \<exists>k' st. co_load ops k c = Some (k', c\<lparr>ch_status := st, ch_data := Some d\<rparr>) \<and>
        (st = MMAPPED \<and> mappable k (ch_index c) \<or> st = BUFFERED) \<and> ok k' \<and> fits k' = fits k \<and>
        mappable k' = mappable k \<and> stored k' = stored k"
    and prep_fresh: "ok k \<Longrightarrow> fits k (ch_index c) (ch_size c) \<Longrightarrow>
      \<exists>k' st d. co_prep ops k c = Some (k', c\<lparr>ch_status := st, ch_data := Some d\<rparr>) \<and>
        (st = MMAPPED \<and> mappable k (ch_index c) \<or> st = BUFFERED) \<and> length d = ch_size c \<and> ok k' \<and>
        fits k' = fits k \<and> mappable k' = mappable k \<and>
        (\<forall>j x. stored k j = Some x \<longrightarrow> stored k' j = Some x)"
    and stored_size: "ok k \<Longrightarrow> fits k i n \<Longrightarrow> stored k i = Some d \<Longrightarrow> length d = n"
begin

lemma save_all_keeps:
  assumes "ok k" "stored k i = Some d"
    "\<forall>c \<in> set cs. fits k (ch_index c) (ch_size c) \<and> ch_index c \<noteq> i \<and> (\<exists>x. in_memory c x) \<and>
       (ch_status c = MMAPPED \<longrightarrow> mappable k (ch_index c))"
  shows "\<exists>k'. save_all ops k cs = Some k' \<and> ok k' \<and> fits k' = fits k \<and> stored k' i = Some d"
  using assms
proof (induction cs arbitrary: k)
  case (Cons c cs)
  obtain x where x: "ch_status c = MMAPPED \<or> ch_status c = BUFFERED" "ch_data c = Some x" "length x = ch_size c"
    using Cons.prems(3) by (auto simp: in_memory_def)
  have m: "fits k (ch_index c) (ch_size c)" "i \<noteq> ch_index c" "ch_status c = MMAPPED \<longrightarrow> mappable k (ch_index c)"
    using Cons.prems(3) by auto
  then obtain k1 where k1: "co_save ops k c = Some (k1, (ch_clear c)\<lparr>ch_status := ON_DISK\<rparr>)" "ok k1"
    "fits k1 = fits k" "stored k1 i = Some d" "mappable k1 = mappable k"
    using save_memory [OF Cons.prems(1) m(1) x(1) m(3) x(2,3)] Cons.prems(2) by blast
  then show ?case using Cons.IH [OF k1(2,4)] Cons.prems(3) by auto
qed simp

text \<open>A chunk that was saved comes back with its data when it is loaded, whatever other chunks
  were saved in between.\<close>

lemma save_others_load:
  assumes "ok k" "fits k (ch_index c) (ch_size c)" "in_memory c d" "ch_status c = MMAPPED \<longrightarrow> mappable k (ch_index c)"
    "\<forall>e \<in> set cs. fits k (ch_index e) (ch_size e) \<and> ch_index e \<noteq> ch_index c \<and> (\<exists>x. in_memory e x) \<and>
       (ch_status e = MMAPPED \<longrightarrow> mappable k (ch_index e))"
  shows "\<exists>k1 c1 k2 k3 st. co_save ops k c = Some (k1, c1) \<and> ch_data c1 = None \<and> save_all ops k1 cs = Some k2 \<and>
    co_load ops k2 c1 = Some (k3, c1\<lparr>ch_status := st, ch_data := Some d\<rparr>) \<and> (st = MMAPPED \<or> st = BUFFERED)"
proof -
  let ?c1 = "(ch_clear c)\<lparr>ch_status := ON_DISK\<rparr>"
  obtain k1 where k1: "co_save ops k c = Some (k1, ?c1)" "ok k1" "fits k1 = fits k" "stored k1 (ch_index c) = Some d"
    "mappable k1 = mappable k"
    using save_memory [OF assms(1,2) _ assms(4), of d] assms(3) by (auto simp: in_memory_def)
  obtain k2 where k2: "save_all ops k1 cs = Some k2" "ok k2" "fits k2 = fits k1" "stored k2 (ch_index c) = Some d"
    using save_all_keeps [OF k1(2,4), of cs] assms(5) k1(3,5) by auto
  have i: "ch_index ?c1 = ch_index c" "ch_size ?c1 = ch_size c" "ch_data ?c1 = None"
    by (simp_all add: ch_clear_def)
  obtain k3 st where "co_load ops k2 ?c1 = Some (k3, ?c1\<lparr>ch_status := st, ch_data := Some d\<rparr>)"
      "st = MMAPPED \<or> st = BUFFERED"
    using load_stored [OF k2(2), of ?c1 d] k2(3,4) k1(3) assms(2) i by auto
  then show ?thesis using k1(1) k2(1) i(3) by blast
qed

end

section \<open>The cache of a single file torrent\<close>

text \<open>\<open>sf_file\<close> is the \<^verbatim>\<open>fd\<close> pointer, null until the cache is opened; \<open>sf_fresh\<close> is what
  newly allocated memory contains.\<close>

record single_file_cache =
  sf_file :: "cache_file option"
  sf_failures :: nat
  sf_chunk_size :: nat
  sf_fresh :: bytes

definition sf_prep :: "single_file_cache \<Rightarrow> chunk \<Rightarrow> (single_file_cache \<times> chunk) option" where
  "sf_prep k c =
     (if sf_failures k \<ge> 3 then Some (k, (ch_allocate c (sf_fresh k))\<lparr>ch_status := BUFFERED\<rparr>)
      else case sf_file k of None \<Rightarrow> None
      | Some fd \<Rightarrow> (case cf_map fd (ch_index c * sf_chunk_size k) (ch_size c) RW of
          None \<Rightarrow> None
        | Some (fd, None) \<Rightarrow>
            Some (k\<lparr>sf_file := Some fd, sf_failures := sf_failures k + 1\<rparr>,
                  (ch_allocate c (sf_fresh k))\<lparr>ch_status := BUFFERED\<rparr>)
        | Some (fd, Some buf) \<Rightarrow> Some (k\<lparr>sf_file := Some fd\<rparr>, ch_setData c (Some buf) MMAPPED)))"

definition sf_load_buffered :: "single_file_cache \<Rightarrow> cache_file \<Rightarrow> chunk \<Rightarrow> (single_file_cache \<times> chunk) option" where
  "sf_load_buffered k fd c =
     (case cf_read fd (ch_size c) (ch_index c * sf_chunk_size k) of
        None \<Rightarrow> None
      | Some d \<Rightarrow> Some (k\<lparr>sf_file := Some fd,
            sf_failures := (if sf_failures k < 3 then sf_failures k + 1 else sf_failures k)\<rparr>,
          (ch_allocate c d)\<lparr>ch_status := BUFFERED\<rparr>))"

definition sf_load :: "single_file_cache \<Rightarrow> chunk \<Rightarrow> (single_file_cache \<times> chunk) option" where
  "sf_load k c =
     (case sf_file k of None \<Rightarrow> None
      | Some fd \<Rightarrow>
          (if sf_failures k \<ge> 3 then sf_load_buffered k fd c
           else case cf_map fd (ch_index c * sf_chunk_size k) (ch_size c) READ of
             None \<Rightarrow> None
           | Some (fd, None) \<Rightarrow> sf_load_buffered k fd c
           | Some (fd, Some buf) \<Rightarrow> Some (k\<lparr>sf_file := Some fd\<rparr>, ch_setData c (Some buf) MMAPPED)))"

definition sf_save :: "single_file_cache \<Rightarrow> chunk \<Rightarrow> (single_file_cache \<times> chunk) option" where
  "sf_save k c =
     (if ch_status c = MMAPPED then
        (case (sf_file k, ch_data c) of
           (Some fd, Some d) \<Rightarrow>
             Some (k\<lparr>sf_file := Some (cf_unmap d (ch_index c * sf_chunk_size k) fd)\<rparr>,
                   (ch_clear c)\<lparr>ch_status := ON_DISK\<rparr>)
         | _ \<Rightarrow> None)
      else if ch_status c = BUFFERED then
        (case (sf_file k, ch_data c) of
           (Some fd, Some d) \<Rightarrow>
             (case cf_write d (ch_index c * sf_chunk_size k) fd of
                None \<Rightarrow> None
              | Some fd \<Rightarrow> Some (k\<lparr>sf_file := Some fd\<rparr>, (ch_clear c)\<lparr>ch_status := ON_DISK\<rparr>))
         | _ \<Rightarrow> None)
      else Some (k, c))"

definition sf_ops :: "single_file_cache cache_ops" where
  "sf_ops = \<lparr>co_load = sf_load, co_save = sf_save, co_prep = sf_prep\<rparr>"

definition sf_open :: "cache_file \<Rightarrow> single_file_cache \<Rightarrow> single_file_cache" where
  "sf_open fd k = (if sf_file k \<noteq> None then k else k\<lparr>sf_file := Some fd\<rparr>)"

definition sf_close :: "single_file_cache \<Rightarrow> single_file_cache" where
  "sf_close k = k\<lparr>sf_file := None\<rparr>"

section \<open>Laws\<close>

lemma grow_loop_eq: "grow_loop n d = d @ replicate n 0"
proof (induction n d rule: grow_loop.induct)
  case (1 n d)
  show ?case
  proof (cases "n > 0")
    case True
    then show ?thesis
      using "1.IH" [OF True refl] by (subst grow_loop.simps) (simp add: Let_def replicate_add [symmetric])
  qed (simp add: grow_loop.simps)
qed

definition sf_stored :: "single_file_cache \<Rightarrow> nat \<Rightarrow> bytes option" where
  "sf_stored k i = (case sf_file k of None \<Rightarrow> None | Some fd \<Rightarrow>
     (let off = i * sf_chunk_size k; sz = min (sf_chunk_size k) (cf_max fd - off)
      in if 0 < sz \<and> off + sz \<le> length (cf_data fd) then Some (take sz (drop off (cf_data fd))) else None))"

definition sf_fits :: "single_file_cache \<Rightarrow> nat \<Rightarrow> nat \<Rightarrow> bool" where
  "sf_fits k i n \<longleftrightarrow> (case sf_file k of None \<Rightarrow> False | Some fd \<Rightarrow>
     0 < n \<and> n = min (sf_chunk_size k) (cf_max fd - i * sf_chunk_size k) \<and> i * sf_chunk_size k + n \<le> cf_max fd)"

definition sf_ok :: "single_file_cache \<Rightarrow> bool" where
  "sf_ok k \<longleftrightarrow> (case sf_file k of None \<Rightarrow> False | Some fd \<Rightarrow> \<not> cf_read_only fd)"

text \<open>Ranges of the file before and after a write.\<close>

lemma length_put: "length (cf_data (cf_put d off cf)) = max (length (cf_data cf)) (off + length d)"
  by (simp add: cf_put_def)

lemma slice_put_same: "take (length d) (drop off (cf_data (cf_put d off cf))) = d"
  by (simp add: cf_put_def)

lemma slice_put_other:
  assumes "o2 + n \<le> length (cf_data cf)" "o2 + n \<le> off \<or> off + length d \<le> o2"
  shows "take n (drop o2 (cf_data (cf_put d off cf))) = take n (drop o2 (cf_data cf))"
proof (rule nth_equalityI)
  show "length (take n (drop o2 (cf_data (cf_put d off cf)))) = length (take n (drop o2 (cf_data cf)))"
    using assms by (simp add: length_put)
  fix i assume "i < length (take n (drop o2 (cf_data (cf_put d off cf))))"
  then have i: "i < n" by simp
  show "take n (drop o2 (cf_data (cf_put d off cf))) ! i = take n (drop o2 (cf_data cf)) ! i"
    using assms i by (auto simp: cf_put_def nth_append)
qed

lemma slice_grow: "o2 + n \<le> length d \<Longrightarrow> take n (drop o2 (grow_loop k d)) = take n (drop o2 d)"
  by (simp add: grow_loop_eq)

lemma chunk_ranges_disjoint:
  assumes "i \<noteq> j" "m \<le> cs" "n \<le> cs"
  shows "i * cs + m \<le> j * cs \<or> j * cs + n \<le> (i * cs :: nat)"
proof (cases "i < j")
  case True
  then have "Suc i * cs \<le> j * cs" by (intro mult_le_mono1) simp
  then show ?thesis using assms by simp
next
  case False
  then have "Suc j * cs \<le> i * cs" using assms by (intro mult_le_mono1) simp
  then show ?thesis using assms by simp
qed

lemma cf_pop_fields [simp]:
  "cf_read_only (fst (cf_pop cf)) = cf_read_only cf" "cf_max (fst (cf_pop cf)) = cf_max cf"
  "cf_data (fst (cf_pop cf)) = cf_data cf"
  by (simp_all add: cf_pop_def split: list.split)

text \<open>A successful write or unmapping of a chunk, described on the stored chunks.\<close>

lemma sf_stored_Some:
  "sf_file k = Some fd \<Longrightarrow> sf_stored k i = Some x \<longleftrightarrow>
   (let n = min (sf_chunk_size k) (cf_max fd - i * sf_chunk_size k)
    in 0 < n \<and> i * sf_chunk_size k + n \<le> length (cf_data fd) \<and> x = take n (drop (i * sf_chunk_size k) (cf_data fd)))"
  by (auto simp: sf_stored_def Let_def)

lemma sf_fits_file:
  "sf_file k = Some fd \<Longrightarrow> sf_fits k i n \<longleftrightarrow>
   0 < n \<and> n = min (sf_chunk_size k) (cf_max fd - i * sf_chunk_size k) \<and> i * sf_chunk_size k + n \<le> cf_max fd"
  by (simp add: sf_fits_def)

lemma stored_put:
  assumes fd: "sf_file k = Some fd" and fits: "sf_fits k i (length d)"
  defines "k' \<equiv> k\<lparr>sf_file := Some (cf_put d (i * sf_chunk_size k) fd)\<rparr>"
  shows "sf_stored k' i = Some d" "j \<noteq> i \<Longrightarrow> sf_stored k j = Some x \<Longrightarrow> sf_stored k' j = Some x"
    "sf_fits k' = sf_fits k"
proof -
  have fd': "sf_file k' = Some (cf_put d (i * sf_chunk_size k) fd)" "sf_chunk_size k' = sf_chunk_size k"
    by (simp_all add: k'_def)
  have mx: "cf_max (cf_put d (i * sf_chunk_size k) fd) = cf_max fd" by (simp add: cf_put_def)
  note len = fits [unfolded sf_fits_file [OF fd]]
  show "sf_stored k' i = Some d"
    using len unfolding sf_stored_Some [OF fd'(1)] fd'(2) mx Let_def
    by (metis length_put max.cobounded2 slice_put_same)
  show "sf_fits k' = sf_fits k"
    by (intro ext) (simp only: sf_fits_file [OF fd] sf_fits_file [OF fd'(1)] fd'(2) mx)
  show "sf_stored k' j = Some x" if j: "j \<noteq> i" "sf_stored k j = Some x"
  proof -
    let ?n = "min (sf_chunk_size k) (cf_max fd - j * sf_chunk_size k)"
    have x: "0 < ?n" "j * sf_chunk_size k + ?n \<le> length (cf_data fd)"
      "x = take ?n (drop (j * sf_chunk_size k) (cf_data fd))"
      using j(2) by (simp_all only: sf_stored_Some [OF fd] Let_def)
    have "j * sf_chunk_size k + ?n \<le> i * sf_chunk_size k \<or> i * sf_chunk_size k + length d \<le> j * sf_chunk_size k"
      using chunk_ranges_disjoint [OF j(1), of ?n "sf_chunk_size k" "length d"] len by simp
    then have "take ?n (drop (j * sf_chunk_size k) (cf_data (cf_put d (i * sf_chunk_size k) fd))) = x"
      using slice_put_other [OF x(2)] x(3) by simp
    then show ?thesis
      using x(1,2) unfolding sf_stored_Some [OF fd'(1)] fd'(2) mx Let_def length_put by simp
  qed
qed

lemma cf_map_spec:
  assumes "\<not> cf_read_only fd" "off + n \<le> cf_max fd"
  shows "\<exists>fd' buf. cf_map fd off n mode = Some (fd', buf) \<and> \<not> cf_read_only fd' \<and> cf_max fd' = cf_max fd \<and>
    cf_data fd' = cf_data fd @ replicate (off + n - length (cf_data fd)) 0 \<and>
    (buf \<noteq> None \<longrightarrow> buf = Some (take n (drop off (cf_data fd'))))"
proof -
  obtain fd1 where fd1: "(if off + n > length (cf_data fd) then growFile (off + n - length (cf_data fd)) fd
      else Some fd) = Some fd1" "\<not> cf_read_only fd1" "cf_max fd1 = cf_max fd"
      "cf_data fd1 = cf_data fd @ replicate (off + n - length (cf_data fd)) 0"
    using assms(1) by (cases "off + n > length (cf_data fd)") (auto simp: growFile_def grow_loop_eq)
  have "cf_map fd off n mode =
    Some (fst (cf_pop fd1), if snd (cf_pop fd1) then Some (take n (drop off (cf_data (fst (cf_pop fd1))))) else None)"
    using assms fd1(1) by (simp add: cf_map_def split_def)
  then show ?thesis using fd1
    by (intro exI [of _ "fst (cf_pop fd1)"] exI [of _ "if snd (cf_pop fd1) then Some (take n (drop off (cf_data (fst (cf_pop fd1))))) else None"]) simp
qed

lemma stored_grow:
  assumes "sf_file k = Some fd" "sf_file k' = Some fd'" "sf_chunk_size k' = sf_chunk_size k"
    "cf_max fd' = cf_max fd" "cf_data fd' = cf_data fd @ z"
  shows "sf_stored k j = Some x \<Longrightarrow> sf_stored k' j = Some x" "sf_fits k' = sf_fits k"
    "z = [] \<Longrightarrow> sf_stored k' = sf_stored k"
proof -
  show "sf_stored k j = Some x \<Longrightarrow> sf_stored k' j = Some x"
    unfolding sf_stored_Some [OF assms(1)] sf_stored_Some [OF assms(2)] assms(3-5) Let_def by simp
  show "sf_fits k' = sf_fits k"
    by (intro ext) (simp only: sf_fits_file [OF assms(1)] sf_fits_file [OF assms(2)] assms(3,4))
  show "z = [] \<Longrightarrow> sf_stored k' = sf_stored k"
    by (intro ext) (simp add: sf_stored_def assms(1-4) assms(5) Let_def)
qed

lemma sf_ok_file: "sf_ok k \<Longrightarrow> \<exists>fd. sf_file k = Some fd \<and> \<not> cf_read_only fd"
  by (simp add: sf_ok_def split: option.splits)

lemma cf_write_eq: "\<not> cf_read_only fd \<Longrightarrow> cf_write d off fd = Some (cf_put d off fd)"
  by (simp add: cf_write_def growFile_def grow_loop_eq cf_put_def)

lemma ch_setData_eq [simp]: "ch_setData c d st = c\<lparr>ch_status := st, ch_data := d\<rparr>"
  by (simp add: ch_setData_def ch_clear_def)


lemma ch_allocate_eq: "ch_allocate c fresh =
    c\<lparr>ch_status := BUFFERED, ch_data := Some (take (ch_size c) (fresh @ replicate (ch_size c) 0))\<rparr>"
  unfolding ch_allocate_def ch_clear_def by (simp del: take_append)

lemma ch_allocate_exact: "length d = ch_size c \<Longrightarrow> ch_allocate c d = c\<lparr>ch_status := BUFFERED, ch_data := Some d\<rparr>"
  unfolding ch_allocate_eq by (simp only: take_append) simp

lemma ch_allocate_status: "(ch_allocate c fresh)\<lparr>ch_status := BUFFERED\<rparr> = ch_allocate c fresh"
  by (simp add: ch_allocate_def del: take_append)

lemma sf_save_law:
  assumes "sf_ok k" "sf_fits k (ch_index c) (ch_size c)" "ch_status c = MMAPPED \<or> ch_status c = BUFFERED"
    "ch_data c = Some d" "length d = ch_size c"
  shows "\<exists>k'. sf_save k c = Some (k', (ch_clear c)\<lparr>ch_status := ON_DISK\<rparr>) \<and> sf_ok k' \<and> sf_fits k' = sf_fits k \<and>
    sf_stored k' (ch_index c) = Some d \<and>
    (\<forall>j x. j \<noteq> ch_index c \<longrightarrow> sf_stored k j = Some x \<longrightarrow> sf_stored k' j = Some x)"
proof -
  obtain fd where fd: "sf_file k = Some fd" "\<not> cf_read_only fd" using sf_ok_file [OF assms(1)] by blast
  let ?k = "k\<lparr>sf_file := Some (cf_put d (ch_index c * sf_chunk_size k) fd)\<rparr>"
  have "sf_save k c = Some (?k, (ch_clear c)\<lparr>ch_status := ON_DISK\<rparr>)"
    using assms(3,4) fd by (auto simp: sf_save_def cf_unmap_def cf_write_eq)
  moreover have "sf_ok ?k" using fd(2) by (simp add: sf_ok_def cf_put_def)
  moreover have "sf_fits k (ch_index c) (length d)" using assms(2,5) by simp
  note stored_put [OF fd(1) this]
  ultimately show ?thesis by (intro exI [of _ ?k] conjI allI impI) simp_all
qed

lemma sf_load_law:
  assumes "sf_ok k" "sf_fits k (ch_index c) (ch_size c)" "sf_stored k (ch_index c) = Some d"
  shows "\<exists>k' st. sf_load k c = Some (k', c\<lparr>ch_status := st, ch_data := Some d\<rparr>) \<and>
    (st = MMAPPED \<or> st = BUFFERED) \<and> sf_ok k' \<and> sf_fits k' = sf_fits k \<and> sf_stored k' = sf_stored k"
proof -
  obtain fd where fd: "sf_file k = Some fd" "\<not> cf_read_only fd" using sf_ok_file [OF assms(1)] by blast
  let ?off = "ch_index c * sf_chunk_size k"
  note fits = assms(2) [unfolded sf_fits_file [OF fd(1)]]
  have st: "?off + ch_size c \<le> length (cf_data fd)" "d = take (ch_size c) (drop ?off (cf_data fd))"
    using assms(3) fits unfolding sf_stored_Some [OF fd(1)] Let_def by metis+
  have kept: "sf_ok (k\<lparr>sf_file := Some fd', sf_failures := n\<rparr>)"
      "sf_fits (k\<lparr>sf_file := Some fd', sf_failures := n\<rparr>) = sf_fits k"
      "sf_stored (k\<lparr>sf_file := Some fd', sf_failures := n\<rparr>) = sf_stored k"
    if f: "\<not> cf_read_only fd'" "cf_max fd' = cf_max fd" "cf_data fd' = cf_data fd" for fd' n
  proof -
    let ?k = "k\<lparr>sf_file := Some fd', sf_failures := n\<rparr>"
    have k: "sf_file ?k = Some fd'" "sf_chunk_size ?k = sf_chunk_size k" "cf_data fd' = cf_data fd @ []"
      using f(3) by simp_all
    note g = stored_grow [OF fd(1) k(1,2) f(2) k(3)]
    show "sf_ok ?k" using f(1) by (simp add: sf_ok_def)
    show "sf_fits ?k = sf_fits k" by (rule g(2))
    show "sf_stored ?k = sf_stored k" by (rule g(3)) (rule refl)
  qed
  have rd: "\<exists>k'. sf_load_buffered k fd' c = Some (k', c\<lparr>ch_status := BUFFERED, ch_data := Some d\<rparr>) \<and>
      sf_ok k' \<and> sf_fits k' = sf_fits k \<and> sf_stored k' = sf_stored k"
    if f: "\<not> cf_read_only fd'" "cf_max fd' = cf_max fd" "cf_data fd' = cf_data fd" for fd'
  proof -
    have r: "cf_read fd' (ch_size c) ?off = Some d" using st fits f by (simp add: cf_read_def)
    have l: "length d = ch_size c" using st by simp
    have "\<exists>n. sf_load_buffered k fd' c = Some (k\<lparr>sf_file := Some fd', sf_failures := n\<rparr>,
      c\<lparr>ch_status := BUFFERED, ch_data := Some d\<rparr>)"
      unfolding sf_load_buffered_def r option.case ch_allocate_status ch_allocate_exact [OF l] by (rule exI, rule refl)
    then obtain n where n: "sf_load_buffered k fd' c = Some (k\<lparr>sf_file := Some fd', sf_failures := n\<rparr>,
      c\<lparr>ch_status := BUFFERED, ch_data := Some d\<rparr>)" ..
    show ?thesis
      using kept [OF f] by (intro exI conjI) (rule n)
  qed
  show ?thesis
  proof (cases "sf_failures k \<ge> 3")
    case True
    then have "sf_load k c = sf_load_buffered k fd c" by (simp add: sf_load_def fd)
    then show ?thesis using rd [OF fd(2)] by auto
  next
    case False
    obtain fd' buf where m: "cf_map fd ?off (ch_size c) READ = Some (fd', buf)" "\<not> cf_read_only fd'"
      "cf_max fd' = cf_max fd" "cf_data fd' = cf_data fd @ replicate (?off + ch_size c - length (cf_data fd)) 0"
      "buf \<noteq> None \<longrightarrow> buf = Some (take (ch_size c) (drop ?off (cf_data fd')))"
      using cf_map_spec [OF fd(2), of ?off "ch_size c" READ] fits by blast
    have same: "cf_data fd' = cf_data fd" using m(4) st(1) by simp
    show ?thesis
    proof (cases buf)
      case None
      then have "sf_load k c = sf_load_buffered k fd' c" using False m(1) by (simp add: sf_load_def fd)
      then show ?thesis using rd [OF m(2,3) same] by auto
    next
      case (Some b)
      then have l: "sf_load k c = Some (k\<lparr>sf_file := Some fd', sf_failures := sf_failures k\<rparr>,
          c\<lparr>ch_status := MMAPPED, ch_data := Some d\<rparr>)"
        using False m(1,5) same st(2) by (simp add: sf_load_def fd)
      show ?thesis
        using l kept [OF m(2,3) same] by blast
    qed
  qed
qed

lemma sf_prep_law:
  assumes "sf_ok k" "sf_fits k (ch_index c) (ch_size c)"
  shows "\<exists>k' st d. sf_prep k c = Some (k', c\<lparr>ch_status := st, ch_data := Some d\<rparr>) \<and>
    (st = MMAPPED \<or> st = BUFFERED) \<and> length d = ch_size c \<and> sf_ok k' \<and> sf_fits k' = sf_fits k \<and>
    (\<forall>j x. sf_stored k j = Some x \<longrightarrow> sf_stored k' j = Some x)"
proof -
  obtain fd where fd: "sf_file k = Some fd" "\<not> cf_read_only fd" using sf_ok_file [OF assms(1)] by blast
  let ?off = "ch_index c * sf_chunk_size k"
  let ?a = "c\<lparr>ch_status := BUFFERED, ch_data := Some (take (ch_size c) (sf_fresh k @ replicate (ch_size c) 0))\<rparr>"
  note fits = assms(2) [unfolded sf_fits_file [OF fd(1)]]
  have al: "(ch_allocate c (sf_fresh k))\<lparr>ch_status := BUFFERED\<rparr> = ?a"
    unfolding ch_allocate_status by (rule ch_allocate_eq)
  have la: "length (take (ch_size c) (sf_fresh k @ replicate (ch_size c) 0)) = ch_size c" by simp
  show ?thesis
  proof (cases "sf_failures k \<ge> 3")
    case True
    then have "sf_prep k c = Some (k, ?a)" by (simp only: sf_prep_def al if_True)
    then show ?thesis using assms(1) la by blast
  next
    case False
    obtain fd' buf where m: "cf_map fd ?off (ch_size c) RW = Some (fd', buf)" "\<not> cf_read_only fd'"
      "cf_max fd' = cf_max fd" "cf_data fd' = cf_data fd @ replicate (?off + ch_size c - length (cf_data fd)) 0"
      "buf \<noteq> None \<longrightarrow> buf = Some (take (ch_size c) (drop ?off (cf_data fd')))"
      using cf_map_spec [OF fd(2), of ?off "ch_size c" RW] fits by blast
    have grow: "sf_ok (k\<lparr>sf_file := Some fd', sf_failures := n\<rparr>)"
      "sf_fits (k\<lparr>sf_file := Some fd', sf_failures := n\<rparr>) = sf_fits k"
      "\<forall>j x. sf_stored k j = Some x \<longrightarrow> sf_stored (k\<lparr>sf_file := Some fd', sf_failures := n\<rparr>) j = Some x" for n
    proof -
      let ?k = "k\<lparr>sf_file := Some fd', sf_failures := n\<rparr>"
      have k: "sf_file ?k = Some fd'" "sf_chunk_size ?k = sf_chunk_size k" by simp_all
      note g = stored_grow [OF fd(1) k(1,2) m(3,4)]
      show "sf_ok ?k" using m(2) by (simp add: sf_ok_def)
      show "sf_fits ?k = sf_fits k" by (rule g(2))
      show "\<forall>j x. sf_stored k j = Some x \<longrightarrow> sf_stored ?k j = Some x" using g(1) by blast
    qed
    show ?thesis
    proof (cases buf)
      case None
      then have p: "sf_prep k c = Some (k\<lparr>sf_file := Some fd', sf_failures := sf_failures k + 1\<rparr>, ?a)"
        using False m(1) None unfolding sf_prep_def al by (simp add: fd del: take_append)
      show ?thesis using p grow la by blast
    next
      case (Some b)
      then have b: "b = take (ch_size c) (drop ?off (cf_data fd'))" using m(5) by simp
      then have "length b = ch_size c" using m(4) by simp
      moreover have p: "sf_prep k c = Some (k\<lparr>sf_file := Some fd', sf_failures := sf_failures k\<rparr>,
          c\<lparr>ch_status := MMAPPED, ch_data := Some b\<rparr>)"
        using False m(1) Some by (simp add: sf_prep_def fd)
      ultimately show ?thesis using grow by blast
    qed
  qed
qed

lemma sf_stored_size: "sf_fits k i n \<Longrightarrow> sf_stored k i = Some d \<Longrightarrow> length d = n"
  by (auto simp: sf_fits_def sf_stored_def Let_def split: option.splits if_splits)

interpretation sfc: chunk_cache sf_ops sf_stored sf_fits "\<lambda>_ _. True" sf_ok
proof
  show "\<exists>k'. co_save sf_ops k c = Some (k', (ch_clear c)\<lparr>ch_status := ON_DISK\<rparr>) \<and> sf_ok k' \<and> sf_fits k' = sf_fits k \<and>
    (\<lambda>_. True) = (\<lambda>_. True) \<and> sf_stored k' (ch_index c) = Some d \<and>
    (\<forall>j x. j \<noteq> ch_index c \<longrightarrow> sf_stored k j = Some x \<longrightarrow> sf_stored k' j = Some x)"
    if "sf_ok k" "sf_fits k (ch_index c) (ch_size c)" "ch_status c = MMAPPED \<or> ch_status c = BUFFERED"
      "ch_status c = MMAPPED \<longrightarrow> True" "ch_data c = Some d" "length d = ch_size c" for k c d
    using sf_save_law [OF that(1-3,5,6)] by (simp add: sf_ops_def)
  show "\<exists>k' st. co_load sf_ops k c = Some (k', c\<lparr>ch_status := st, ch_data := Some d\<rparr>) \<and>
    (st = MMAPPED \<and> True \<or> st = BUFFERED) \<and> sf_ok k' \<and> sf_fits k' = sf_fits k \<and>
    (\<lambda>_. True) = (\<lambda>_. True) \<and> sf_stored k' = sf_stored k"
    if "sf_ok k" "sf_fits k (ch_index c) (ch_size c)" "sf_stored k (ch_index c) = Some d" for k c d
    using sf_load_law [OF that] by (simp add: sf_ops_def)
  show "\<exists>k' st d. co_prep sf_ops k c = Some (k', c\<lparr>ch_status := st, ch_data := Some d\<rparr>) \<and>
    (st = MMAPPED \<and> True \<or> st = BUFFERED) \<and> length d = ch_size c \<and> sf_ok k' \<and> sf_fits k' = sf_fits k \<and>
    (\<lambda>_. True) = (\<lambda>_. True) \<and>
    (\<forall>j x. sf_stored k j = Some x \<longrightarrow> sf_stored k' j = Some x)"
    if "sf_ok k" "sf_fits k (ch_index c) (ch_size c)" for k c
    using sf_prep_law [OF that] by (simp add: sf_ops_def)
  show "length d = n" if "sf_ok k" "sf_fits k i n" "sf_stored k i = Some d" for k i n d
    using sf_stored_size that by blast
qed


text \<open>Claim C35: what is saved in the cache of a single file torrent comes back. A chunk that is in
  memory, mapped or buffered, can be saved, any other chunks of the torrent can be saved after it
  in any order and repeatedly, and loading it brings back exactly its data, whether or not the
  operating system grants the mappings; the bytes of different chunks never mix.\<close>

theorem cache_round_trip:
  assumes "sf_ok k" "sf_fits k (ch_index c) (ch_size c)" "in_memory c d"
    and "\<forall>e \<in> set cs. sf_fits k (ch_index e) (ch_size e) \<and> ch_index e \<noteq> ch_index c \<and> (\<exists>x. in_memory e x)"
  shows "\<exists>k1 c1 k2 k3 st. sf_save k c = Some (k1, c1) \<and> ch_data c1 = None \<and> save_all sf_ops k1 cs = Some k2 \<and>
    sf_load k2 c1 = Some (k3, c1\<lparr>ch_status := st, ch_data := Some d\<rparr>) \<and> (st = MMAPPED \<or> st = BUFFERED)"
  using sfc.save_others_load [OF assms(1-3)] assms(4) by (simp add: sf_ops_def)

definition some_cache :: single_file_cache where
  "some_cache = \<lparr>sf_file = Some \<lparr>cf_read_only = False, cf_max = 5, cf_data = [], cf_mmap = [True]\<rparr>,
     sf_failures = 0, sf_chunk_size = 3, sf_fresh = []\<rparr>"

definition buffered :: "nat \<Rightarrow> bytes \<Rightarrow> chunk" where
  "buffered i d = (Chunk_new i (length d))\<lparr>ch_status := BUFFERED, ch_data := Some d\<rparr>"

theorem cache_round_trip_witness:
  "\<exists>k1 c1 k2 k3 st. sf_save some_cache (buffered 1 [7, 8]) = Some (k1, c1) \<and>
    save_all sf_ops k1 [buffered 0 [1, 2, 3]] = Some k2 \<and>
    sf_load k2 c1 = Some (k3, c1\<lparr>ch_status := st, ch_data := Some [7, 8]\<rparr>)"
proof -
  have h: "sf_ok some_cache"
    "sf_fits some_cache (ch_index (buffered 1 [7, 8])) (ch_size (buffered 1 [7, 8]))"
    "in_memory (buffered 1 [7, 8]) [7, 8]"
    "\<forall>e \<in> set [buffered 0 [1, 2, 3]]. sf_fits some_cache (ch_index e) (ch_size e) \<and>
       ch_index e \<noteq> ch_index (buffered 1 [7, 8]) \<and> (\<exists>x. in_memory e x)"
    by (simp_all add: some_cache_def buffered_def sf_ok_def sf_fits_def in_memory_def Chunk_new_def)
  from cache_round_trip [OF h] show ?thesis by blast
qed

end
