(* ===== verification/ChunkManager.thy ===== *)
theory ChunkManager
  imports TorrentFiles FileCache "HOL-Library.Monad_Syntax"
begin

text \<open>
  The chunk manager: \<^verbatim>\<open>libktorrent/torrent/chunkmanager.h\<close> and \<^verbatim>\<open>chunkmanager.cpp\<close>. It owns
  the chunks, the four bit sets (downloaded, excluded, only to be seeded, still to download), the
  index file and the priority files, and follows the priorities of the files of the torrent.
  The cache is the virtual interface of theory \<open>FileCache\<close>. A thrown \<^verbatim>\<open>Error\<close> is \<open>None\<close>, and so is
  undefined behaviour. The index file is the list of the indices in its headers; the other two
  files are lists of words; \<open>cm_writable\<close> says whether files can be opened for writing. Signals are
  appended to \<open>cm_events\<close>; \<open>FileStatus\<close> is the call of the cache's \<^verbatim>\<open>downloadStatusChanged\<close>,
  which a single file cache ignores. Paths, moving of data files and log messages are left out.
\<close>

datatype cm_event =
  Excluded nat nat | Included nat nat | UpdateStats | Corrupted nat | FileStatus nat bool

record 'k chunk_manager =
  cm_files :: "torrent_file list"
  cm_num :: nat
  cm_chunk_size :: nat
  cm_hashes :: "bytes list"
  cm_chunks :: "chunk list"
  cm_cache :: 'k
  cm_loaded :: "nat \<rightharpoonup> u64"
  cm_bits :: bitset
  cm_excl :: bitset
  cm_only :: bitset
  cm_todo :: bitset
  cm_left :: nat
  cm_recalc :: bool
  cm_corrupted :: u32
  cm_recheck :: u32
  cm_during_load :: bool
  cm_slots :: nat
  cm_max_check :: nat
  cm_index_file :: "nat list option"
  cm_info_file :: "u32 list option"
  cm_prio_file :: "u32 list option"
  cm_writable :: bool
  cm_events :: "cm_event list"

definition cm_emit :: "cm_event \<Rightarrow> 'k chunk_manager \<Rightarrow> 'k chunk_manager" where
  "cm_emit e cm = cm\<lparr>cm_events := cm_events cm @ [e]\<rparr>"

definition cm_chunk :: "'k chunk_manager \<Rightarrow> nat \<Rightarrow> chunk" where
  "cm_chunk cm i = cm_chunks cm ! i"

definition cm_put_chunk :: "nat \<Rightarrow> chunk \<Rightarrow> 'k chunk_manager \<Rightarrow> 'k chunk_manager" where
  "cm_put_chunk i c cm = cm\<lparr>cm_chunks := (cm_chunks cm)[i := c]\<rparr>"

definition cm_getChunk :: "'k chunk_manager \<Rightarrow> nat \<Rightarrow> chunk option" where
  "cm_getChunk cm i = (if i \<ge> length (cm_chunks cm) then None else Some (cm_chunks cm ! i))"

text \<open>\<^verbatim>\<open>tor.updateFilePercentage(i,bitset)\<close>\<close>

definition cm_percentage :: "nat \<Rightarrow> 'k chunk_manager \<Rightarrow> 'k chunk_manager" where
  "cm_percentage i cm = cm\<lparr>cm_files := updateFilePercentage (cm_num cm) i (cm_bits cm) (cm_files cm)\<rparr>"

section \<open>The files the manager keeps\<close>

definition saveFileInfo :: "'k chunk_manager \<Rightarrow> 'k chunk_manager" where
  "saveFileInfo cm =
     (if \<not> cm_writable cm then cm
      else let dnd = filter (\<lambda>i. tf_doNotDownload (cm_files cm ! i)) [0..<length (cm_files cm)]
           in cm\<lparr>cm_info_file := Some (of_nat (length dnd) # map of_nat dnd)\<rparr>)"

definition savePriorityInfo :: "'k chunk_manager \<Rightarrow> 'k chunk_manager" where
  "savePriorityInfo cm =
     (if cm_during_load cm then cm
      else let cm = saveFileInfo cm
           in if \<not> cm_writable cm then cm
              else let is = filter (\<lambda>i. tf_priority (cm_files cm ! i) \<noteq> NORMAL_PRIORITY) [0..<length (cm_files cm)];
                       items = concat (map (\<lambda>i. [of_nat i, of_nat (priority_value (tf_priority (cm_files cm ! i)))]) is)
                   in cm\<lparr>cm_prio_file := Some (of_nat (length items) # items)\<rparr>)"

definition saveIndexFile :: "'k chunk_manager \<Rightarrow> 'k chunk_manager option" where
  "saveIndexFile cm =
     (if \<not> cm_writable cm then None
      else Some (savePriorityInfo (cm\<lparr>cm_index_file :=
             Some (filter (\<lambda>i. ch_status (cm_chunk cm i) \<noteq> NOT_DOWNLOADED) [0..<cm_num cm])\<rparr>)))"

text \<open>Without the file, or a way to create it, this throws.\<close>

definition writeIndexFileEntry :: "chunk \<Rightarrow> 'k chunk_manager \<Rightarrow> 'k chunk_manager option" where
  "writeIndexFileEntry c cm =
     (if \<not> cm_writable cm then None
      else let old = (case cm_index_file cm of None \<Rightarrow> [] | Some l \<Rightarrow> l)
           in Some (cm\<lparr>cm_index_file := Some (old @ [ch_index c])\<rparr>))"

section \<open>Priorities of chunks\<close>

definition prioritise_step :: "priority \<Rightarrow> nat \<Rightarrow> 'k chunk_manager \<Rightarrow> 'k chunk_manager" where
  "prioritise_step p i cm =
     (let cm = cm_put_chunk i ((cm_chunk cm i)\<lparr>ch_priority := p\<rparr>) cm
      in if p = ONLY_SEED_PRIORITY then
           cm\<lparr>cm_only := bs_set (cm_only cm) i True, cm_todo := bs_set (cm_todo cm) i False\<rparr>
         else if p = EXCLUDED then
           cm\<lparr>cm_only := bs_set (cm_only cm) i False, cm_todo := bs_set (cm_todo cm) i False\<rparr>
         else
           cm\<lparr>cm_only := bs_set (cm_only cm) i False,
              cm_todo := bs_set (cm_todo cm) i (\<not> bs_get (cm_bits cm) i)\<rparr>)"

definition cm_range :: "'k chunk_manager \<Rightarrow> nat \<Rightarrow> nat \<Rightarrow> nat list" where
  "cm_range cm from to = [min from to..<min (Suc (max from to)) (length (cm_chunks cm))]"

definition prioritise :: "nat \<Rightarrow> nat \<Rightarrow> priority \<Rightarrow> 'k chunk_manager \<Rightarrow> 'k chunk_manager" where
  "prioritise from to p cm = cm_emit UpdateStats (fold (prioritise_step p) (cm_range cm from to) cm)"

definition exclude_step :: "nat \<Rightarrow> 'k chunk_manager \<Rightarrow> 'k chunk_manager" where
  "exclude_step i cm =
     (cm_put_chunk i (ch_setExclude (cm_chunk cm i) True) cm)\<lparr>
       cm_excl := bs_set (cm_excl cm) i True, cm_only := bs_set (cm_only cm) i False,
       cm_todo := bs_set (cm_todo cm) i False, cm_bits := bs_set (cm_bits cm) i False\<rparr>"

definition cm_exclude :: "nat \<Rightarrow> nat \<Rightarrow> 'k chunk_manager \<Rightarrow> 'k chunk_manager" where
  "cm_exclude from to cm =
     cm_emit UpdateStats (cm_emit (Excluded (min from to) (max from to))
       ((fold exclude_step (cm_range cm from to) cm)\<lparr>cm_recalc := True\<rparr>))"

definition include_step :: "nat \<Rightarrow> 'k chunk_manager \<Rightarrow> 'k chunk_manager" where
  "include_step i cm =
     (let cm = (cm_put_chunk i (ch_setExclude (cm_chunk cm i) False) cm)\<lparr>cm_excl := bs_set (cm_excl cm) i False\<rparr>
      in if \<not> bs_get (cm_bits cm) i then cm\<lparr>cm_todo := bs_set (cm_todo cm) i True\<rparr> else cm)"

definition cm_include :: "nat \<Rightarrow> nat \<Rightarrow> 'k chunk_manager \<Rightarrow> 'k chunk_manager" where
  "cm_include from to cm =
     cm_emit (Included (min from to) (max from to)) (cm_emit UpdateStats
       ((fold include_step (cm_range cm from to) cm)\<lparr>cm_recalc := True\<rparr>))"

section \<open>Chunks in memory\<close>

definition cm_save_mapped :: "'k cache_ops \<Rightarrow> chunk \<Rightarrow> 'k chunk_manager \<Rightarrow> ('k chunk_manager \<times> chunk) option" where
  "cm_save_mapped ops c cm =
     (if ch_status c = MMAPPED then map_option (\<lambda>(k, c). (cm\<lparr>cm_cache := k\<rparr>, c)) (co_save ops (cm_cache cm) c)
      else Some (cm, c))"

definition resetChunk :: "'k cache_ops \<Rightarrow> nat \<Rightarrow> 'k chunk_manager \<Rightarrow> 'k chunk_manager option" where
  "resetChunk ops i cm =
     (if i \<ge> length (cm_chunks cm) then Some cm
      else do {
        (cm, c) \<leftarrow> cm_save_mapped ops (cm_chunk cm i) cm;
        let cm = cm_put_chunk i ((ch_clear c)\<lparr>ch_status := NOT_DOWNLOADED\<rparr>) cm;
        let cm = cm\<lparr>cm_bits := bs_set (cm_bits cm) i False,
           cm_todo := bs_set (cm_todo cm) i (\<not> bs_get (cm_excl cm) i \<and> \<not> bs_get (cm_only cm) i),
           cm_loaded := (cm_loaded cm)(i := None)\<rparr>;
        Some (cm_percentage i cm) })"

fun resetChunks :: "'k cache_ops \<Rightarrow> nat list \<Rightarrow> 'k chunk_manager \<Rightarrow> 'k chunk_manager option" where
  "resetChunks ops [] cm = Some cm"
| "resetChunks ops (i # is) cm = do { cm \<leftarrow> resetChunk ops i cm; resetChunks ops is cm }"

definition stop_step :: "'k cache_ops \<Rightarrow> nat \<Rightarrow> 'k chunk_manager \<Rightarrow> 'k chunk_manager option" where
  "stop_step ops i cm =
     (if ch_status (cm_chunk cm i) = MMAPPED \<or> ch_status (cm_chunk cm i) = BUFFERED then do {
        (cm, c) \<leftarrow> cm_save_mapped ops (cm_chunk cm i) cm;
        Some (cm_put_chunk i ((ch_clear c)\<lparr>ch_status := ON_DISK\<rparr>) cm) }
      else Some cm)"

fun stop_loop :: "'k cache_ops \<Rightarrow> nat list \<Rightarrow> 'k chunk_manager \<Rightarrow> 'k chunk_manager option" where
  "stop_loop ops [] cm = Some cm"
| "stop_loop ops (i # is) cm = do { cm \<leftarrow> stop_step ops i cm; stop_loop ops is cm }"

definition cm_stop :: "'k cache_ops \<Rightarrow> 'k chunk_manager \<Rightarrow> 'k chunk_manager option" where
  "cm_stop ops cm = stop_loop ops [0..<bs_num_bits (cm_bits cm)] cm"

definition releaseChunk :: "'k cache_ops \<Rightarrow> nat \<Rightarrow> 'k chunk_manager \<Rightarrow> 'k chunk_manager option" where
  "releaseChunk ops i cm =
     (if i \<ge> length (cm_chunks cm) then Some cm
      else if \<not> ch_taken (cm_chunk cm i) then do {
        (cm, c) \<leftarrow> cm_save_mapped ops (cm_chunk cm i) cm;
        Some ((cm_put_chunk i ((ch_clear c)\<lparr>ch_status := ON_DISK\<rparr>) cm)\<lparr>cm_loaded := (cm_loaded cm)(i := None)\<rparr>) }
      else Some cm)"

text \<open>The loop over the loaded chunks goes by ascending index.\<close>

definition checkMemory_step :: "'k cache_ops \<Rightarrow> u64 \<Rightarrow> nat \<Rightarrow> 'k chunk_manager \<Rightarrow> 'k chunk_manager option" where
  "checkMemory_step ops now i cm =
     (case cm_loaded cm i of
        None \<Rightarrow> Some cm
      | Some t \<Rightarrow> if \<not> ch_taken (cm_chunk cm i) \<and> now - t > 5000 then releaseChunk ops i cm else Some cm)"

fun checkMemory_loop :: "'k cache_ops \<Rightarrow> u64 \<Rightarrow> nat list \<Rightarrow> 'k chunk_manager \<Rightarrow> 'k chunk_manager option" where
  "checkMemory_loop ops now [] cm = Some cm"
| "checkMemory_loop ops now (i # is) cm = do { cm \<leftarrow> checkMemory_step ops now i cm; checkMemory_loop ops now is cm }"

definition checkMemoryUsage :: "'k cache_ops \<Rightarrow> u64 \<Rightarrow> 'k chunk_manager \<Rightarrow> 'k chunk_manager option" where
  "checkMemoryUsage ops now cm = checkMemory_loop ops now [0..<length (cm_chunks cm)] cm"

definition prepareChunk :: "'k cache_ops \<Rightarrow> nat \<Rightarrow> bool \<Rightarrow> 'k chunk_manager \<Rightarrow> ('k chunk_manager \<times> bool) option" where
  "prepareChunk ops i always cm =
     (if \<not> always \<and> ch_status (cm_chunk cm i) \<noteq> NOT_DOWNLOADED then Some (cm, False)
      else do {
        (k, c) \<leftarrow> co_prep ops (cm_cache cm) (cm_chunk cm i);
        Some (cm_put_chunk i c (cm\<lparr>cm_cache := k\<rparr>), True) })"

text \<open>\<^verbatim>\<open>grabChunk\<close>, with whether the chunk or a null pointer is returned.\<close>

definition grab_check_allowed :: "'k chunk_manager \<Rightarrow> bool" where
  "grab_check_allowed cm \<longleftrightarrow> (cm_max_check cm = 0 \<or> cm_chunk_size cm \<le> cm_max_check cm) \<and>
     \<not> (cm_recheck cm < 5 \<and> cm_corrupted cm = 0)"

definition grabChunk :: "'k cache_ops \<Rightarrow> u64 \<Rightarrow> nat \<Rightarrow> 'k chunk_manager \<Rightarrow> ('k chunk_manager \<times> bool) option" where
  "grabChunk ops now i cm =
     (if i \<ge> length (cm_chunks cm) then Some (cm, False)
      else if ch_status (cm_chunk cm i) = NOT_DOWNLOADED \<or> ch_isExcluded (cm_chunk cm i) then Some (cm, False)
      else if ch_status (cm_chunk cm i) = ON_DISK then do {
        (k, c) \<leftarrow> co_load ops (cm_cache cm) (cm_chunk cm i);
        let cm = (cm_put_chunk i c (cm\<lparr>cm_cache := k\<rparr>))\<lparr>cm_loaded := (cm_loaded cm)(i \<mapsto> now)\<rparr>;
        if ch_data c \<noteq> None \<and> grab_check_allowed cm then do {
          good \<leftarrow> ch_checkHash c (cm_hashes cm ! i);
          let cm = cm\<lparr>cm_recheck := 0\<rparr>;
          if \<not> good then do {
            cm \<leftarrow> resetChunk ops i cm;
            cm \<leftarrow> saveIndexFile (cm_percentage i cm);
            Some (cm_emit (Corrupted i) (cm\<lparr>cm_recalc := True, cm_corrupted := cm_corrupted cm + 1\<rparr>), False) }
          else Some (cm, True) }
        else Some (cm\<lparr>cm_recheck := cm_recheck cm + 1\<rparr>, True) }
      else Some (cm\<lparr>cm_loaded := (cm_loaded cm)(i \<mapsto> now)\<rparr>, True))"

definition saveChunk :: "'k cache_ops \<Rightarrow> nat \<Rightarrow> bool \<Rightarrow> 'k chunk_manager \<Rightarrow> 'k chunk_manager option" where
  "saveChunk ops i update_index cm =
     (if i \<ge> length (cm_chunks cm) then Some cm
      else if \<not> ch_isExcluded (cm_chunk cm i) then do {
        (k, c) \<leftarrow> co_save ops (cm_cache cm) (cm_chunk cm i);
        let cm = cm_put_chunk i c (cm\<lparr>cm_cache := k\<rparr>);
        if update_index then do {
          cm \<leftarrow> writeIndexFileEntry c (cm\<lparr>cm_bits := bs_set (cm_bits cm) i True,
            cm_todo := bs_set (cm_todo cm) i False, cm_recalc := True\<rparr>);
          Some (cm_percentage i cm) }
        else Some cm }
      else Some (cm_put_chunk i ((ch_clear (cm_chunk cm i))\<lparr>ch_status := NOT_DOWNLOADED\<rparr>) cm))"

section \<open>Counting\<close>

definition onlySeedChunks :: "'k chunk_manager \<Rightarrow> nat" where
  "onlySeedChunks cm = bs_numOnBits (cm_only cm)"

definition cm_completed :: "'k chunk_manager \<Rightarrow> bool" where
  "cm_completed cm \<longleftrightarrow> bs_numOnBits (cm_todo cm) = 0 \<and> bs_numOnBits (cm_bits cm) > 0"

text \<open>The last chunk may be shorter than the others.\<close>

definition bytes_of :: "'k chunk_manager \<Rightarrow> nat \<Rightarrow> bool \<Rightarrow> nat" where
  "bytes_of cm n last_too =
     (if 0 < length (cm_chunks cm) \<and> last_too
      then (n - 1) * cm_chunk_size cm + ch_size (cm_chunk cm (length (cm_chunks cm) - 1))
      else n * cm_chunk_size cm)"

definition bytesLeft :: "'k chunk_manager \<Rightarrow> nat" where
  "bytesLeft cm = bytes_of cm (bs_num_bits (cm_bits cm) - bs_numOnBits (cm_bits cm))
     (\<not> bs_get (cm_bits cm) (length (cm_chunks cm) - 1))"

definition bytesLeftToDownload :: "'k chunk_manager \<Rightarrow> nat" where
  "bytesLeftToDownload cm = bytes_of cm (bs_numOnBits (cm_todo cm)) (bs_get (cm_todo cm) (length (cm_chunks cm) - 1))"

definition bytesExcluded :: "'k chunk_manager \<Rightarrow> nat" where
  "bytesExcluded cm =
     bytes_of cm (bs_numOnBits (cm_excl cm)) (bs_get (cm_excl cm) (cm_num cm - 1)) +
     bytes_of cm (bs_numOnBits (cm_only cm)) (bs_get (cm_only cm) (cm_num cm - 1))"

definition chunksLeft :: "'k chunk_manager \<Rightarrow> 'k chunk_manager \<times> nat" where
  "chunksLeft cm =
     (if \<not> cm_recalc cm then (cm, cm_left cm)
      else let num = length (filter (\<lambda>i. \<not> bs_get (cm_bits cm) i \<and> \<not> ch_isExcluded (cm_chunk cm i))
                               [0..<length (cm_chunks cm)])
           in (cm\<lparr>cm_left := num, cm_recalc := False\<rparr>, num))"

definition haveAllChunks :: "'k chunk_manager \<Rightarrow> bool" where
  "haveAllChunks cm \<longleftrightarrow> bs_numOnBits (cm_bits cm) = bs_num_bits (cm_bits cm)"

definition chunksExcluded :: "'k chunk_manager \<Rightarrow> nat" where
  "chunksExcluded cm = bs_numOnBits (cm_excl cm) + bs_numOnBits (cm_only cm)"

definition chunksDownloaded :: "'k chunk_manager \<Rightarrow> nat" where
  "chunksDownloaded cm = bs_numOnBits (cm_bits cm)"

section \<open>Following the priorities of the files\<close>

text \<open>The loops of \<^verbatim>\<open>downloadStatusChanged\<close> over the files of a border chunk: whether the border
  moved, and the highest priority among the other files that are wanted. \<open>may\<close> is the test on
  \<^verbatim>\<open>first\<close> and \<^verbatim>\<open>last\<close>, which do not change before the border moves.\<close>

definition border_step :: "'k chunk_manager \<Rightarrow> nat \<Rightarrow> bool \<Rightarrow> nat \<Rightarrow> bool \<times> priority \<Rightarrow> bool \<times> priority" where
  "border_step cm idx may j st =
     (case st of (modified, maxp) \<Rightarrow>
        if j = idx then (modified, maxp)
        else let other = cm_files cm ! j
             in if \<not> tf_doNotDownload other
                then (modified \<or> may, if tf_priority other > maxp then tf_priority other else maxp)
                else (modified, maxp))"

definition border_loop :: "'k chunk_manager \<Rightarrow> nat \<Rightarrow> bool \<Rightarrow> nat list \<Rightarrow> bool \<times> priority" where
  "border_loop cm idx may files = fold (border_step cm idx may) files (False, ONLY_SEED_PRIORITY)"

text \<open>The chunks of a file that is no longer wanted are reset, border chunks only if no other file
  lies in them.\<close>

definition exclude_resets :: "'k cache_ops \<Rightarrow> nat \<Rightarrow> nat \<Rightarrow> nat list \<Rightarrow> nat list \<Rightarrow> 'k chunk_manager \<Rightarrow> 'k chunk_manager option" where
  "exclude_resets ops fst_c lst_c files last_files cm = do {
     cm \<leftarrow> resetChunks ops [fst_c + 1..<lst_c] cm;
     cm \<leftarrow> (if length files = 1 \<and> fst_c \<noteq> 0 then resetChunk ops fst_c cm else Some cm);
     if lst_c \<noteq> fst_c \<and> length last_files = 1 then resetChunk ops lst_c cm else Some cm }"

text \<open>A border chunk that another wanted file needs is kept out of the exclusion and gets the
  highest priority of those files.\<close>

definition exclude_borders :: "nat \<Rightarrow> nat \<Rightarrow> nat \<Rightarrow> nat list \<Rightarrow> nat list \<Rightarrow> 'k chunk_manager \<Rightarrow> 'k chunk_manager" where
  "exclude_borders idx fst_c lst_c files last_files cm =
     (case border_loop cm idx (fst_c \<noteq> lst_c) files of (moved, maxp) \<Rightarrow>
        let fst_c = (if moved then fst_c + 1 else fst_c);
            cm = (if moved then prioritise (fst_c - 1) (fst_c - 1) maxp cm else cm)
        in case border_loop cm idx (fst_c \<noteq> lst_c \<and> lst_c > 0) last_files of (moved, maxp) \<Rightarrow>
             let lst_c = (if moved then lst_c - 1 else lst_c);
                 cm = (if moved then prioritise (lst_c + 1) (lst_c + 1) maxp cm else cm)
             in if lst_c < fst_c then cm else cm_exclude fst_c lst_c cm)"

definition fileExcluded :: "'k cache_ops \<Rightarrow> nat \<Rightarrow> 'k chunk_manager \<Rightarrow> 'k chunk_manager option" where
  "fileExcluded ops idx cm =
     (let fst_c = tf_first (cm_files cm ! idx);
          lst_c = tf_last (cm_files cm ! idx);
          files = calcChunkPos (cm_num cm) (cm_files cm) fst_c;
          last_files = calcChunkPos (cm_num cm) (cm_files cm) lst_c
      in do {
        cm \<leftarrow> (if fst_c = lst_c \<and> length files > 1 then Some cm
               else map_option (exclude_borders idx fst_c lst_c files last_files)
                      (exclude_resets ops fst_c lst_c files last_files cm));
        Some (savePriorityInfo (cm_emit (FileStatus idx False) cm)) })"

definition fileIncluded :: "nat \<Rightarrow> 'k chunk_manager \<Rightarrow> 'k chunk_manager" where
  "fileIncluded idx cm =
     (let tf = cm_files cm ! idx; fst_c = tf_first tf; lst_c = tf_last tf;
          cm = cm_include fst_c lst_c cm;
          chunkOffset = (lst_c - fst_c) div 100 + 1;
          cm = (if tf_multimedia tf then prioritise fst_c (fst_c + chunkOffset) PREVIEW_PRIORITY cm else cm);
          cm = (if tf_multimedia tf \<and> lst_c - fst_c > 2 then prioritise (lst_c - chunkOffset) lst_c PREVIEW_PRIORITY cm
                else cm)
      in savePriorityInfo (cm_emit (FileStatus idx True) cm))"

definition downloadStatusChanged :: "'k cache_ops \<Rightarrow> nat \<Rightarrow> bool \<Rightarrow> 'k chunk_manager \<Rightarrow> 'k chunk_manager option" where
  "downloadStatusChanged ops idx download cm =
     (if download then Some (fileIncluded idx cm) else fileExcluded ops idx cm)"

definition higher_other :: "'k chunk_manager \<Rightarrow> nat \<Rightarrow> priority \<Rightarrow> nat list \<Rightarrow> bool" where
  "higher_other cm idx p files = list_ex (\<lambda>j. tf_priority (cm_files cm ! j) > p \<and> j \<noteq> idx) files"

definition filePriority :: "nat \<Rightarrow> priority \<Rightarrow> 'k chunk_manager \<Rightarrow> 'k chunk_manager" where
  "filePriority idx newpriority cm =
     (let cm = savePriorityInfo cm;
          fst_c = tf_first (cm_files cm ! idx);
          lst_c = tf_last (cm_files cm ! idx);
          up = higher_other cm idx newpriority (calcChunkPos (cm_num cm) (cm_files cm) fst_c)
      in if up \<and> fst_c = lst_c then cm
         else let fst_c = (if up then fst_c + 1 else fst_c);
                  down = higher_other cm idx newpriority (calcChunkPos (cm_num cm) (cm_files cm) lst_c)
              in if down \<and> (lst_c = 0 \<or> lst_c = fst_c) then cm
                 else let lst_c = (if down then lst_c - 1 else lst_c)
                      in if lst_c < fst_c then cm
                         else let cm = prioritise fst_c lst_c newpriority cm
                              in if newpriority = ONLY_SEED_PRIORITY then cm_emit (Excluded fst_c lst_c) cm else cm)"

definition downloadPriorityChanged :: "'k cache_ops \<Rightarrow> nat \<Rightarrow> priority \<Rightarrow> priority \<Rightarrow> 'k chunk_manager \<Rightarrow> 'k chunk_manager option" where
  "downloadPriorityChanged ops idx newpriority oldpriority cm =
     (if newpriority = EXCLUDED then downloadStatusChanged ops idx False cm
      else if oldpriority = EXCLUDED then downloadStatusChanged ops idx True cm
      else Some (filePriority idx newpriority cm))"

text \<open>The signal runs the slot once for every \<^verbatim>\<open>connect\<close> that was made: the constructor makes one,
  and \<^verbatim>\<open>createFiles(true)\<close> another.\<close>

fun cm_signal :: "'k cache_ops \<Rightarrow> nat \<Rightarrow> nat \<Rightarrow> priority \<Rightarrow> priority \<Rightarrow> 'k chunk_manager \<Rightarrow> 'k chunk_manager option" where
  "cm_signal ops 0 idx new old cm = Some cm"
| "cm_signal ops (Suc n) idx new old cm =
     do { cm \<leftarrow> downloadPriorityChanged ops idx new old cm; cm_signal ops n idx new old cm }"

fun cm_steps :: "'k cache_ops \<Rightarrow> nat \<Rightarrow> tf_step list \<Rightarrow> 'k chunk_manager \<Rightarrow> 'k chunk_manager option" where
  "cm_steps ops idx [] cm = Some cm"
| "cm_steps ops idx (st # sts) cm =
     (let cm = cm\<lparr>cm_files := (cm_files cm)[idx := tf_apply st (cm_files cm ! idx)]\<rparr>
      in do {
        cm \<leftarrow> (case st of (old, new, emits) \<Rightarrow>
                 if emits then cm_signal ops (cm_slots cm) idx new old cm else Some cm);
        cm_steps ops idx sts cm })"

text \<open>\<^verbatim>\<open>tor.getFile(idx).setPriority(p)\<close> and \<^verbatim>\<open>setDoNotDownload(true)\<close>; on an index without a file
  they change the null file.\<close>

definition cm_setPriority :: "'k cache_ops \<Rightarrow> nat \<Rightarrow> priority \<Rightarrow> 'k chunk_manager \<Rightarrow> 'k chunk_manager option" where
  "cm_setPriority ops idx p cm =
     (if idx \<ge> length (cm_files cm) then Some cm else cm_steps ops idx (tf_setPriority (cm_files cm ! idx) p) cm)"

definition cm_setDoNotDownload :: "'k cache_ops \<Rightarrow> nat \<Rightarrow> bool \<Rightarrow> 'k chunk_manager \<Rightarrow> 'k chunk_manager option" where
  "cm_setDoNotDownload ops idx dnd cm =
     (if idx \<ge> length (cm_files cm) then Some cm
      else cm_steps ops idx (tf_setDoNotDownload (cm_files cm ! idx) dnd) cm)"

section \<open>Loading\<close>

fun dnd_loop :: "'k cache_ops \<Rightarrow> nat \<Rightarrow> u32 list \<Rightarrow> 'k chunk_manager \<Rightarrow> 'k chunk_manager option" where
  "dnd_loop ops 0 ws cm = Some cm"
| "dnd_loop ops (Suc n) [] cm = Some cm"
| "dnd_loop ops (Suc n) (w # ws) cm = do { cm \<leftarrow> cm_setDoNotDownload ops (unat w) True cm; dnd_loop ops n ws cm }"

definition loadFileInfo :: "'k cache_ops \<Rightarrow> 'k chunk_manager \<Rightarrow> 'k chunk_manager option" where
  "loadFileInfo ops cm =
     (if cm_during_load cm then Some cm
      else case cm_info_file cm of
        None \<Rightarrow> Some cm
      | Some [] \<Rightarrow> Some cm
      | Some (num # ws) \<Rightarrow> dnd_loop ops (unat num) ws cm)"

definition stored_priority :: "u32 \<Rightarrow> priority" where
  "stored_priority v =
     (if v = 50 \<or> v = 3 then FIRST_PRIORITY
      else if v = 40 \<or> v = 2 then NORMAL_PRIORITY
      else if v = 10 \<or> v = 0 then EXCLUDED
      else if v = 20 \<or> v = - 1 then ONLY_SEED_PRIORITY
      else LAST_PRIORITY)"

text \<open>A file with an odd number of words makes the loop read behind the array.\<close>

fun prio_loop :: "'k cache_ops \<Rightarrow> u32 list \<Rightarrow> 'k chunk_manager \<Rightarrow> 'k chunk_manager option" where
  "prio_loop ops [] cm = Some cm"
| "prio_loop ops [idx] cm = (if unat idx \<ge> length (cm_files cm) then loadFileInfo ops cm else None)"
| "prio_loop ops (idx # v # ws) cm =
     (if unat idx \<ge> length (cm_files cm) then loadFileInfo ops cm
      else do { cm \<leftarrow> cm_setPriority ops (unat idx) (stored_priority v) cm; prio_loop ops ws cm })"

definition loadPriorityInfo :: "'k cache_ops \<Rightarrow> 'k chunk_manager \<Rightarrow> 'k chunk_manager option" where
  "loadPriorityInfo ops cm =
     (case cm_prio_file cm of
        None \<Rightarrow> loadFileInfo ops cm
      | Some [] \<Rightarrow> loadFileInfo ops cm
      | Some (num # ws) \<Rightarrow>
          (if unat num > 2 * length (cm_files cm) then loadFileInfo ops cm
           else if length (take (unat num) ws) \<noteq> unat num then loadFileInfo ops cm
           else prio_loop ops (take (unat num) ws) cm))"

definition load_index_step :: "nat \<Rightarrow> 'k chunk_manager \<Rightarrow> 'k chunk_manager" where
  "load_index_step i cm =
     (case cm_getChunk cm i of
        None \<Rightarrow> cm
      | Some c \<Rightarrow> (cm_put_chunk i (c\<lparr>ch_status := ON_DISK\<rparr>) cm)\<lparr>
          cm_bits := bs_set (cm_bits cm) i True, cm_todo := bs_set (cm_todo cm) i False, cm_recalc := True\<rparr>)"

text \<open>\<^verbatim>\<open>loadIndexFile\<close>: the end of the file is only noticed by a read that fails, so the loop runs
  once more with a header that was not filled in, whose index is \<open>garbage\<close>.\<close>

definition loadIndexFile :: "'k cache_ops \<Rightarrow> nat \<Rightarrow> 'k chunk_manager \<Rightarrow> 'k chunk_manager option" where
  "loadIndexFile ops garbage cm = do {
     cm \<leftarrow> loadPriorityInfo ops (cm\<lparr>cm_during_load := True\<rparr>);
     Some (case cm_index_file cm of
       None \<Rightarrow> cm\<lparr>cm_index_file := (if cm_writable cm then Some [] else None), cm_during_load := False\<rparr>
     | Some l \<Rightarrow>
         let cm = (if l \<noteq> [] then fold load_index_step (l @ [garbage]) cm else cm)
         in cm\<lparr>cm_files := updateFilePercentage_all (cm_bits cm) (cm_files cm), cm_during_load := False\<rparr>) }"

section \<open>Construction and checks of the data\<close>

definition chunk_sizes :: "nat \<Rightarrow> nat \<Rightarrow> nat \<Rightarrow> nat list" where
  "chunk_sizes num csize tsize =
     map (\<lambda>i. nat ((if i + 1 < num then int csize else int tsize - int csize * (int num - 1)) mod 2 ^ 32)) [0..<num]"

fun initial_priorities :: "'k cache_ops \<Rightarrow> nat list \<Rightarrow> 'k chunk_manager \<Rightarrow> 'k chunk_manager option" where
  "initial_priorities ops [] cm = Some cm"
| "initial_priorities ops (i # is) cm =
     (let tf = cm_files cm ! i
      in do {
        cm \<leftarrow> (if tf_priority tf \<noteq> NORMAL_PRIORITY
               then downloadPriorityChanged ops i (tf_priority tf) (tf_old tf) cm else Some cm);
        initial_priorities ops is cm })"

definition preview_file :: "nat \<Rightarrow> 'k chunk_manager \<Rightarrow> 'k chunk_manager" where
  "preview_file i cm =
     (let f = cm_files cm ! i
      in if \<not> tf_multimedia f \<or> tf_priority f = ONLY_SEED_PRIORITY then cm
         else if tf_first f = tf_last f then prioritise (tf_first f) (tf_last f) PREVIEW_PRIORITY cm
         else let chunkOffset = (tf_last f - tf_first f) div 100 + 1;
                  cm = prioritise (tf_first f) (tf_first f + chunkOffset) PREVIEW_PRIORITY cm
              in if tf_last f - tf_first f > chunkOffset
                 then prioritise (tf_last f - chunkOffset) (tf_last f) PREVIEW_PRIORITY cm else cm)"

definition cm_preview :: "bool \<Rightarrow> 'k chunk_manager \<Rightarrow> 'k chunk_manager" where
  "cm_preview multimedia cm =
     (if cm_files cm \<noteq> [] then fold preview_file [0..<length (cm_files cm)] cm
      else if multimedia then
        let chunkOffset = cm_num cm div 100 + 1;
            cm = prioritise 0 chunkOffset PREVIEW_PRIORITY cm
        in if cm_num cm > chunkOffset
           then prioritise (cm_num cm - chunkOffset) (cm_num cm - 1) PREVIEW_PRIORITY cm else cm
      else cm)"

text \<open>The state before the constructor looks at the files: no chunk is there, all are to do.\<close>

definition cm_initial :: "torrent_file list \<Rightarrow> bytes list \<Rightarrow> nat \<Rightarrow> nat \<Rightarrow> nat \<Rightarrow> 'k \<Rightarrow> 'k chunk_manager" where
  "cm_initial files hashes csize tsize maxcheck k =
     (let num = length hashes
      in \<lparr>cm_files = files, cm_num = num, cm_chunk_size = csize, cm_hashes = hashes,
          cm_chunks = map (\<lambda>(i, n). Chunk_new i n) (zip [0..<num] (chunk_sizes num csize tsize)),
          cm_cache = k, cm_loaded = Map.empty, cm_bits = BitSet_new num, cm_excl = BitSet_new num,
          cm_only = bs_setAll (BitSet_new num) False, cm_todo = bs_setAll (BitSet_new num) True,
          cm_left = 0, cm_recalc = True, cm_corrupted = 0, cm_recheck = 0, cm_during_load = False,
          cm_slots = 1, cm_max_check = maxcheck, cm_index_file = None, cm_info_file = None,
          cm_prio_file = None, cm_writable = True, cm_events = []\<rparr>)"

definition ChunkManager_new ::
  "'k cache_ops \<Rightarrow> torrent_file list \<Rightarrow> bytes list \<Rightarrow> nat \<Rightarrow> nat \<Rightarrow> nat \<Rightarrow> bool \<Rightarrow> 'k \<Rightarrow> 'k chunk_manager option" where
  "ChunkManager_new ops files hashes csize tsize maxcheck multimedia k = do {
     cm \<leftarrow> initial_priorities ops [0..<length files] (cm_initial files hashes csize tsize maxcheck k);
     Some (cm_preview multimedia cm) }"

definition createFiles :: "'k cache_ops \<Rightarrow> bool \<Rightarrow> 'k chunk_manager \<Rightarrow> 'k chunk_manager option" where
  "createFiles ops check_priority cm =
     (let cm = (if cm_index_file cm = None \<and> cm_writable cm then cm\<lparr>cm_index_file := Some []\<rparr> else cm)
      in if check_priority
         then initial_priorities ops [0..<length (cm_files cm)] (cm\<lparr>cm_slots := cm_slots cm + 1\<rparr>)
         else Some cm)"

definition dataChecked_step :: "'k cache_ops \<Rightarrow> bitset \<Rightarrow> nat \<Rightarrow> 'k chunk_manager \<Rightarrow> 'k chunk_manager option" where
  "dataChecked_step ops good i cm =
     (if bs_get good i \<and> \<not> bs_get (cm_bits cm) i then
        Some (cm_percentage i ((cm_put_chunk i ((cm_chunk cm i)\<lparr>ch_status := ON_DISK\<rparr>) cm)\<lparr>
          cm_bits := bs_set (cm_bits cm) i True, cm_todo := bs_set (cm_todo cm) i False\<rparr>))
      else if \<not> bs_get good i \<and> bs_get (cm_bits cm) i then
        let cm = cm\<lparr>cm_bits := bs_set (cm_bits cm) i False,
              cm_todo := bs_set (cm_todo cm) i (\<not> bs_get (cm_only cm) i \<and> \<not> bs_get (cm_excl cm) i)\<rparr>
        in if ch_status (cm_chunk cm i) = ON_DISK then
             Some (cm_percentage i (cm_put_chunk i ((cm_chunk cm i)\<lparr>ch_status := NOT_DOWNLOADED\<rparr>) cm))
           else if ch_status (cm_chunk cm i) = MMAPPED \<or> ch_status (cm_chunk cm i) = BUFFERED then resetChunk ops i cm
           else Some (cm_percentage i cm)
      else Some cm)"

fun dataChecked_loop :: "'k cache_ops \<Rightarrow> bitset \<Rightarrow> nat list \<Rightarrow> 'k chunk_manager \<Rightarrow> 'k chunk_manager option" where
  "dataChecked_loop ops good [] cm = Some cm"
| "dataChecked_loop ops good (i # is) cm =
     do { cm \<leftarrow> dataChecked_step ops good i cm; dataChecked_loop ops good is cm }"

text \<open>The error of \<^verbatim>\<open>saveIndexFile\<close> is caught here.\<close>

definition dataChecked :: "'k cache_ops \<Rightarrow> bitset \<Rightarrow> 'k chunk_manager \<Rightarrow> 'k chunk_manager option" where
  "dataChecked ops good cm = do {
     cm \<leftarrow> dataChecked_loop ops good [0..<length (cm_chunks cm)] cm;
     let cm = cm\<lparr>cm_recalc := True\<rparr>;
     let cm = (case saveIndexFile cm of None \<Rightarrow> cm | Some cm' \<Rightarrow> cm');
     Some ((fst (chunksLeft cm))\<lparr>cm_corrupted := 0\<rparr>) }"

definition file_found :: "nat \<Rightarrow> 'k chunk_manager \<Rightarrow> 'k chunk_manager" where
  "file_found i cm = cm\<lparr>cm_files := (cm_files cm)[i := (cm_files cm ! i)\<lparr>tf_missing := False\<rparr>]\<rparr>"

fun missing_loop :: "'k cache_ops \<Rightarrow> bool \<Rightarrow> nat list \<Rightarrow> 'k chunk_manager \<Rightarrow> 'k chunk_manager option" where
  "missing_loop ops dnd [] cm = Some cm"
| "missing_loop ops dnd (i # is) cm =
     (let tf = cm_files cm ! i
      in if \<not> tf_missing tf then missing_loop ops dnd is cm
         else do {
           cm \<leftarrow> resetChunks ops [tf_first tf..<Suc (tf_last tf)] cm;
           cm \<leftarrow> (if dnd then cm_setDoNotDownload ops i True (file_found i cm) else Some (file_found i cm));
           missing_loop ops dnd is cm })"

definition recreateMissingFiles :: "'k cache_ops \<Rightarrow> 'k chunk_manager \<Rightarrow> 'k chunk_manager option" where
  "recreateMissingFiles ops cm = do {
     cm \<leftarrow> createFiles ops False cm;
     cm \<leftarrow> (if cm_files cm \<noteq> [] then missing_loop ops False [0..<length (cm_files cm)] cm
            else resetChunks ops [0..<cm_num cm] cm);
     cm \<leftarrow> saveIndexFile cm;
     Some (fst (chunksLeft (cm\<lparr>cm_recalc := True\<rparr>))) }"

definition dndMissingFiles :: "'k cache_ops \<Rightarrow> 'k chunk_manager \<Rightarrow> 'k chunk_manager option" where
  "dndMissingFiles ops cm = do {
     cm \<leftarrow> missing_loop ops True [0..<length (cm_files cm)] cm;
     cm \<leftarrow> saveIndexFile (savePriorityInfo cm);
     Some (fst (chunksLeft (cm\<lparr>cm_recalc := True\<rparr>))) }"

end
