(* ===== verification/ChunkManagerInv.thy ===== *)
theory ChunkManagerInv
  imports ChunkManager
begin

text \<open>
  The invariant of the chunk manager and the frame of its operations. The locale \<open>cache_frame\<close>
  states what the manager needs of any cache: it changes nothing of a chunk but data and status.
\<close>

section \<open>What a cache leaves alone\<close>

definition same_chunk :: "chunk \<Rightarrow> chunk \<Rightarrow> bool" where
  "same_chunk c c' \<longleftrightarrow> ch_index c' = ch_index c \<and> ch_size c' = ch_size c \<and> ch_priority c' = ch_priority c"

locale cache_frame =
  fixes ops :: "'k cache_ops"
  assumes save_frame: "co_save ops k c = Some (k', c') \<Longrightarrow> same_chunk c c' \<and>
      ch_status c' = (if ch_status c = MMAPPED \<or> ch_status c = BUFFERED then ON_DISK else ch_status c)"
    and load_frame: "co_load ops k c = Some (k', c') \<Longrightarrow> same_chunk c c' \<and>
      (ch_status c' = MMAPPED \<or> ch_status c' = BUFFERED)"
    and prep_frame: "co_prep ops k c = Some (k', c') \<Longrightarrow> same_chunk c c' \<and>
      (ch_status c' = MMAPPED \<or> ch_status c' = BUFFERED)"

lemma same_clear [simp]: "same_chunk c ((ch_clear c)\<lparr>ch_status := st\<rparr>)"
  by (simp add: same_chunk_def ch_clear_def)

lemma same_allocate [simp]: "same_chunk c ((ch_allocate c d)\<lparr>ch_status := st\<rparr>)"
  unfolding ch_allocate_eq same_chunk_def by (simp del: take_append)

lemma same_data [simp]: "same_chunk c (c\<lparr>ch_status := st, ch_data := d\<rparr>)"
  by (simp add: same_chunk_def)

lemma same_refl [simp]: "same_chunk c c"
  by (simp add: same_chunk_def)

interpretation sff: cache_frame sf_ops
proof
  show "same_chunk c c' \<and> ch_status c' = (if ch_status c = MMAPPED \<or> ch_status c = BUFFERED then ON_DISK else ch_status c)"
    if "co_save sf_ops k c = Some (k', c')" for k c k' c'
    using that by (auto simp: sf_ops_def sf_save_def split: if_splits option.splits)
  show "same_chunk c c' \<and> (ch_status c' = MMAPPED \<or> ch_status c' = BUFFERED)"
    if "co_load sf_ops k c = Some (k', c')" for k c k' c'
    using that by (auto simp: sf_ops_def sf_load_def sf_load_buffered_def
        split: if_splits option.splits prod.splits)
  show "same_chunk c c' \<and> (ch_status c' = MMAPPED \<or> ch_status c' = BUFFERED)"
    if "co_prep sf_ops k c = Some (k', c')" for k c k' c'
    using that by (auto simp: sf_ops_def sf_prep_def
        split: if_splits option.splits prod.splits)
qed

section \<open>The invariant\<close>

definition cm_bitset_ok :: "nat \<Rightarrow> bitset \<Rightarrow> bool" where
  "cm_bitset_ok n b \<longleftrightarrow> bs_ok b \<and> bs_num_bits b = n"

definition cm_ok :: "'k chunk_manager \<Rightarrow> bool" where
  "cm_ok cm \<longleftrightarrow> length (cm_chunks cm) = cm_num cm \<and>
     cm_bitset_ok (cm_num cm) (cm_bits cm) \<and> cm_bitset_ok (cm_num cm) (cm_excl cm) \<and>
     cm_bitset_ok (cm_num cm) (cm_only cm) \<and> cm_bitset_ok (cm_num cm) (cm_todo cm) \<and>
     (\<forall>i. bs_get (cm_bits cm) i \<longrightarrow> \<not> bs_get (cm_todo cm) i) \<and>
     (\<forall>i < cm_num cm. ch_index (cm_chunk cm i) = i) \<and>
     (\<forall>i. i + 1 < cm_num cm \<longrightarrow> ch_size (cm_chunk cm i) = cm_chunk_size cm) \<and>
     (\<forall>i < cm_num cm. bs_get (cm_bits cm) i \<longrightarrow> ch_status (cm_chunk cm i) \<noteq> NOT_DOWNLOADED) \<and>
     dom (cm_loaded cm) \<subseteq> {..<cm_num cm}"

lemma bitset_ok_set [simp]: "cm_bitset_ok n b \<Longrightarrow> cm_bitset_ok n (bs_set b i v)"
  by (simp add: cm_bitset_ok_def bits.ok_put)

lemma bitset_get_set [simp]:
  "cm_bitset_ok n b \<Longrightarrow> bs_get (bs_set b i v) j = (if j = i \<and> i < n then v else bs_get b j)"
  using bits.get_put_eq [of b i v j] by (simp add: cm_bitset_ok_def)

lemma bitset_get_outside: "cm_bitset_ok n b \<Longrightarrow> bs_get b j \<Longrightarrow> j < n"
  using bits.get_outside [of b j] by (metis cm_bitset_ok_def not_less)

text \<open>The chunks after one of them was replaced.\<close>

lemma put_chunk_fields [simp]:
  "cm_chunk_size (cm_put_chunk i c cm) = cm_chunk_size cm"
  "cm_num (cm_put_chunk i c cm) = cm_num cm" "length (cm_chunks (cm_put_chunk i c cm)) = length (cm_chunks cm)"
  "cm_bits (cm_put_chunk i c cm) = cm_bits cm" "cm_excl (cm_put_chunk i c cm) = cm_excl cm"
  "cm_only (cm_put_chunk i c cm) = cm_only cm" "cm_todo (cm_put_chunk i c cm) = cm_todo cm"
  "cm_loaded (cm_put_chunk i c cm) = cm_loaded cm" "cm_files (cm_put_chunk i c cm) = cm_files cm"
  by (simp_all add: cm_put_chunk_def)

lemma chunk_put_chunk [simp]:
  "i < length (cm_chunks cm) \<Longrightarrow> cm_chunk (cm_put_chunk i c cm) j = (if j = i then c else cm_chunk cm j)"
  by (simp add: cm_chunk_def cm_put_chunk_def nth_list_update)

lemma chunk_update [simp]:
  "cm_chunk (cm\<lparr>cm_bits := b\<rparr>) = cm_chunk cm" "cm_chunk (cm\<lparr>cm_excl := b\<rparr>) = cm_chunk cm"
  "cm_chunk (cm\<lparr>cm_only := b\<rparr>) = cm_chunk cm" "cm_chunk (cm\<lparr>cm_todo := b\<rparr>) = cm_chunk cm"
  "cm_chunk (cm\<lparr>cm_loaded := l\<rparr>) = cm_chunk cm" "cm_chunk (cm\<lparr>cm_files := fs\<rparr>) = cm_chunk cm"
  "cm_chunk (cm\<lparr>cm_cache := k\<rparr>) = cm_chunk cm" "cm_chunk (cm\<lparr>cm_recalc := r\<rparr>) = cm_chunk cm"
  "cm_chunk (cm\<lparr>cm_events := e\<rparr>) = cm_chunk cm" "cm_chunk (cm\<lparr>cm_index_file := x\<rparr>) = cm_chunk cm"
  "cm_chunk (cm\<lparr>cm_corrupted := w\<rparr>) = cm_chunk cm" "cm_chunk (cm\<lparr>cm_recheck := w\<rparr>) = cm_chunk cm"
  "cm_chunk (cm\<lparr>cm_during_load := r\<rparr>) = cm_chunk cm" "cm_chunk (cm\<lparr>cm_slots := s\<rparr>) = cm_chunk cm"
  "cm_chunk (cm\<lparr>cm_info_file := y\<rparr>) = cm_chunk cm" "cm_chunk (cm\<lparr>cm_prio_file := y\<rparr>) = cm_chunk cm"
  "cm_chunk (cm\<lparr>cm_left := s\<rparr>) = cm_chunk cm"
  by (simp_all add: fun_eq_iff cm_chunk_def)

text \<open>The invariant reads only some of the fields.\<close>

lemma cm_ok_frame [simp]:
  "cm_ok (cm\<lparr>cm_files := fs\<rparr>) = cm_ok cm" "cm_ok (cm\<lparr>cm_cache := k\<rparr>) = cm_ok cm"
  "cm_ok (cm\<lparr>cm_recalc := r\<rparr>) = cm_ok cm" "cm_ok (cm\<lparr>cm_events := e\<rparr>) = cm_ok cm"
  "cm_ok (cm\<lparr>cm_index_file := x\<rparr>) = cm_ok cm" "cm_ok (cm\<lparr>cm_corrupted := w\<rparr>) = cm_ok cm"
  "cm_ok (cm\<lparr>cm_recheck := w\<rparr>) = cm_ok cm" "cm_ok (cm\<lparr>cm_during_load := r\<rparr>) = cm_ok cm"
  "cm_ok (cm\<lparr>cm_slots := s\<rparr>) = cm_ok cm" "cm_ok (cm\<lparr>cm_info_file := y\<rparr>) = cm_ok cm"
  "cm_ok (cm\<lparr>cm_prio_file := y\<rparr>) = cm_ok cm" "cm_ok (cm\<lparr>cm_left := s\<rparr>) = cm_ok cm"
  by (simp_all add: cm_ok_def)

lemma cm_ok_emit [simp]: "cm_ok (cm_emit e cm) = cm_ok cm" by (simp add: cm_emit_def)

lemma cm_ok_percentage [simp]: "cm_ok (cm_percentage i cm) = cm_ok cm" by (simp add: cm_percentage_def)

lemma cm_ok_loaded_less: "cm_ok cm \<Longrightarrow> cm_ok (cm\<lparr>cm_loaded := (cm_loaded cm)(i := None)\<rparr>)"
  by (auto simp: cm_ok_def)

lemma cm_ok_loaded_more: "cm_ok cm \<Longrightarrow> i < cm_num cm \<Longrightarrow> cm_ok (cm\<lparr>cm_loaded := (cm_loaded cm)(i \<mapsto> t)\<rparr>)"
  by (auto simp: cm_ok_def)

text \<open>Replacing a chunk, and clearing or moving its bits.\<close>

lemma cm_ok_put:
  assumes "cm_ok cm" "i < cm_num cm" "ch_index c = i" "ch_size c = ch_size (cm_chunk cm i)"
    "bs_get (cm_bits cm) i \<Longrightarrow> ch_status c \<noteq> NOT_DOWNLOADED"
  shows "cm_ok (cm_put_chunk i c cm)"
  using assms by (auto simp: cm_ok_def)

lemma cm_ok_todo:
  assumes "cm_ok cm" "v \<Longrightarrow> \<not> bs_get (cm_bits cm) i"
  shows "cm_ok (cm\<lparr>cm_todo := bs_set (cm_todo cm) i v\<rparr>)"
  using assms unfolding cm_ok_def by (auto split: if_splits)

lemma cm_ok_only: "cm_ok cm \<Longrightarrow> cm_ok (cm\<lparr>cm_only := bs_set (cm_only cm) i v\<rparr>)"
  by (simp add: cm_ok_def)

lemma cm_ok_excl: "cm_ok cm \<Longrightarrow> cm_ok (cm\<lparr>cm_excl := bs_set (cm_excl cm) i v\<rparr>)"
  by (simp add: cm_ok_def)

lemma cm_ok_unset: "cm_ok cm \<Longrightarrow> cm_ok (cm\<lparr>cm_bits := bs_set (cm_bits cm) i False\<rparr>)"
  unfolding cm_ok_def by (auto split: if_splits)

lemma cm_ok_downloaded:
  assumes "cm_ok cm" "i < cm_num cm" "ch_status (cm_chunk cm i) \<noteq> NOT_DOWNLOADED"
  shows "cm_ok (cm\<lparr>cm_bits := bs_set (cm_bits cm) i True, cm_todo := bs_set (cm_todo cm) i False\<rparr>)"
  using assms unfolding cm_ok_def by (auto split: if_splits)

lemma cm_ok_index: "cm_ok cm \<Longrightarrow> i < cm_num cm \<Longrightarrow> ch_index (cm_chunk cm i) = i"
  by (simp add: cm_ok_def)

lemma cm_ok_status: "cm_ok cm \<Longrightarrow> bs_get (cm_bits cm) i \<Longrightarrow> ch_status (cm_chunk cm i) \<noteq> NOT_DOWNLOADED"
  using bitset_get_outside by (auto simp: cm_ok_def)

lemma cm_ok_bitsets:
  "cm_ok cm \<Longrightarrow> cm_bitset_ok (cm_num cm) (cm_bits cm)" "cm_ok cm \<Longrightarrow> cm_bitset_ok (cm_num cm) (cm_excl cm)"
  "cm_ok cm \<Longrightarrow> cm_bitset_ok (cm_num cm) (cm_only cm)" "cm_ok cm \<Longrightarrow> cm_bitset_ok (cm_num cm) (cm_todo cm)"
  by (simp_all add: cm_ok_def)

lemma cm_ok_length: "cm_ok cm \<Longrightarrow> length (cm_chunks cm) = cm_num cm"
  by (simp add: cm_ok_def)

section \<open>Loops over chunks\<close>

lemma fold_keeps: "\<lbrakk>\<And>i s. i \<in> set xs \<Longrightarrow> P s \<Longrightarrow> P (f i s); P s\<rbrakk> \<Longrightarrow> P (fold f xs s)"
  by (induction xs arbitrary: s) simp_all

lemma set_cm_range: "set (cm_range cm from to) = {i. min from to \<le> i \<and> i \<le> max from to \<and> i < length (cm_chunks cm)}"
  by (auto simp: cm_range_def)

text \<open>\<open>cm_keeps n f\<close>: an operation on chunk \<open>i < n\<close> that keeps the invariant and the number of chunks.\<close>

lemma prioritise_step_ok:
  assumes "cm_ok cm" "i < cm_num cm"
  shows "cm_ok (prioritise_step p i cm) \<and> cm_num (prioritise_step p i cm) = cm_num cm"
proof -
  have c: "cm_ok (cm_put_chunk i ((cm_chunk cm i)\<lparr>ch_priority := q\<rparr>) cm)" for q
    using assms cm_ok_status [OF assms(1)] by (intro cm_ok_put) (simp_all add: cm_ok_index)
  have "cm_ok ((cm_put_chunk i ((cm_chunk cm i)\<lparr>ch_priority := q\<rparr>) cm)\<lparr>
      cm_only := bs_set (cm_only cm) i u, cm_todo := bs_set (cm_todo cm) i v\<rparr>)"
    if "v \<Longrightarrow> \<not> bs_get (cm_bits cm) i" for q u v
    using cm_ok_todo [OF cm_ok_only [OF c [of q], of i u], of v i] that by simp
  note f = this
  show ?thesis by (simp add: prioritise_step_def Let_def f)
qed

lemma exclude_step_ok:
  assumes "cm_ok cm" "i < cm_num cm"
  shows "cm_ok (exclude_step i cm) \<and> cm_num (exclude_step i cm) = cm_num cm"
proof -
  let ?c = "cm_put_chunk i (ch_setExclude (cm_chunk cm i) True) cm"
  have c: "cm_ok ?c"
    using assms cm_ok_status [OF assms(1)]
    by (intro cm_ok_put) (simp_all add: cm_ok_index ch_setExclude_def)
  note c = cm_ok_excl [OF c, of i True]
  note c = cm_ok_only [OF c, of i False]
  note c = cm_ok_todo [OF c, of False i]
  note c = cm_ok_unset [OF c, of i]
  show ?thesis using c by (simp add: exclude_step_def)
qed

lemma include_step_ok:
  assumes "cm_ok cm" "i < cm_num cm"
  shows "cm_ok (include_step i cm) \<and> cm_num (include_step i cm) = cm_num cm"
proof -
  let ?c = "cm_put_chunk i (ch_setExclude (cm_chunk cm i) False) cm"
  have c: "cm_ok ?c"
    using assms cm_ok_status [OF assms(1)]
    by (intro cm_ok_put) (simp_all add: cm_ok_index ch_setExclude_def)
  note e = cm_ok_excl [OF c, of i False]
  have "\<not> bs_get (cm_bits cm) i \<Longrightarrow>
    cm_ok ((?c\<lparr>cm_excl := bs_set (cm_excl ?c) i False\<rparr>)\<lparr>cm_todo := bs_set (cm_todo ?c) i True\<rparr>)"
    using cm_ok_todo [OF e, of True i] by simp
  then show ?thesis using e by (simp add: include_step_def Let_def)
qed

lemma range_loop_ok:
  assumes "\<And>i s. cm_ok s \<Longrightarrow> i < cm_num s \<Longrightarrow> cm_ok (f i s) \<and> cm_num (f i s) = cm_num s" "cm_ok cm"
  shows "cm_ok (fold f (cm_range cm from to) cm) \<and> cm_num (fold f (cm_range cm from to) cm) = cm_num cm"
  using assms(2)
  by (intro fold_keeps [where P = "\<lambda>s. cm_ok s \<and> cm_num s = cm_num cm"])
     (auto simp: set_cm_range cm_ok_length assms(1))

lemma prioritise_ok [inv_intro]: "cm_ok cm \<Longrightarrow> cm_ok (prioritise a b p cm) \<and> cm_num (prioritise a b p cm) = cm_num cm"
  using range_loop_ok [OF prioritise_step_ok] by (simp add: prioritise_def cm_emit_def)

lemma exclude_ok [inv_intro]: "cm_ok cm \<Longrightarrow> cm_ok (cm_exclude a b cm) \<and> cm_num (cm_exclude a b cm) = cm_num cm"
  using range_loop_ok [OF exclude_step_ok] by (simp add: cm_exclude_def cm_emit_def)

lemma include_ok [inv_intro]: "cm_ok cm \<Longrightarrow> cm_ok (cm_include a b cm) \<and> cm_num (cm_include a b cm) = cm_num cm"
  using range_loop_ok [OF include_step_ok] by (simp add: cm_include_def cm_emit_def)


section \<open>Operations that use the cache\<close>

abbreviation cm_next :: "'k chunk_manager \<Rightarrow> 'k chunk_manager \<Rightarrow> bool" where
  "cm_next cm cm' \<equiv> cm_ok cm' \<and> cm_num cm' = cm_num cm"

lemma cm_ok_not_downloaded:
  assumes "cm_ok cm" "i < cm_num cm" "ch_index c = i" "ch_size c = ch_size (cm_chunk cm i)"
  shows "cm_ok ((cm_put_chunk i c cm)\<lparr>cm_bits := bs_set (cm_bits cm) i False,
    cm_todo := bs_set (cm_todo cm) i v, cm_loaded := (cm_loaded cm)(i := None)\<rparr>)"
proof -
  have "cm_ok (cm\<lparr>cm_bits := bs_set (cm_bits cm) i False\<rparr>)" using assms(1) by (rule cm_ok_unset)
  moreover have g: "\<not> bs_get (bs_set (cm_bits cm) i False) i"
    using bitset_get_set [OF cm_ok_bitsets(1) [OF assms(1)], of i False i] assms(2) by simp
  ultimately have "cm_ok (cm_put_chunk i c (cm\<lparr>cm_bits := bs_set (cm_bits cm) i False\<rparr>))"
    using assms(2-4) by (intro cm_ok_put) simp_all
  note p = cm_ok_todo [OF this, of v i]
  have "cm_ok ((cm_put_chunk i c (cm\<lparr>cm_bits := bs_set (cm_bits cm) i False\<rparr>))\<lparr>cm_todo := bs_set (cm_todo cm) i v\<rparr>)"
    using p g by simp
  note l = cm_ok_loaded_less [OF this, of i]
  have "(cm_put_chunk i c cm)\<lparr>cm_bits := bs_set (cm_bits cm) i False,
      cm_todo := bs_set (cm_todo cm) i v, cm_loaded := (cm_loaded cm)(i := None)\<rparr> =
    (cm_put_chunk i c (cm\<lparr>cm_bits := bs_set (cm_bits cm) i False\<rparr>))\<lparr>cm_todo := bs_set (cm_todo cm) i v,
      cm_loaded := (cm_loaded cm)(i := None)\<rparr>"
    by (rule chunk_manager.equality) (simp_all add: cm_put_chunk_def)
  then show ?thesis using l by simp
qed

context cache_frame
begin

lemma save_mapped_spec:
  "cm_save_mapped ops c cm = Some (cm', c') \<Longrightarrow> same_chunk c c' \<and> (\<exists>k. cm' = cm\<lparr>cm_cache := k\<rparr>)"
  using save_frame by (auto simp: cm_save_mapped_def split: if_splits intro: exI [of _ "cm_cache cm"])

lemma resetChunk_spec:
  assumes "resetChunk ops i cm = Some cm'" "i < length (cm_chunks cm)"
  shows "\<exists>k c fs. same_chunk (cm_chunk cm i) c \<and> ch_status c = NOT_DOWNLOADED \<and>
    fs = updateFilePercentage (cm_num cm) i (bs_set (cm_bits cm) i False) (cm_files cm) \<and>
    cm' = (cm_put_chunk i c cm)\<lparr>cm_cache := k, cm_bits := bs_set (cm_bits cm) i False,
      cm_todo := bs_set (cm_todo cm) i (\<not> bs_get (cm_excl cm) i \<and> \<not> bs_get (cm_only cm) i),
      cm_loaded := (cm_loaded cm)(i := None), cm_files := fs\<rparr>"
proof -
  obtain cm1 c1 where s: "cm_save_mapped ops (cm_chunk cm i) cm = Some (cm1, c1)"
    and r: "cm' = cm_percentage i ((cm_put_chunk i ((ch_clear c1)\<lparr>ch_status := NOT_DOWNLOADED\<rparr>) cm1)\<lparr>
      cm_bits := bs_set (cm_bits cm1) i False,
      cm_todo := bs_set (cm_todo cm1) i (\<not> bs_get (cm_excl cm1) i \<and> \<not> bs_get (cm_only cm1) i),
      cm_loaded := (cm_loaded cm1)(i := None)\<rparr>)"
    using assms by (auto simp: resetChunk_def Let_def split: Option.bind_splits)
  obtain k where k: "same_chunk (cm_chunk cm i) c1" "cm1 = cm\<lparr>cm_cache := k\<rparr>"
    using save_mapped_spec [OF s] by blast
  have c: "same_chunk (cm_chunk cm i) ((ch_clear c1)\<lparr>ch_status := NOT_DOWNLOADED\<rparr>)"
    using k(1) by (simp add: same_chunk_def ch_clear_def)
  have "cm' = (cm_put_chunk i ((ch_clear c1)\<lparr>ch_status := NOT_DOWNLOADED\<rparr>) cm)\<lparr>cm_cache := k,
      cm_bits := bs_set (cm_bits cm) i False,
      cm_todo := bs_set (cm_todo cm) i (\<not> bs_get (cm_excl cm) i \<and> \<not> bs_get (cm_only cm) i),
      cm_loaded := (cm_loaded cm)(i := None),
      cm_files := updateFilePercentage (cm_num cm) i (bs_set (cm_bits cm) i False) (cm_files cm)\<rparr>"
    unfolding r k(2) cm_percentage_def by (rule chunk_manager.equality) (simp_all add: cm_put_chunk_def)
  then show ?thesis by (intro exI conjI) (rule c, simp, rule refl)
qed

lemma resetChunk_ok:
  assumes "resetChunk ops i cm = Some cm'" "cm_ok cm"
  shows "cm_next cm cm'"
proof (cases "i < length (cm_chunks cm)")
  case True
  then obtain k c fs where r: "same_chunk (cm_chunk cm i) c" 
    "cm' = (cm_put_chunk i c cm)\<lparr>cm_cache := k, cm_bits := bs_set (cm_bits cm) i False,
      cm_todo := bs_set (cm_todo cm) i (\<not> bs_get (cm_excl cm) i \<and> \<not> bs_get (cm_only cm) i),
      cm_loaded := (cm_loaded cm)(i := None), cm_files := fs\<rparr>"
    using resetChunk_spec [OF assms(1)] by blast
  have i: "i < cm_num cm" "ch_index c = i" "ch_size c = ch_size (cm_chunk cm i)"
    using True assms(2) r(1) by (simp_all add: cm_ok_length cm_ok_index same_chunk_def)
  show ?thesis
    using cm_ok_not_downloaded [OF assms(2) i, of "\<not> bs_get (cm_excl cm) i \<and> \<not> bs_get (cm_only cm) i"]
    by (simp add: r(2) cm_put_chunk_def cm_ok_def cm_chunk_def)
qed (use assms in \<open>simp add: resetChunk_def\<close>)

lemma resetChunks_ok: "resetChunks ops is cm = Some cm' \<Longrightarrow> cm_ok cm \<Longrightarrow> cm_next cm cm'"
  by (induction "is" arbitrary: cm) (auto split: Option.bind_splits dest!: resetChunk_ok)

lemma clear_on_disk_ok:
  assumes "cm_save_mapped ops (cm_chunk cm i) cm = Some (cm1, c)" "cm_ok cm" "i < cm_num cm"
  shows "cm_next cm (cm_put_chunk i ((ch_clear c)\<lparr>ch_status := ON_DISK\<rparr>) cm1)"
proof -
  obtain k where k: "same_chunk (cm_chunk cm i) c" "cm1 = cm\<lparr>cm_cache := k\<rparr>"
    using save_mapped_spec [OF assms(1)] by blast
  have "cm_ok (cm_put_chunk i ((ch_clear c)\<lparr>ch_status := ON_DISK\<rparr>) cm)"
    using assms(2,3) k(1) by (intro cm_ok_put) (simp_all add: same_chunk_def ch_clear_def cm_ok_index)
  then show ?thesis by (simp add: k(2) cm_put_chunk_def cm_ok_def cm_chunk_def)
qed

lemma stop_loop_ok:
  "stop_loop ops is cm = Some cm' \<Longrightarrow> cm_ok cm \<Longrightarrow> set is \<subseteq> {..<cm_num cm} \<Longrightarrow> cm_next cm cm'"
proof (induction "is" arbitrary: cm)
  case (Cons i "is")
  obtain cm1 where s: "stop_step ops i cm = Some cm1" "stop_loop ops is cm1 = Some cm'"
    using Cons.prems(1) by (auto split: Option.bind_splits)
  have "cm_next cm cm1"
    using s(1) Cons.prems(2,3) clear_on_disk_ok [of cm i]
    by (auto simp: stop_step_def split: if_splits Option.bind_splits)
  then show ?case using Cons.IH [OF s(2)] Cons.prems(3) by simp
qed simp

lemma stop_ok: "cm_stop ops cm = Some cm' \<Longrightarrow> cm_ok cm \<Longrightarrow> cm_next cm cm'"
  unfolding cm_stop_def by (rule stop_loop_ok) (auto simp: cm_ok_def cm_bitset_ok_def)

lemma releaseChunk_ok: "releaseChunk ops i cm = Some cm' \<Longrightarrow> cm_ok cm \<Longrightarrow> cm_next cm cm'"
proof -
  assume r: "releaseChunk ops i cm = Some cm'" "cm_ok cm"
  show "cm_next cm cm'"
  proof (cases "i < length (cm_chunks cm) \<and> \<not> ch_taken (cm_chunk cm i)")
    case True
    then obtain cm1 c where s: "cm_save_mapped ops (cm_chunk cm i) cm = Some (cm1, c)"
      "cm' = (cm_put_chunk i ((ch_clear c)\<lparr>ch_status := ON_DISK\<rparr>) cm1)\<lparr>cm_loaded := (cm_loaded cm1)(i := None)\<rparr>"
      using r(1) by (auto simp: releaseChunk_def split: Option.bind_splits)
    have o: "cm_next cm (cm_put_chunk i ((ch_clear c)\<lparr>ch_status := ON_DISK\<rparr>) cm1)"
      using clear_on_disk_ok [OF s(1) r(2)] True r(2) by (simp add: cm_ok_length)
    show ?thesis using o cm_ok_loaded_less [OF conjunct1 [OF o], of i] by (simp add: s(2))
  qed (use r in \<open>auto simp: releaseChunk_def split: if_splits\<close>)
qed

lemma checkMemory_loop_ok: "checkMemory_loop ops now is cm = Some cm' \<Longrightarrow> cm_ok cm \<Longrightarrow> cm_next cm cm'"
proof (induction "is" arbitrary: cm)
  case (Cons i "is")
  obtain cm1 where s: "checkMemory_step ops now i cm = Some cm1" "checkMemory_loop ops now is cm1 = Some cm'"
    using Cons.prems(1) by (auto split: Option.bind_splits)
  have "cm_next cm cm1"
    using s(1) Cons.prems(2) releaseChunk_ok by (auto simp: checkMemory_step_def split: option.splits if_splits)
  then show ?case using Cons.IH [OF s(2)] by simp
qed simp

lemma prepareChunk_ok:
  assumes "prepareChunk ops i always cm = Some (cm', b)" "cm_ok cm" "i < cm_num cm"
  shows "cm_next cm cm'"
proof (cases "\<not> always \<and> ch_status (cm_chunk cm i) \<noteq> NOT_DOWNLOADED")
  case False
  then obtain k c where p: "co_prep ops (cm_cache cm) (cm_chunk cm i) = Some (k, c)"
    "cm' = cm_put_chunk i c (cm\<lparr>cm_cache := k\<rparr>)"
    using assms(1) by (auto simp: prepareChunk_def split: Option.bind_splits)
  have "cm_ok (cm_put_chunk i c (cm\<lparr>cm_cache := k\<rparr>))"
    using assms(2,3) prep_frame [OF p(1)] by (intro cm_ok_put) (auto simp: same_chunk_def cm_ok_index)
  then show ?thesis by (simp add: p(2))
qed (use assms in \<open>simp add: prepareChunk_def\<close>)

end

lemma cm_ok_files: "cm_next cm (savePriorityInfo cm) \<longleftrightarrow> cm_ok cm"
  by (simp add: savePriorityInfo_def saveFileInfo_def Let_def)

lemma savePriorityInfo_fields [simp]:
  "cm_bits (savePriorityInfo cm) = cm_bits cm" "cm_excl (savePriorityInfo cm) = cm_excl cm"
  "cm_only (savePriorityInfo cm) = cm_only cm" "cm_todo (savePriorityInfo cm) = cm_todo cm"
  "cm_num (savePriorityInfo cm) = cm_num cm" "cm_files (savePriorityInfo cm) = cm_files cm"
  "cm_chunks (savePriorityInfo cm) = cm_chunks cm" "cm_ok (savePriorityInfo cm) = cm_ok cm"
  "cm_index_file (savePriorityInfo cm) = cm_index_file cm"
  by (simp_all add: savePriorityInfo_def saveFileInfo_def Let_def)

lemma saveIndexFile_ok: "saveIndexFile cm = Some cm' \<Longrightarrow> cm_ok cm \<Longrightarrow> cm_next cm cm'"
  by (auto simp: saveIndexFile_def split: if_splits)

lemma writeIndexFileEntry_ok: "writeIndexFileEntry c cm = Some cm' \<Longrightarrow> cm_ok cm \<Longrightarrow> cm_next cm cm'"
  by (auto simp: writeIndexFileEntry_def Let_def split: if_splits)

lemma percentage_num [simp]: "cm_num (cm_percentage i cm) = cm_num cm"
  by (simp add: cm_percentage_def)

lemma emit_num [simp]: "cm_num (cm_emit e cm) = cm_num cm"
  by (simp add: cm_emit_def)

lemma chunksLeft_ok: "cm_ok cm \<Longrightarrow> cm_next cm (fst (chunksLeft cm))"
  by (simp add: chunksLeft_def Let_def)

context cache_frame
begin

lemma grabChunk_ok:
  assumes "grabChunk ops now i cm = Some (cm', b)" "cm_ok cm"
  shows "cm_next cm cm'"
proof (cases "i < cm_num cm \<and> ch_status (cm_chunk cm i) = ON_DISK \<and> \<not> ch_isExcluded (cm_chunk cm i)")
  case False
  then show ?thesis
    using assms cm_ok_loaded_more [OF assms(2)]
    by (auto simp: grabChunk_def cm_ok_length split: if_splits)
next
  case True
  then obtain k c where l: "co_load ops (cm_cache cm) (cm_chunk cm i) = Some (k, c)"
    using assms by (auto simp: grabChunk_def cm_ok_length split: Option.bind_splits)
  let ?cm = "(cm_put_chunk i c (cm\<lparr>cm_cache := k\<rparr>))\<lparr>cm_loaded := (cm_loaded cm)(i \<mapsto> now)\<rparr>"
  have "cm_ok (cm_put_chunk i c (cm\<lparr>cm_cache := k\<rparr>))"
    using assms(2) True load_frame [OF l] by (intro cm_ok_put) (auto simp: same_chunk_def cm_ok_index)
  from cm_ok_loaded_more [OF this, of i now] True have ok: "cm_next cm ?cm" by simp
  consider (bad) cm1 cm2 where "resetChunk ops i (?cm\<lparr>cm_recheck := 0\<rparr>) = Some cm1"
      "saveIndexFile (cm_percentage i cm1) = Some cm2"
      "cm' = cm_emit (Corrupted i) (cm2\<lparr>cm_recalc := True, cm_corrupted := cm_corrupted cm2 + 1\<rparr>)"
    | (good) w where "cm' = ?cm\<lparr>cm_recheck := w\<rparr>"
    using assms True l by (auto simp: grabChunk_def cm_ok_length Let_def split: Option.bind_splits if_splits)
  then show ?thesis
  proof cases
    case bad
    have "cm_next cm cm1" using resetChunk_ok [OF bad(1)] ok by simp
    then have "cm_next cm cm2" using saveIndexFile_ok [OF bad(2)] by simp
    then show ?thesis by (simp add: bad(3))
  next
    case good
    then show ?thesis using ok by simp
  qed
qed

lemma saveChunk_ok:
  assumes "saveChunk ops i u cm = Some cm'" "cm_ok cm" "\<not> bs_get (cm_bits cm) i"
    "ch_status (cm_chunk cm i) \<noteq> NOT_DOWNLOADED \<or> \<not> u"
  shows "cm_next cm cm'"
proof (cases "i < cm_num cm")
  case True
  note i = True
  show ?thesis
  proof (cases "ch_isExcluded (cm_chunk cm i)")
    case True
    then have "cm' = cm_put_chunk i ((ch_clear (cm_chunk cm i))\<lparr>ch_status := NOT_DOWNLOADED\<rparr>) cm"
      using assms(1,2) i by (simp add: saveChunk_def cm_ok_length)
    moreover have "cm_ok (cm_put_chunk i ((ch_clear (cm_chunk cm i))\<lparr>ch_status := NOT_DOWNLOADED\<rparr>) cm)"
      using assms(2,3) i by (intro cm_ok_put) (simp_all add: ch_clear_def cm_ok_index)
    ultimately show ?thesis by simp
  next
    case False
    then obtain k c where s: "co_save ops (cm_cache cm) (cm_chunk cm i) = Some (k, c)"
      using assms(1,2) i by (auto simp: saveChunk_def cm_ok_length split: Option.bind_splits)
    let ?cm = "cm_put_chunk i c (cm\<lparr>cm_cache := k\<rparr>)"
    have ok: "cm_ok ?cm"
      using assms(2,3) i save_frame [OF s] by (intro cm_ok_put) (auto simp: same_chunk_def cm_ok_index)
    show ?thesis
    proof (cases u)
      case True
      then obtain cm1 where w: "writeIndexFileEntry c (?cm\<lparr>cm_bits := bs_set (cm_bits ?cm) i True,
          cm_todo := bs_set (cm_todo ?cm) i False, cm_recalc := True\<rparr>) = Some cm1" "cm' = cm_percentage i cm1"
        using assms(1,2) i False s by (auto simp: saveChunk_def cm_ok_length Let_def split: Option.bind_splits)
      have "ch_status (cm_chunk ?cm i) \<noteq> NOT_DOWNLOADED"
        using save_frame [OF s] assms(4) True i assms(2) by (auto simp: cm_ok_length)
      then have "cm_ok (?cm\<lparr>cm_bits := bs_set (cm_bits ?cm) i True, cm_todo := bs_set (cm_todo ?cm) i False\<rparr>)"
        using ok i by (intro cm_ok_downloaded) simp_all
      then have "cm_ok (?cm\<lparr>cm_bits := bs_set (cm_bits ?cm) i True, cm_todo := bs_set (cm_todo ?cm) i False,
          cm_recalc := True\<rparr>)"
        by (simp add: cm_ok_def)
      from writeIndexFileEntry_ok [OF w(1) this] show ?thesis by (simp add: w(2))
    next
      case False
      then have "cm' = ?cm"
        using assms(1,2) i \<open>\<not> ch_isExcluded (cm_chunk cm i)\<close> s by (simp add: saveChunk_def cm_ok_length)
      then show ?thesis using ok by simp
    qed
  qed
qed (use assms in \<open>simp add: saveChunk_def cm_ok_length\<close>)

lemma dataChecked_step_ok:
  assumes "dataChecked_step ops good i cm = Some cm'" "cm_ok cm" "i < cm_num cm"
  shows "cm_next cm cm'"
proof -
  let ?b = "cm\<lparr>cm_bits := bs_set (cm_bits cm) i False,
      cm_todo := bs_set (cm_todo cm) i (\<not> bs_get (cm_only cm) i \<and> \<not> bs_get (cm_excl cm) i)\<rparr>"
  have nb: "\<not> bs_get (bs_set (cm_bits cm) i False) i"
    using bitset_get_set [OF cm_ok_bitsets(1) [OF assms(2)], of i False i] assms(3) by simp
  have b: "cm_ok ?b"
    using cm_ok_todo [OF cm_ok_unset [OF assms(2), of i], of "\<not> bs_get (cm_only cm) i \<and> \<not> bs_get (cm_excl cm) i" i] nb by simp
  have nd: "cm_ok (cm_put_chunk i ((cm_chunk ?b i)\<lparr>ch_status := NOT_DOWNLOADED\<rparr>) ?b)"
    using b assms(2,3) nb by (intro cm_ok_put) (simp_all add: cm_ok_index)
  let ?d = "cm_put_chunk i ((cm_chunk cm i)\<lparr>ch_status := ON_DISK\<rparr>) cm"
  have d0: "cm_ok ?d" using assms(2,3) by (intro cm_ok_put) (simp_all add: cm_ok_index)
  have "cm_ok (?d\<lparr>cm_bits := bs_set (cm_bits ?d) i True, cm_todo := bs_set (cm_todo ?d) i False\<rparr>)"
    by (rule cm_ok_downloaded [OF d0]) (use assms(2,3) in \<open>simp_all add: cm_ok_length\<close>)
  then have d: "cm_ok (?d\<lparr>cm_bits := bs_set (cm_bits cm) i True, cm_todo := bs_set (cm_todo cm) i False\<rparr>)"
    by simp
  show ?thesis
    using assms(1) resetChunk_ok [of i ?b cm'] b nd d assms(2)
    by (auto simp: dataChecked_step_def Let_def split: if_splits)
qed

lemma dataChecked_loop_ok:
  "dataChecked_loop ops good is cm = Some cm' \<Longrightarrow> cm_ok cm \<Longrightarrow> set is \<subseteq> {..<cm_num cm} \<Longrightarrow> cm_next cm cm'"
proof (induction "is" arbitrary: cm)
  case (Cons i "is")
  obtain cm1 where s: "dataChecked_step ops good i cm = Some cm1" "dataChecked_loop ops good is cm1 = Some cm'"
    using Cons.prems(1) by (auto split: Option.bind_splits)
  then show ?case
    using dataChecked_step_ok [OF s(1) Cons.prems(2)] Cons.IH [OF s(2)] Cons.prems(3) by auto
qed simp

lemma dataChecked_ok: "dataChecked ops good cm = Some cm' \<Longrightarrow> cm_ok cm \<Longrightarrow> cm_next cm cm'"
proof -
  assume a: "dataChecked ops good cm = Some cm'" "cm_ok cm"
  obtain cm1 cm2 where l: "dataChecked_loop ops good [0..<length (cm_chunks cm)] cm = Some cm1"
    "cm2 = (case saveIndexFile (cm1\<lparr>cm_recalc := True\<rparr>) of None \<Rightarrow> cm1\<lparr>cm_recalc := True\<rparr> | Some cm' \<Rightarrow> cm')"
    "cm' = (fst (chunksLeft cm2))\<lparr>cm_corrupted := 0\<rparr>"
    using a(1) by (auto simp: dataChecked_def Let_def split: Option.bind_splits)
  have "set [0..<length (cm_chunks cm)] \<subseteq> {..<cm_num cm}" using a(2) by (simp add: cm_ok_length lessThan_atLeast0)
  then have c: "cm_next cm cm1" using dataChecked_loop_ok [OF l(1) a(2)] by blast
  have "cm_next cm cm2"
  proof (cases "saveIndexFile (cm1\<lparr>cm_recalc := True\<rparr>)")
    case None
    then show ?thesis using c by (simp add: l(2))
  next
    case (Some cm3)
    then show ?thesis using c saveIndexFile_ok [OF Some] by (simp add: l(2))
  qed
  then have "cm_next cm (fst (chunksLeft cm2))" using chunksLeft_ok [of cm2] by simp
  then show ?thesis by (simp add: l(3))
qed

lemma exclude_resets_ok:
  assumes "exclude_resets ops f l fs ls cm = Some cm'" "cm_ok cm"
  shows "cm_next cm cm'"
proof -
  obtain cm1 cm2 where r: "resetChunks ops [f + 1..<l] cm = Some cm1"
    "(if length fs = 1 \<and> f \<noteq> 0 then resetChunk ops f cm1 else Some cm1) = Some cm2"
    "(if l \<noteq> f \<and> length ls = 1 then resetChunk ops l cm2 else Some cm2) = Some cm'"
    using assms(1) by (auto simp: exclude_resets_def simp del: One_nat_def split: Option.bind_splits)
  have "cm_next cm cm1" by (rule resetChunks_ok [OF r(1) assms(2)])
  then have "cm_next cm cm2" using r(2) resetChunk_ok [of f cm1 cm2] by (auto split: if_splits)
  then show ?thesis using r(3) resetChunk_ok [of l cm2 cm'] by (auto split: if_splits)
qed

end

lemma exclude_borders_ok: "cm_ok cm \<Longrightarrow> cm_next cm (exclude_borders idx f l fs ls cm)"
  by (simp add: exclude_borders_def Let_def prioritise_ok exclude_ok split: prod.split)

context cache_frame
begin

lemma fileExcluded_ok: "fileExcluded ops idx cm = Some cm' \<Longrightarrow> cm_ok cm \<Longrightarrow> cm_next cm cm'"
  by (auto simp: fileExcluded_def Let_def exclude_borders_ok split: Option.bind_splits if_splits dest!: exclude_resets_ok)

end

lemma fileIncluded_ok: "cm_ok cm \<Longrightarrow> cm_next cm (fileIncluded idx cm)"
  by (simp add: fileIncluded_def Let_def prioritise_ok include_ok)

lemma filePriority_ok: "cm_ok cm \<Longrightarrow> cm_next cm (filePriority idx p cm)"
  by (simp add: filePriority_def Let_def prioritise_ok)

lemma set_file_ok: "cm_ok cm \<Longrightarrow> cm_next cm (cm\<lparr>cm_files := fs\<rparr>)"
  by simp

context cache_frame
begin

lemma priorityChanged_ok:
  "downloadPriorityChanged ops idx new old cm = Some cm' \<Longrightarrow> cm_ok cm \<Longrightarrow> cm_next cm cm'"
  by (auto simp: downloadPriorityChanged_def downloadStatusChanged_def fileIncluded_ok filePriority_ok
      split: if_splits dest: fileExcluded_ok)

lemma signal_ok: "cm_signal ops n idx new old cm = Some cm' \<Longrightarrow> cm_ok cm \<Longrightarrow> cm_next cm cm'"
  by (induction n arbitrary: cm) (auto split: Option.bind_splits dest!: priorityChanged_ok)

lemma steps_ok: "cm_steps ops idx sts cm = Some cm' \<Longrightarrow> cm_ok cm \<Longrightarrow> cm_next cm cm'"
proof (induction sts arbitrary: cm)
  case (Cons st sts)
  obtain old new e where st: "st = (old, new, e)" by (cases st)
  let ?cm = "cm\<lparr>cm_files := (cm_files cm)[idx := tf_apply st (cm_files cm ! idx)]\<rparr>"
  obtain cm1 where c: "(if e then cm_signal ops (cm_slots ?cm) idx new old ?cm else Some ?cm) = Some cm1"
    "cm_steps ops idx sts cm1 = Some cm'"
    using Cons.prems(1) by (simp only: st cm_steps.simps Let_def Option.bind_eq_Some_conv prod.case) blast
  have "cm_next cm cm1"
    using c(1) signal_ok [of "cm_slots ?cm" idx new old ?cm cm1] Cons.prems(2) by (auto split: if_splits)
  then show ?case using Cons.IH [OF c(2)] by simp
qed simp

lemma setPriority_ok: "cm_setPriority ops idx p cm = Some cm' \<Longrightarrow> cm_ok cm \<Longrightarrow> cm_next cm cm'"
  using steps_ok by (auto simp: cm_setPriority_def split: if_splits)

lemma setDoNotDownload_ok: "cm_setDoNotDownload ops idx d cm = Some cm' \<Longrightarrow> cm_ok cm \<Longrightarrow> cm_next cm cm'"
  using steps_ok by (auto simp: cm_setDoNotDownload_def split: if_splits)

lemma initial_priorities_ok: "initial_priorities ops is cm = Some cm' \<Longrightarrow> cm_ok cm \<Longrightarrow> cm_next cm cm'"
proof (induction "is" arbitrary: cm)
  case (Cons i "is")
  obtain cm1 where c: "(if tf_priority (cm_files cm ! i) \<noteq> NORMAL_PRIORITY
      then downloadPriorityChanged ops i (tf_priority (cm_files cm ! i)) (tf_old (cm_files cm ! i)) cm else Some cm) = Some cm1"
    "initial_priorities ops is cm1 = Some cm'"
    using Cons.prems(1) by (auto simp: Let_def split: Option.bind_splits)
  then have "cm_next cm cm1" using priorityChanged_ok Cons.prems(2) by (auto split: if_splits)
  then show ?case using Cons.IH [OF c(2)] by simp
qed simp

lemma createFiles_ok: "createFiles ops b cm = Some cm' \<Longrightarrow> cm_ok cm \<Longrightarrow> cm_next cm cm'"
  by (auto simp: createFiles_def Let_def split: if_splits dest!: initial_priorities_ok)

lemma missing_loop_ok: "missing_loop ops dnd is cm = Some cm' \<Longrightarrow> cm_ok cm \<Longrightarrow> cm_next cm cm'"
proof (induction "is" arbitrary: cm)
  case (Cons i "is")
  show ?case
  proof (cases "tf_missing (cm_files cm ! i)")
    case False
    then show ?thesis using Cons by simp
  next
    case True
    then obtain cm1 cm2 where c: "resetChunks ops [tf_first (cm_files cm ! i)..<Suc (tf_last (cm_files cm ! i))] cm = Some cm1"
      "(if dnd then cm_setDoNotDownload ops i True (file_found i cm1) else Some (file_found i cm1)) = Some cm2"
      "missing_loop ops dnd is cm2 = Some cm'"
      using Cons.prems(1) by (auto simp: Let_def simp del: upt_Suc split: Option.bind_splits)
    have f: "cm_next cm (file_found i cm1)"
      using resetChunks_ok [OF c(1) Cons.prems(2)] by (simp add: file_found_def)
    have "cm_next cm cm2" using c(2) f setDoNotDownload_ok [of i True "file_found i cm1" cm2] by (auto split: if_splits)
    then show ?thesis using Cons.IH [OF c(3)] by simp
  qed
qed simp

lemma recreateMissingFiles_ok:
  assumes "recreateMissingFiles ops cm = Some cm'" "cm_ok cm"
  shows "cm_next cm cm'"
proof -
  obtain cm1 cm2 cm3 where c: "createFiles ops False cm = Some cm1"
    "(if cm_files cm1 \<noteq> [] then missing_loop ops False [0..<length (cm_files cm1)] cm1
      else resetChunks ops [0..<cm_num cm1] cm1) = Some cm2"
    "saveIndexFile cm2 = Some cm3" "cm' = fst (chunksLeft (cm3\<lparr>cm_recalc := True\<rparr>))"
    using assms(1) by (auto simp: recreateMissingFiles_def split: Option.bind_splits)
  have "cm_next cm cm1" by (rule createFiles_ok [OF c(1) assms(2)])
  then have "cm_next cm cm2" using c(2) missing_loop_ok resetChunks_ok by (auto split: if_splits)
  then have "cm_next cm cm3" using saveIndexFile_ok [OF c(3)] by simp
  then show ?thesis using chunksLeft_ok [of "cm3\<lparr>cm_recalc := True\<rparr>"] by (simp add: c(4))
qed

lemma dndMissingFiles_ok:
  assumes "dndMissingFiles ops cm = Some cm'" "cm_ok cm"
  shows "cm_next cm cm'"
proof -
  obtain cm1 cm2 where c: "missing_loop ops True [0..<length (cm_files cm)] cm = Some cm1"
    "saveIndexFile (savePriorityInfo cm1) = Some cm2" "cm' = fst (chunksLeft (cm2\<lparr>cm_recalc := True\<rparr>))"
    using assms(1) by (auto simp: dndMissingFiles_def split: Option.bind_splits)
  have "cm_next cm cm1" by (rule missing_loop_ok [OF c(1) assms(2)])
  then have "cm_next cm cm2" using saveIndexFile_ok [OF c(2)] by simp
  then show ?thesis using chunksLeft_ok [of "cm2\<lparr>cm_recalc := True\<rparr>"] by (simp add: c(3))
qed

lemma dnd_loop_ok: "dnd_loop ops n ws cm = Some cm' \<Longrightarrow> cm_ok cm \<Longrightarrow> cm_next cm cm'"
proof (induction n arbitrary: ws cm)
  case (Suc n)
  then show ?case using setDoNotDownload_ok by (cases ws) (fastforce split: Option.bind_splits)+
qed simp

lemma loadFileInfo_ok: "loadFileInfo ops cm = Some cm' \<Longrightarrow> cm_ok cm \<Longrightarrow> cm_next cm cm'"
  using dnd_loop_ok by (auto simp: loadFileInfo_def split: if_splits option.splits list.splits)

lemma prio_loop_ok: "prio_loop ops ws cm = Some cm' \<Longrightarrow> cm_ok cm \<Longrightarrow> cm_next cm cm'"
proof (induction ws arbitrary: cm rule: induct_list012)
  case (3 idx v ws)
  show ?case
  proof (cases "unat idx \<ge> length (cm_files cm)")
    case True
    then show ?thesis using 3(3,4) loadFileInfo_ok by simp
  next
    case False
    then obtain cm1 where c: "cm_setPriority ops (unat idx) (stored_priority v) cm = Some cm1"
      "prio_loop ops ws cm1 = Some cm'"
      using 3(3) by (auto split: Option.bind_splits)
    show ?thesis using setPriority_ok [OF c(1) 3(4)] 3(1) [OF c(2)] by simp
  qed
qed (auto split: if_splits dest!: loadFileInfo_ok)

lemma loadPriorityInfo_ok: "loadPriorityInfo ops cm = Some cm' \<Longrightarrow> cm_ok cm \<Longrightarrow> cm_next cm cm'"
  using loadFileInfo_ok prio_loop_ok by (auto simp: loadPriorityInfo_def split: if_splits option.splits list.splits)

end

lemma load_index_step_ok: "cm_ok cm \<Longrightarrow> cm_next cm (load_index_step i cm)"
proof (cases "i < length (cm_chunks cm)")
  case True
  assume ok: "cm_ok cm"
  have i: "i < cm_num cm" using True ok by (simp add: cm_ok_length)
  let ?d = "cm_put_chunk i ((cm_chunk cm i)\<lparr>ch_status := ON_DISK\<rparr>) cm"
  have d0: "cm_ok ?d" using ok i by (intro cm_ok_put) (simp_all add: cm_ok_index)
  have "cm_ok (?d\<lparr>cm_bits := bs_set (cm_bits ?d) i True, cm_todo := bs_set (cm_todo ?d) i False\<rparr>)"
    by (rule cm_ok_downloaded [OF d0]) (use ok i True in simp_all)
  then have "cm_ok (?d\<lparr>cm_bits := bs_set (cm_bits cm) i True, cm_todo := bs_set (cm_todo cm) i False, cm_recalc := True\<rparr>)"
    by (simp add: cm_ok_def)
  then show ?thesis using True by (simp add: load_index_step_def cm_getChunk_def cm_chunk_def)
qed (simp add: load_index_step_def cm_getChunk_def)

context cache_frame
begin

lemma loadIndexFile_ok:
  assumes "loadIndexFile ops g cm = Some cm'" "cm_ok cm"
  shows "cm_next cm cm'"
proof -
  obtain cm1 where c: "loadPriorityInfo ops (cm\<lparr>cm_during_load := True\<rparr>) = Some cm1"
    "cm' = (case cm_index_file cm1 of
       None \<Rightarrow> cm1\<lparr>cm_index_file := (if cm_writable cm1 then Some [] else None), cm_during_load := False\<rparr>
     | Some l \<Rightarrow>
         let cm = (if l \<noteq> [] then fold load_index_step (l @ [g]) cm1 else cm1)
         in cm\<lparr>cm_files := updateFilePercentage_all (cm_bits cm) (cm_files cm), cm_during_load := False\<rparr>)"
    using assms(1) by (auto simp: loadIndexFile_def split: Option.bind_splits)
  have c1: "cm_next cm cm1" using loadPriorityInfo_ok [OF c(1)] assms(2) by simp
  have "cm_next cm (fold load_index_step l cm1)" for l
    using c1 load_index_step_ok by (intro fold_keeps [where P = "\<lambda>s. cm_next cm s"]) auto
  then show ?thesis using c1 by (auto simp: c(2) Let_def simp del: fold_append split: option.split)
qed

end

end
