(* ===== verification/ChunkManagerProps.thy ===== *)
theory ChunkManagerProps
  imports ChunkManagerInv
begin

text \<open>
  What the chunk manager guarantees: its invariant over every sequence of operations, the byte
  counts, the exclusion of files, the priority file, and three ways in which it fails.
\<close>

section \<open>What operations leave unchanged\<close>

text \<open>A file without the counters that follow the download.\<close>

definition tf_view :: "torrent_file \<Rightarrow> torrent_file" where
  "tf_view f = f\<lparr>tf_num_downloaded := 0, tf_preview := False\<rparr>"

lemma view_counted [simp]: "tf_view (fst (tf_updateNumDownloadedChunks bs f)) = tf_view f"
  by (simp add: tf_updateNumDownloadedChunks_def tf_view_def Let_def)

lemma view_percentage: "map tf_view (updateFilePercentage n i bs fs) = map tf_view fs"
  unfolding updateFilePercentage_def
proof (intro fold_keeps [where P = "\<lambda>s. map tf_view s = map tf_view fs"])
  fix k s assume s: "map tf_view s = map tf_view fs"
  have "map tf_view (s[k := fst (tf_updateNumDownloadedChunks bs (s ! k))]) = map tf_view s" if "k < length s"
    using that by (simp add: map_update list_update_id map_nth) (metis length_map list_update_id nth_map)
  then show "map tf_view (if k < length s then s[k := fst (tf_updateNumDownloadedChunks bs (s ! k))] else s) = map tf_view fs"
    using s by simp
qed simp

lemma view_length: "map tf_view fs = map tf_view fs' \<Longrightarrow> length fs = length fs'"
  by (metis length_map)

lemma view_nth:
  assumes "map tf_view fs = map tf_view fs'" "i < length fs"
  shows "tf_priority (fs ! i) = tf_priority (fs' ! i)" "tf_old (fs ! i) = tf_old (fs' ! i)"
    "tf_first (fs ! i) = tf_first (fs' ! i)" "tf_last (fs ! i) = tf_last (fs' ! i)"
    "tf_size (fs ! i) = tf_size (fs' ! i)" "tf_emit (fs ! i) = tf_emit (fs' ! i)"
proof -
  have "tf_view (fs ! i) = tf_view (fs' ! i)"
    using assms view_length [OF assms(1)] by (metis nth_map)
  then show "tf_priority (fs ! i) = tf_priority (fs' ! i)" "tf_old (fs ! i) = tf_old (fs' ! i)"
    "tf_first (fs ! i) = tf_first (fs' ! i)" "tf_last (fs ! i) = tf_last (fs' ! i)"
    "tf_size (fs ! i) = tf_size (fs' ! i)" "tf_emit (fs ! i) = tf_emit (fs' ! i)"
    by (cases "fs ! i"; cases "fs' ! i"; simp add: tf_view_def)+
qed

lemma emit_files [simp]: "cm_files (cm_emit e cm) = cm_files cm"
  by (simp add: cm_emit_def)

lemma prioritise_frame [frame]:
  "cm_excl (prioritise a b p cm) = cm_excl cm \<and> cm_bits (prioritise a b p cm) = cm_bits cm \<and>
   cm_files (prioritise a b p cm) = cm_files cm \<and> cm_num (prioritise a b p cm) = cm_num cm"
  unfolding prioritise_def
  by (simp add: cm_emit_def, rule fold_keeps [where P = "\<lambda>s. cm_excl s = cm_excl cm \<and> cm_bits s = cm_bits cm \<and>
        cm_files s = cm_files cm \<and> cm_num s = cm_num cm"])
     (simp_all add: prioritise_step_def Let_def)

lemma exclude_files [frame]: "cm_files (cm_exclude a b cm) = cm_files cm"
  unfolding cm_exclude_def cm_emit_def
  by (simp, rule fold_keeps [where P = "\<lambda>s. cm_files s = cm_files cm"]) (simp_all add: exclude_step_def)

lemma include_files [frame]: "cm_files (cm_include a b cm) = cm_files cm"
  unfolding cm_include_def cm_emit_def
  by (simp, rule fold_keeps [where P = "\<lambda>s. cm_files s = cm_files cm"]) (simp_all add: include_step_def Let_def)

lemma exclude_loop_bits:
  assumes "cm_ok cm" "set is \<subseteq> {..<cm_num cm}"
  shows "(bs_get (cm_excl (fold exclude_step is cm)) j \<longleftrightarrow> j \<in> set is \<or> bs_get (cm_excl cm) j) \<and>
    (bs_get (cm_bits (fold exclude_step is cm)) j \<longleftrightarrow> j \<notin> set is \<and> bs_get (cm_bits cm) j)"
  using assms
proof (induction "is" arbitrary: cm)
  case (Cons i "is")
  have i: "i < cm_num cm" using Cons.prems(2) by simp
  note ok = exclude_step_ok [OF Cons.prems(1) i]
  have "bs_get (cm_excl (exclude_step i cm)) j \<longleftrightarrow> j = i \<or> bs_get (cm_excl cm) j"
    "bs_get (cm_bits (exclude_step i cm)) j \<longleftrightarrow> j \<noteq> i \<and> bs_get (cm_bits cm) j"
    using i bitset_get_set [OF cm_ok_bitsets(2) [OF Cons.prems(1)], of i True j]
      bitset_get_set [OF cm_ok_bitsets(1) [OF Cons.prems(1)], of i False j]
    by (auto simp: exclude_step_def)
  then show ?case using Cons.IH [of "exclude_step i cm"] ok Cons.prems(2) by auto
qed simp

lemma exclude_bits:
  assumes "cm_ok cm"
  shows "bs_get (cm_excl (cm_exclude a b cm)) j \<longleftrightarrow> (min a b \<le> j \<and> j \<le> max a b \<and> j < cm_num cm) \<or> bs_get (cm_excl cm) j"
    "bs_get (cm_bits (cm_exclude a b cm)) j \<longleftrightarrow> \<not> (min a b \<le> j \<and> j \<le> max a b \<and> j < cm_num cm) \<and> bs_get (cm_bits cm) j"
proof -
  have s: "set (cm_range cm a b) = {i. min a b \<le> i \<and> i \<le> max a b \<and> i < cm_num cm}"
    using assms by (simp add: set_cm_range cm_ok_length)
  then have "set (cm_range cm a b) \<subseteq> {..<cm_num cm}" by auto
  from exclude_loop_bits [OF assms this, of j] s
  show "bs_get (cm_excl (cm_exclude a b cm)) j \<longleftrightarrow> (min a b \<le> j \<and> j \<le> max a b \<and> j < cm_num cm) \<or> bs_get (cm_excl cm) j"
    "bs_get (cm_bits (cm_exclude a b cm)) j \<longleftrightarrow> \<not> (min a b \<le> j \<and> j \<le> max a b \<and> j < cm_num cm) \<and> bs_get (cm_bits cm) j"
    by (simp_all add: cm_exclude_def cm_emit_def)
qed

context cache_frame
begin

lemma resetChunk_bits:
  assumes "resetChunk ops i cm = Some cm'" "cm_ok cm"
  shows "cm_excl cm' = cm_excl cm \<and> map tf_view (cm_files cm') = map tf_view (cm_files cm) \<and>
    (bs_get (cm_bits cm') j \<longleftrightarrow> j \<noteq> i \<and> bs_get (cm_bits cm) j)"
proof (cases "i < length (cm_chunks cm)")
  case True
  then have i: "i < cm_num cm" using assms(2) by (simp add: cm_ok_length)
  from resetChunk_spec [OF assms(1) True] obtain k c where
    "cm' = (cm_put_chunk i c cm)\<lparr>cm_cache := k, cm_bits := bs_set (cm_bits cm) i False,
      cm_todo := bs_set (cm_todo cm) i (\<not> bs_get (cm_excl cm) i \<and> \<not> bs_get (cm_only cm) i),
      cm_loaded := (cm_loaded cm)(i := None),
      cm_files := updateFilePercentage (cm_num cm) i (bs_set (cm_bits cm) i False) (cm_files cm)\<rparr>" by blast
  then show ?thesis
    using bitset_get_set [OF cm_ok_bitsets(1) [OF assms(2)], of i False j] i
    by (simp add: view_percentage)
next
  case False
  then have "\<not> bs_get (cm_bits cm) i"
    using bitset_get_outside [OF cm_ok_bitsets(1) [OF assms(2)], of i] assms(2) by (auto simp: cm_ok_length)
  then show ?thesis using assms False by (auto simp: resetChunk_def)
qed

lemma resetChunks_bits:
  "resetChunks ops is cm = Some cm' \<Longrightarrow> cm_ok cm \<Longrightarrow>
   cm_excl cm' = cm_excl cm \<and> map tf_view (cm_files cm') = map tf_view (cm_files cm) \<and>
    (bs_get (cm_bits cm') j \<longleftrightarrow> j \<notin> set is \<and> bs_get (cm_bits cm) j)"
proof (induction "is" arbitrary: cm)
  case (Cons i "is")
  obtain cm1 where c: "resetChunk ops i cm = Some cm1" "resetChunks ops is cm1 = Some cm'"
    using Cons.prems(1) by (auto split: Option.bind_splits)
  have "cm_ok cm1" using resetChunk_ok [OF c(1) Cons.prems(2)] by simp
  from Cons.IH [OF c(2) this] resetChunk_bits [OF c(1) Cons.prems(2), of j] show ?case by auto
qed simp

lemma exclude_resets_bits:
  assumes "exclude_resets ops f l fs ls cm = Some cm'" "cm_ok cm"
  shows "cm_excl cm' = cm_excl cm \<and> map tf_view (cm_files cm') = map tf_view (cm_files cm) \<and>
    (bs_get (cm_bits cm') j \<longleftrightarrow> bs_get (cm_bits cm) j \<and> \<not> (f < j \<and> j < l) \<and>
      \<not> (length fs = 1 \<and> f \<noteq> 0 \<and> j = f) \<and> \<not> (l \<noteq> f \<and> length ls = 1 \<and> j = l))"
proof -
  obtain cm1 cm2 where r: "resetChunks ops [f + 1..<l] cm = Some cm1"
    "(if length fs = 1 \<and> f \<noteq> 0 then resetChunk ops f cm1 else Some cm1) = Some cm2"
    "(if l \<noteq> f \<and> length ls = 1 then resetChunk ops l cm2 else Some cm2) = Some cm'"
    using assms(1) by (auto simp: exclude_resets_def simp del: One_nat_def split: Option.bind_splits)
  have c1: "cm_ok cm1" using resetChunks_ok [OF r(1) assms(2)] by simp
  have c2: "cm_ok cm2" using r(2) resetChunk_ok [of f cm1 cm2] c1 by (auto split: if_splits)
  have 1: "cm_excl cm1 = cm_excl cm \<and> map tf_view (cm_files cm1) = map tf_view (cm_files cm) \<and>
    (bs_get (cm_bits cm1) j \<longleftrightarrow> \<not> (f < j \<and> j < l) \<and> bs_get (cm_bits cm) j)"
    using resetChunks_bits [OF r(1) assms(2), of j] by auto
  have 2: "cm_excl cm2 = cm_excl cm1 \<and> map tf_view (cm_files cm2) = map tf_view (cm_files cm1) \<and>
    (bs_get (cm_bits cm2) j \<longleftrightarrow> \<not> (length fs = 1 \<and> f \<noteq> 0 \<and> j = f) \<and> bs_get (cm_bits cm1) j)"
    using r(2) resetChunk_bits [of f cm1 cm2 j] c1 by (auto split: if_splits)
  have 3: "cm_excl cm' = cm_excl cm2 \<and> map tf_view (cm_files cm') = map tf_view (cm_files cm2) \<and>
    (bs_get (cm_bits cm') j \<longleftrightarrow> \<not> (l \<noteq> f \<and> length ls = 1 \<and> j = l) \<and> bs_get (cm_bits cm2) j)"
    using r(3) resetChunk_bits [of l cm2 cm' j] c2 by (auto split: if_splits)
  show ?thesis using 1 2 3 by auto
qed

end

text \<open>The border moves exactly when it may and another file of the border chunk is wanted.\<close>

lemma border_loop_moved:
  "fst (border_loop cm idx may files) \<longleftrightarrow>
   may \<and> (\<exists>j \<in> set files. j \<noteq> idx \<and> \<not> tf_doNotDownload (cm_files cm ! j))"
proof -
  have "fst (fold (border_step cm idx may) files st) \<longleftrightarrow>
    fst st \<or> may \<and> (\<exists>j \<in> set files. j \<noteq> idx \<and> \<not> tf_doNotDownload (cm_files cm ! j))" for st
    by (induction files arbitrary: st) (auto simp: border_step_def Let_def split: prod.splits)
  from this [of "(False, ONLY_SEED_PRIORITY)"] show ?thesis by (simp add: border_loop_def)
qed

lemma exclude_borders_bits:
  assumes ok: "cm_ok cm"
    and m: "m = (f \<noteq> l \<and> (\<exists>j \<in> set fs. j \<noteq> idx \<and> \<not> tf_doNotDownload (cm_files cm ! j)))"
    and f': "f' = (if m then f + 1 else f)"
    and m': "m' = (f' \<noteq> l \<and> l > 0 \<and> (\<exists>j \<in> set ls. j \<noteq> idx \<and> \<not> tf_doNotDownload (cm_files cm ! j)))"
    and l': "l' = (if m' then l - 1 else l)"
  shows "cm_files (exclude_borders idx f l fs ls cm) = cm_files cm"
    "bs_get (cm_excl (exclude_borders idx f l fs ls cm)) j \<longleftrightarrow> (f' \<le> j \<and> j \<le> l' \<and> j < cm_num cm) \<or> bs_get (cm_excl cm) j"
    "bs_get (cm_bits (exclude_borders idx f l fs ls cm)) j \<longleftrightarrow> \<not> (f' \<le> j \<and> j \<le> l' \<and> j < cm_num cm) \<and> bs_get (cm_bits cm) j"
proof -
  have "fst (border_loop cm idx (f \<noteq> l) fs) = m" unfolding border_loop_moved m by blast
  then obtain p where b: "border_loop cm idx (f \<noteq> l) fs = (m, p)"
    by (cases "border_loop cm idx (f \<noteq> l) fs") simp
  define cm1 where "cm1 = (if m then prioritise (f' - 1) (f' - 1) p cm else cm)"
  have c1: "cm_files cm1 = cm_files cm" "cm_ok cm1" "cm_num cm1 = cm_num cm" "cm_excl cm1 = cm_excl cm" "cm_bits cm1 = cm_bits cm"
    using ok prioritise_frame [of "f' - 1" "f' - 1" p cm] prioritise_ok [OF ok, of "f' - 1" "f' - 1" p]
    by (simp_all add: cm1_def)
  have "fst (border_loop cm1 idx (f' \<noteq> l \<and> l > 0) ls) = m'"
    unfolding border_loop_moved c1(1) m' by blast
  then obtain p' where b': "border_loop cm1 idx (f' \<noteq> l \<and> l > 0) ls = (m', p')"
    by (cases "border_loop cm1 idx (f' \<noteq> l \<and> l > 0) ls") simp
  define cm2 where "cm2 = (if m' then prioritise (l' + 1) (l' + 1) p' cm1 else cm1)"
  have c2: "cm_files cm2 = cm_files cm" "cm_ok cm2" "cm_num cm2 = cm_num cm" "cm_excl cm2 = cm_excl cm" "cm_bits cm2 = cm_bits cm"
    using c1 prioritise_frame [of "l' + 1" "l' + 1" p' cm1] prioritise_ok [OF c1(2), of "l' + 1" "l' + 1" p']
    by (simp_all add: cm2_def)
  have e: "exclude_borders idx f l fs ls cm = (if l' < f' then cm2 else cm_exclude f' l' cm2)"
    unfolding exclude_borders_def b prod.case Let_def f' [symmetric] cm1_def [symmetric] b' l' [symmetric]
      cm2_def [symmetric] by (rule refl)
  show "cm_files (exclude_borders idx f l fs ls cm) = cm_files cm"
    using c2 by (simp add: e exclude_files)
  show "bs_get (cm_excl (exclude_borders idx f l fs ls cm)) j \<longleftrightarrow> (f' \<le> j \<and> j \<le> l' \<and> j < cm_num cm) \<or> bs_get (cm_excl cm) j"
    using exclude_bits(1) [OF c2(2), of f' l' j] c2 by (auto simp: e min_def max_def)
  show "bs_get (cm_bits (exclude_borders idx f l fs ls cm)) j \<longleftrightarrow> \<not> (f' \<le> j \<and> j \<le> l' \<and> j < cm_num cm) \<and> bs_get (cm_bits cm) j"
    using exclude_bits(2) [OF c2(2), of f' l' j] c2 by (auto simp: e min_def max_def)
qed


section \<open>Excluding a file\<close>

lemma fileExcluded_cases:
  assumes "downloadStatusChanged ops idx False cm = Some cm'"
    and fl: "f = tf_first (cm_files cm ! idx)" "l = tf_last (cm_files cm ! idx)"
    and cs: "fs = calcChunkPos (cm_num cm) (cm_files cm) f" "ls = calcChunkPos (cm_num cm) (cm_files cm) l"
  shows "\<exists>cm1. cm_excl cm' = cm_excl cm1 \<and> cm_bits cm' = cm_bits cm1 \<and> cm_files cm' = cm_files cm1 \<and>
    (if f = l \<and> 1 < length fs then cm1 = cm
     else \<exists>cm2. exclude_resets ops f l fs ls cm = Some cm2 \<and> cm1 = exclude_borders idx f l fs ls cm2)"
proof -
  obtain cm1 where c: "(if f = l \<and> length fs > 1 then Some cm
      else map_option (exclude_borders idx f l fs ls) (exclude_resets ops f l fs ls cm)) = Some cm1"
    "cm' = savePriorityInfo (cm_emit (FileStatus idx False) cm1)"
    using assms(1) unfolding downloadStatusChanged_def fileExcluded_def Let_def fl [symmetric] cs [symmetric]
    by (auto simp: Option.bind_eq_Some_conv)
  have "cm_excl cm' = cm_excl cm1 \<and> cm_bits cm' = cm_bits cm1 \<and> cm_files cm' = cm_files cm1"
    by (simp add: c(2) cm_emit_def)
  then show ?thesis using c(1) by (intro exI [of _ cm1]) (auto split: if_splits)
qed

text \<open>What happens to the bits of a chunk when a file is excluded.\<close>

lemma fileExcluded_bits:
  assumes fr: "cache_frame ops" and ok: "cm_ok cm" and r: "downloadStatusChanged ops idx False cm = Some cm'"
    and len: "length (cm_files cm) = n"
    and f: "f = tf_first (cm_files cm ! idx)" and l: "l = tf_last (cm_files cm ! idx)"
    and fs: "fs = calcChunkPos (cm_num cm) (cm_files cm) f" and ls: "ls = calcChunkPos (cm_num cm) (cm_files cm) l"
    and idxs: "set fs \<subseteq> {..<n}" "set ls \<subseteq> {..<n}"
    and not: "\<not> (f = l \<and> 1 < length fs)"
    and m: "m = (f \<noteq> l \<and> (\<exists>j \<in> set fs. j \<noteq> idx \<and> \<not> tf_doNotDownload (cm_files cm ! j)))"
    and f': "f' = (if m then f + 1 else f)"
    and m': "m' = (f' \<noteq> l \<and> l > 0 \<and> (\<exists>j \<in> set ls. j \<noteq> idx \<and> \<not> tf_doNotDownload (cm_files cm ! j)))"
    and l': "l' = (if m' then l - 1 else l)"
  shows "bs_get (cm_excl cm') j \<longleftrightarrow> (f' \<le> j \<and> j \<le> l' \<and> j < cm_num cm) \<or> bs_get (cm_excl cm) j"
    "bs_get (cm_bits cm') j \<longleftrightarrow> \<not> (f' \<le> j \<and> j \<le> l' \<and> j < cm_num cm) \<and> bs_get (cm_bits cm) j \<and>
       \<not> (f < j \<and> j < l) \<and> \<not> (length fs = 1 \<and> f \<noteq> 0 \<and> j = f) \<and> \<not> (l \<noteq> f \<and> length ls = 1 \<and> j = l)"
proof -
  obtain cm2 where r2: "exclude_resets ops f l fs ls cm = Some cm2"
    "cm_excl cm' = cm_excl (exclude_borders idx f l fs ls cm2)" "cm_bits cm' = cm_bits (exclude_borders idx f l fs ls cm2)"
    using fileExcluded_cases [OF r f l fs ls] not by auto
  have ok2: "cm_ok cm2" "cm_num cm2 = cm_num cm"
    using cache_frame.exclude_resets_ok [OF fr r2(1) ok] by simp_all
  note b = cache_frame.exclude_resets_bits [OF fr r2(1) ok, of j]
  have v: "map tf_view (cm_files cm2) = map tf_view (cm_files cm)" using b by simp
  have w: "tf_doNotDownload (cm_files cm2 ! k) = tf_doNotDownload (cm_files cm ! k)" if "k < n" for k
    using view_nth(1) [OF v, of k] that view_length [OF v] len by (simp add: tf_doNotDownload_def)
  have m2: "m = (f \<noteq> l \<and> (\<exists>j \<in> set fs. j \<noteq> idx \<and> \<not> tf_doNotDownload (cm_files cm2 ! j)))"
    "m' = (f' \<noteq> l \<and> l > 0 \<and> (\<exists>j \<in> set ls. j \<noteq> idx \<and> \<not> tf_doNotDownload (cm_files cm2 ! j)))"
    unfolding m m' using idxs w by blast+
  note e = exclude_borders_bits(2,3) [OF ok2(1) m2(1) f' m2(2) l', where j = j]
  show "bs_get (cm_excl cm') j \<longleftrightarrow> (f' \<le> j \<and> j \<le> l' \<and> j < cm_num cm) \<or> bs_get (cm_excl cm) j"
    using e(1) b ok2(2) r2(2) by simp
  show "bs_get (cm_bits cm') j \<longleftrightarrow> \<not> (f' \<le> j \<and> j \<le> l' \<and> j < cm_num cm) \<and> bs_get (cm_bits cm) j \<and>
       \<not> (f < j \<and> j < l) \<and> \<not> (length fs = 1 \<and> f \<noteq> 0 \<and> j = f) \<and> \<not> (l \<noteq> f \<and> length ls = 1 \<and> j = l)"
    using e(2) b ok2(2) r2(3) by auto
qed


lemma pos_below: "laid_out cs 0 0 fs \<Longrightarrow> set (calcChunkPos n fs c) \<subseteq> {..<length fs}"
  by (auto simp: in_calcChunkPos)



section \<open>Operations that cannot fail\<close>

text \<open>Without mapped chunks nothing has to be saved, and following the files cannot fail.\<close>

definition no_mapped :: "'k chunk_manager \<Rightarrow> bool" where
  "no_mapped cm \<longleftrightarrow> (\<forall>c \<in> set (cm_chunks cm). ch_status c \<noteq> MMAPPED)"

lemma no_mapped_put: "no_mapped cm \<Longrightarrow> ch_status c \<noteq> MMAPPED \<Longrightarrow> no_mapped (cm_put_chunk i c cm)"
  using set_update_subset_insert [of "cm_chunks cm" i c] by (auto simp: no_mapped_def cm_put_chunk_def)

lemma no_mapped_chunk: "no_mapped cm \<Longrightarrow> i < length (cm_chunks cm) \<Longrightarrow> ch_status (cm_chunk cm i) \<noteq> MMAPPED"
  by (simp add: no_mapped_def cm_chunk_def)

lemma no_mapped_frame [simp]:
  "no_mapped (cm\<lparr>cm_bits := b\<rparr>) = no_mapped cm" "no_mapped (cm\<lparr>cm_excl := b\<rparr>) = no_mapped cm"
  "no_mapped (cm\<lparr>cm_only := b\<rparr>) = no_mapped cm" "no_mapped (cm\<lparr>cm_todo := b\<rparr>) = no_mapped cm"
  "no_mapped (cm\<lparr>cm_loaded := l\<rparr>) = no_mapped cm" "no_mapped (cm\<lparr>cm_files := fs\<rparr>) = no_mapped cm"
  "no_mapped (cm\<lparr>cm_recalc := r\<rparr>) = no_mapped cm" "no_mapped (cm\<lparr>cm_during_load := r\<rparr>) = no_mapped cm"
  "no_mapped (cm_emit e cm) = no_mapped cm" "no_mapped (cm_percentage i cm) = no_mapped cm"
  "no_mapped (savePriorityInfo cm) = no_mapped cm"
  by (simp_all add: no_mapped_def cm_emit_def cm_percentage_def)

lemma resetChunk_total:
  assumes "no_mapped cm"
  shows "\<exists>cm'. resetChunk ops i cm = Some cm' \<and> no_mapped cm' \<and> map tf_view (cm_files cm') = map tf_view (cm_files cm)"
proof (cases "i < length (cm_chunks cm)")
  case True
  then have "cm_save_mapped ops (cm_chunk cm i) cm = Some (cm, cm_chunk cm i)"
    using no_mapped_chunk [OF assms] by (simp add: cm_save_mapped_def)
  then show ?thesis using True assms
    by (simp add: resetChunk_def Let_def no_mapped_put) (simp add: cm_percentage_def view_percentage)
qed (use assms in \<open>simp add: resetChunk_def\<close>)

lemma resetChunks_total: "no_mapped cm \<Longrightarrow> \<exists>cm'. resetChunks ops is cm = Some cm' \<and> no_mapped cm' \<and>
    map tf_view (cm_files cm') = map tf_view (cm_files cm)"
proof (induction "is" arbitrary: cm)
  case (Cons i "is")
  obtain cm1 where 1: "resetChunk ops i cm = Some cm1" "no_mapped cm1" "map tf_view (cm_files cm1) = map tf_view (cm_files cm)"
    using resetChunk_total [OF Cons.prems] by blast
  then show ?case using Cons.IH [OF 1(2)] by simp
qed simp

lemma exclude_resets_total:
  assumes "no_mapped cm"
  shows "\<exists>cm'. exclude_resets ops f l fs ls cm = Some cm' \<and> no_mapped cm' \<and>
    map tf_view (cm_files cm') = map tf_view (cm_files cm)"
proof -
  have opt: "\<exists>s'. (if b then resetChunk ops i s else Some s) = Some s' \<and> no_mapped s' \<and>
    map tf_view (cm_files s') = map tf_view (cm_files s)" if "no_mapped s" for b i s
    using resetChunk_total [OF that, of ops i] that by (cases b) auto
  obtain cm1 where 1: "resetChunks ops [f + 1..<l] cm = Some cm1" "no_mapped cm1"
    "map tf_view (cm_files cm1) = map tf_view (cm_files cm)"
    using resetChunks_total [OF assms] by blast
  obtain cm2 where 2: "(if length fs = 1 \<and> f \<noteq> 0 then resetChunk ops f cm1 else Some cm1) = Some cm2" "no_mapped cm2"
    "map tf_view (cm_files cm2) = map tf_view (cm_files cm1)"
    using opt [OF 1(2)] by blast
  obtain cm3 where 3: "(if l \<noteq> f \<and> length ls = 1 then resetChunk ops l cm2 else Some cm2) = Some cm3" "no_mapped cm3"
    "map tf_view (cm_files cm3) = map tf_view (cm_files cm2)"
    using opt [OF 2(2)] by blast
  have "exclude_resets ops f l fs ls cm = Some cm3"
    unfolding exclude_resets_def 1(1) Option.bind.simps 2(1) 3(1) by (rule refl)
  then show ?thesis using 1(3) 2(3) 3(2,3) by auto
qed

lemma fold_priority_no_mapped:
  assumes "no_mapped cm" "\<And>i s. i < length (cm_chunks s) \<Longrightarrow> no_mapped s \<Longrightarrow>
    no_mapped (f i s) \<and> length (cm_chunks (f i s)) = length (cm_chunks s)"
  shows "no_mapped (fold f (cm_range cm a b) cm)"
  using fold_keeps [where P = "\<lambda>s. no_mapped s \<and> length (cm_chunks s) = length (cm_chunks cm)" and
      xs = "cm_range cm a b" and f = f and s = cm] assms by (auto simp: set_cm_range)

lemma prioritise_no_mapped: "no_mapped cm \<Longrightarrow> no_mapped (prioritise a b p cm)"
  unfolding prioritise_def
  by (simp, rule fold_priority_no_mapped)
     (auto simp: prioritise_step_def Let_def intro!: no_mapped_put dest: no_mapped_chunk)

lemma exclude_no_mapped: "no_mapped cm \<Longrightarrow> no_mapped (cm_exclude a b cm)"
  unfolding cm_exclude_def
  by (simp, rule fold_priority_no_mapped)
     (auto simp: exclude_step_def ch_setExclude_def intro!: no_mapped_put dest: no_mapped_chunk)

lemma include_no_mapped: "no_mapped cm \<Longrightarrow> no_mapped (cm_include a b cm)"
  unfolding cm_include_def
  by (simp, rule fold_priority_no_mapped)
     (auto simp: include_step_def Let_def ch_setExclude_def intro!: no_mapped_put dest: no_mapped_chunk)

lemma exclude_borders_no_mapped: "no_mapped cm \<Longrightarrow> no_mapped (exclude_borders idx f l fs ls cm)"
  by (simp add: exclude_borders_def Let_def prioritise_no_mapped exclude_no_mapped split: prod.split)

lemma exclude_borders_files: "cm_files (exclude_borders idx f l fs ls cm) = cm_files cm"
  by (simp add: exclude_borders_def Let_def frame split: prod.split)

lemma statusChanged_total:
  assumes "no_mapped cm"
  shows "\<exists>cm'. downloadStatusChanged ops idx d cm = Some cm' \<and> no_mapped cm' \<and>
    map tf_view (cm_files cm') = map tf_view (cm_files cm)"
proof (cases d)
  case True
  then show ?thesis
    by (simp add: downloadStatusChanged_def fileIncluded_def Let_def prioritise_no_mapped include_no_mapped assms frame)
next
  case False
  let ?f = "tf_first (cm_files cm ! idx)" and ?l = "tf_last (cm_files cm ! idx)"
  let ?fs = "calcChunkPos (cm_num cm) (cm_files cm) ?f" and ?ls = "calcChunkPos (cm_num cm) (cm_files cm) ?l"
  obtain cm1 where "exclude_resets ops ?f ?l ?fs ?ls cm = Some cm1" "no_mapped cm1"
    "map tf_view (cm_files cm1) = map tf_view (cm_files cm)"
    using exclude_resets_total [OF assms] by blast
  then show ?thesis
    using False assms
    by (simp add: downloadStatusChanged_def fileExcluded_def Let_def exclude_borders_no_mapped exclude_borders_files)
qed

lemma filePriority_no_mapped: "no_mapped cm \<Longrightarrow> no_mapped (filePriority idx p cm)"
  by (simp add: filePriority_def Let_def prioritise_no_mapped)

lemma filePriority_files: "cm_files (filePriority idx p cm) = cm_files cm"
  by (simp add: filePriority_def Let_def frame)

lemma priorityChanged_total:
  "no_mapped cm \<Longrightarrow> \<exists>cm'. downloadPriorityChanged ops idx new old cm = Some cm' \<and> no_mapped cm' \<and>
    map tf_view (cm_files cm') = map tf_view (cm_files cm)"
  using statusChanged_total by (auto simp: downloadPriorityChanged_def filePriority_no_mapped filePriority_files)

lemma signal_total:
  "no_mapped cm \<Longrightarrow> \<exists>cm'. cm_signal ops n idx new old cm = Some cm' \<and> no_mapped cm' \<and>
    map tf_view (cm_files cm') = map tf_view (cm_files cm)"
proof (induction n arbitrary: cm)
  case (Suc n)
  obtain cm1 where 1: "downloadPriorityChanged ops idx new old cm = Some cm1" "no_mapped cm1"
    "map tf_view (cm_files cm1) = map tf_view (cm_files cm)"
    using priorityChanged_total [OF Suc.prems] by blast
  then show ?case using Suc.IH [OF 1(2)] by simp
qed simp

lemma view_priorities: "map tf_view fs = map tf_view fs' \<Longrightarrow> map tf_priority fs = map tf_priority fs'"
  using view_nth(1) view_length by (metis length_map nth_equalityI nth_map)

lemma apply_priority: "tf_priority f = tf_priority g \<Longrightarrow> tf_priority (fold tf_apply sts f) = tf_priority (fold tf_apply sts g)"
proof (induction sts arbitrary: f g)
  case (Cons st sts)
  have "tf_priority (tf_apply st f) = tf_priority (tf_apply st g)" by (simp add: tf_apply_def split: prod.split)
  from Cons.IH [OF this] show ?case by simp
qed simp

lemma steps_total:
  assumes "no_mapped cm" "idx < length (cm_files cm)"
  shows "\<exists>cm'. cm_steps ops idx sts cm = Some cm' \<and> no_mapped cm' \<and>
    map tf_priority (cm_files cm') =
      (map tf_priority (cm_files cm))[idx := tf_priority (fold tf_apply sts (cm_files cm ! idx))]"
  using assms
proof (induction sts arbitrary: cm)
  case Nil
  then show ?case by (metis cm_steps.simps(1) fold_simps(1) length_map list_update_id nth_map)
next
  case (Cons st sts)
  obtain old new e where st: "st = (old, new, e)" by (cases st)
  let ?f = "tf_apply st (cm_files cm ! idx)"
  let ?cm = "cm\<lparr>cm_files := (cm_files cm)[idx := ?f]\<rparr>"
  have "no_mapped ?cm" using Cons.prems(1) by simp
  then have "\<exists>c. (if e then cm_signal ops (cm_slots ?cm) idx new old ?cm else Some ?cm) = Some c \<and> no_mapped c \<and>
      map tf_view (cm_files c) = map tf_view (cm_files ?cm)"
    using signal_total [of ?cm ops "cm_slots ?cm" idx new old] by (cases e) auto
  then obtain cm1 where 1: "(if e then cm_signal ops (cm_slots ?cm) idx new old ?cm else Some ?cm) = Some cm1" "no_mapped cm1"
    "map tf_view (cm_files cm1) = map tf_view (cm_files ?cm)" by blast
  have len: "idx < length (cm_files cm1)" using view_length [OF 1(3)] Cons.prems(2) by simp
  obtain cm2 where 2: "cm_steps ops idx sts cm1 = Some cm2" "no_mapped cm2"
    "map tf_priority (cm_files cm2) = (map tf_priority (cm_files cm1))[idx := tf_priority (fold tf_apply sts (cm_files cm1 ! idx))]"
    using Cons.IH [OF 1(2) len] by blast
  have "cm_steps ops idx (st # sts) cm = Some cm2"
    unfolding cm_steps.simps st prod.case Let_def 1(1) [unfolded st] Option.bind.simps 2(1) by (rule refl)
  moreover have "tf_priority (cm_files cm1 ! idx) = tf_priority ?f"
    using view_nth(1) [OF 1(3) len] Cons.prems(2) by simp
  from apply_priority [OF this, of sts]
  have "tf_priority (fold tf_apply sts (cm_files cm1 ! idx)) = tf_priority (fold tf_apply (st # sts) (cm_files cm ! idx))"
    by simp
  moreover have "map tf_priority (cm_files cm1) = (map tf_priority (cm_files cm))[idx := tf_priority ?f]"
    using view_priorities [OF 1(3)] by (simp add: map_update)
  ultimately show ?case using 2(2,3) by simp
qed

lemma setPriority_total:
  assumes "no_mapped cm" "idx < length (cm_files cm)"
  shows "\<exists>cm'. cm_setPriority ops idx p cm = Some cm' \<and> no_mapped cm' \<and>
    map tf_priority (cm_files cm') = (map tf_priority (cm_files cm))[idx := p]"
  using steps_total [OF assms, of ops "tf_setPriority (cm_files cm ! idx) p"] assms(2)
  by (simp add: cm_setPriority_def tf_setPriority_sets)

section \<open>A manager to try things on\<close>

lemma num_bits_setAll [simp]: "bs_num_bits (bs_setAll bs v) = bs_num_bits bs"
  by (simp add: bs_setAll_def)

lemma initial_ok:
  assumes "length hashes < 2 ^ 32" "csize < 2 ^ 32"
  shows "cm_ok (cm_initial files hashes csize tsize mc k)"
proof -
  have n: "bs_ok (BitSet_new (length hashes))" "bs_shape (BitSet_new (length hashes))"
    using bs_ok_new [OF assms(1)] bs_ok_shape by blast+
  have b: "\<not> bs_get (BitSet_new (length hashes)) i" for i
    using bits.count_zero_iff [OF n(1)] by simp
  have len: "length (chunk_sizes (length hashes) csize tsize) = length hashes" by (simp add: chunk_sizes_def)
  have i: "cm_chunk (cm_initial files hashes csize tsize mc k) i =
      Chunk_new i (chunk_sizes (length hashes) csize tsize ! i)" if "i < length hashes" for i
    using that len by (simp add: cm_initial_def cm_chunk_def Let_def)
  have s: "chunk_sizes (length hashes) csize tsize ! i = csize" if "i + 1 < length hashes" for i
    using that assms(2) by (simp add: chunk_sizes_def)
  show ?thesis
    using n b len i s bs_ok_setAll [OF n(2)]
    by (simp add: cm_ok_def cm_bitset_ok_def cm_initial_def Let_def Chunk_new_def bs_get_setAll)
qed

lemma initial_no_mapped: "no_mapped (cm_initial files hashes csize tsize mc k)"
  by (auto simp: no_mapped_def cm_initial_def Let_def Chunk_new_def)


text \<open>Chunks of ten bytes, no data on disk, files of the given sizes.\<close>

definition some_file :: "nat \<Rightarrow> nat \<Rightarrow> nat \<Rightarrow> torrent_file" where
  "some_file i off sz = the (TorrentFile_new i False off sz 10)"

definition try_manager :: "torrent_file list \<Rightarrow> nat \<Rightarrow> single_file_cache chunk_manager" where
  "try_manager files n = cm_initial files (replicate n []) 10 (10 * n) 0 some_cache"

lemma try_manager_ok:
  assumes "n < 2 ^ 32"
  shows "cm_ok (try_manager files n)" "no_mapped (try_manager files n)" "cache_frame sf_ops"
    "cm_files (try_manager files n) = files" "cm_num (try_manager files n) = n"
  using assms initial_ok [of "replicate n []" 10 files] sff.cache_frame_axioms
  by (simp_all add: try_manager_def initial_no_mapped) (simp_all add: cm_initial_def Let_def)


text \<open>Claim C40: a file that spans exactly two chunks, the first of them shared with a wanted
  file, is excluded halfway: after the first border chunk was kept, the test that protects the
  second one fails, and that chunk is excluded and marked as not downloaded, also when a wanted
  file behind needs it.\<close>

theorem exclusion_harms_neighbour:
  assumes "cache_frame ops" "cm_ok cm" "laid_out cs 0 0 (cm_files cm)"
    and "idx < length (cm_files cm)" "0 < tf_size (cm_files cm ! idx)"
    and "tf_last (cm_files cm ! idx) < cm_num cm"
    and "tf_last (cm_files cm ! idx) = tf_first (cm_files cm ! idx) + 1"
    and "downloadStatusChanged ops idx False cm = Some cm'"
    and "a < length (cm_files cm)" "a \<noteq> idx" "0 < tf_size (cm_files cm ! a)" "\<not> tf_doNotDownload (cm_files cm ! a)"
    and "tf_first (cm_files cm ! a) \<le> tf_first (cm_files cm ! idx)" "tf_first (cm_files cm ! idx) \<le> tf_last (cm_files cm ! a)"
  shows "bs_get (cm_excl cm') (tf_last (cm_files cm ! idx)) \<and> \<not> bs_get (cm_bits cm') (tf_last (cm_files cm ! idx))"
proof -
  define f l where fl: "f = tf_first (cm_files cm ! idx)" "l = tf_last (cm_files cm ! idx)"
  define fs ls where ps: "fs = calcChunkPos (cm_num cm) (cm_files cm) f" "ls = calcChunkPos (cm_num cm) (cm_files cm) l"
  have sub: "set fs \<subseteq> {..<length (cm_files cm)}" "set ls \<subseteq> {..<length (cm_files cm)}"
    unfolding ps by (rule pos_below [OF assms(3)])+
  have "a \<in> set fs" using assms(6,7,9,11,13,14) by (simp add: ps in_calcChunkPos [OF assms(3)] fl)
  then have m: "True = (f \<noteq> l \<and> (\<exists>j \<in> set fs. j \<noteq> idx \<and> \<not> tf_doNotDownload (cm_files cm ! j)))"
    using assms(7,10,12) by (auto simp: fl)
  have f': "l = (if True then f + 1 else f)" using assms(7) by (simp add: fl)
  have m': "False = (l \<noteq> l \<and> l > 0 \<and> (\<exists>j \<in> set ls. j \<noteq> idx \<and> \<not> tf_doNotDownload (cm_files cm ! j)))" by simp
  have l': "l = (if False then l - 1 else l)" by simp
  have "\<not> (f = l \<and> 1 < length fs)" using f' by simp
  from fileExcluded_bits [OF assms(1,2,8) refl fl ps sub this m f' m' l', of l] assms(6)
  show ?thesis by (simp add: fl)
qed

theorem exclusion_harms_neighbour_witness:
  "\<exists>cm'. downloadStatusChanged sf_ops 1 False (try_manager [some_file 0 0 5, some_file 1 5 10, some_file 2 15 5] 2) = Some cm' \<and>
    bs_get (cm_excl cm') 1 \<and> \<not> tf_doNotDownload (some_file 2 15 5) \<and> tf_first (some_file 2 15 5) = 1"
proof -
  define fs where "fs = [some_file 0 0 5, some_file 1 5 10, some_file 2 15 5]"
  define cm where "cm = try_manager fs 2"
  have t: "cm_ok cm" "no_mapped cm" "cache_frame sf_ops" "cm_files cm = fs" "cm_num cm = 2"
    using try_manager_ok [of 2] by (simp_all add: cm_def)
  obtain cm' where r: "downloadStatusChanged sf_ops 1 False cm = Some cm'"
    using statusChanged_total [OF t(2)] by blast
  have "laid_out 10 0 0 (cm_files cm)" by (simp add: t(4) fs_def some_file_def TorrentFile_new_def Let_def)
  from exclusion_harms_neighbour [OF t(3,1) this _ _ _ _ r, of 0] r show ?thesis
    unfolding fs_def [symmetric] cm_def [symmetric]
    by (simp add: t(4,5)) (simp add: fs_def some_file_def TorrentFile_new_def Let_def tf_doNotDownload_def)
qed

section \<open>The invariant over all operations\<close>

text \<open>The operations of the manager, in any order. A chunk is only saved once, when its download is
  complete or suspended: it is not yet marked as downloaded and has been prepared.\<close>

inductive cm_step :: "'k cache_ops \<Rightarrow> 'k chunk_manager \<Rightarrow> 'k chunk_manager \<Rightarrow> bool" for ops where
  grab: "grabChunk ops now i cm = Some (cm', b) \<Longrightarrow> cm_step ops cm cm'"
| release: "releaseChunk ops i cm = Some cm' \<Longrightarrow> cm_step ops cm cm'"
| reset: "resetChunk ops i cm = Some cm' \<Longrightarrow> cm_step ops cm cm'"
| save: "\<not> bs_get (cm_bits cm) i \<Longrightarrow> ch_status (cm_chunk cm i) \<noteq> NOT_DOWNLOADED \<or> \<not> u \<Longrightarrow>
    saveChunk ops i u cm = Some cm' \<Longrightarrow> cm_step ops cm cm'"
| prepare: "i < cm_num cm \<Longrightarrow> prepareChunk ops i always cm = Some (cm', b) \<Longrightarrow> cm_step ops cm cm'"
| memory: "checkMemoryUsage ops now cm = Some cm' \<Longrightarrow> cm_step ops cm cm'"
| stop: "cm_stop ops cm = Some cm' \<Longrightarrow> cm_step ops cm cm'"
| checked: "dataChecked ops good cm = Some cm' \<Longrightarrow> cm_step ops cm cm'"
| set_priority: "cm_setPriority ops idx p cm = Some cm' \<Longrightarrow> cm_step ops cm cm'"
| set_dnd: "cm_setDoNotDownload ops idx d cm = Some cm' \<Longrightarrow> cm_step ops cm cm'"
| recreate: "recreateMissingFiles ops cm = Some cm' \<Longrightarrow> cm_step ops cm cm'"
| dnd_missing: "dndMissingFiles ops cm = Some cm' \<Longrightarrow> cm_step ops cm cm'"
| create: "createFiles ops b cm = Some cm' \<Longrightarrow> cm_step ops cm cm'"
| load: "loadIndexFile ops g cm = Some cm' \<Longrightarrow> cm_step ops cm cm'"
| prio: "cm_step ops cm (prioritise a c p cm)"
| excl: "cm_step ops cm (cm_exclude a c cm)"
| incl: "cm_step ops cm (cm_include a c cm)"

context cache_frame
begin

lemma step_ok: "cm_step ops cm cm' \<Longrightarrow> cm_ok cm \<Longrightarrow> cm_next cm cm'"
proof (induction rule: cm_step.induct)
  case (save cm i u cm')
  then show ?case using saveChunk_ok by blast
next
  case (memory now cm cm')
  then show ?case using checkMemory_loop_ok unfolding checkMemoryUsage_def by blast
qed (blast dest: grabChunk_ok releaseChunk_ok resetChunk_ok prepareChunk_ok stop_ok dataChecked_ok setPriority_ok
    setDoNotDownload_ok recreateMissingFiles_ok dndMissingFiles_ok createFiles_ok loadIndexFile_ok prioritise_ok
    exclude_ok include_ok)+

lemma steps_reach_ok: "(cm_step ops)\<^sup>*\<^sup>* cm cm' \<Longrightarrow> cm_ok cm \<Longrightarrow> cm_next cm cm'"
  by (induction rule: rtranclp_induct) (auto dest: step_ok)

end

lemma preview_ok: "cm_ok cm \<Longrightarrow> cm_next cm (cm_preview b cm)"
proof -
  assume ok: "cm_ok cm"
  have "cm_next cm (preview_file i s)" if "cm_next cm s" for i s
    using that by (simp add: preview_file_def Let_def prioritise_ok)
  then have "cm_next cm (fold preview_file is cm)" for "is"
    using ok by (intro fold_keeps [where P = "\<lambda>s. cm_next cm s"]) auto
  then show ?thesis using ok by (simp add: cm_preview_def Let_def prioritise_ok)
qed


lemma new_ok:
  assumes "cache_frame ops" "length hashes < 2 ^ 32" "csize < 2 ^ 32"
    "ChunkManager_new ops files hashes csize tsize mc mm k = Some cm"
  shows "cm_ok cm \<and> cm_num cm = length hashes"
proof -
  obtain cm1 where c: "initial_priorities ops [0..<length files] (cm_initial files hashes csize tsize mc k) = Some cm1"
    "cm = cm_preview mm cm1"
    using assms(4) by (auto simp: ChunkManager_new_def split: Option.bind_splits)
  have "cm_next (cm_initial files hashes csize tsize mc k) cm1"
    by (rule cache_frame.initial_priorities_ok [OF assms(1) c(1) initial_ok [OF assms(2,3)]])
  then show ?thesis using preview_ok [of cm1 mm] by (simp add: c(2)) (simp add: cm_initial_def Let_def)
qed

lemma cm_ok_count:
  assumes "cm_ok cm"
  shows "bs_numOnBits (cm_bits cm) = card {i. i < cm_num cm \<and> bs_get (cm_bits cm) i}"
    "bs_numOnBits (cm_todo cm) = card {i. i < cm_num cm \<and> bs_get (cm_todo cm) i}"
    "bs_numOnBits (cm_excl cm) = card {i. i < cm_num cm \<and> bs_get (cm_excl cm) i}"
    "bs_numOnBits (cm_only cm) = card {i. i < cm_num cm \<and> bs_get (cm_only cm) i}"
  using cm_ok_bitsets [OF assms] bits.count_card by (auto simp: cm_bitset_ok_def)



section \<open>Byte counts\<close>

lemma sum_of_chunks:
  fixes sz :: "nat \<Rightarrow> nat"
  assumes "0 < n" "\<forall>i. i + 1 < n \<longrightarrow> sz i = c"
  shows "(\<Sum>i | i < n \<and> P i. sz i) =
    (if P (n - 1) then (card {i. i < n \<and> P i} - 1) * c + sz (n - 1) else card {i. i < n \<and> P i} * c)"
proof -
  let ?S = "{i. i < n - 1 \<and> P i}"
  have s: "(\<Sum>i \<in> ?S. sz i) = card ?S * c" using assms(2) by (simp add: less_diff_conv)
  have iff: "i < n \<longleftrightarrow> i = n - 1 \<or> i < n - 1" for i using assms(1) by arith
  have "{i. i < n \<and> P i} = (if P (n - 1) then insert (n - 1) ?S else ?S)"
    unfolding iff by auto
  then show ?thesis using s by (simp add: add.commute)
qed

text \<open>The byte counts are exact. What is left is the sum of the sizes of the chunks that
  are not there, what is left to download the sum over the chunks still to do, and what is
  excluded the sums over the two sets of chunks that are not wanted, also when the last chunk is
  shorter and whether or not it is counted.\<close>

theorem byte_counts:
  assumes "cm_ok cm" "0 < cm_num cm"
  shows "bytesLeft cm = (\<Sum>i | i < cm_num cm \<and> \<not> bs_get (cm_bits cm) i. ch_size (cm_chunk cm i)) \<and>
    bytesLeftToDownload cm = (\<Sum>i | i < cm_num cm \<and> bs_get (cm_todo cm) i. ch_size (cm_chunk cm i)) \<and>
    bytesExcluded cm = (\<Sum>i | i < cm_num cm \<and> bs_get (cm_excl cm) i. ch_size (cm_chunk cm i)) +
      (\<Sum>i | i < cm_num cm \<and> bs_get (cm_only cm) i. ch_size (cm_chunk cm i))"
proof -
  have len: "length (cm_chunks cm) = cm_num cm" by (rule cm_ok_length [OF assms(1)])
  have b: "bs_num_bits (cm_bits cm) = cm_num cm" using assms(1) by (simp add: cm_ok_def cm_bitset_ok_def)
  have sz: "\<forall>i. i + 1 < cm_num cm \<longrightarrow> ch_size (cm_chunk cm i) = cm_chunk_size cm"
    using assms(1) by (simp add: cm_ok_def)
  have "{..<cm_num cm} = {i. i < cm_num cm \<and> bs_get (cm_bits cm) i} \<union> {i. i < cm_num cm \<and> \<not> bs_get (cm_bits cm) i}"
    by auto
  then have "cm_num cm = card {i. i < cm_num cm \<and> bs_get (cm_bits cm) i} + card {i. i < cm_num cm \<and> \<not> bs_get (cm_bits cm) i}"
    using card_Un_disjoint [of "{i. i < cm_num cm \<and> bs_get (cm_bits cm) i}" "{i. i < cm_num cm \<and> \<not> bs_get (cm_bits cm) i}"]
    by (metis (no_types, lifting) card_lessThan disjoint_iff finite_Un finite_lessThan mem_Collect_eq)
  then have l: "cm_num cm - bs_numOnBits (cm_bits cm) = card {i. i < cm_num cm \<and> \<not> bs_get (cm_bits cm) i}"
    unfolding cm_ok_count(1) [OF assms(1)] by linarith
  show ?thesis
    unfolding bytesLeft_def bytesLeftToDownload_def bytesExcluded_def bytes_of_def len b l
      cm_ok_count(2-4) [OF assms(1)] sum_of_chunks [OF assms(2) sz]
    using assms(2) by simp
qed

theorem byte_counts_witness:
  "bytesLeft (try_manager [] 2) = (\<Sum>i | i < 2 \<and> \<not> bs_get (cm_bits (try_manager [] 2)) i. ch_size (cm_chunk (try_manager [] 2) i))"
proof -
  define cm where "cm = try_manager [] 2"
  have "cm_ok cm" "cm_num cm = 2" using try_manager_ok [of 2] by (simp_all add: cm_def)
  with byte_counts [of cm] show ?thesis by (simp add: cm_def [symmetric])
qed

section \<open>Chunks that are being downloaded\<close>

text \<open>A chunk counts as there as soon as its download was prepared. It is not marked as
  downloaded, but it is handed out for uploading, unchecked, and the index file that is written
  while it is being downloaded lists it, so that it is taken for downloaded at the next start.\<close>

theorem unfinished_chunks_leak:
  assumes "cache_frame ops" "cm_ok cm" "i < cm_num cm" "ch_status (cm_chunk cm i) = NOT_DOWNLOADED"
    and "\<not> ch_isExcluded (cm_chunk cm i)" "cm_writable cm"
    and "prepareChunk ops i False cm = Some (cm1, True)"
  shows "\<not> bs_get (cm_bits cm1) i \<and> (\<exists>cm2. grabChunk ops now i cm1 = Some (cm2, True)) \<and>
    (\<exists>cm3 l. saveIndexFile cm1 = Some cm3 \<and> cm_index_file cm3 = Some l \<and> i \<in> set l)"
proof -
  obtain k c where p: "co_prep ops (cm_cache cm) (cm_chunk cm i) = Some (k, c)"
    "cm1 = cm_put_chunk i c (cm\<lparr>cm_cache := k\<rparr>)"
    using assms(4,7) by (auto simp: prepareChunk_def split: Option.bind_splits)
  note f = cache_frame.prep_frame [OF assms(1) p(1)]
  have len: "i < length (cm_chunks cm)" using assms(2,3) by (simp add: cm_ok_length)
  have c: "cm_chunk cm1 i = c" "length (cm_chunks cm1) = length (cm_chunks cm)" "cm_num cm1 = cm_num cm"
    "cm_writable cm1 = cm_writable cm"
    using len by (simp_all add: p(2)) (simp add: cm_put_chunk_def)
  have "\<not> ch_isExcluded c" using f assms(5) by (simp add: same_chunk_def ch_isExcluded_def)
  then have "\<exists>cm2. grabChunk ops now i cm1 = Some (cm2, True)"
    using f len by (auto simp: grabChunk_def c)
  moreover have "\<not> bs_get (cm_bits cm1) i" using cm_ok_status [OF assms(2), of i] assms(4) by (auto simp: p(2))
  moreover have "saveIndexFile cm1 = Some (savePriorityInfo (cm1\<lparr>cm_index_file :=
      Some (filter (\<lambda>i. ch_status (cm_chunk cm1 i) \<noteq> NOT_DOWNLOADED) [0..<cm_num cm1])\<rparr>))"
    using assms(6) c(4) by (simp add: saveIndexFile_def)
  moreover have "i \<in> set (filter (\<lambda>i. ch_status (cm_chunk cm1 i) \<noteq> NOT_DOWNLOADED) [0..<cm_num cm1])"
    using f c assms(3) by auto
  ultimately show ?thesis by auto
qed

theorem unfinished_chunks_leak_witness:
  "\<exists>cm1 cm2. prepareChunk sf_ops 0 False (try_manager [] 2) = Some (cm1, True) \<and>
    \<not> bs_get (cm_bits cm1) 0 \<and> grabChunk sf_ops 9 0 cm1 = Some (cm2, True)"
proof -
  define cm where "cm = try_manager [] 2"
  have t: "cm_ok cm" "cm_num cm = 2" using try_manager_ok [of 2] by (simp_all add: cm_def)
  have c: "cm_chunk cm 0 = Chunk_new 0 10" "cm_cache cm = some_cache" "cm_writable cm"
    by (simp_all add: cm_def try_manager_def cm_initial_def cm_chunk_def chunk_sizes_def numeral_2_eq_2)
  have "\<exists>k c. sf_prep some_cache (Chunk_new 0 10) = Some (k, c)"
    by (simp add: sf_prep_def some_cache_def cf_map_def Chunk_new_def)
  then obtain k c' where "sf_prep some_cache (Chunk_new 0 10) = Some (k, c')" by auto
  moreover have "ch_status (Chunk_new 0 10) = NOT_DOWNLOADED" by (simp add: Chunk_new_def)
  ultimately obtain cm1 where p: "prepareChunk sf_ops 0 False cm = Some (cm1, True)"
    by (simp add: prepareChunk_def c sf_ops_def)
  from unfinished_chunks_leak [OF sff.cache_frame_axioms t(1) _ _ _ c(3) p, of 9] p t(2) show ?thesis
    unfolding cm_def [symmetric] by (auto simp: c Chunk_new_def ch_isExcluded_def)
qed


section \<open>The priority file\<close>

lemma stored_priority_value: "p \<noteq> PREVIEW_PRIORITY \<Longrightarrow> stored_priority (of_nat (priority_value p)) = p"
  by (cases p) (simp_all add: stored_priority_def)

lemma prio_loop_total:
  assumes "no_mapped cm" "\<forall>i \<in> set is. i < length (cm_files cm) \<and> p i \<noteq> PREVIEW_PRIORITY" "length (cm_files cm) < 2 ^ 31"
  shows "\<exists>cm'. prio_loop ops (concat (map (\<lambda>i. [of_nat i, of_nat (priority_value (p i))]) is)) cm = Some cm' \<and>
    map tf_priority (cm_files cm') = fold (\<lambda>i ps. ps[i := p i]) is (map tf_priority (cm_files cm))"
  using assms
proof (induction "is" arbitrary: cm)
  case (Cons i "is")
  have i: "i < length (cm_files cm)" "p i \<noteq> PREVIEW_PRIORITY" using Cons.prems(2) by simp_all
  have "unat (of_nat i :: u32) = i" using i(1) Cons.prems(3) by (intro unat_of_nat_small) simp
  moreover obtain cm1 where 1: "cm_setPriority ops i (p i) cm = Some cm1" "no_mapped cm1"
    "map tf_priority (cm_files cm1) = (map tf_priority (cm_files cm))[i := p i]"
    using setPriority_total [OF Cons.prems(1) i(1)] by blast
  moreover have "length (cm_files cm1) = length (cm_files cm)" using 1(3) by (metis length_list_update length_map)
  ultimately show ?case
    using Cons.IH [OF 1(2)] Cons.prems(2,3) i by (simp add: stored_priority_value)
qed simp

lemma fold_updates:
  "k < length ps \<Longrightarrow> fold (\<lambda>i ps. ps[i := p i]) is ps ! k = (if k \<in> set is then p k else ps ! k)"
proof (induction "is" arbitrary: ps)
  case (Cons i "is")
  then show ?case by (cases "k = i") simp_all
qed simp

lemma length_fold_updates: "length (fold (\<lambda>i ps. ps[i := p i]) is ps) = length ps"
  by (induction "is" arbitrary: ps) simp_all

text \<open>Claim C34: the priority file keeps the priorities of the files. What a manager writes, a fresh
  one, whose files are all at normal priority, reads back without failing, running all its slots
  on the way, and then every file has the priority it had; only the preview priority, which the
  reader does not know, could not come back.\<close>

theorem priority_file_roundtrip:
  assumes "cm_writable cm" "\<not> cm_during_load cm" "length (cm_files cm) < 2 ^ 31"
    and "\<forall>f \<in> set (cm_files cm). tf_priority f \<noteq> PREVIEW_PRIORITY"
    and "no_mapped cm0" "length (cm_files cm0) = length (cm_files cm)"
    and "\<forall>f \<in> set (cm_files cm0). tf_priority f = NORMAL_PRIORITY"
    and "cm_prio_file cm0 = cm_prio_file (savePriorityInfo cm)"
  shows "\<exists>cm1. loadPriorityInfo ops (cm0\<lparr>cm_during_load := True\<rparr>) = Some cm1 \<and>
    map tf_priority (cm_files cm1) = map tf_priority (cm_files cm)"
proof -
  let ?n = "length (cm_files cm)"
  let ?p = "\<lambda>i. tf_priority (cm_files cm ! i)"
  define "is" where "is = filter (\<lambda>i. ?p i \<noteq> NORMAL_PRIORITY) [0..<?n]"
  define items :: "u32 list" where "items = concat (map (\<lambda>i. [of_nat i, of_nat (priority_value (?p i))]) is)"
  let ?c0 = "cm0\<lparr>cm_during_load := True\<rparr>"
  have prio: "cm_prio_file ?c0 = Some (of_nat (length items) # items)"
    using assms(1,2,8) by (simp add: savePriorityInfo_def saveFileInfo_def Let_def items_def is_def)
  have li: "length items = 2 * length is" by (simp add: items_def length_concat comp_def sum_list_triv)
  have "length is \<le> ?n" unfolding is_def by (rule le_trans [OF length_filter_le]) simp
  then have b: "length items \<le> 2 * ?n" using li by simp
  then have u: "unat (of_nat (length items) :: u32) = length items"
    using assms(3) by (intro unat_of_nat_small) simp
  have "\<forall>i \<in> set is. i < length (cm_files ?c0) \<and> ?p i \<noteq> PREVIEW_PRIORITY"
    using assms(4,6) by (auto simp: is_def)
  moreover have "no_mapped ?c0" "length (cm_files ?c0) < 2 ^ 31" using assms(3,5,6) by simp_all
  ultimately obtain cm1 where 1: "prio_loop ops items ?c0 = Some cm1"
    "map tf_priority (cm_files cm1) = fold (\<lambda>i ps. ps[i := ?p i]) is (map tf_priority (cm_files ?c0))"
    using prio_loop_total [of ?c0 "is" ?p ops] unfolding items_def by blast
  have "loadPriorityInfo ops ?c0 = Some cm1"
    using u b assms(6) 1(1) unfolding loadPriorityInfo_def prio by simp
  moreover have "map tf_priority (cm_files cm1) = map tf_priority (cm_files cm)"
  proof (rule nth_equalityI)
    show "length (map tf_priority (cm_files cm1)) = length (map tf_priority (cm_files cm))"
      unfolding 1(2) length_fold_updates using assms(6) by simp
    fix k assume k: "k < length (map tf_priority (cm_files cm1))"
    then have k: "k < ?n" unfolding 1(2) length_fold_updates using assms(6) by simp
    then have "map tf_priority (cm_files cm1) ! k = (if k \<in> set is then ?p k else NORMAL_PRIORITY)"
      unfolding 1(2) using assms(6,7) by (simp add: fold_updates)
    then show "map tf_priority (cm_files cm1) ! k = map tf_priority (cm_files cm) ! k"
      using k by (auto simp: is_def)
  qed
  ultimately show ?thesis by blast
qed

theorem priority_file_roundtrip_witness:
  "\<exists>cm1. loadPriorityInfo sf_ops ((try_manager [some_file 0 0 5] 1)\<lparr>
      cm_prio_file := Some [2, 0, 50], cm_during_load := True\<rparr>) = Some cm1 \<and>
    map tf_priority (cm_files cm1) = [FIRST_PRIORITY]"
proof -
  define cm0 where "cm0 = (try_manager [some_file 0 0 5] 1)\<lparr>cm_prio_file := Some [2, 0, 50]\<rparr>"
  define cm where "cm = (try_manager [some_file 0 0 5] 1)\<lparr>cm_files := [(some_file 0 0 5)\<lparr>tf_priority := FIRST_PRIORITY\<rparr>]\<rparr>"
  have t: "no_mapped (try_manager [some_file 0 0 5] 1)" "cm_files (try_manager [some_file 0 0 5] 1) = [some_file 0 0 5]"
    using try_manager_ok [of 1] by simp_all
  have w: "cm_writable (try_manager [some_file 0 0 5] 1)" "\<not> cm_during_load (try_manager [some_file 0 0 5] 1)"
    by (simp_all add: try_manager_def cm_initial_def Let_def)
  have p: "tf_priority (some_file 0 0 5) = NORMAL_PRIORITY" by (simp add: some_file_def TorrentFile_new_def Let_def)
  have h: "cm_writable cm" "\<not> cm_during_load cm" "length (cm_files cm) < 2 ^ 31"
    "\<forall>f \<in> set (cm_files cm). tf_priority f \<noteq> PREVIEW_PRIORITY" "no_mapped cm0"
    "length (cm_files cm0) = length (cm_files cm)" "\<forall>f \<in> set (cm_files cm0). tf_priority f = NORMAL_PRIORITY"
    using t w p by (simp_all add: cm_def cm0_def) (simp add: no_mapped_def)
  have f: "cm_prio_file cm0 = cm_prio_file (savePriorityInfo cm)"
    using w by (simp add: cm_def cm0_def savePriorityInfo_def saveFileInfo_def Let_def)
  show ?thesis
    using priority_file_roundtrip [OF h f, of sf_ops] by (simp add: cm_def) (simp add: cm0_def)
qed

end
