(* ===== verification/ChunkSelector.thy ===== *)
theory ChunkSelector
  imports ChunkManagerInv PeerDownloader "HOL-Library.Multiset"
begin

text \<open>
  Which chunk to download next: \<^verbatim>\<open>libktorrent/torrent/chunkcounter.cpp\<close> and
  \<^verbatim>\<open>chunkselector.cpp\<close>. \<^verbatim>\<open>std::list::sort\<close> is a stable sort by the given comparison, the
  only one there is for a strict weak order. The shuffle of the constructor is an argument, the
  timer is the time of its last update in milliseconds of the day.
\<close>

section \<open>Counting the chunks of the peers\<close>

type_synonym chunk_counter = "u32 list"

definition ChunkCounter_new :: "nat \<Rightarrow> chunk_counter" where
  "ChunkCounter_new n = replicate n 0"

definition cc_reset :: "chunk_counter \<Rightarrow> chunk_counter" where
  "cc_reset cc = replicate (length cc) 0"

definition cc_inc :: "nat \<Rightarrow> chunk_counter \<Rightarrow> chunk_counter" where
  "cc_inc idx cc = (if idx < length cc then cc[idx := cc ! idx + 1] else cc)"

definition cc_dec :: "nat \<Rightarrow> chunk_counter \<Rightarrow> chunk_counter" where
  "cc_dec idx cc = (if idx < length cc \<and> cc ! idx > 0 then cc[idx := cc ! idx - 1] else cc)"

definition cc_get :: "chunk_counter \<Rightarrow> nat \<Rightarrow> u32" where
  "cc_get cc idx = (if idx < length cc then cc ! idx else 0)"

definition cc_incBitSet :: "bitset \<Rightarrow> chunk_counter \<Rightarrow> chunk_counter" where
  "cc_incBitSet bs cc = fold (\<lambda>i cc. if bs_get bs i then cc[i := cc ! i + 1] else cc) [0..<length cc] cc"

definition cc_decBitSet :: "bitset \<Rightarrow> chunk_counter \<Rightarrow> chunk_counter" where
  "cc_decBitSet bs cc = fold (\<lambda>i cc. if bs_get bs i then cc_dec i cc else cc) [0..<length cc] cc"

section \<open>The order of selection\<close>

definition normalCmp :: "chunk_counter \<Rightarrow> bool \<Rightarrow> nat \<Rightarrow> nat \<Rightarrow> bool" where
  "normalCmp cc warmup a b \<longleftrightarrow> (if \<not> warmup then cc_get cc a < cc_get cc b else cc_get cc a > cc_get cc b)"

definition rare_cmp :: "'k chunk_manager \<Rightarrow> chunk_counter \<Rightarrow> bool \<Rightarrow> nat \<Rightarrow> nat \<Rightarrow> bool" where
  "rare_cmp cm cc warmup a b \<longleftrightarrow>
     (if a \<ge> length (cm_chunks cm) \<or> b \<ge> length (cm_chunks cm) then False
      else let pa = ch_priority (cm_chunk cm a); pb = ch_priority (cm_chunk cm b)
           in if pa = pb then normalCmp cc warmup a b else pa > pb)"

fun sort_insert :: "('a \<Rightarrow> 'a \<Rightarrow> bool) \<Rightarrow> 'a \<Rightarrow> 'a list \<Rightarrow> 'a list" where
  "sort_insert lt x [] = [x]"
| "sort_insert lt x (y # ys) = (if lt y x then y # sort_insert lt x ys else x # y # ys)"

definition stable_sort :: "('a \<Rightarrow> 'a \<Rightarrow> bool) \<Rightarrow> 'a list \<Rightarrow> 'a list" where
  "stable_sort lt xs = foldr (sort_insert lt) xs []"

section \<open>The selector\<close>

record chunk_selector =
  sel_chunks :: "nat list"
  sel_last :: nat

definition ChunkSelector_new :: "(nat list \<Rightarrow> nat list) \<Rightarrow> nat \<Rightarrow> 'k chunk_manager \<Rightarrow> chunk_selector" where
  "ChunkSelector_new shuffle now cm =
     \<lparr>sel_chunks = shuffle (filter (\<lambda>i. \<not> bs_get (cm_bits cm) i) [0..<length (cm_chunks cm)]), sel_last = now\<rparr>"

definition warming_up :: "'k chunk_manager \<Rightarrow> 'k chunk_manager \<times> bool" where
  "warming_up cm = (case chunksLeft cm of (cm, left) \<Rightarrow> (cm, length (cm_chunks cm) - left \<le> 4))"

definition wanted :: "'k chunk_manager \<Rightarrow> peer_downloader \<Rightarrow> (nat \<Rightarrow> bool) \<Rightarrow> nat \<Rightarrow> bool" where
  "wanted cm pd busy i \<longleftrightarrow> pd_hasChunk pd i \<and> \<not> busy i \<and> \<not> ch_isExcluded (cm_chunk cm i) \<and>
     \<not> ch_isExcludedForDownloading (cm_chunk cm i)"

fun select_walk :: "(nat \<Rightarrow> bool) \<Rightarrow> (nat \<Rightarrow> bool) \<Rightarrow> nat list \<Rightarrow> nat list \<times> nat option" where
  "select_walk have want [] = ([], None)"
| "select_walk have want (i # is) =
     (if have i then select_walk have want is
      else if want i then (i # is, Some i)
      else case select_walk have want is of (r, c) \<Rightarrow> (i # r, c))"

definition sel_select :: "nat \<Rightarrow> chunk_counter \<Rightarrow> (nat \<Rightarrow> bool) \<Rightarrow> peer_downloader \<Rightarrow> 'k chunk_manager \<Rightarrow>
    chunk_selector \<Rightarrow> 'k chunk_manager \<times> chunk_selector \<times> nat option" where
  "sel_select now cc busy pd cm sel =
     (let (cm, sel) =
        (if now - sel_last sel > 2000 then
           (case warming_up cm of (cm, warmup) \<Rightarrow>
              (cm, sel\<lparr>sel_chunks := stable_sort (rare_cmp cm cc warmup) (sel_chunks sel), sel_last := now\<rparr>))
         else (cm, sel))
      in case select_walk (bs_get (cm_bits cm)) (wanted cm pd busy) (sel_chunks sel) of
           (l, c) \<Rightarrow> (cm, sel\<lparr>sel_chunks := l\<rparr>, c))"

definition sel_dataChecked_step :: "bitset \<Rightarrow> nat \<Rightarrow> nat list \<Rightarrow> nat list" where
  "sel_dataChecked_step good i l =
     (if List.member l i \<and> bs_get good i then removeAll i l
      else if \<not> List.member l i \<and> \<not> bs_get good i then l @ [i] else l)"

definition sel_dataChecked :: "bitset \<Rightarrow> chunk_selector \<Rightarrow> chunk_selector" where
  "sel_dataChecked good sel =
     sel\<lparr>sel_chunks := fold (sel_dataChecked_step good) [0..<bs_num_bits good] (sel_chunks sel)\<rparr>"

definition sel_reinsert :: "nat \<Rightarrow> chunk_selector \<Rightarrow> chunk_selector" where
  "sel_reinsert i sel = (if List.member (sel_chunks sel) i then sel else sel\<lparr>sel_chunks := sel_chunks sel @ [i]\<rparr>)"

definition sel_reincluded :: "'k chunk_manager \<Rightarrow> nat \<Rightarrow> nat \<Rightarrow> chunk_selector \<Rightarrow> chunk_selector" where
  "sel_reincluded cm from to sel =
     (if from \<ge> length (cm_chunks cm) \<or> to \<ge> length (cm_chunks cm) then sel
      else fold (\<lambda>i sel. if ch_status (cm_chunk cm i) \<noteq> ON_DISK then sel_reinsert i sel else sel) [from..<Suc to] sel)"

section \<open>Lemmas\<close>

lemma mset_sort_insert [simp]: "mset (sort_insert lt x xs) = add_mset x (mset xs)"
  by (induction xs) auto

lemma mset_stable_sort [simp]: "mset (stable_sort lt xs) = mset xs"
  by (induction xs) (simp_all add: stable_sort_def)

lemma set_stable_sort [simp]: "set (stable_sort lt xs) = set xs"
  by (metis mset_stable_sort set_mset_mset)

lemma set_sort_insert [simp]: "set (sort_insert lt x xs) = insert x (set xs)"
  by (metis mset_sort_insert set_mset_add_mset_insert set_mset_mset)

text \<open>A strict weak order, on the elements of a set.\<close>

definition weak_order :: "('a \<Rightarrow> 'a \<Rightarrow> bool) \<Rightarrow> 'a set \<Rightarrow> bool" where
  "weak_order lt A \<longleftrightarrow> (\<forall>x \<in> A. \<forall>y \<in> A. lt x y \<longrightarrow> \<not> lt y x) \<and>
     (\<forall>x \<in> A. \<forall>y \<in> A. \<forall>z \<in> A. lt x y \<longrightarrow> lt x z \<or> lt z y)"

lemma sorted_sort_insert:
  assumes "weak_order lt A" "set xs \<subseteq> A" "x \<in> A" "sorted_wrt (\<lambda>x y. \<not> lt y x) xs"
  shows "sorted_wrt (\<lambda>x y. \<not> lt y x) (sort_insert lt x xs)"
  using assms(2,4)
proof (induction xs)
  case (Cons y ys)
  have w: "lt u v \<Longrightarrow> u \<in> A \<Longrightarrow> v \<in> A \<Longrightarrow> z \<in> A \<Longrightarrow> lt u z \<or> lt z v" for u v z
    using assms(1) by (simp add: weak_order_def)
  have asym: "lt u v \<Longrightarrow> u \<in> A \<Longrightarrow> v \<in> A \<Longrightarrow> \<not> lt v u" for u v using assms(1) by (simp add: weak_order_def)
  have y: "y \<in> A" "set ys \<subseteq> A" using Cons.prems(1) by auto
  show ?case
  proof (cases "lt y x")
    case True
    then have "\<not> lt x y" using asym [OF True y(1) assms(3)] by simp
    then show ?thesis using True Cons by simp
  next
    case False
    moreover have "\<not> lt z x" if "z \<in> set ys" for z
    proof
      assume "lt z x"
      then have "lt z y \<or> lt y x" using w [of z x y] that y assms(3) by blast
      then show False using False Cons.prems(2) that by simp
    qed
    ultimately show ?thesis using Cons.prems(2) by simp
  qed
qed simp

lemma sorted_stable_sort:
  assumes "weak_order lt A" "set xs \<subseteq> A"
  shows "sorted_wrt (\<lambda>x y. \<not> lt y x) (stable_sort lt xs)"
  using assms(2)
proof (induction xs)
  case (Cons x xs)
  have "set (foldr (sort_insert lt) xs []) \<subseteq> A"
    using Cons.prems set_stable_sort [of lt xs] by (simp add: stable_sort_def)
  then show ?case using Cons sorted_sort_insert [OF assms(1)] by (simp add: stable_sort_def)
qed (simp add: stable_sort_def)

lemma rare_cmp_weak_order: "weak_order (rare_cmp cm cc w) {..<length (cm_chunks cm)}"
  unfolding weak_order_def rare_cmp_def normalCmp_def Let_def
  by (auto simp: not_less split: if_splits)

text \<open>The walk over the list.\<close>

lemma select_walk_spec:
  "select_walk have want xs = (l, c) \<Longrightarrow>
   set l \<subseteq> set xs \<and> {i \<in> set xs. \<not> have i} \<subseteq> set l \<and>
   (c = None \<longrightarrow> (\<forall>i \<in> set xs. have i \<or> \<not> want i)) \<and>
   (\<forall>i. c = Some i \<longrightarrow> i \<in> set xs \<and> \<not> have i \<and> want i \<and>
     (\<exists>p s. xs = p @ i # s \<and> (\<forall>j \<in> set p. have j \<or> \<not> want j)))"
proof (induction xs arbitrary: l c)
  case (Cons x xs)
  have ext: "\<exists>p s. x # xs = p @ i # s \<and> (\<forall>j \<in> set p. have j \<or> \<not> want j)"
    if h: "\<exists>p s. xs = p @ i # s \<and> (\<forall>j \<in> set p. have j \<or> \<not> want j)" "have x \<or> \<not> want x" for i
  proof -
    obtain p s where "xs = p @ i # s" "\<forall>j \<in> set p. have j \<or> \<not> want j" using h(1) by blast
    then show ?thesis using h(2) by (intro exI [of _ "x # p"] exI [of _ s]) simp
  qed
  consider "have x" | "\<not> have x" "want x" | "\<not> have x" "\<not> want x" by blast
  then show ?case
  proof cases
    case 1
    then have "select_walk have want xs = (l, c)" using Cons.prems by simp
    from Cons.IH [OF this] 1 ext show ?thesis by (simp add: subset_iff) blast
  next
    case 2
    moreover have "\<exists>p s. x # xs = p @ x # s \<and> (\<forall>j \<in> set p. have j \<or> \<not> want j)"
      by (intro exI [of _ "[]"] exI [of _ xs]) simp
    moreover have "l = x # xs" "c = Some x" using 2 Cons.prems by simp_all
    ultimately show ?thesis by auto
  next
    case 3
    obtain r where r: "select_walk have want xs = (r, c)" "l = x # r"
      using Cons.prems 3 by (auto split: prod.splits)
    from Cons.IH [OF r(1)] 3 ext show ?thesis by (simp add: r(2) subset_iff) blast
  qed
qed simp


lemma warming_up_fields:
  "warming_up cm = (cm', w) \<Longrightarrow> cm_bits cm' = cm_bits cm \<and> cm_chunks cm' = cm_chunks cm \<and> cm_num cm' = cm_num cm \<and>
    (cm_ok cm \<longrightarrow> cm_ok cm')"
  by (auto simp: warming_up_def chunksLeft_def Let_def split: if_splits)

text \<open>Selection is a walk over the list, which is sorted first when it is time to.\<close>

lemma sel_select_walk:
  assumes "sel_select now cc busy pd cm sel = (cm', sel', c)"
  shows "\<exists>xs. select_walk (bs_get (cm_bits cm)) (wanted cm pd busy) xs = (sel_chunks sel', c) \<and>
    set xs = set (sel_chunks sel) \<and> (2000 < now - sel_last sel \<longrightarrow>
      xs = stable_sort (rare_cmp cm cc (snd (warming_up cm))) (sel_chunks sel))"
proof -
  define w where "w = snd (warming_up cm)"
  define sort where "sort \<longleftrightarrow> 2000 < now - sel_last sel"
  define cm1 where "cm1 = (if sort then fst (warming_up cm) else cm)"
  define xs where "xs = (if sort then stable_sort (rare_cmp cm1 cc w) (sel_chunks sel) else sel_chunks sel)"
  have f: "cm_bits cm1 = cm_bits cm" "cm_chunks cm1 = cm_chunks cm"
    using warming_up_fields [of cm "fst (warming_up cm)" "snd (warming_up cm)"] by (simp_all add: cm1_def)
  have wn: "wanted cm1 pd busy = wanted cm pd busy" "rare_cmp cm1 = rare_cmp cm"
    by (simp_all add: fun_eq_iff wanted_def rare_cmp_def cm_chunk_def f(2))
  have "\<exists>sel1. sel_select now cc busy pd cm sel = (case select_walk (bs_get (cm_bits cm1)) (wanted cm1 pd busy) xs of
      (l, c) \<Rightarrow> (cm1, sel1\<lparr>sel_chunks := l\<rparr>, c))"
    by (cases sort) (auto simp: sel_select_def cm1_def xs_def w_def sort_def split_def Let_def)
  then obtain sel1 where e: "sel_select now cc busy pd cm sel =
      (case select_walk (bs_get (cm_bits cm1)) (wanted cm1 pd busy) xs of (l, c) \<Rightarrow> (cm1, sel1\<lparr>sel_chunks := l\<rparr>, c))" ..
  obtain l c' where w1: "select_walk (bs_get (cm_bits cm1)) (wanted cm1 pd busy) xs = (l, c')" by (rule prod.exhaust)
  have "c' = c" "sel_chunks sel' = l" using e assms w1 by simp_all
  then have "select_walk (bs_get (cm_bits cm)) (wanted cm pd busy) xs = (sel_chunks sel', c)"
    using w1 unfolding f(1) wn(1) by simp
  moreover have "set xs = set (sel_chunks sel)" by (simp add: xs_def)
  ultimately show ?thesis using wn(2) by (auto simp: xs_def sort_def w_def)
qed

text \<open>Claim C24: the selector picks the best chunk there is. The chunk it returns is in its list, is not
  downloaded, not being downloaded, not excluded and not only to be seeded, and the peer has it; if
  the list was due for sorting, no other such chunk has a higher priority, nor, at the same
  priority, is rarer among the peers (more common, while warming up). If it returns nothing there
  is no such chunk. Chunks that are still missing never leave its list.\<close>

theorem select_best_chunk:
  assumes "set (sel_chunks sel) \<subseteq> {..<length (cm_chunks cm)}"
    and "sel_select now cc busy pd cm sel = (cm', sel', c)"
  shows "{i \<in> set (sel_chunks sel). \<not> bs_get (cm_bits cm) i} \<subseteq> set (sel_chunks sel') \<and>
    set (sel_chunks sel') \<subseteq> set (sel_chunks sel) \<and>
    (c = None \<longrightarrow> (\<forall>j \<in> set (sel_chunks sel). bs_get (cm_bits cm) j \<or> \<not> wanted cm pd busy j)) \<and>
    (\<forall>i. c = Some i \<longrightarrow> i \<in> set (sel_chunks sel) \<and> \<not> bs_get (cm_bits cm) i \<and> wanted cm pd busy i \<and>
      (2000 < now - sel_last sel \<longrightarrow> (\<forall>j \<in> set (sel_chunks sel). \<not> bs_get (cm_bits cm) j \<and> wanted cm pd busy j \<longrightarrow>
        ch_priority (cm_chunk cm j) < ch_priority (cm_chunk cm i) \<or>
        ch_priority (cm_chunk cm j) = ch_priority (cm_chunk cm i) \<and>
          (if snd (warming_up cm) then cc_get cc j \<le> cc_get cc i else cc_get cc i \<le> cc_get cc j))))"
proof -
  define w where "w = snd (warming_up cm)"
  obtain xs where l: "select_walk (bs_get (cm_bits cm)) (wanted cm pd busy) xs = (sel_chunks sel', c)"
    and x: "set xs = set (sel_chunks sel)"
    and so: "2000 < now - sel_last sel \<longrightarrow> xs = stable_sort (rare_cmp cm cc w) (sel_chunks sel)"
    using sel_select_walk [OF assms(2)] unfolding w_def by blast
  note s = select_walk_spec [OF l]
  have best: "ch_priority (cm_chunk cm j) < ch_priority (cm_chunk cm i) \<or>
        ch_priority (cm_chunk cm j) = ch_priority (cm_chunk cm i) \<and>
          (if w then cc_get cc j \<le> cc_get cc i else cc_get cc i \<le> cc_get cc j)"
    if h: "c = Some i" "2000 < now - sel_last sel" "j \<in> set (sel_chunks sel)" "\<not> bs_get (cm_bits cm) j"
      "wanted cm pd busy j" for i j
  proof -
    obtain p r where p: "xs = p @ i # r" "\<forall>j \<in> set p. bs_get (cm_bits cm) j \<or> \<not> wanted cm pd busy j"
      using s h(1) by blast
    have "sorted_wrt (\<lambda>x y. \<not> rare_cmp cm cc w y x) xs"
      using sorted_stable_sort [OF rare_cmp_weak_order [of cm cc w]] assms(1) h(2) so by simp
    moreover have "j = i \<or> j \<in> set r" using h(3-5) p x by auto
    ultimately have n: "j = i \<or> \<not> rare_cmp cm cc w j i" using p(1) by (auto simp: sorted_wrt_append)
    have "i < length (cm_chunks cm)" "j < length (cm_chunks cm)"
      using assms(1) h(3) p(1) x by auto
    then show ?thesis
      using n unfolding rare_cmp_def normalCmp_def Let_def cm_chunk_def
      by (auto simp: not_less split: if_splits)
  qed
  show ?thesis
    using s x best unfolding w_def by blast
qed

text \<open>A peer with both chunks of a torrent that is warming up: chunk 0, which more peers have, is chosen.\<close>

theorem select_best_chunk_witness:
  "\<exists>sel' cm'. sel_select 3000 [3, 1] (\<lambda>_. False)
      (PeerDownloader_new (some_peer\<lparr>pv_bits := bs_setAll (BitSet_new 2) True\<rparr>) 65536)
      (cm_initial [] [[], []] 10 20 0 ()) \<lparr>sel_chunks = [1, 0], sel_last = 0\<rparr> = (cm', sel', Some 0)"
proof -
  define cm where "cm = cm_initial [] [[], [] :: bytes] 10 20 0 ()"
  define pd where "pd = PeerDownloader_new (some_peer\<lparr>pv_bits := bs_setAll (BitSet_new 2) True\<rparr>) 65536"
  define sel where "sel = \<lparr>sel_chunks = [1, 0], sel_last = 0\<rparr>"
  obtain cm' sel' c where r: "sel_select 3000 [3, 1] (\<lambda>_. False) pd cm sel = (cm', sel', c)"
    by (metis prod.exhaust)
  have "set (sel_chunks sel) \<subseteq> {..<length (cm_chunks cm)}"
    by (simp add: sel_def cm_def cm_initial_def chunk_sizes_def)
  note t = select_best_chunk [OF this r]
  have c: "\<not> bs_get (cm_bits cm) 0" "wanted cm pd (\<lambda>_. False) 0" "snd (warming_up cm)"
    "ch_priority (cm_chunk cm 0) = ch_priority (cm_chunk cm 1)"
  proof -
    have ch: "cm_chunk cm i = Chunk_new i 10" if "i < 2" for i
      using that by (auto simp: cm_def cm_initial_def Let_def cm_chunk_def chunk_sizes_def numeral_2_eq_2 less_Suc_eq)
    have "bs_ok (BitSet_new 2)" by (rule bs_ok_new) simp
    from bs_get_setAll [OF bs_ok_shape [OF this]] have "pd_hasChunk pd 0"
      by (simp add: pd_def pd_hasChunk_def PeerDownloader_new_def)
    then show "wanted cm pd (\<lambda>_. False) 0"
      by (simp add: wanted_def ch Chunk_new_def ch_isExcluded_def ch_isExcludedForDownloading_def)
    show "ch_priority (cm_chunk cm 0) = ch_priority (cm_chunk cm 1)" by (simp add: ch Chunk_new_def)
    show "snd (warming_up cm)"
      by (simp add: cm_def cm_initial_def Let_def warming_up_def chunksLeft_def chunk_sizes_def)
    show "\<not> bs_get (cm_bits cm) 0" by (simp add: cm_def cm_initial_def Let_def)
  qed
  have d: "0 \<in> set (sel_chunks sel)" "sel_last sel = 0" "set (sel_chunks sel) = {0, 1}" by (auto simp: sel_def)
  obtain i where i: "c = Some i" "i \<in> {0, 1}" using t c d by auto
  have "i \<noteq> 1"
  proof
    assume "i = 1"
    then have "cc_get [3, 1] 0 \<le> cc_get [3, 1] 1" using t c d i by auto
    then show False by (simp add: cc_get_def word_le_nat_alt)
  qed
  then have "c = Some 0" using i by simp
  then show ?thesis using r unfolding cm_def [symmetric] sel_def [symmetric] pd_def [symmetric] by blast
qed

end
