(* ===== verification/Downloader.thy ===== *)
theory Downloader
  imports ChunkManagerProps ChunkDownload ChunkSelector
begin

text \<open>
  The downloader of a torrent: \<^verbatim>\<open>libktorrent/torrent/downloader.h\<close> and
  \<^verbatim>\<open>downloader.cpp\<close>. It owns the chunk downloads in progress and the selector, and works on
  the chunk manager, the peers and their downloaders. A chunk exists once, in the chunk manager: a
  chunk download is given the chunk before an operation, and its chunk is put back afterwards.
  \<open>dl_peers\<close> are the connected peers in order, \<open>dl_pds\<close> their downloaders by identifier. An
  \<^verbatim>\<open>Error\<close> or undefined behaviour is \<open>None\<close>, so the handler for disk errors in \<^verbatim>\<open>finished\<close>,
  which stops the torrent, is not reached. The HAVE packets and the peers blocked for bad data
  are lists. Which chunk downloads were inactive for a minute is the argument \<open>stale\<close> of the
  operations, \<open>now\<close> the clock and \<open>tod\<close> the time of day. The monitor of the user interface and
  the file of current downloads are left out.
\<close>

section \<open>Maps of pointers\<close>

text \<open>\<^verbatim>\<open>PtrMap\<close>, a sorted map from chunks to downloads.\<close>

definition pm_find :: "nat \<Rightarrow> (nat \<times> 'v) list \<Rightarrow> 'v option" where
  "pm_find k m = map_of m k"

definition pm_erase :: "nat \<Rightarrow> (nat \<times> 'v) list \<Rightarrow> (nat \<times> 'v) list" where
  "pm_erase k m = filter (\<lambda>e. fst e \<noteq> k) m"

fun pm_insert :: "nat \<Rightarrow> 'v \<Rightarrow> (nat \<times> 'v) list \<Rightarrow> (nat \<times> 'v) list" where
  "pm_insert k v [] = [(k, v)]"
| "pm_insert k v ((j, w) # m) =
     (if j < k then (j, w) # pm_insert k v m else if j = k then (k, v) # m else (k, v) # (j, w) # m)"

definition pm_ok :: "(nat \<times> 'v) list \<Rightarrow> bool" where
  "pm_ok m \<longleftrightarrow> sorted_wrt (<) (map fst m)"

lemma keys_insert [simp]: "fst ` set (pm_insert k v m) = insert k (fst ` set m)"
  by (induction k v m rule: pm_insert.induct) auto

lemma keys_insert_map: "set (map fst (pm_insert k v m)) = insert k (set (map fst m))"
  using keys_insert [of k v m] by simp

lemma pm_ok_insert: "pm_ok m \<Longrightarrow> pm_ok (pm_insert k v m)"
proof (induction k v m rule: pm_insert.induct)
  case (2 k v j w m)
  have "\<forall>x \<in> set (map fst (pm_insert k v m)). j < x" if "j < k"
    using 2(2) that unfolding keys_insert_map by (auto simp: pm_ok_def)
  then show ?case using 2 by (fastforce simp: pm_ok_def)
qed (simp add: pm_ok_def)

lemma pm_ok_erase: "pm_ok m \<Longrightarrow> pm_ok (pm_erase k m)"
  by (induction m) (auto simp: pm_ok_def pm_erase_def)

lemma keys_erase [simp]: "fst ` set (pm_erase k m) = fst ` set m - {k}"
  by (auto simp: pm_erase_def image_iff)

lemma find_keys: "pm_find k m = Some v \<Longrightarrow> k \<in> fst ` set m"
  by (auto simp: pm_find_def dest!: map_of_SomeD intro: rev_image_eqI)

section \<open>State\<close>

record 'k downloader =
  dl_cm :: "'k chunk_manager"
  dl_peers :: "u32 list"
  dl_pds :: pds
  dl_current :: "(nat \<times> chunk_download) list"
  dl_sel :: chunk_selector
  dl_counter :: chunk_counter
  dl_downloaded :: u64
  dl_unnecessary :: u64
  dl_mem_usage :: u32
  dl_haves :: "(u32 \<times> nat) list"
  dl_blocked :: "u32 list"

definition Downloader_new :: "nat \<Rightarrow> 'k chunk_manager \<Rightarrow> chunk_selector \<Rightarrow> chunk_counter \<Rightarrow> pds \<Rightarrow> 'k downloader" where
  "Downloader_new tor_size cm sel cc pds =
     \<lparr>dl_cm = cm, dl_peers = [], dl_pds = pds, dl_current = [], dl_sel = sel, dl_counter = cc,
      dl_downloaded = of_nat tor_size - of_nat (bytesLeft cm), dl_unnecessary = 0, dl_mem_usage = 0,
      dl_haves = [], dl_blocked = []\<rparr>"

text \<open>A chunk download with its chunk, and the state after an operation on it.\<close>

definition dl_live :: "'k downloader \<Rightarrow> nat \<Rightarrow> chunk_download \<Rightarrow> chunk_download" where
  "dl_live dl i cd = cd\<lparr>cd_chunk := cm_chunk (dl_cm dl) i\<rparr>"

definition dl_store :: "nat \<Rightarrow> chunk_download \<times> pds \<Rightarrow> 'k downloader \<Rightarrow> 'k downloader" where
  "dl_store i s dl = dl\<lparr>dl_cm := cm_put_chunk i (cd_chunk (fst s)) (dl_cm dl), dl_pds := snd s,
     dl_current := pm_insert i (fst s) (dl_current dl)\<rparr>"

text \<open>Removing a chunk download from the map deletes it, which gives up its reference to the chunk.\<close>

definition dl_erase :: "nat \<Rightarrow> 'k downloader \<Rightarrow> 'k downloader" where
  "dl_erase i dl =
     (if pm_find i (dl_current dl) = None then dl
      else dl\<lparr>dl_current := pm_erase i (dl_current dl),
        dl_cm := cm_put_chunk i ((cm_chunk (dl_cm dl) i)\<lparr>ch_ref_count := ch_ref_count (cm_chunk (dl_cm dl) i) - 1\<rparr>) (dl_cm dl)\<rparr>)"

definition dl_reload :: "'k cache_ops \<Rightarrow> nat \<Rightarrow> 'k downloader \<Rightarrow> 'k downloader option" where
  "dl_reload ops i dl =
     (if ch_status (cm_chunk (dl_cm dl) i) = ON_DISK
      then map_option (\<lambda>(cm, _). dl\<lparr>dl_cm := cm\<rparr>) (prepareChunk ops i True (dl_cm dl))
      else Some dl)"

definition dl_park :: "'k cache_ops \<Rightarrow> nat \<Rightarrow> 'k downloader \<Rightarrow> 'k downloader option" where
  "dl_park ops i dl =
     (if ch_status (cm_chunk (dl_cm dl) i) = MMAPPED
      then map_option (\<lambda>cm. dl\<lparr>dl_cm := cm\<rparr>) (saveChunk ops i False (dl_cm dl))
      else Some dl)"

definition areWeDownloading :: "'k downloader \<Rightarrow> nat \<Rightarrow> bool" where
  "areWeDownloading dl i \<longleftrightarrow> pm_find i (dl_current dl) \<noteq> None"

section \<open>Choosing work for a peer\<close>

definition maxMemoryUsage :: "u32 \<Rightarrow> u32" where
  "maxMemoryUsage mem_usage = 1024 * 1024 * (if mem_usage = 1 then 60 else if mem_usage = 2 then 80 else 40)"

definition numNonIdle :: "'k downloader \<Rightarrow> nat" where
  "numNonIdle dl = length (filter (\<lambda>(i, cd). cd_pdown cd \<noteq> []) (dl_current dl))"

definition pieces_left :: "chunk_download \<Rightarrow> nat" where
  "pieces_left cd = cd_num cd - cd_num_downloaded cd"

definition selectCD_step :: "peer_downloader \<Rightarrow> nat \<Rightarrow> nat \<times> chunk_download \<Rightarrow> (nat \<times> nat) option \<Rightarrow> (nat \<times> nat) option" where
  "selectCD_step pd num e sel =
     (case e of (i, cd) \<Rightarrow>
        if pd_isChoked pd \<or> \<not> pd_hasChunk pd i then sel
        else if length (cd_pdown cd) = num then
          (case sel of None \<Rightarrow> Some (i, pieces_left cd)
           | Some (_, left) \<Rightarrow> if pieces_left cd < left then Some (i, pieces_left cd) else sel)
        else sel)"

definition selectCD :: "'k downloader \<Rightarrow> peer_downloader \<Rightarrow> nat \<Rightarrow> nat option" where
  "selectCD dl pd num = map_option fst (fold (selectCD_step pd num) (dl_current dl) None)"

definition getDownloadSpeed :: "pds \<Rightarrow> chunk_download \<Rightarrow> u32" where
  "getDownloadSpeed pds cd = fold (\<lambda>pid r. r + pd_getDownloadRate (pds pid)) (cd_pdown cd) 0"

definition selectWorst_step :: "pds \<Rightarrow> u32 \<Rightarrow> nat \<times> chunk_download \<Rightarrow> (nat \<times> chunk_download) option \<Rightarrow> (nat \<times> chunk_download) option" where
  "selectWorst_step pds pid e cdmin =
     (case e of (i, cd) \<Rightarrow>
        if \<not> pd_hasChunk (pds pid) i \<or> List.member (cd_pdown cd) pid then cdmin
        else case cdmin of None \<Rightarrow> Some (i, cd)
          | Some (_, m) \<Rightarrow>
              if getDownloadSpeed pds cd < getDownloadSpeed pds m then Some (i, cd)
              else if length (cd_pdown cd) < length (cd_pdown m) then Some (i, cd)
              else cdmin)"

definition selectWorst :: "'k downloader \<Rightarrow> u32 \<Rightarrow> nat option" where
  "selectWorst dl pid = map_option fst (fold (selectWorst_step (dl_pds dl) pid) (dl_current dl) None)"

text \<open>\<^verbatim>\<open>sel->assignPeer(pd)\<close> on the download of chunk \<open>i\<close>.\<close>

definition dl_assign :: "u64 \<Rightarrow> nat \<Rightarrow> u32 \<Rightarrow> 'k downloader \<Rightarrow> 'k downloader option" where
  "dl_assign now i pid dl =
     (case pm_find i (dl_current dl) of None \<Rightarrow> None
      | Some cd \<Rightarrow> map_option (\<lambda>(s, _). dl_store i s dl) (cd_assignPeer now pid (dl_live dl i cd, dl_pds dl)))"

definition findDownloadForPD :: "'k cache_ops \<Rightarrow> u64 \<Rightarrow> u32 \<Rightarrow> bool \<Rightarrow> 'k downloader \<Rightarrow> ('k downloader \<times> bool) option" where
  "findDownloadForPD ops now pid warmup dl =
     (let pd = dl_pds dl pid;
          sel = selectCD dl pd 0;
          sel = (if sel = None \<and> warmup then selectCD dl pd 1 else sel)
      in case sel of None \<Rightarrow> Some (dl, False)
         | Some i \<Rightarrow> do { dl \<leftarrow> dl_reload ops i dl; dl \<leftarrow> dl_assign now i pid dl; Some (dl, True) })"

text \<open>With a chunk selected a new download is started, without one the peer joins the worst download.\<close>

definition download_chosen :: "'k cache_ops \<Rightarrow> u64 \<Rightarrow> u32 \<Rightarrow> nat option \<Rightarrow> 'k downloader \<Rightarrow> 'k downloader option" where
  "download_chosen ops now pid chunk dl =
     (case chunk of
        Some i \<Rightarrow> do {
          (cm, prepared) \<leftarrow> prepareChunk ops i False (dl_cm dl);
          let dl = dl\<lparr>dl_cm := cm\<rparr>;
          if prepared then dl_assign now i pid (dl_store i (ChunkDownload_new (cm_chunk cm i), dl_pds dl) dl)
          else Some dl }
      | None \<Rightarrow>
          if pd_grabbed (dl_pds dl pid) = 0 then
            (case selectWorst dl pid of None \<Rightarrow> Some dl
             | Some i \<Rightarrow> do { dl \<leftarrow> dl_reload ops i dl; dl_assign now i pid dl })
          else Some dl)"

definition downloadFrom :: "'k cache_ops \<Rightarrow> u64 \<Rightarrow> nat \<Rightarrow> u32 \<Rightarrow> 'k downloader \<Rightarrow> 'k downloader option" where
  "downloadFrom ops now tod pid dl =
     (let mx = unat (maxMemoryUsage (dl_mem_usage dl)); num_non_idle = numNonIdle dl in
      case warming_up (dl_cm dl) of (cm, warmup) \<Rightarrow> do {
        (dl, done) \<leftarrow> findDownloadForPD ops now pid warmup (dl\<lparr>dl_cm := cm\<rparr>);
        if done then Some dl
        else if num_non_idle * cm_chunk_size (dl_cm dl) \<ge> mx then download_chosen ops now pid None dl
        else case sel_select tod (dl_counter dl) (areWeDownloading dl) (dl_pds dl pid) (dl_cm dl) (dl_sel dl) of
               (cm, sel, c) \<Rightarrow> download_chosen ops now pid c (dl\<lparr>dl_cm := cm, dl_sel := sel\<rparr>) })"

section \<open>Updating\<close>

definition update_chunk :: "'k cache_ops \<Rightarrow> u64 \<Rightarrow> (nat \<Rightarrow> bool) \<Rightarrow> nat \<Rightarrow> 'k downloader \<Rightarrow> 'k downloader option" where
  "update_chunk ops now stale i dl =
     (case pm_find i (dl_current dl) of None \<Rightarrow> Some dl
      | Some cd \<Rightarrow>
          let s = (dl_live dl i cd, dl_pds dl) in
          if cd_pdown cd = [] then dl_park ops i dl
          else if cd_isChoked s then dl_park ops i (dl_store i (cd_releaseAllPDs s) dl)
          else if stale i then map_option (\<lambda>s. dl_store i s dl) (cd_update now s)
          else Some dl)"

fun update_chunks :: "'k cache_ops \<Rightarrow> u64 \<Rightarrow> (nat \<Rightarrow> bool) \<Rightarrow> nat list \<Rightarrow> 'k downloader \<Rightarrow> 'k downloader option" where
  "update_chunks ops now stale [] dl = Some dl"
| "update_chunks ops now stale (i # is) dl = do { dl \<leftarrow> update_chunk ops now stale i dl; update_chunks ops now stale is dl }"

definition update_peer :: "'k cache_ops \<Rightarrow> u64 \<Rightarrow> nat \<Rightarrow> u32 \<Rightarrow> 'k downloader \<Rightarrow> 'k downloader option" where
  "update_peer ops now tod pid dl =
     (let pd = dl_pds dl pid in
      if pd_peer pd = None then Some dl
      else do {
        mx \<leftarrow> getMaxChunkDownloads pd;
        if (pd_grabbed pd < int (unat mx) \<or> pd_isNearlyDone pd) \<and> canAddRequest pd then do {
          dl \<leftarrow> (if \<not> pd_isChoked pd then downloadFrom ops now tod pid dl else Some dl);
          Some (dl\<lparr>dl_pds := (dl_pds dl)(pid := (dl_pds dl pid)\<lparr>pd_nearly_done := False\<rparr>)\<rparr>) }
        else Some dl })"

fun update_peers :: "'k cache_ops \<Rightarrow> u64 \<Rightarrow> nat \<Rightarrow> u32 list \<Rightarrow> 'k downloader \<Rightarrow> 'k downloader option" where
  "update_peers ops now tod [] dl = Some dl"
| "update_peers ops now tod (p # ps) dl = do { dl \<leftarrow> update_peer ops now tod p dl; update_peers ops now tod ps dl }"

definition normalUpdate :: "'k cache_ops \<Rightarrow> u64 \<Rightarrow> nat \<Rightarrow> (nat \<Rightarrow> bool) \<Rightarrow> 'k downloader \<Rightarrow> 'k downloader option" where
  "normalUpdate ops now tod stale dl = do {
     dl \<leftarrow> update_chunks ops now stale (map fst (dl_current dl)) dl;
     update_peers ops now tod (dl_peers dl) dl }"

fun timeout_peers :: "u64 \<Rightarrow> u32 list \<Rightarrow> pds \<Rightarrow> pds option" where
  "timeout_peers now [] pds = Some pds"
| "timeout_peers now (p # ps) pds = do { pd \<leftarrow> checkTimeouts (pds p) now; timeout_peers now ps (pds(p := pd)) }"

definition dl_update :: "'k cache_ops \<Rightarrow> u64 \<Rightarrow> nat \<Rightarrow> (nat \<Rightarrow> bool) \<Rightarrow> 'k downloader \<Rightarrow> 'k downloader option" where
  "dl_update ops now tod stale dl =
     (if cm_completed (dl_cm dl) then Some dl
      else do {
        dl \<leftarrow> normalUpdate ops now tod stale dl;
        pds \<leftarrow> timeout_peers now (dl_peers dl) (dl_pds dl);
        Some (dl\<lparr>dl_pds := pds\<rparr>) })"

section \<open>Pieces\<close>

definition verifyHash :: "'k chunk_manager \<Rightarrow> bytes \<Rightarrow> nat \<Rightarrow> bool" where
  "verifyHash cm h i \<longleftrightarrow> i < length (cm_hashes cm) \<and> cm_hashes cm ! i = h"

definition download_hash :: "chunk_download \<Rightarrow> bytes option" where
  "download_hash cd =
     (if usingContinuousHashing cd then Some (cd_getHash cd)
      else map_option (\<lambda>d. snd (sha_generate sha_fresh (take (ch_size (cd_chunk cd)) d))) (ch_data (cd_chunk cd)))"

definition dl_finished :: "'k cache_ops \<Rightarrow> nat \<Rightarrow> chunk_download \<Rightarrow> 'k downloader \<Rightarrow> ('k downloader \<times> bool) option" where
  "dl_finished ops i cd dl = do {
     h \<leftarrow> download_hash cd;
     if verifyHash (dl_cm dl) h i then do {
       cm \<leftarrow> saveChunk ops i True (dl_cm dl);
       Some (dl\<lparr>dl_cm := cm, dl_haves := dl_haves dl @ map (\<lambda>p. (p, i)) (dl_peers dl)\<rparr>, True) }
     else do {
       cm \<leftarrow> resetChunk ops i (dl_cm dl);
       let dl = dl\<lparr>dl_cm := cm, dl_sel := sel_reinsert i (dl_sel dl)\<rparr>;
       Some (case getOnlyDownloader cd of
          None \<Rightarrow> dl
        | Some pid \<Rightarrow> if List.member (dl_peers dl) pid then dl\<lparr>dl_blocked := dl_blocked dl @ [pid]\<rparr> else dl, False) } }"

text \<open>What follows \<^verbatim>\<open>ChunkDownload::piece\<close>: \<open>fin\<close> is the value it returned.\<close>

definition piece_done :: "'k cache_ops \<Rightarrow> u64 \<Rightarrow> nat \<Rightarrow> (nat \<Rightarrow> bool) \<Rightarrow> nat \<Rightarrow> chunk_download \<Rightarrow> bool \<Rightarrow>
    'k downloader \<Rightarrow> 'k downloader option" where
  "piece_done ops now tod stale i cd fin dl =
     (if fin then do {
        (dl, good) \<leftarrow> dl_finished ops i cd dl;
        let sz = of_nat (ch_size (cd_chunk cd));
        let dl = (if good then dl
                  else dl\<lparr>dl_downloaded := (if sz > dl_downloaded dl then 0 else dl_downloaded dl - sz)\<rparr>);
        dl_update ops now tod stale (dl_erase i dl) }
      else if cd_pdown cd = [] then dl_park ops i dl else Some dl)"

definition pieceRecieved :: "'k cache_ops \<Rightarrow> u64 \<Rightarrow> nat \<Rightarrow> (nat \<Rightarrow> bool) \<Rightarrow> piece \<Rightarrow> 'k downloader \<Rightarrow> 'k downloader option" where
  "pieceRecieved ops now tod stale p dl =
     (let i = unat (rq_index (pc_req p)); len = ucast (rq_len (pc_req p)) in
      if cm_completed (dl_cm dl) then Some dl
      else case pm_find i (dl_current dl) of
        None \<Rightarrow> Some (dl\<lparr>dl_unnecessary := dl_unnecessary dl + len\<rparr>)
      | Some cd \<Rightarrow> do {
          dl \<leftarrow> dl_reload ops i dl;
          (s, fin, ok) \<leftarrow> cd_piece now p (dl_live dl i cd, dl_pds dl);
          let dl = dl_store i s dl;
          let dl = (if ok then dl\<lparr>dl_downloaded := dl_downloaded dl + len\<rparr> else dl);
          dl \<leftarrow> piece_done ops now tod stale i (fst s) fin dl;
          Some (if \<not> ok then dl\<lparr>dl_unnecessary := dl_unnecessary dl + len\<rparr> else dl) })"

section \<open>Peers, exclusion and the rest\<close>

fun dl_peerKilled_loop :: "u32 \<Rightarrow> nat list \<Rightarrow> 'k downloader \<Rightarrow> 'k downloader option" where
  "dl_peerKilled_loop pid [] dl = Some dl"
| "dl_peerKilled_loop pid (i # is) dl =
     (case pm_find i (dl_current dl) of None \<Rightarrow> None
      | Some cd \<Rightarrow> do { s \<leftarrow> cd_peerKilled pid (dl_live dl i cd, dl_pds dl); dl_peerKilled_loop pid is (dl_store i s dl) })"

definition onPeerKilled :: "u32 \<Rightarrow> 'k downloader \<Rightarrow> 'k downloader option" where
  "onPeerKilled pid dl = dl_peerKilled_loop pid (map fst (dl_current dl)) dl"

fun clear_loop :: "'k cache_ops \<Rightarrow> nat list \<Rightarrow> 'k downloader \<Rightarrow> 'k downloader option" where
  "clear_loop ops [] dl = Some dl"
| "clear_loop ops (i # is) dl = do {
     dl \<leftarrow> dl_park ops i dl;
     clear_loop ops is (dl\<lparr>dl_cm := cm_put_chunk i ((cm_chunk (dl_cm dl) i)\<lparr>ch_status := NOT_DOWNLOADED\<rparr>) (dl_cm dl)\<rparr>) }"

definition clearDownloads :: "'k cache_ops \<Rightarrow> 'k downloader \<Rightarrow> 'k downloader option" where
  "clearDownloads ops dl = do {
     dl \<leftarrow> clear_loop ops (map fst (dl_current dl)) dl;
     Some (fold dl_erase (map fst (dl_current dl)) dl) }"

definition downloadRate :: "'k downloader \<Rightarrow> u32" where
  "downloadRate dl = fold (\<lambda>p r. r + pd_getDownloadRate (dl_pds dl p)) (dl_peers dl) 0"

definition onExcluded_step :: "'k cache_ops \<Rightarrow> nat \<Rightarrow> 'k downloader \<Rightarrow> 'k downloader option" where
  "onExcluded_step ops i dl =
     (case pm_find i (dl_current dl) of
        None \<Rightarrow> Some dl
      | Some cd \<Rightarrow>
          if ch_priority (cm_chunk (dl_cm dl) i) = ONLY_SEED_PRIORITY then Some dl
          else do {
            s \<leftarrow> cd_cancelAll (dl_live dl i cd, dl_pds dl);
            let dl = dl_erase i (dl_store i (cd_releaseAllPDs s) dl);
            map_option (\<lambda>cm. dl\<lparr>dl_cm := cm\<rparr>) (resetChunk ops i (dl_cm dl)) })"

fun onExcluded_loop :: "'k cache_ops \<Rightarrow> nat list \<Rightarrow> 'k downloader \<Rightarrow> 'k downloader option" where
  "onExcluded_loop ops [] dl = Some dl"
| "onExcluded_loop ops (i # is) dl = do { dl \<leftarrow> onExcluded_step ops i dl; onExcluded_loop ops is dl }"

definition onExcluded :: "'k cache_ops \<Rightarrow> nat \<Rightarrow> nat \<Rightarrow> 'k downloader \<Rightarrow> 'k downloader option" where
  "onExcluded ops from to dl = onExcluded_loop ops [from..<Suc to] dl"

definition onIncluded :: "nat \<Rightarrow> nat \<Rightarrow> 'k downloader \<Rightarrow> 'k downloader" where
  "onIncluded from to dl = dl\<lparr>dl_sel := sel_reincluded (dl_cm dl) from to (dl_sel dl)\<rparr>"

definition dl_corrupted :: "nat \<Rightarrow> 'k downloader \<Rightarrow> 'k downloader" where
  "dl_corrupted i dl = dl\<lparr>dl_sel := sel_reinsert i (dl_sel dl)\<rparr>"

definition dl_dataChecked_step :: "bitset \<Rightarrow> nat \<Rightarrow> 'k downloader \<Rightarrow> 'k downloader" where
  "dl_dataChecked_step good i dl =
     (case pm_find i (dl_current dl) of
        None \<Rightarrow> dl
      | Some cd \<Rightarrow> if bs_get good i
          then dl_erase i (dl_store i (cd_releaseAllPDs (dl_live dl i cd, dl_pds dl)) dl) else dl)"

definition dl_dataChecked :: "bitset \<Rightarrow> 'k downloader \<Rightarrow> 'k downloader" where
  "dl_dataChecked good dl =
     (let dl = fold (dl_dataChecked_step good) [0..<bs_num_bits good] dl
      in dl\<lparr>dl_sel := sel_dataChecked good (dl_sel dl)\<rparr>)"

definition recalcDownloaded :: "nat \<Rightarrow> 'k downloader \<Rightarrow> 'k downloader" where
  "recalcDownloaded tor_size dl = dl\<lparr>dl_downloaded := of_nat tor_size - of_nat (bytesLeft (dl_cm dl))\<rparr>"

section \<open>What an operation on a chunk download leaves alone\<close>

lemma sendRequests_chunk: "sendRequests now pid s = Some s' \<Longrightarrow> cd_chunk (fst s') = cd_chunk (fst s)"
  by (auto simp: sendRequests_def Let_def split: prod.splits option.splits if_splits Option.bind_splits)

lemma sendRequests_all_chunk: "sendRequests_all now pids s = Some s' \<Longrightarrow> cd_chunk (fst s') = cd_chunk (fst s)"
  by (induction pids arbitrary: s) (auto simp: sendRequests_chunk split: Option.bind_splits)

lemma update_chunk_frame: "cd_update now s = Some s' \<Longrightarrow> cd_chunk (fst s') = cd_chunk (fst s)"
  by (simp add: cd_update_def sendRequests_all_chunk)

lemma release_chunk [simp]: "cd_chunk (fst (cd_releaseAllPDs s)) = cd_chunk (fst s)"
  by (cases s) simp

lemma assign_chunk: "cd_assignPeer now pid s = Some (s', b) \<Longrightarrow> cd_chunk (fst s') = cd_chunk (fst s)"
  by (auto simp: cd_assignPeer_def Let_def dest!: sendRequests_chunk
      split: prod.splits option.splits if_splits Option.bind_splits)

lemma killed_chunk: "cd_peerKilled pid s = Some s' \<Longrightarrow> cd_chunk (fst s') = cd_chunk (fst s)"
  by (auto simp: cd_peerKilled_def split: prod.splits option.splits if_splits)

lemma sendCancels_chunk: "sendCancels pid s = Some s' \<Longrightarrow> cd_chunk (fst s') = cd_chunk (fst s)"
  by (auto simp: sendCancels_def split: prod.splits option.splits)

lemma cancelAll_chunk: "cd_cancelAll s = Some s' \<Longrightarrow> cd_chunk (fst s') = cd_chunk (fst s)"
proof -
  have "cancel_loop pids t = Some s' \<Longrightarrow> cd_chunk (fst s') = cd_chunk (fst t)" for pids t
    by (induction pids arbitrary: t) (auto simp: sendCancels_chunk split: Option.bind_splits)
  then show "cd_cancelAll s = Some s' \<Longrightarrow> cd_chunk (fst s') = cd_chunk (fst s)" by (simp add: cd_cancelAll_def)
qed

lemma endgame_chunk: "endgameCancel p s = Some s' \<Longrightarrow> cd_chunk (fst s') = cd_chunk (fst s)"
proof -
  have step: "endgame_step p pid t = Some s' \<Longrightarrow> cd_chunk (fst s') = cd_chunk (fst t)" for pid t s'
    by (auto simp: endgame_step_def Let_def split: prod.splits option.splits if_splits)
  have "endgame_loop p pids t = Some s' \<Longrightarrow> cd_chunk (fst s') = cd_chunk (fst t)" for pids t
    by (induction pids arbitrary: t) (auto simp: step split: Option.bind_splits)
  then show "endgameCancel p s = Some s' \<Longrightarrow> cd_chunk (fst s') = cd_chunk (fst s)" by (simp add: endgameCancel_def)
qed

lemma updateHash_chunk: "updateHash cd = Some cd' \<Longrightarrow> cd_chunk cd' = cd_chunk cd"
  by (auto simp: updateHash_def Let_def split: if_splits option.splits Option.bind_splits)

lemma store_piece_chunk: "store_piece p buf cd = Some cd' \<Longrightarrow> \<exists>d. cd_chunk cd' = (cd_chunk cd)\<lparr>ch_data := d\<rparr>"
  by (auto simp: store_piece_def Let_def split: if_splits)

text \<open>\<^verbatim>\<open>piece\<close> only changes the data of the chunk.\<close>

definition same_state :: "chunk \<Rightarrow> chunk \<Rightarrow> bool" where
  "same_state c c' \<longleftrightarrow> same_chunk c c' \<and> ch_status c' = ch_status c"

lemma same_state_refl [simp]: "same_state c c"
  by (simp add: same_state_def)

lemma cd_piece_chunk:
  assumes "cd_piece now p s = Some (s', fin, good)"
  shows "same_state (cd_chunk (fst s)) (cd_chunk (fst s'))"
proof -
  obtain cd pds where s: "s = (cd, pds)" by (cases s)
  define pp where "pp = unat (rq_off (pc_req p)) div MAX_PIECE_LEN"
  define cd0 where "cd0 = (case cd_dstatus cd (rq_peer (pc_req p)) of None \<Rightarrow> cd
     | Some ds \<Rightarrow> cd\<lparr>cd_dstatus := (cd_dstatus cd)(rq_peer (pc_req p) \<mapsto> ds - {pp})\<rparr>)"
  have c0: "cd_chunk cd0 = cd_chunk cd" by (simp add: cd0_def split: option.split)
  consider (dup) "bs_get (cd_pieces cd) pp" | (null) "\<not> bs_get (cd_pieces cd) pp" "ch_data (cd_chunk cd0) = None"
    | (buf) buf where "\<not> bs_get (cd_pieces cd) pp" "ch_data (cd_chunk cd0) = Some buf" by fastforce
  then show ?thesis
  proof cases
    case dup
    then show ?thesis using assms by (simp add: s cd_piece_def Let_def pp_def)
  next
    case null
    then have "sendRequests_all now (cd_pdown cd0) (cd0, pds) = Some s'"
      using assms by (auto simp: s cd_piece_def Let_def pp_def [symmetric] cd0_def [symmetric] split: Option.bind_splits)
    from sendRequests_all_chunk [OF this] show ?thesis by (simp add: s c0)
  next
    case buf
    then obtain cd1 cd2 pds2 cd3 where st: "store_piece p buf cd0 = Some cd1"
      "(if length (cd_pdown cd1) > 1 then endgameCancel p (cd1, pds) else Some (cd1, pds)) = Some (cd2, pds2)"
      "(if usingContinuousHashing cd2 then updateHash cd2 else Some cd2) = Some cd3"
      and r: "(if cd_num_downloaded cd3 \<ge> cd_num cd3 then
              let cd = (if usingContinuousHashing cd3 then cd3\<lparr>cd_hash := sha_end (cd_hash cd3)\<rparr> else cd3)
              in Some (cd_releaseAllPDs (cd, pds2), True, True)
            else do { s \<leftarrow> sendRequests_all now (cd_pdown cd3) (cd3, pds2); Some (s, False, True) }) = Some (s', fin, good)"
      using assms by (auto simp: s cd_piece_def Let_def pp_def [symmetric] cd0_def [symmetric]
          split: Option.bind_splits prod.splits)
    obtain d where "cd_chunk cd1 = (cd_chunk cd)\<lparr>ch_data := d\<rparr>" using store_piece_chunk [OF st(1)] c0 by auto
    moreover have "cd_chunk cd2 = cd_chunk cd1"
      using st(2) endgame_chunk [of p "(cd1, pds)" "(cd2, pds2)"] by (simp split: if_splits)
    moreover have "cd_chunk cd3 = cd_chunk cd2"
      using st(3) updateHash_chunk [of cd2 cd3] by (simp split: if_splits)
    moreover have "cd_chunk (fst s') = cd_chunk cd3"
      using r sendRequests_all_chunk [of now "cd_pdown cd3" "(cd3, pds2)" s']
      by (auto simp: Let_def split: if_splits Option.bind_splits)
    ultimately show ?thesis by (simp add: s same_state_def same_chunk_def)
  qed
qed

end
