(* ===== verification/DownloaderProps.thy ===== *)
theory DownloaderProps
  imports Downloader
begin

text \<open>
  The invariant of the downloader and its properties. The proofs are made in the locale
  \<open>cache_frame\<close> of the chunk manager and hold for every cache of that interface.
\<close>

section \<open>The invariant\<close>

text \<open>A chunk that is being downloaded is not downloaded yet, is wanted, and was prepared.\<close>

definition dl_key :: "'k chunk_manager \<Rightarrow> nat \<Rightarrow> bool" where
  "dl_key cm i \<longleftrightarrow> i < cm_num cm \<and> \<not> bs_get (cm_bits cm) i \<and> \<not> ch_isExcluded (cm_chunk cm i) \<and>
     ch_status (cm_chunk cm i) \<noteq> NOT_DOWNLOADED"

definition dl_keys :: "'k downloader \<Rightarrow> nat set" where
  "dl_keys dl = fst ` set (dl_current dl)"

definition dl_ok :: "'k downloader \<Rightarrow> bool" where
  "dl_ok dl \<longleftrightarrow> cm_ok (dl_cm dl) \<and> pm_ok (dl_current dl) \<and> (\<forall>i \<in> dl_keys dl. dl_key (dl_cm dl) i) \<and>
     set (sel_chunks (dl_sel dl)) \<subseteq> {..<cm_num (dl_cm dl)}"

text \<open>What every operation but the end of a chunk keeps.\<close>

definition same_torrent :: "'k downloader \<Rightarrow> 'k downloader \<Rightarrow> bool" where
  "same_torrent dl dl' \<longleftrightarrow> cm_num (dl_cm dl') = cm_num (dl_cm dl) \<and> cm_hashes (dl_cm dl') = cm_hashes (dl_cm dl)"

definition dl_next :: "'k downloader \<Rightarrow> 'k downloader \<Rightarrow> bool" where
  "dl_next dl dl' \<longleftrightarrow> dl_ok dl' \<and> same_torrent dl dl' \<and> cm_bits (dl_cm dl') = cm_bits (dl_cm dl)"

lemma dl_next_refl: "dl_ok dl \<Longrightarrow> dl_next dl dl"
  by (simp add: dl_next_def same_torrent_def)

lemma dl_next_trans: "dl_next a b \<Longrightarrow> dl_next b c \<Longrightarrow> dl_next a c"
  by (simp add: dl_next_def same_torrent_def)

lemma dl_next_ok: "dl_next a b \<Longrightarrow> dl_ok b"
  by (simp add: dl_next_def)

lemma keys_iff: "i \<in> dl_keys dl \<longleftrightarrow> pm_find i (dl_current dl) \<noteq> None"
  by (force simp: dl_keys_def pm_find_def map_of_eq_None_iff)

lemma find_key: "pm_find i (dl_current dl) = Some cd \<Longrightarrow> i \<in> dl_keys dl"
  by (simp add: keys_iff)

lemma hashes_put [simp]: "cm_hashes (cm_put_chunk i c cm) = cm_hashes cm"
  by (simp add: cm_put_chunk_def)

text \<open>A chunk is replaced by one of the same index, size and priority.\<close>

lemma put_ok:
  assumes "cm_ok cm" "i < cm_num cm" "same_chunk (cm_chunk cm i) c"
    "ch_status c \<noteq> NOT_DOWNLOADED"
  shows "cm_ok (cm_put_chunk i c cm)" "dl_key (cm_put_chunk i c cm) j \<longleftrightarrow>
    (if j = i then \<not> bs_get (cm_bits cm) i \<and> \<not> ch_isExcluded (cm_chunk cm i) else dl_key cm j)"
proof -
  show "cm_ok (cm_put_chunk i c cm)"
    using assms by (intro cm_ok_put) (simp_all add: same_chunk_def cm_ok_index)
  show "dl_key (cm_put_chunk i c cm) j \<longleftrightarrow>
    (if j = i then \<not> bs_get (cm_bits cm) i \<and> \<not> ch_isExcluded (cm_chunk cm i) else dl_key cm j)"
    using assms by (auto simp: dl_key_def cm_ok_length same_chunk_def ch_isExcluded_def)
qed

lemma dl_store_next:
  assumes "dl_ok dl" "dl_key (dl_cm dl) i" "same_state (cm_chunk (dl_cm dl) i) (cd_chunk (fst s))"
  shows "dl_next dl (dl_store i s dl)" "dl_keys (dl_store i s dl) = insert i (dl_keys dl)"
proof -
  have i: "i < cm_num (dl_cm dl)" and cm: "cm_ok (dl_cm dl)"
    and st: "ch_status (cd_chunk (fst s)) \<noteq> NOT_DOWNLOADED"
    and sc: "same_chunk (cm_chunk (dl_cm dl) i) (cd_chunk (fst s))"
    using assms by (simp_all add: dl_ok_def dl_key_def same_state_def)
  note p = put_ok [OF cm i sc st]
  show k: "dl_keys (dl_store i s dl) = insert i (dl_keys dl)" by (simp add: dl_keys_def dl_store_def)
  have "dl_ok (dl_store i s dl)"
    using assms(1,2) p k unfolding dl_ok_def k by (auto simp: dl_store_def dl_key_def pm_ok_insert)
  then show "dl_next dl (dl_store i s dl)" by (simp add: dl_next_def same_torrent_def dl_store_def)
qed

text \<open>While a chunk ends or its range is excluded its download is still listed, but its bit is set or it
  was reset: the invariant but for a set of chunks.\<close>

definition dl_ok_but :: "nat set \<Rightarrow> 'k downloader \<Rightarrow> bool" where
  "dl_ok_but S dl \<longleftrightarrow> cm_ok (dl_cm dl) \<and> pm_ok (dl_current dl) \<and> (\<forall>j \<in> dl_keys dl - S. dl_key (dl_cm dl) j) \<and>
     dl_keys dl \<subseteq> {..<cm_num (dl_cm dl)} \<and> set (sel_chunks (dl_sel dl)) \<subseteq> {..<cm_num (dl_cm dl)}"

lemma dl_ok_but: "dl_ok dl \<Longrightarrow> dl_ok_but S dl"
  by (auto simp: dl_ok_def dl_ok_but_def dl_key_def)

lemma dl_ok_but_none: "dl_ok_but S dl \<Longrightarrow> dl_keys dl \<inter> S = {} \<Longrightarrow> dl_ok dl"
  by (auto simp: dl_ok_def dl_ok_but_def)

lemma dl_erase_keys: "dl_keys (dl_erase i dl) = dl_keys dl - {i}"
  using keys_iff [of i dl] by (simp add: dl_keys_def dl_erase_def)

lemma dl_erase_frame: "same_torrent dl (dl_erase i dl)" "cm_bits (dl_cm (dl_erase i dl)) = cm_bits (dl_cm dl)"
  by (simp_all add: same_torrent_def dl_erase_def)

text \<open>A chunk of a download that is listed can be replaced by one of the same status.\<close>

lemma put_ok_but:
  assumes "dl_ok_but S dl" "i < cm_num (dl_cm dl)" "same_state (cm_chunk (dl_cm dl) i) c"
  shows "cm_ok (cm_put_chunk i c (dl_cm dl))" "dl_key (cm_put_chunk i c (dl_cm dl)) = dl_key (dl_cm dl)"
proof -
  have cm: "cm_ok (dl_cm dl)" using assms(1) by (simp add: dl_ok_but_def)
  show "cm_ok (cm_put_chunk i c (dl_cm dl))"
    using cm assms(2,3) cm_ok_status [OF cm, of i]
    by (intro cm_ok_put) (simp_all add: cm_ok_index same_state_def same_chunk_def)
  show "dl_key (cm_put_chunk i c (dl_cm dl)) = dl_key (dl_cm dl)"
    using cm assms(2,3)
    by (auto simp: fun_eq_iff dl_key_def cm_ok_length same_state_def same_chunk_def ch_isExcluded_def)
qed

lemma dl_erase_but_set:
  assumes "dl_ok_but S dl"
  shows "dl_ok_but (S - {i}) (dl_erase i dl)"
proof (cases "pm_find i (dl_current dl) = None")
  case False
  let ?c = "(cm_chunk (dl_cm dl) i)\<lparr>ch_ref_count := ch_ref_count (cm_chunk (dl_cm dl) i) - 1\<rparr>"
  have i: "i < cm_num (dl_cm dl)"
    using assms False keys_iff [of i dl] by (auto simp: dl_ok_but_def)
  have "same_state (cm_chunk (dl_cm dl) i) ?c" by (simp add: same_state_def same_chunk_def)
  note p = put_ok_but [OF assms i this]
  show ?thesis
    using assms False p unfolding dl_ok_but_def dl_erase_keys by (auto simp: dl_erase_def pm_ok_erase)
next
  case True
  then have "i \<notin> dl_keys dl" by (simp add: keys_iff)
  then have "dl_keys dl - (S - {i}) = dl_keys dl - S" by auto
  then show ?thesis using True assms by (simp add: dl_erase_def dl_ok_but_def)
qed

lemma dl_erase_but:
  assumes "dl_ok_but {i} dl"
  shows "dl_next dl (dl_erase i dl)"
  using dl_ok_but_none [OF dl_erase_but_set [OF assms, of i]] by (simp add: dl_next_def dl_erase_frame)

lemma dl_store_but:
  assumes "dl_ok_but S dl" "i \<in> dl_keys dl" "same_state (cm_chunk (dl_cm dl) i) (cd_chunk (fst s))"
  shows "dl_ok_but S (dl_store i s dl)" "dl_keys (dl_store i s dl) = dl_keys dl"
proof -
  have i: "i < cm_num (dl_cm dl)" using assms(1,2) by (auto simp: dl_ok_but_def)
  note p = put_ok_but [OF assms(1) i assms(3)]
  show k: "dl_keys (dl_store i s dl) = dl_keys dl" using assms(2) by (auto simp: dl_keys_def dl_store_def)
  show "dl_ok_but S (dl_store i s dl)"
    using assms(1) p unfolding dl_ok_but_def k by (simp add: dl_store_def pm_ok_insert)
qed

lemma dl_erase_next:
  assumes "dl_ok dl"
  shows "dl_next dl (dl_erase i dl)" "dl_keys (dl_erase i dl) = dl_keys dl - {i}"
  using dl_erase_but [OF dl_ok_but [OF assms]] dl_erase_keys by blast+

lemma dl_ok_key: "dl_ok dl \<Longrightarrow> i \<in> dl_keys dl \<Longrightarrow> dl_key (dl_cm dl) i"
  by (simp add: dl_ok_def)

lemma live_same [simp]: "cd_chunk (dl_live dl i cd) = cm_chunk (dl_cm dl) i"
  by (simp add: dl_live_def)

text \<open>Storing the result of an operation on a download that goes on.\<close>

lemma dl_store_live:
  assumes "dl_ok dl" "pm_find i (dl_current dl) = Some cd"
    "same_state (cm_chunk (dl_cm dl) i) (cd_chunk (fst s))"
  shows "dl_next dl (dl_store i s dl)" "dl_keys (dl_store i s dl) = dl_keys dl"
proof -
  have k: "i \<in> dl_keys dl" using assms(2) by (rule find_key)
  show "dl_next dl (dl_store i s dl)" using dl_store_next(1) [OF assms(1) dl_ok_key [OF assms(1) k] assms(3)] .
  show "dl_keys (dl_store i s dl) = dl_keys dl"
    using dl_store_next(2) [OF assms(1) dl_ok_key [OF assms(1) k] assms(3)] k by auto
qed

text \<open>The fields the invariant does not read.\<close>

lemma dl_ok_frame [simp]:
  "dl_ok (dl\<lparr>dl_pds := pds\<rparr>) = dl_ok dl" "dl_ok (dl\<lparr>dl_mem_usage := mu\<rparr>) = dl_ok dl"
  "dl_ok (dl\<lparr>dl_downloaded := n\<rparr>) = dl_ok dl" "dl_ok (dl\<lparr>dl_unnecessary := n\<rparr>) = dl_ok dl"
  "dl_ok (dl\<lparr>dl_haves := hs\<rparr>) = dl_ok dl" "dl_ok (dl\<lparr>dl_blocked := bl\<rparr>) = dl_ok dl"
  by (simp_all add: dl_ok_def dl_keys_def)

lemma dl_next_frame [simp]:
  "dl_next a (dl\<lparr>dl_pds := pds\<rparr>) = dl_next a dl" "dl_next a (dl\<lparr>dl_mem_usage := mu\<rparr>) = dl_next a dl"
  "dl_next a (dl\<lparr>dl_downloaded := n\<rparr>) = dl_next a dl" "dl_next a (dl\<lparr>dl_unnecessary := n\<rparr>) = dl_next a dl"
  "dl_next a (dl\<lparr>dl_haves := hs\<rparr>) = dl_next a dl" "dl_next a (dl\<lparr>dl_blocked := bl\<rparr>) = dl_next a dl"
  by (simp_all add: dl_next_def same_torrent_def)

lemma dl_next_sel:
  "dl_next a dl \<Longrightarrow> set (sel_chunks sel) \<subseteq> {..<cm_num (dl_cm dl)} \<Longrightarrow> dl_next a (dl\<lparr>dl_sel := sel\<rparr>)"
  by (simp add: dl_next_def same_torrent_def dl_ok_def dl_keys_def)

lemma dl_ok_sel: "dl_ok dl \<Longrightarrow> i \<in> set (sel_chunks (dl_sel dl)) \<Longrightarrow> i < cm_num (dl_cm dl)"
  by (auto simp: dl_ok_def)

section \<open>The operations keep it\<close>

text \<open>The chunks left are counted again when that is needed, nothing else changes.\<close>

lemma warming_up_frame:
  assumes "warming_up cm = (cm', w)"
  shows "cm_ok cm' = cm_ok cm" "cm_num cm' = cm_num cm" "cm_hashes cm' = cm_hashes cm"
    "cm_bits cm' = cm_bits cm" "cm_chunks cm' = cm_chunks cm" "cm_chunk_size cm' = cm_chunk_size cm"
  using assms by (auto simp: warming_up_def chunksLeft_def Let_def split: if_splits)

lemma dl_key_cong: "cm_num cm' = cm_num cm \<Longrightarrow> cm_bits cm' = cm_bits cm \<Longrightarrow> cm_chunks cm' = cm_chunks cm \<Longrightarrow> dl_key cm' = dl_key cm"
  by (simp add: dl_key_def cm_chunk_def fun_eq_iff)

lemma sel_select_frame:
  assumes "sel_select now cc busy pd cm sel = (cm', sel', c)"
  shows "cm_ok cm' = cm_ok cm" "cm_num cm' = cm_num cm" "cm_hashes cm' = cm_hashes cm"
    "cm_bits cm' = cm_bits cm" "cm_chunks cm' = cm_chunks cm" "cm_chunk_size cm' = cm_chunk_size cm"
  using assms warming_up_frame [of cm]
  by (auto simp: sel_select_def Let_def split: if_splits prod.splits)

lemma dl_next_cm:
  assumes "dl_ok dl" "cm_ok cm' = cm_ok (dl_cm dl)" "cm_num cm' = cm_num (dl_cm dl)"
    "cm_hashes cm' = cm_hashes (dl_cm dl)" "cm_bits cm' = cm_bits (dl_cm dl)" "cm_chunks cm' = cm_chunks (dl_cm dl)"
  shows "dl_next dl (dl\<lparr>dl_cm := cm'\<rparr>)"
  using assms dl_key_cong [OF assms(3,5,6)] by (simp add: dl_next_def dl_ok_def same_torrent_def dl_keys_def)

context cache_frame
begin

lemma prepare_frame:
  assumes "prepareChunk ops i always cm = Some (cm', b)" "cm_ok cm" "i < cm_num cm"
  shows "cm_ok cm' \<and> cm_num cm' = cm_num cm \<and> cm_hashes cm' = cm_hashes cm \<and> cm_bits cm' = cm_bits cm \<and>
    (\<not> b \<longrightarrow> cm' = cm) \<and> (b \<longrightarrow> same_chunk (cm_chunk cm i) (cm_chunk cm' i) \<and>
      ch_status (cm_chunk cm' i) \<noteq> NOT_DOWNLOADED) \<and> (\<forall>j. j \<noteq> i \<longrightarrow> cm_chunk cm' j = cm_chunk cm j) \<and>
    (b \<and> \<not> always \<longrightarrow> ch_status (cm_chunk cm i) = NOT_DOWNLOADED)"
proof (cases "\<not> always \<and> ch_status (cm_chunk cm i) \<noteq> NOT_DOWNLOADED")
  case False
  then obtain k c where p: "co_prep ops (cm_cache cm) (cm_chunk cm i) = Some (k, c)"
    "cm' = cm_put_chunk i c (cm\<lparr>cm_cache := k\<rparr>)" "b"
    using assms(1) by (auto simp: prepareChunk_def split: Option.bind_splits)
  have "cm_ok cm'" "cm_num cm' = cm_num cm" using prepareChunk_ok [OF assms] by simp_all
  moreover have "same_chunk (cm_chunk cm i) c" "ch_status c \<noteq> NOT_DOWNLOADED" using prep_frame [OF p(1)] by auto
  ultimately show ?thesis using p(2,3) assms False by (auto simp: cm_ok_length)
qed (use assms in \<open>simp add: prepareChunk_def\<close>)

lemma reload_next:
  assumes "dl_reload ops i dl = Some dl'" "dl_ok dl" "i \<in> dl_keys dl"
  shows "dl_next dl dl' \<and> dl_current dl' = dl_current dl"
proof (cases "ch_status (cm_chunk (dl_cm dl) i) = ON_DISK")
  case True
  then obtain cm b where p: "prepareChunk ops i True (dl_cm dl) = Some (cm, b)" and d: "dl' = dl\<lparr>dl_cm := cm\<rparr>"
    using assms(1) by (auto simp: dl_reload_def)
  have key: "dl_key (dl_cm dl) i" and cm: "cm_ok (dl_cm dl)" using assms(2,3) by (simp_all add: dl_ok_def)
  then have i: "i < cm_num (dl_cm dl)" by (simp add: dl_key_def)
  note f = prepare_frame [OF p cm i]
  have "dl_key cm j" if "dl_key (dl_cm dl) j" for j
    using f key that by (cases "j = i"; cases b) (auto simp: dl_key_def same_chunk_def ch_isExcluded_def)
  then show ?thesis using f assms(2) by (simp add: d dl_next_def dl_ok_def same_torrent_def dl_keys_def)
qed (use assms in \<open>simp add: dl_reload_def dl_next_refl\<close>)

text \<open>A chunk that is not excluded stays prepared when it is written to disk.\<close>

lemma save_frame_false:
  assumes "saveChunk ops i False cm = Some cm'" "cm_ok cm" "dl_key cm i"
  shows "cm_ok cm' \<and> cm_num cm' = cm_num cm \<and> cm_hashes cm' = cm_hashes cm \<and> cm_bits cm' = cm_bits cm \<and>
    (\<forall>j. dl_key cm j \<longrightarrow> dl_key cm' j)"
proof -
  have i: "i < cm_num cm" "\<not> ch_isExcluded (cm_chunk cm i)" "\<not> bs_get (cm_bits cm) i"
    "ch_status (cm_chunk cm i) \<noteq> NOT_DOWNLOADED" using assms(3) by (simp_all add: dl_key_def)
  then obtain k c where s: "co_save ops (cm_cache cm) (cm_chunk cm i) = Some (k, c)"
    "cm' = cm_put_chunk i c (cm\<lparr>cm_cache := k\<rparr>)"
    using assms(1,2) by (auto simp: saveChunk_def cm_ok_length split: Option.bind_splits)
  have c: "same_chunk (cm_chunk (cm\<lparr>cm_cache := k\<rparr>) i) c" "ch_status c \<noteq> NOT_DOWNLOADED"
    using save_frame [OF s(1)] i(4) by (auto split: if_splits)
  have cm: "cm_ok (cm\<lparr>cm_cache := k\<rparr>)" "i < cm_num (cm\<lparr>cm_cache := k\<rparr>)" using assms(2) i by simp_all
  have key: "dl_key (cm\<lparr>cm_cache := k\<rparr>) = dl_key cm" by (rule dl_key_cong) simp_all
  show ?thesis using put_ok [OF cm c] s(2) i key by simp
qed

lemma park_next:
  assumes "dl_park ops i dl = Some dl'" "dl_ok dl" "i \<in> dl_keys dl"
  shows "dl_next dl dl' \<and> dl_current dl' = dl_current dl"
proof (cases "ch_status (cm_chunk (dl_cm dl) i) = MMAPPED")
  case True
  then obtain cm where p: "saveChunk ops i False (dl_cm dl) = Some cm" and d: "dl' = dl\<lparr>dl_cm := cm\<rparr>"
    using assms(1) by (auto simp: dl_park_def)
  have key: "dl_key (dl_cm dl) i" and cm: "cm_ok (dl_cm dl)" using assms(2,3) by (simp_all add: dl_ok_def)
  show ?thesis using save_frame_false [OF p cm key] assms(2)
    by (simp add: d dl_next_def dl_ok_def same_torrent_def dl_keys_def)
qed (use assms in \<open>simp add: dl_park_def dl_next_refl\<close>)

lemma assign_next:
  assumes "dl_assign now i pid dl = Some dl'" "dl_ok dl"
  shows "dl_next dl dl' \<and> dl_keys dl' = dl_keys dl"
proof -
  obtain cd s b where a: "pm_find i (dl_current dl) = Some cd"
    "cd_assignPeer now pid (dl_live dl i cd, dl_pds dl) = Some (s, b)" "dl' = dl_store i s dl"
    using assms(1) by (auto simp: dl_assign_def split: option.splits)
  have "same_state (cm_chunk (dl_cm dl) i) (cd_chunk (fst s))" using assign_chunk [OF a(2)] by simp
  from dl_store_live [OF assms(2) a(1) this] show ?thesis by (simp add: a(3))
qed

text \<open>Every step of a chain of operations is \<open>dl_next\<close>, so the chain is.\<close>

lemma reload_assign_next:
  assumes "dl_reload ops i dl = Some dl1" "dl_assign now i pid dl1 = Some dl'" "dl_ok dl" "i \<in> dl_keys dl"
  shows "dl_next dl dl' \<and> dl_keys dl' = dl_keys dl"
proof -
  have r: "dl_next dl dl1" "dl_keys dl1 = dl_keys dl" using reload_next [OF assms(1,3,4)] by (simp_all add: dl_keys_def)
  show ?thesis using assign_next [OF assms(2) dl_next_ok [OF r(1)]] r dl_next_trans by blast
qed

end

lemma selectCD_step_key:
  assumes "selectCD_step pd num e sel = Some (i, l)"
  shows "i = fst e \<or> sel = Some (i, l)"
  using assms by (auto simp: selectCD_step_def split: prod.splits if_splits option.splits)

lemma selectCD_fold: "fold (selectCD_step pd num) m sel = Some (i, l) \<Longrightarrow> i \<in> fst ` set m \<or> sel = Some (i, l)"
  by (induction m arbitrary: sel) (auto dest!: selectCD_step_key)

lemma selectCD_key: "selectCD dl pd num = Some i \<Longrightarrow> i \<in> dl_keys dl"
  using selectCD_fold [of pd num "dl_current dl" None i] by (auto simp: selectCD_def dl_keys_def)

lemma selectWorst_step_key:
  "selectWorst_step pds pid e m = Some (i, cd) \<Longrightarrow> i = fst e \<or> m = Some (i, cd)"
  by (auto simp: selectWorst_step_def split: prod.splits if_splits option.splits)

lemma selectWorst_fold: "fold (selectWorst_step pds pid) m sel = Some (i, cd) \<Longrightarrow> i \<in> fst ` set m \<or> sel = Some (i, cd)"
  by (induction m arbitrary: sel) (auto dest!: selectWorst_step_key)

lemma selectWorst_key: "selectWorst dl pid = Some i \<Longrightarrow> i \<in> dl_keys dl"
  using selectWorst_fold [of "dl_pds dl" pid "dl_current dl" None i] by (auto simp: selectWorst_def dl_keys_def)

text \<open>What the selector returns, whatever it sorted.\<close>

lemma sel_select_chunk:
  assumes "sel_select now cc busy pd cm sel = (cm', sel', c)"
  shows "set (sel_chunks sel') \<subseteq> set (sel_chunks sel)"
    "c = Some i \<Longrightarrow> i \<in> set (sel_chunks sel) \<and> \<not> bs_get (cm_bits cm) i \<and> wanted cm pd busy i"
proof -
  obtain xs where x: "select_walk (bs_get (cm_bits cm)) (wanted cm pd busy) xs = (sel_chunks sel', c)"
    "set xs = set (sel_chunks sel)" using sel_select_walk [OF assms] by blast
  note sp = select_walk_spec [OF x(1)]
  show "set (sel_chunks sel') \<subseteq> set (sel_chunks sel)" using sp x(2) by simp
  show "c = Some i \<Longrightarrow> i \<in> set (sel_chunks sel) \<and> \<not> bs_get (cm_bits cm) i \<and> wanted cm pd busy i"
    using sp x(2) by simp
qed

context cache_frame
begin

lemma find_next:
  assumes "findDownloadForPD ops now pid warmup dl = Some (dl', b)" "dl_ok dl"
  shows "dl_next dl dl' \<and> dl_keys dl' = dl_keys dl"
proof -
  let ?sel = "if selectCD dl (dl_pds dl pid) 0 = None \<and> warmup then selectCD dl (dl_pds dl pid) 1
    else selectCD dl (dl_pds dl pid) 0"
  show ?thesis
  proof (cases ?sel)
    case None
    then show ?thesis using assms by (simp add: findDownloadForPD_def Let_def dl_next_refl)
  next
    case (Some i)
    then obtain dl1 where "dl_reload ops i dl = Some dl1" "dl_assign now i pid dl1 = Some dl'"
      using assms(1) by (auto simp: findDownloadForPD_def Let_def split: Option.bind_splits)
    moreover have "i \<in> dl_keys dl" using Some selectCD_key by (metis (full_types))
    ultimately show ?thesis using reload_assign_next assms(2) by blast
  qed
qed

text \<open>A new download: the chunk was prepared and was not downloaded.\<close>

lemma start_next:
  assumes "prepareChunk ops i False (dl_cm dl) = Some (cm, True)" "dl_ok dl" "i < cm_num (dl_cm dl)"
    "\<not> bs_get (cm_bits (dl_cm dl)) i" "\<not> ch_isExcluded (cm_chunk (dl_cm dl) i)"
  shows "dl_next dl (dl\<lparr>dl_cm := cm\<rparr>)" "dl_next dl (dl_store i (ChunkDownload_new (cm_chunk cm i), pds) (dl\<lparr>dl_cm := cm\<rparr>))"
proof -
  have ok: "cm_ok (dl_cm dl)" using assms(2) by (simp add: dl_ok_def)
  note f = prepare_frame [OF assms(1) ok assms(3)]
  have key: "dl_key cm i" using f assms(3,4,5) by (auto simp: dl_key_def same_chunk_def ch_isExcluded_def)
  have "dl_key cm j" if "dl_key (dl_cm dl) j" for j
    using f key that by (cases "j = i") (auto simp: dl_key_def)
  then show n: "dl_next dl (dl\<lparr>dl_cm := cm\<rparr>)"
    using f assms(2) by (simp add: dl_next_def dl_ok_def same_torrent_def dl_keys_def)
  have "same_state (cm_chunk (dl_cm (dl\<lparr>dl_cm := cm\<rparr>)) i)
      (cd_chunk (fst (ChunkDownload_new (cm_chunk cm i), pds)))"
    by (simp add: ChunkDownload_new_def Let_def same_state_def same_chunk_def)
  from dl_store_next(1) [OF dl_next_ok [OF n] _ this] key
  show "dl_next dl (dl_store i (ChunkDownload_new (cm_chunk cm i), pds) (dl\<lparr>dl_cm := cm\<rparr>))"
    using dl_next_trans [OF n] by simp
qed

lemma downloadFrom_next:
  assumes "downloadFrom ops now tod pid dl = Some dl'" "dl_ok dl"
  shows "dl_next dl dl'"
proof -
  obtain cm w where w: "warming_up (dl_cm dl) = (cm, w)" by (rule prod.exhaust)
  have n0: "dl_next dl (dl\<lparr>dl_cm := cm\<rparr>)" using dl_next_cm [OF assms(2)] warming_up_frame [OF w] by simp
  obtain dl1 b where f: "findDownloadForPD ops now pid w (dl\<lparr>dl_cm := cm\<rparr>) = Some (dl1, b)"
    using assms(1) by (auto simp: downloadFrom_def w Let_def split: Option.bind_splits)
  have n1: "dl_next dl dl1" using find_next [OF f dl_next_ok [OF n0]] dl_next_trans [OF n0] by simp
  note ok1 = dl_next_ok [OF n1]
  show ?thesis
  proof (cases b)
    case True
    then show ?thesis using assms(1) f n1 by (simp add: downloadFrom_def w Let_def)
  next
    case False
    obtain cm2 sel2 c2 where sel: "sel_select tod (dl_counter dl1) (areWeDownloading dl1) (dl_pds dl1 pid) (dl_cm dl1) (dl_sel dl1) = (cm2, sel2, c2)"
      by (metis prod.exhaust)
    define lim where "lim \<longleftrightarrow> numNonIdle dl * cm_chunk_size (dl_cm dl1) \<ge> unat (maxMemoryUsage (dl_mem_usage dl))"
    define dl2 where "dl2 = (if lim then dl1 else dl1\<lparr>dl_cm := cm2, dl_sel := sel2\<rparr>)"
    define c where "c = (if lim then None else c2)"
    have sub: "set (sel_chunks sel2) \<subseteq> {..<cm_num cm2}"
      using sel_select_chunk(1) [OF sel] sel_select_frame(2) [OF sel] ok1 by (auto simp: dl_ok_def)
    have n2: "dl_next dl dl2"
    proof (cases lim)
      case False
      have "dl_next dl1 (dl1\<lparr>dl_cm := cm2\<rparr>)" using dl_next_cm [OF ok1] sel_select_frame [OF sel] by simp
      from dl_next_sel [OF dl_next_trans [OF n1 this]] sub show ?thesis using False by (simp add: dl2_def)
    qed (simp add: dl2_def n1)
    note ok2 = dl_next_ok [OF n2]
    have r: "download_chosen ops now pid c dl2 = Some dl'"
      using assms(1) False by (cases lim) (simp_all add: downloadFrom_def w f sel Let_def dl2_def c_def lim_def)
    show ?thesis
    proof (cases c)
      case None
      then consider "dl' = dl2" | i dl3 where "i \<in> dl_keys dl2" "dl_reload ops i dl2 = Some dl3" "dl_assign now i pid dl3 = Some dl'"
        using r by (auto simp: download_chosen_def dest: selectWorst_key split: if_splits option.splits Option.bind_splits)
      then show ?thesis
        using n2 reload_assign_next [OF _ _ ok2] dl_next_trans [OF n2] by cases blast+
    next
      case (Some i)
      then obtain cm3 prep where p: "prepareChunk ops i False (dl_cm dl2) = Some (cm3, prep)"
        and r3: "(if prep then dl_assign now i pid (dl_store i (ChunkDownload_new (cm_chunk cm3 i), dl_pds (dl2\<lparr>dl_cm := cm3\<rparr>)) (dl2\<lparr>dl_cm := cm3\<rparr>))
          else Some (dl2\<lparr>dl_cm := cm3\<rparr>)) = Some dl'"
        using r by (auto simp: download_chosen_def Let_def split: Option.bind_splits)
      have "c2 = Some i" "\<not> lim" using Some by (auto simp: c_def split: if_splits)
      then have sc: "i \<in> set (sel_chunks (dl_sel dl1))" "\<not> bs_get (cm_bits (dl_cm dl2)) i"
        "\<not> ch_isExcluded (cm_chunk (dl_cm dl2) i)"
        using sel_select_chunk(2) [OF sel] sel_select_frame [OF sel]
        by (simp_all add: dl2_def wanted_def cm_chunk_def)
      have i: "i < cm_num (dl_cm dl2)"
        using dl_ok_sel [OF ok1 sc(1)] n1 n2 by (simp add: dl_next_def same_torrent_def)
      show ?thesis
      proof (cases prep)
        case True
        have pt: "prepareChunk ops i False (dl_cm dl2) = Some (cm3, True)" using p True by simp
        note st = start_next [OF pt ok2 i sc(2,3)]
        have a: "dl_assign now i pid (dl_store i (ChunkDownload_new (cm_chunk cm3 i), dl_pds dl2) (dl2\<lparr>dl_cm := cm3\<rparr>)) = Some dl'"
          using r3 True by simp
        from assign_next [OF a dl_next_ok [OF st(2)]] show ?thesis
          using dl_next_trans [OF n2] dl_next_trans [OF st(2)] by blast
      next
        case False
        have "cm3 = dl_cm dl2" using prepare_frame [OF p _ i] False ok2 by (simp add: dl_ok_def)
        then show ?thesis using r3 False n2 by simp
      qed
    qed
  qed
qed

lemma update_chunk_next:
  assumes "update_chunk ops now stale i dl = Some dl'" "dl_ok dl"
  shows "dl_next dl dl'"
proof (cases "pm_find i (dl_current dl)")
  case None
  then show ?thesis using assms by (simp add: update_chunk_def dl_next_refl)
next
  case (Some cd)
  note k = find_key [OF Some]
  let ?s = "(dl_live dl i cd, dl_pds dl)"
  have rel: "dl_next dl (dl_store i (cd_releaseAllPDs ?s) dl)" "dl_keys (dl_store i (cd_releaseAllPDs ?s) dl) = dl_keys dl"
    using dl_store_live [OF assms(2) Some, of "cd_releaseAllPDs ?s"] by simp_all
  consider "dl_park ops i dl = Some dl'" | "dl_park ops i (dl_store i (cd_releaseAllPDs ?s) dl) = Some dl'"
    | s where "cd_update now ?s = Some s" "dl' = dl_store i s dl" | "dl' = dl"
  proof (cases "cd_pdown cd = []")
    case True
    then show ?thesis using that(1) assms(1) Some by (simp add: update_chunk_def Let_def)
  next
    case p: False
    show ?thesis
    proof (cases "cd_isChoked ?s")
      case True
      then show ?thesis using that(2) p assms(1) Some by (simp add: update_chunk_def Let_def)
    next
      case False
      then have "(if stale i then map_option (\<lambda>s. dl_store i s dl) (cd_update now ?s) else Some dl) = Some dl'"
        using p assms(1) Some by (simp add: update_chunk_def Let_def)
      then show ?thesis using that(3,4) by (metis (no_types, lifting) map_option_eq_Some option.inject)
    qed
  qed
  then show ?thesis
  proof cases
    case 1
    then show ?thesis using park_next assms(2) k by blast
  next
    case 2
    then show ?thesis using park_next [OF 2 dl_next_ok [OF rel(1)]] rel k dl_next_trans by blast
  next
    case 3
    have "same_state (cm_chunk (dl_cm dl) i) (cd_chunk (fst s))" using update_chunk_frame [OF 3(1)] by simp
    from dl_store_live(1) [OF assms(2) Some this] show ?thesis by (simp add: 3(2))
  next
    case 4
    then show ?thesis using assms(2) by (simp add: dl_next_refl)
  qed
qed

lemma update_chunks_next: "update_chunks ops now stale is dl = Some dl' \<Longrightarrow> dl_ok dl \<Longrightarrow> dl_next dl dl'"
proof (induction "is" arbitrary: dl)
  case (Cons i "is")
  then obtain dl1 where d: "update_chunk ops now stale i dl = Some dl1" "update_chunks ops now stale is dl1 = Some dl'"
    by (auto split: Option.bind_splits)
  note n = update_chunk_next [OF d(1) Cons.prems(2)]
  show ?case using Cons.IH [OF d(2) dl_next_ok [OF n]] dl_next_trans [OF n] by blast
qed (simp add: dl_next_refl)

lemma update_peer_next:
  assumes "update_peer ops now tod pid dl = Some dl'" "dl_ok dl"
  shows "dl_next dl dl'"
proof -
  consider "dl' = dl" | "dl' = dl\<lparr>dl_pds := (dl_pds dl)(pid := (dl_pds dl pid)\<lparr>pd_nearly_done := False\<rparr>)\<rparr>"
    | dl1 where "downloadFrom ops now tod pid dl = Some dl1"
      "dl' = dl1\<lparr>dl_pds := (dl_pds dl1)(pid := (dl_pds dl1 pid)\<lparr>pd_nearly_done := False\<rparr>)\<rparr>"
    using assms(1) by (auto simp: update_peer_def Let_def split: if_splits Option.bind_splits)
  then show ?thesis using assms(2) downloadFrom_next by cases (auto simp: dl_next_refl)
qed

lemma update_peers_next: "update_peers ops now tod ps dl = Some dl' \<Longrightarrow> dl_ok dl \<Longrightarrow> dl_next dl dl'"
proof (induction ps arbitrary: dl)
  case (Cons p ps)
  then obtain dl1 where d: "update_peer ops now tod p dl = Some dl1" "update_peers ops now tod ps dl1 = Some dl'"
    by (auto split: Option.bind_splits)
  note n = update_peer_next [OF d(1) Cons.prems(2)]
  show ?case using Cons.IH [OF d(2) dl_next_ok [OF n]] dl_next_trans [OF n] by blast
qed (simp add: dl_next_refl)

lemma dl_update_next:
  assumes "dl_update ops now tod stale dl = Some dl'" "dl_ok dl"
  shows "dl_next dl dl'"
proof (cases "cm_completed (dl_cm dl)")
  case False
  then obtain dl1 dl2 where d: "update_chunks ops now stale (map fst (dl_current dl)) dl = Some dl1"
    "update_peers ops now tod (dl_peers dl1) dl1 = Some dl2"
    and r: "\<exists>pds. dl' = dl2\<lparr>dl_pds := pds\<rparr>"
    using assms(1) by (auto simp: dl_update_def normalUpdate_def split: Option.bind_splits)
  note n1 = update_chunks_next [OF d(1) assms(2)]
  note n2 = update_peers_next [OF d(2) dl_next_ok [OF n1]]
  show ?thesis using dl_next_trans [OF n1 n2] r by auto
qed (use assms in \<open>simp add: dl_update_def dl_next_refl\<close>)

end

section \<open>The end of a chunk\<close>

abbreviation dl_bit :: "'k downloader \<Rightarrow> nat \<Rightarrow> bool" where
  "dl_bit dl \<equiv> bs_get (cm_bits (dl_cm dl))"

text \<open>How a piece completed a chunk with the right hash: the download it belongs to, the state after a
  reload of the chunk, and the result of \<^verbatim>\<open>ChunkDownload::piece\<close>.\<close>

definition verified_by :: "'k cache_ops \<Rightarrow> u64 \<Rightarrow> piece \<Rightarrow> 'k downloader \<Rightarrow> nat \<Rightarrow> chunk_download \<Rightarrow> bool" where
  "verified_by ops now p dl i cd' \<longleftrightarrow> (\<exists>cd dl1 pds' good. pm_find i (dl_current dl) = Some cd \<and>
     dl_reload ops i dl = Some dl1 \<and>
     cd_piece now p (dl_live dl1 i cd, dl_pds dl1) = Some ((cd', pds'), True, good) \<and>
     download_hash cd' = Some (cm_hashes (dl_cm dl) ! i))"

context cache_frame
begin

lemma save_frame_true:
  assumes "saveChunk ops i True cm = Some cm'" "cm_ok cm" "dl_key cm i"
  shows "cm_ok cm' \<and> cm_num cm' = cm_num cm \<and> cm_hashes cm' = cm_hashes cm \<and>
    cm_bits cm' = bs_set (cm_bits cm) i True \<and> (\<forall>j. j \<noteq> i \<longrightarrow> dl_key cm j \<longrightarrow> dl_key cm' j)"
proof -
  have i: "i < cm_num cm" "\<not> ch_isExcluded (cm_chunk cm i)" "\<not> bs_get (cm_bits cm) i"
    "ch_status (cm_chunk cm i) \<noteq> NOT_DOWNLOADED" using assms(3) by (simp_all add: dl_key_def)
  then obtain k c cm2 where s: "co_save ops (cm_cache cm) (cm_chunk cm i) = Some (k, c)"
    and w: "writeIndexFileEntry c ((cm_put_chunk i c (cm\<lparr>cm_cache := k\<rparr>))\<lparr>cm_bits := bs_set (cm_bits cm) i True,
            cm_todo := bs_set (cm_todo cm) i False, cm_recalc := True\<rparr>) = Some cm2"
    and cm': "cm' = cm_percentage i cm2"
    using assms(1,2) by (auto simp: saveChunk_def cm_ok_length Let_def split: Option.bind_splits)
  have f: "cm_bits cm' = bs_set (cm_bits cm) i True" "cm_hashes cm' = cm_hashes cm"
    "cm_chunks cm' = (cm_chunks cm)[i := c]" "cm_num cm' = cm_num cm"
    using w by (auto simp: cm' writeIndexFileEntry_def Let_def cm_percentage_def cm_put_chunk_def split: if_splits)
  have "dl_key cm' j" if "j \<noteq> i" "dl_key cm j" for j
    using that f bitset_get_set [OF cm_ok_bitsets(1) [OF assms(2)], of i True j]
    by (simp add: dl_key_def cm_chunk_def)
  moreover have "cm_ok cm'" using saveChunk_ok [OF assms(1,2) i(3)] i(4) by simp
  ultimately show ?thesis using f by simp
qed

lemma reset_frame:
  assumes "resetChunk ops i cm = Some cm'" "cm_ok cm" "i < cm_num cm"
  shows "cm_ok cm' \<and> cm_num cm' = cm_num cm \<and> cm_hashes cm' = cm_hashes cm \<and>
    cm_bits cm' = bs_set (cm_bits cm) i False \<and> (\<forall>j. j \<noteq> i \<longrightarrow> dl_key cm j \<longrightarrow> dl_key cm' j)"
proof -
  obtain k c fs where cm': "cm' = (cm_put_chunk i c cm)\<lparr>cm_cache := k, cm_bits := bs_set (cm_bits cm) i False,
      cm_todo := bs_set (cm_todo cm) i (\<not> bs_get (cm_excl cm) i \<and> \<not> bs_get (cm_only cm) i),
      cm_loaded := (cm_loaded cm)(i := None), cm_files := fs\<rparr>"
    using resetChunk_spec [OF assms(1)] assms(2,3) by (auto simp: cm_ok_length)
  have "dl_key cm' j" if "j \<noteq> i" "dl_key cm j" for j
    using that assms(2,3) bitset_get_set [OF cm_ok_bitsets(1) [OF assms(2)], of i False j]
    by (simp add: cm' dl_key_def cm_ok_length)
  then show ?thesis using resetChunk_ok [OF assms(1,2)] by (simp add: cm')
qed

lemma finished_spec:
  assumes "dl_finished ops i cd dl = Some (dl', good)" "dl_ok dl" "i \<in> dl_keys dl"
  shows "dl_ok_but {i} dl' \<and> same_torrent dl dl' \<and>
    cm_bits (dl_cm dl') = bs_set (cm_bits (dl_cm dl)) i good \<and>
    (good \<longrightarrow> (\<exists>h. download_hash cd = Some h \<and> verifyHash (dl_cm dl) h i))"
proof -
  have cm: "cm_ok (dl_cm dl)" and key: "dl_key (dl_cm dl) i" and i: "i < cm_num (dl_cm dl)"
    using assms(2,3) by (auto simp: dl_ok_def dl_key_def)
  have keys: "dl_keys dl \<subseteq> {..<cm_num (dl_cm dl)}" using dl_ok_but [OF assms(2), of "{i}"] by (simp add: dl_ok_but_def)
  obtain h where h: "download_hash cd = Some h" using assms(1) by (auto simp: dl_finished_def split: Option.bind_splits)
  show ?thesis
  proof (cases "verifyHash (dl_cm dl) h i")
    case True
    then obtain cm' hs where s: "saveChunk ops i True (dl_cm dl) = Some cm'"
      and d: "dl' = dl\<lparr>dl_cm := cm', dl_haves := hs\<rparr>" and "good"
      using assms(1) h by (auto simp: dl_finished_def split: Option.bind_splits)
    note f = save_frame_true [OF s cm key]
    have "dl_ok_but {i} dl'" using f assms(2) keys by (auto simp: d dl_ok_but_def dl_ok_def dl_keys_def)
    then show ?thesis using f True h \<open>good\<close> by (simp add: d same_torrent_def)
  next
    case False
    then obtain cm' where s: "resetChunk ops i (dl_cm dl) = Some cm'"
      and d: "dl_cm dl' = cm'" "dl_sel dl' = sel_reinsert i (dl_sel dl)" "dl_current dl' = dl_current dl" and "\<not> good"
      using assms(1) h by (auto simp: dl_finished_def Let_def split: Option.bind_splits option.splits if_splits)
    note f = reset_frame [OF s cm i]
    have "set (sel_chunks (sel_reinsert i (dl_sel dl))) \<subseteq> {..<cm_num (dl_cm dl)}"
      using i assms(2) by (auto simp: sel_reinsert_def dl_ok_def)
    then have "dl_ok_but {i} dl'" using f assms(2) keys by (auto simp: d dl_ok_but_def dl_ok_def dl_keys_def)
    then show ?thesis using f \<open>\<not> good\<close> by (simp add: d same_torrent_def)
  qed
qed

lemma piece_spec:
  assumes "pieceRecieved ops now tod stale p dl = Some dl'" "dl_ok dl" "i = unat (rq_index (pc_req p))"
  shows "dl_ok dl' \<and> same_torrent dl dl' \<and> (\<forall>j. j \<noteq> i \<longrightarrow> dl_bit dl' j = dl_bit dl j) \<and>
    (dl_bit dl i \<longrightarrow> dl_bit dl' i) \<and> (dl_bit dl' i \<and> \<not> dl_bit dl i \<longrightarrow> (\<exists>cd. verified_by ops now p dl i cd))"
proof -
  have same: ?thesis if "dl_next dl dl'" using that by (simp add: dl_next_def)
  show ?thesis
  proof (cases "cm_completed (dl_cm dl) \<or> pm_find i (dl_current dl) = None")
    case True
    then have "dl_next dl dl'" using assms dl_next_refl [OF assms(2)]
      by (cases "cm_completed (dl_cm dl)") (auto simp: pieceRecieved_def Let_def)
    then show ?thesis by (rule same)
  next
    case False
    then obtain cd where cd: "pm_find i (dl_current dl) = Some cd" "\<not> cm_completed (dl_cm dl)" by auto
    define len :: u64 where "len = ucast (rq_len (pc_req p))"
    have body: "do {
          dl \<leftarrow> dl_reload ops i dl;
          (s, fin, ok) \<leftarrow> cd_piece now p (dl_live dl i cd, dl_pds dl);
          let dl = dl_store i s dl;
          let dl = (if ok then dl\<lparr>dl_downloaded := dl_downloaded dl + len\<rparr> else dl);
          dl \<leftarrow> piece_done ops now tod stale i (fst s) fin dl;
          Some (if \<not> ok then dl\<lparr>dl_unnecessary := dl_unnecessary dl + len\<rparr> else dl) } = Some dl'"
      using assms(1) cd unfolding pieceRecieved_def Let_def len_def assms(3) by simp
    then obtain dl1 s fin ok where r: "dl_reload ops i dl = Some dl1"
      "cd_piece now p (dl_live dl1 i cd, dl_pds dl1) = Some (s, fin, ok)"
      by (auto simp: Let_def split: Option.bind_splits)
    have k: "i \<in> dl_keys dl" using find_key [OF cd(1)] .
    note n1 = reload_next [OF r(1) assms(2) k]
    note ok1 = dl_next_ok [OF conjunct1 [OF n1]]
    have cd1: "pm_find i (dl_current dl1) = Some cd" using n1 cd by simp
    have "same_state (cm_chunk (dl_cm dl1) i) (cd_chunk (fst s))" using cd_piece_chunk [OF r(2)] by simp
    note st = dl_store_live [OF ok1 cd1 this]
    define dl2 where "dl2 = (if ok then (dl_store i s dl1)\<lparr>dl_downloaded := dl_downloaded (dl_store i s dl1) + len\<rparr> else dl_store i s dl1)"
    have n2: "dl_next dl dl2" and k2: "i \<in> dl_keys dl2"
      using dl_next_trans [OF conjunct1 [OF n1] st(1)] st(2) find_key [OF cd1] by (simp_all add: dl2_def dl_keys_def)
    note ok2 = dl_next_ok [OF n2]
    obtain dl4 where whole: "piece_done ops now tod stale i (fst s) fin dl2 = Some dl4"
      and d4: "dl' = (if \<not> ok then dl4\<lparr>dl_unnecessary := dl_unnecessary dl4 + len\<rparr> else dl4)"
      using body r by (auto simp: dl2_def Let_def split: Option.bind_splits)
    have d4n: "dl_next x dl' = dl_next x dl4" for x by (simp add: d4)
    show ?thesis
    proof (cases fin)
      case False
      then have "dl_next dl2 dl4"
        using whole park_next [OF _ ok2 k2] dl_next_refl [OF ok2] by (auto simp: piece_done_def split: if_splits)
      then show ?thesis using dl_next_trans [OF n2] same d4n by blast
    next
      case True
      then obtain dl3 good where f: "dl_finished ops i (fst s) dl2 = Some (dl3, good)"
        and u: "dl_update ops now tod stale (dl_erase i (if good then dl3 else dl3\<lparr>dl_downloaded :=
          (if of_nat (ch_size (cd_chunk (fst s))) > dl_downloaded dl3 then 0
           else dl_downloaded dl3 - of_nat (ch_size (cd_chunk (fst s))))\<rparr>)) = Some dl4"
        using whole by (auto simp: piece_done_def Let_def split: Option.bind_splits)
      note fs = finished_spec [OF f ok2 k2]
      let ?d3 = "if good then dl3 else dl3\<lparr>dl_downloaded :=
          (if of_nat (ch_size (cd_chunk (fst s))) > dl_downloaded dl3 then 0
           else dl_downloaded dl3 - of_nat (ch_size (cd_chunk (fst s))))\<rparr>"
      have b3: "dl_ok_but {i} ?d3" "same_torrent dl2 ?d3" "cm_bits (dl_cm ?d3) = bs_set (cm_bits (dl_cm dl2)) i good"
        using fs by (auto simp: dl_ok_but_def same_torrent_def dl_keys_def)
      note e3 = dl_erase_but [OF b3(1)]
      have "dl_next ?d3 dl4" using dl_next_trans [OF e3 dl_update_next [OF u dl_next_ok [OF e3]]] .
      then have n4: "dl_ok dl'" "same_torrent ?d3 dl'" "cm_bits (dl_cm dl') = cm_bits (dl_cm ?d3)"
        by (simp_all add: d4 dl_next_def same_torrent_def)
      have bits: "cm_bits (dl_cm dl2) = cm_bits (dl_cm dl)" "cm_hashes (dl_cm dl2) = cm_hashes (dl_cm dl)"
        "same_torrent dl dl2" using n2 by (simp_all add: dl_next_def same_torrent_def)
      have cm: "cm_ok (dl_cm dl)" and i: "\<not> dl_bit dl i" "i < cm_num (dl_cm dl)"
        using assms(2) dl_ok_key [OF assms(2) k] by (simp_all add: dl_ok_def dl_key_def)
      have b4: "dl_bit dl' j = (if j = i then good else dl_bit dl j)" for j
        using bitset_get_set [OF cm_ok_bitsets(1) [OF cm], of i good j] i by (simp add: n4(3) b3(3) bits(1))
      have v: "verified_by ops now p dl i (fst s)" if "good"
        using that fs cd(1) r True bits(2) unfolding verified_by_def verifyHash_def
        by (intro exI [of _ cd] exI [of _ dl1] exI [of _ "snd s"] exI [of _ ok]) auto
      have "same_torrent dl dl'" using bits(3) b3(2) n4(2) by (simp add: same_torrent_def)
      then show ?thesis using n4(1) b4 i(1) v by auto
    qed
  qed
qed

end

section \<open>Exclusion and the end of all downloads\<close>

lemma exclude_loop_chunks:
  assumes "set is \<subseteq> {..<length (cm_chunks cm)}"
  shows "cm_chunk (fold exclude_step is cm) j =
      (if j \<in> set is then (cm_chunk cm j)\<lparr>ch_priority := EXCLUDED\<rparr> else cm_chunk cm j) \<and>
    cm_hashes (fold exclude_step is cm) = cm_hashes cm"
  using assms
proof (induction "is" arbitrary: cm)
  case (Cons i "is")
  have "cm_chunk (exclude_step i cm) j =
      (if j = i then (cm_chunk cm i)\<lparr>ch_priority := EXCLUDED\<rparr> else cm_chunk cm j)"
    "cm_hashes (exclude_step i cm) = cm_hashes cm" "length (cm_chunks (exclude_step i cm)) = length (cm_chunks cm)"
    using Cons.prems by (simp_all add: exclude_step_def ch_setExclude_def)
  then show ?case using Cons.IH [of "exclude_step i cm"] Cons.prems by auto
qed simp

text \<open>Without the excluded range the invariant holds when the signal is sent.\<close>

lemma exclude_but:
  assumes "dl_ok dl"
  shows "dl_ok_but {min a b..max a b} (dl\<lparr>dl_cm := cm_exclude a b (dl_cm dl)\<rparr>)"
    "same_torrent dl (dl\<lparr>dl_cm := cm_exclude a b (dl_cm dl)\<rparr>)"
    "\<And>j. j \<in> {min a b..max a b} \<Longrightarrow> j < cm_num (dl_cm dl) \<Longrightarrow>
      ch_priority (cm_chunk (cm_exclude a b (dl_cm dl)) j) = EXCLUDED"
proof -
  let ?cm = "dl_cm dl"
  have cm: "cm_ok ?cm" using assms by (simp add: dl_ok_def)
  have r: "set (cm_range ?cm a b) = {i. min a b \<le> i \<and> i \<le> max a b \<and> i < cm_num ?cm}"
    using cm by (simp add: set_cm_range cm_ok_length)
  have "set (cm_range ?cm a b) \<subseteq> {..<length (cm_chunks ?cm)}" using r cm by (auto simp: cm_ok_length)
  note l = exclude_loop_chunks [OF this]
  have ch: "cm_chunk (cm_exclude a b ?cm) j = (if j \<in> set (cm_range ?cm a b)
      then (cm_chunk ?cm j)\<lparr>ch_priority := EXCLUDED\<rparr> else cm_chunk ?cm j)" "cm_hashes (cm_exclude a b ?cm) = cm_hashes ?cm" for j
    using l [of j] by (simp_all add: cm_exclude_def cm_emit_def)
  note ok = exclude_ok [OF cm, of a b]
  have key: "dl_key (cm_exclude a b ?cm) j" if "dl_key ?cm j" "j \<notin> {min a b..max a b}" for j
    using that ok ch(1) [of j] r exclude_bits(2) [OF cm, of a b j] by (auto simp: dl_key_def)
  show "dl_ok_but {min a b..max a b} (dl\<lparr>dl_cm := cm_exclude a b ?cm\<rparr>)"
    using assms ok key dl_ok_but [OF assms, of "{}"] by (auto simp: dl_ok_def dl_ok_but_def dl_keys_def)
  show "same_torrent dl (dl\<lparr>dl_cm := cm_exclude a b ?cm\<rparr>)" using ok ch(2) by (simp add: same_torrent_def)
  show "ch_priority (cm_chunk (cm_exclude a b ?cm) j) = EXCLUDED"
    if "j \<in> {min a b..max a b}" "j < cm_num ?cm" for j
    using that ch(1) [of j] r by auto
qed

context cache_frame
begin

lemma onExcluded_step_but:
  assumes "onExcluded_step ops i dl = Some dl'" "dl_ok_but (insert i S) dl"
    "i \<in> dl_keys dl \<Longrightarrow> ch_priority (cm_chunk (dl_cm dl) i) \<noteq> ONLY_SEED_PRIORITY"
  shows "dl_ok_but (S - {i}) dl' \<and> same_torrent dl dl' \<and> dl_keys dl' = dl_keys dl - {i} \<and>
    (\<forall>j. j \<noteq> i \<longrightarrow> ch_priority (cm_chunk (dl_cm dl') j) = ch_priority (cm_chunk (dl_cm dl) j))"
proof (cases "pm_find i (dl_current dl)")
  case None
  then have "i \<notin> dl_keys dl" by (simp add: keys_iff)
  moreover have "dl' = dl" using None assms(1) by (simp add: onExcluded_step_def)
  ultimately show ?thesis using assms(2) by (auto simp: dl_ok_but_def same_torrent_def)
next
  case (Some cd)
  have k: "i \<in> dl_keys dl" using find_key [OF Some] .
  then have i: "i < cm_num (dl_cm dl)" using assms(2) by (auto simp: dl_ok_but_def)
  obtain s cm where r: "cd_cancelAll (dl_live dl i cd, dl_pds dl) = Some s"
    and z: "resetChunk ops i (dl_cm (dl_erase i (dl_store i (cd_releaseAllPDs s) dl))) = Some cm"
    and dl': "dl' = (dl_erase i (dl_store i (cd_releaseAllPDs s) dl))\<lparr>dl_cm := cm\<rparr>"
    using assms(1,3) k Some by (auto simp: onExcluded_step_def Let_def split: Option.bind_splits)
  have "same_state (cm_chunk (dl_cm dl) i) (cd_chunk (fst (cd_releaseAllPDs s)))"
    using cancelAll_chunk [OF r] by simp
  note st = dl_store_but [OF assms(2) k this]
  let ?d = "dl_store i (cd_releaseAllPDs s) dl"
  note e = dl_erase_but_set [OF st(1), of i]
  have e': "dl_ok_but (S - {i}) (dl_erase i ?d)" using e by (simp add: insert_Diff_if)
  have cm: "cm_ok (dl_cm (dl_erase i ?d))" "cm_num (dl_cm (dl_erase i ?d)) = cm_num (dl_cm dl)"
    using e' by (simp_all add: dl_ok_but_def) (simp add: dl_erase_def dl_store_def)
  note f = reset_frame [OF z cm(1)]
  have pr: "ch_priority (cm_chunk cm j) = ch_priority (cm_chunk (dl_cm dl) j)" if "j \<noteq> i" for j
  proof -
    obtain k c fs where c: "cm = (cm_put_chunk i c (dl_cm (dl_erase i ?d)))\<lparr>cm_cache := k, cm_bits := bs_set (cm_bits (dl_cm (dl_erase i ?d))) i False,
      cm_todo := bs_set (cm_todo (dl_cm (dl_erase i ?d))) i (\<not> bs_get (cm_excl (dl_cm (dl_erase i ?d))) i \<and> \<not> bs_get (cm_only (dl_cm (dl_erase i ?d))) i),
      cm_loaded := (cm_loaded (dl_cm (dl_erase i ?d)))(i := None), cm_files := fs\<rparr>"
      using resetChunk_spec [OF z] i cm by (auto simp: cm_ok_length)
    show ?thesis using that i cm by (simp add: c cm_ok_length) (simp add: dl_erase_def dl_store_def cm_chunk_def cm_put_chunk_def)
  qed
  have kk: "dl_keys dl' = dl_keys dl - {i}"
    using st(2) dl_erase_keys [of i ?d] by (simp add: dl' dl_keys_def)
  have "dl_ok_but (S - {i}) dl'"
    using e' f i cm kk dl_erase_keys [of i ?d] st(2) by (auto simp: dl_ok_but_def dl')
  moreover have "same_torrent dl dl'"
    using f i cm by (simp add: same_torrent_def dl') (simp add: dl_erase_def dl_store_def)
  ultimately show ?thesis using kk pr by (simp add: dl')
qed

lemma onExcluded_loop_ok:
  assumes "onExcluded_loop ops is dl = Some dl'" "dl_ok_but (set is) dl" "distinct is"
    "\<And>i. i \<in> set is \<inter> dl_keys dl \<Longrightarrow> ch_priority (cm_chunk (dl_cm dl) i) \<noteq> ONLY_SEED_PRIORITY"
  shows "dl_ok dl' \<and> same_torrent dl dl' \<and> dl_keys dl' = dl_keys dl - set is"
  using assms
proof (induction "is" arbitrary: dl)
  case Nil
  then show ?case using dl_ok_but_none [of "{}" dl] by (simp add: same_torrent_def)
next
  case (Cons i "is")
  obtain dl1 where d: "onExcluded_step ops i dl = Some dl1" "onExcluded_loop ops is dl1 = Some dl'"
    using Cons.prems(1) by (auto split: Option.bind_splits)
  have "dl_ok_but (insert i (set is)) dl" using Cons.prems(2) by simp
  note s = onExcluded_step_but [OF d(1) this Cons.prems(4)]
  have "dl_ok_but (set is) dl1" using s Cons.prems(3) by simp
  moreover have "ch_priority (cm_chunk (dl_cm dl1) j) \<noteq> ONLY_SEED_PRIORITY" if "j \<in> set is \<inter> dl_keys dl1" for j
    using that s Cons.prems(3,4) by auto
  ultimately have "dl_ok dl' \<and> same_torrent dl1 dl' \<and> dl_keys dl' = dl_keys dl1 - set is"
    using Cons.IH [OF d(2)] Cons.prems(3) by simp
  then show ?case using s by (auto simp: same_torrent_def)
qed

lemma exclusion_ok:
  assumes "onExcluded ops (min a b) (max a b) (dl\<lparr>dl_cm := cm_exclude a b (dl_cm dl)\<rparr>) = Some dl'" "dl_ok dl"
  shows "dl_ok dl' \<and> same_torrent dl dl' \<and> dl_keys dl' = dl_keys dl - {min a b..max a b}"
proof -
  note x = exclude_but [OF assms(2), where a = a and b = b]
  let ?d = "dl\<lparr>dl_cm := cm_exclude a b (dl_cm dl)\<rparr>" and ?is = "[min a b..<Suc (max a b)]"
  have s: "set ?is = {min a b..max a b}" by (simp only: set_upt atLeastLessThanSuc_atLeastAtMost)
  have k: "dl_keys ?d = dl_keys dl" by (simp add: dl_keys_def)
  have pr: "ch_priority (cm_chunk (dl_cm ?d) i) \<noteq> ONLY_SEED_PRIORITY" if i: "i \<in> set ?is \<inter> dl_keys ?d" for i
  proof -
    have "i \<in> {min a b..max a b}" "i \<in> dl_keys dl" using i unfolding s k by (rule IntD1, rule IntD2)
    moreover from this have "i < cm_num (dl_cm dl)"
      using dl_ok_but [OF assms(2), of "{}"] by (auto simp: dl_ok_but_def)
    ultimately show ?thesis using x(3) by simp
  qed
  have l: "onExcluded_loop ops ?is ?d = Some dl'" using assms(1) by (simp only: onExcluded_def)
  have "dl_ok_but (set ?is) ?d" using x(1) unfolding s .
  note onExcluded_loop_ok [OF l this distinct_upt pr]
  then show ?thesis using x(2) unfolding s k by (simp add: same_torrent_def)
qed

lemma clear_loop_ok:
  assumes "clear_loop ops is dl = Some dl'" "dl_ok_but S dl" "set is \<subseteq> dl_keys dl - S" "distinct is"
    "\<And>j. j \<in> dl_keys dl \<Longrightarrow> \<not> dl_bit dl j"
  shows "dl_ok_but (S \<union> set is) dl' \<and> same_torrent dl dl' \<and> cm_bits (dl_cm dl') = cm_bits (dl_cm dl) \<and>
    dl_current dl' = dl_current dl"
  using assms
proof (induction "is" arbitrary: dl S)
  case (Cons i "is")
  obtain dl1 where d: "dl_park ops i dl = Some dl1"
    "clear_loop ops is (dl1\<lparr>dl_cm := cm_put_chunk i ((cm_chunk (dl_cm dl1) i)\<lparr>ch_status := NOT_DOWNLOADED\<rparr>) (dl_cm dl1)\<rparr>) = Some dl'"
    using Cons.prems(1) by (auto split: Option.bind_splits)
  let ?c = "(cm_chunk (dl_cm dl1) i)\<lparr>ch_status := NOT_DOWNLOADED\<rparr>"
  let ?d = "dl1\<lparr>dl_cm := cm_put_chunk i ?c (dl_cm dl1)\<rparr>"
  have k: "i \<in> dl_keys dl" "dl_key (dl_cm dl) i" "cm_ok (dl_cm dl)"
    using Cons.prems(2,3) by (auto simp: dl_ok_but_def)
  have p: "cm_ok (dl_cm dl1) \<and> same_torrent dl dl1 \<and> cm_bits (dl_cm dl1) = cm_bits (dl_cm dl) \<and>
    (\<forall>j. dl_key (dl_cm dl) j \<longrightarrow> dl_key (dl_cm dl1) j) \<and> dl_current dl1 = dl_current dl \<and> dl_sel dl1 = dl_sel dl"
    using d(1) k save_frame_false [OF _ k(3,2)]
    by (auto simp: dl_park_def same_torrent_def split: if_splits)
  have i: "i < cm_num (dl_cm dl1)" "\<not> bs_get (cm_bits (dl_cm dl1)) i"
    using p k by (simp_all add: same_torrent_def dl_key_def)
  have ok: "cm_ok (cm_put_chunk i ?c (dl_cm dl1))"
    using p i by (intro cm_ok_put) (simp_all add: cm_ok_index)
  have keys: "dl_keys ?d = dl_keys dl" using p by (simp add: dl_keys_def)
  have "dl_ok_but (insert i S) ?d"
    using p ok i Cons.prems(2) unfolding dl_ok_but_def keys
    by (auto simp: dl_key_def cm_ok_length same_torrent_def)
  moreover have "set is \<subseteq> dl_keys ?d - insert i S" using Cons.prems(3,4) keys by auto
  moreover have "\<not> dl_bit ?d j" if "j \<in> dl_keys ?d" for j using that Cons.prems(5) keys p by simp
  moreover have "distinct is" using Cons.prems(4) by simp
  ultimately have "dl_ok_but (insert i S \<union> set is) dl' \<and> same_torrent ?d dl' \<and>
      cm_bits (dl_cm dl') = cm_bits (dl_cm ?d) \<and> dl_current dl' = dl_current ?d"
    by (intro Cons.IH [OF d(2)])
  then show ?case using p by (simp add: same_torrent_def)
qed (simp add: same_torrent_def)

end

lemma erase_all:
  assumes "dl_ok_but S dl" "S \<subseteq> set is"
  shows "dl_ok (fold dl_erase is dl) \<and> same_torrent dl (fold dl_erase is dl) \<and>
    cm_bits (dl_cm (fold dl_erase is dl)) = cm_bits (dl_cm dl) \<and> dl_keys (fold dl_erase is dl) = dl_keys dl - set is"
  using assms
proof (induction "is" arbitrary: dl S)
  case Nil
  then show ?case using dl_ok_but_none [of "{}" dl] by (simp add: same_torrent_def)
next
  case (Cons i "is")
  have "S - {i} \<subseteq> set is" using Cons.prems(2) by auto
  note h = Cons.IH [OF dl_erase_but_set [OF Cons.prems(1), of i] this]
  show ?case using h dl_erase_frame [where dl = dl and i = i] dl_erase_keys [where dl = dl and i = i] by (auto simp: same_torrent_def)
qed

context cache_frame
begin

lemma clearDownloads_ok:
  assumes "clearDownloads ops dl = Some dl'" "dl_ok dl"
  shows "dl_next dl dl' \<and> dl_keys dl' = {}"
proof -
  let ?is = "map fst (dl_current dl)"
  obtain dl1 where d: "clear_loop ops ?is dl = Some dl1" "dl' = fold dl_erase (map fst (dl_current dl1)) dl1"
    using assms(1) by (auto simp: clearDownloads_def split: Option.bind_splits)
  have "set ?is \<subseteq> dl_keys dl - {}" "distinct ?is"
    using assms(2) strict_sorted_iff [of ?is]
    by (simp_all add: dl_keys_def dl_ok_def pm_ok_def)
  then have c: "dl_ok_but (set ?is) dl1 \<and> same_torrent dl dl1 \<and> cm_bits (dl_cm dl1) = cm_bits (dl_cm dl) \<and>
      dl_current dl1 = dl_current dl"
    using clear_loop_ok [OF d(1) dl_ok_but [OF assms(2), of "{}"]] dl_ok_key [OF assms(2)] by (simp add: dl_key_def)
  then have "dl_ok dl' \<and> same_torrent dl1 dl' \<and> cm_bits (dl_cm dl') = cm_bits (dl_cm dl1) \<and>
      dl_keys dl' = dl_keys dl1 - set (map fst (dl_current dl1))"
    using erase_all [of "set ?is" dl1 "map fst (dl_current dl1)"] unfolding d(2) by simp
  then show ?thesis using c by (simp add: dl_next_def same_torrent_def dl_keys_def)
qed

end

lemma peerKilled_loop_ok:
  "dl_peerKilled_loop pid is dl = Some dl' \<Longrightarrow> dl_ok dl \<Longrightarrow> dl_next dl dl'"
proof (induction "is" arbitrary: dl)
  case (Cons i "is")
  obtain cd s where r: "pm_find i (dl_current dl) = Some cd"
    "cd_peerKilled pid (dl_live dl i cd, dl_pds dl) = Some s" "dl_peerKilled_loop pid is (dl_store i s dl) = Some dl'"
    using Cons.prems(1) by (auto split: option.splits Option.bind_splits)
  have "same_state (cm_chunk (dl_cm dl) i) (cd_chunk (fst s))" using killed_chunk [OF r(2)] by simp
  note st = dl_store_live(1) [OF Cons.prems(2) r(1) this]
  show ?case using dl_next_trans [OF st Cons.IH [OF r(3) dl_next_ok [OF st]]] .
qed (simp add: dl_next_refl)

lemma reincluded_range:
  assumes "set (sel_chunks sel) \<subseteq> {..<n}" "length (cm_chunks cm) = n"
  shows "set (sel_chunks (sel_reincluded cm x y sel)) \<subseteq> {..<n}"
proof (cases "x \<ge> n \<or> y \<ge> n")
  case False
  let ?f = "\<lambda>i sel. if ch_status (cm_chunk cm i) \<noteq> ON_DISK then sel_reinsert i sel else sel"
  have "set (sel_chunks (fold ?f [x..<Suc y] sel)) \<subseteq> {..<n}"
  proof (rule fold_keeps [where P = "\<lambda>s :: chunk_selector. set (sel_chunks s) \<subseteq> {..<n}"])
    fix i and s :: chunk_selector
    assume i: "i \<in> set [x..<Suc y]" and s: "set (sel_chunks s) \<subseteq> {..<n}"
    have "i < Suc y" using i unfolding set_upt by simp
    then have "i < n" using False by linarith
    then show "set (sel_chunks (?f i s)) \<subseteq> {..<n}" using s by (simp add: sel_reinsert_def)
  qed (rule assms(1))
  then show ?thesis using assms(2) False by (simp add: sel_reincluded_def)
qed (use assms in \<open>auto simp: sel_reincluded_def\<close>)

lemma include_next:
  assumes "dl_ok dl"
  shows "dl_next dl (onIncluded (min a b) (max a b) (dl\<lparr>dl_cm := cm_include a b (dl_cm dl)\<rparr>))"
proof -
  let ?cm = "dl_cm dl"
  let ?P = "\<lambda>s. cm_ok s \<and> cm_num s = cm_num ?cm \<and> cm_hashes s = cm_hashes ?cm \<and> cm_bits s = cm_bits ?cm \<and>
    (\<forall>j. dl_key ?cm j \<longrightarrow> dl_key s j)"
  have cm: "cm_ok ?cm" using assms by (simp add: dl_ok_def)
  have "?P (fold include_step (cm_range ?cm a b) ?cm)"
  proof (rule fold_keeps [where P = ?P])
    fix i s
    assume "i \<in> set (cm_range ?cm a b)" and P: "?P s"
    then have i: "i < cm_num s" using cm by (simp add: set_cm_range cm_ok_length)
    then show "?P (include_step i s)"
      using P include_step_ok [of s i]
      by (auto simp: include_step_def Let_def dl_key_def cm_ok_length ch_setExclude_def ch_isExcluded_def)
  qed (simp add: cm)
  then have n: "dl_next dl (dl\<lparr>dl_cm := cm_include a b ?cm\<rparr>)"
    using assms by (simp add: dl_next_def dl_ok_def same_torrent_def dl_keys_def cm_include_def cm_emit_def dl_key_def cm_chunk_def)
  have "length (cm_chunks (cm_include a b ?cm)) = cm_num ?cm"
    using include_ok [OF cm, of a b] cm_ok_length [of "cm_include a b ?cm"] by simp
  then have "set (sel_chunks (sel_reincluded (cm_include a b ?cm) (min a b) (max a b) (dl_sel dl))) \<subseteq> {..<cm_num ?cm}"
    using assms by (intro reincluded_range) (simp_all add: dl_ok_def)
  moreover have "cm_num (cm_include a b ?cm) = cm_num ?cm" using include_ok [OF cm, of a b] by simp
  ultimately show ?thesis using dl_next_sel [OF n] by (simp add: onIncluded_def)
qed

lemma dataChecked_next:
  assumes "dl_ok dl" "bs_num_bits good \<le> cm_num (dl_cm dl)"
  shows "dl_next dl (dl_dataChecked good dl)"
proof -
  let ?f = "fold (dl_dataChecked_step good) [0..<bs_num_bits good] dl"
  have n: "dl_next dl ?f"
  proof (rule fold_keeps [where P = "dl_next dl"])
    fix i d
    assume d: "dl_next dl d"
    show "dl_next dl (dl_dataChecked_step good i d)"
    proof (cases "pm_find i (dl_current d)")
      case (Some cd)
      let ?s = "cd_releaseAllPDs (dl_live d i cd, dl_pds d)"
      have "same_state (cm_chunk (dl_cm d) i) (cd_chunk (fst ?s))" by simp
      note st = dl_store_live(1) [OF dl_next_ok [OF d] Some this]
      have "dl_next dl (dl_erase i (dl_store i ?s d))"
        using dl_next_trans [OF dl_next_trans [OF d st] dl_erase_next(1) [OF dl_next_ok [OF st]]] .
      then show ?thesis using Some d by (simp add: dl_dataChecked_step_def)
    qed (simp add: dl_dataChecked_step_def d)
  qed (simp add: dl_next_refl assms)
  have "set (fold (sel_dataChecked_step good) [0..<bs_num_bits good] l) \<subseteq> {..<n}"
    if "set l \<subseteq> {..<n}" "bs_num_bits good \<le> n" for l n
    using that by (intro fold_keeps [where P = "\<lambda>l. set l \<subseteq> {..<n}"]) (auto simp: sel_dataChecked_step_def)
  moreover have "set (sel_chunks (dl_sel ?f)) \<subseteq> {..<cm_num (dl_cm ?f)}" "cm_num (dl_cm ?f) = cm_num (dl_cm dl)"
    using n by (auto simp: dl_next_def dl_ok_def same_torrent_def)
  ultimately have "set (sel_chunks (sel_dataChecked good (dl_sel ?f))) \<subseteq> {..<cm_num (dl_cm ?f)}"
    using assms(2) by (simp add: sel_dataChecked_def)
  from dl_next_sel [OF n this] show ?thesis by (simp add: dl_dataChecked_def Let_def)
qed

lemma corrupted_next: "dl_ok dl \<Longrightarrow> i < cm_num (dl_cm dl) \<Longrightarrow> dl_next dl (dl_corrupted i dl)"
  using dl_next_sel [OF dl_next_refl, of dl "sel_reinsert i (dl_sel dl)"]
  by (auto simp: dl_corrupted_def sel_reinsert_def dl_ok_def)

section \<open>Reachable states\<close>

text \<open>The operations a torrent calls on its downloader, with the exclusion and inclusion of chunks as the
  chunk manager signals them, and the changes of the peers and the counter by others.\<close>

inductive dl_step :: "'k cache_ops \<Rightarrow> 'k downloader \<Rightarrow> 'k downloader \<Rightarrow> bool" for ops where
  piece: "pieceRecieved ops now tod stale p dl = Some dl' \<Longrightarrow> dl_step ops dl dl'"
| update: "dl_update ops now tod stale dl = Some dl' \<Longrightarrow> dl_step ops dl dl'"
| killed: "onPeerKilled pid dl = Some dl' \<Longrightarrow> dl_step ops dl dl'"
| rejected: "pm_find i (dl_current dl) = Some cd \<Longrightarrow>
    cd_onRejected now r (dl_live dl i cd, dl_pds dl) = Some s \<Longrightarrow> dl_step ops dl (dl_store i s dl)"
| exclude: "onExcluded ops (min a b) (max a b) (dl\<lparr>dl_cm := cm_exclude a b (dl_cm dl)\<rparr>) = Some dl' \<Longrightarrow> dl_step ops dl dl'"
| inclusion: "dl_step ops dl (onIncluded (min a b) (max a b) (dl\<lparr>dl_cm := cm_include a b (dl_cm dl)\<rparr>))"
| clear: "clearDownloads ops dl = Some dl' \<Longrightarrow> dl_step ops dl dl'"
| checked: "bs_num_bits good \<le> cm_num (dl_cm dl) \<Longrightarrow> dl_step ops dl (dl_dataChecked good dl)"
| corrupt: "i < cm_num (dl_cm dl) \<Longrightarrow> dl_step ops dl (dl_corrupted i dl)"
| recalc: "dl_step ops dl (recalcDownloaded tor_size dl)"
| peers: "dl_step ops dl (dl\<lparr>dl_peers := ps, dl_pds := pds, dl_counter := cc, dl_mem_usage := mu\<rparr>)"

lemma rejected_chunk: "cd_onRejected now r s = Some s' \<Longrightarrow> cd_chunk (fst s') = cd_chunk (fst s)"
proof -
  assume a: "cd_onRejected now r s = Some s'"
  obtain cd pds where s: "s = (cd, pds)" by (cases s)
  show ?thesis
    using a sendRequests_all_chunk [of now _ _ s']
    by (force simp: s cd_onRejected_def cd_notDownloaded_def Let_def split: if_splits option.splits)
qed

lemma dl_step_ok:
  assumes "cache_frame ops" "dl_step ops dl dl'" "dl_ok dl"
  shows "dl_ok dl' \<and> same_torrent dl dl'"
proof -
  have next_ok: "dl_next dl dl' \<Longrightarrow> ?thesis" by (simp add: dl_next_def)
  show ?thesis using assms(2)
  proof cases
    case piece
    then show ?thesis using cache_frame.piece_spec [OF assms(1) piece assms(3) refl] by simp
  next
    case update
    then show ?thesis using cache_frame.dl_update_next [OF assms(1) update assms(3)] next_ok by simp
  next
    case killed
    then show ?thesis using peerKilled_loop_ok [OF _ assms(3)] next_ok by (simp add: onPeerKilled_def)
  next
    case (rejected i cd now r s)
    have "same_state (cm_chunk (dl_cm dl) i) (cd_chunk (fst s))" using rejected_chunk [OF rejected(3)] by simp
    from dl_store_live(1) [OF assms(3) rejected(2) this] show ?thesis using next_ok rejected(1) by simp
  next
    case exclude
    then show ?thesis using cache_frame.exclusion_ok [OF assms(1) exclude assms(3)] by simp
  next
    case inclusion
    then show ?thesis using include_next [OF assms(3)] next_ok by simp
  next
    case clear
    then show ?thesis using cache_frame.clearDownloads_ok [OF assms(1) clear assms(3)] next_ok by simp
  next
    case checked
    then show ?thesis using dataChecked_next [OF assms(3)] next_ok by simp
  next
    case corrupt
    then show ?thesis using corrupted_next [OF assms(3)] next_ok by simp
  next
    case recalc
    then show ?thesis using assms(3) by (simp add: recalcDownloaded_def same_torrent_def)
  next
    case peers
    then show ?thesis using assms(3) by (simp add: dl_ok_def dl_keys_def same_torrent_def)
  qed
qed

lemma dl_steps_ok:
  assumes "cache_frame ops" "(dl_step ops)\<^sup>*\<^sup>* dl dl'" "dl_ok dl"
  shows "dl_ok dl' \<and> same_torrent dl dl'"
  using assms(2,3)
proof (induction rule: rtranclp_induct)
  case (step y z)
  then show ?case using dl_step_ok [OF assms(1) step(2)] by (simp add: same_torrent_def)
qed (simp add: same_torrent_def)

section \<open>Properties\<close>

lemma verified_hash:
  assumes "verified_by ops now p dl i cd" "\<not> usingContinuousHashing cd" "ch_size (cd_chunk cd) < 2 ^ 32"
  shows "\<exists>d. ch_data (cd_chunk cd) = Some d \<and> sha1_spec (take (ch_size (cd_chunk cd)) d) = cm_hashes (dl_cm dl) ! i"
proof -
  obtain d where d: "ch_data (cd_chunk cd) = Some d"
    "snd (sha_generate sha_fresh (take (ch_size (cd_chunk cd)) d)) = cm_hashes (dl_cm dl) ! i"
    using assms(1,2) by (auto simp: verified_by_def download_hash_def)
  then show ?thesis
    using sha_generate_correct [of "take (ch_size (cd_chunk cd)) d" sha_fresh] assms(3)
    by (simp add: sha_fresh_def)
qed

text \<open>Claim C11: only verified chunks count as downloaded. A piece that arrives sets the bit of no chunk
  but its own, and that one only when its download was completed by the piece and its hash is the
  torrent's; for chunks of up to 64 pieces that is the SHA-1 of the data in the buffer. No bit is
  ever cleared by a piece.\<close>

theorem only_verified_chunks:
  assumes "cache_frame ops" "dl_ok dl" "pieceRecieved ops now tod stale p dl = Some dl'"
  shows "(\<forall>j. dl_bit dl j \<longrightarrow> dl_bit dl' j) \<and>
    (\<forall>j. dl_bit dl' j \<and> \<not> dl_bit dl j \<longrightarrow> j = unat (rq_index (pc_req p)) \<and>
      (\<exists>cd. verified_by ops now p dl j cd \<and>
        (\<not> usingContinuousHashing cd \<and> ch_size (cd_chunk cd) < 2 ^ 32 \<longrightarrow>
          (\<exists>d. ch_data (cd_chunk cd) = Some d \<and>
            sha1_spec (take (ch_size (cd_chunk cd)) d) = cm_hashes (dl_cm dl) ! j))))"
proof -
  note s = cache_frame.piece_spec [OF assms(1,3,2) refl]
  show ?thesis
  proof (intro conjI allI impI)
    show "dl_bit dl' j" if "dl_bit dl j" for j using s that by (cases "j = unat (rq_index (pc_req p))") simp_all
  next
    fix j
    assume j: "dl_bit dl' j \<and> \<not> dl_bit dl j"
    then show i: "j = unat (rq_index (pc_req p))" using s by blast
    obtain cd where cd: "verified_by ops now p dl j cd" using s j unfolding i by blast
    show "\<exists>cd. verified_by ops now p dl j cd \<and>
        (\<not> usingContinuousHashing cd \<and> ch_size (cd_chunk cd) < 2 ^ 32 \<longrightarrow>
          (\<exists>d. ch_data (cd_chunk cd) = Some d \<and>
            sha1_spec (take (ch_size (cd_chunk cd)) d) = cm_hashes (dl_cm dl) ! j))"
      using cd verified_hash [OF cd] by blast
  qed
qed

text \<open>A torrent of one chunk of two bytes, whose download was prepared in a buffer.\<close>

definition one_chunk :: "single_file_cache downloader" where
  "one_chunk =
     (let cm = cm_initial [] [snd (sha_generate sha_fresh [1, 2])] 2 2 0 some_cache;
          c = (Chunk_new 0 2)\<lparr>ch_status := BUFFERED, ch_data := Some [0, 0]\<rparr>;
          dl = Downloader_new 2 (cm_put_chunk 0 c cm) \<lparr>sel_chunks = [0], sel_last = 0\<rparr> [0]
            (\<lambda>_. PeerDownloader_new some_peer 2)
      in dl_store 0 (ChunkDownload_new c, dl_pds dl) dl)"

definition last_piece :: piece where
  "last_piece = \<lparr>pc_req = Request 0 0 2 9, pc_data = [1, 2]\<rparr>"

lemma one_chunk_ok: "dl_ok one_chunk" "\<not> dl_bit one_chunk 0"
proof -
  let ?cm = "cm_initial [] [snd (sha_generate sha_fresh [1, 2])] 2 2 0 some_cache"
  let ?c = "(Chunk_new 0 2)\<lparr>ch_status := BUFFERED, ch_data := Some [0, 0]\<rparr>"
  have i: "cm_ok ?cm" by (rule initial_ok) simp_all
  have c: "cm_chunk ?cm 0 = Chunk_new 0 2" "cm_num ?cm = 1" "cm_bits ?cm = BitSet_new 1"
    by (simp_all add: cm_initial_def cm_chunk_def chunk_sizes_def)
  have ok: "cm_ok (cm_put_chunk 0 ?c ?cm)" using i c by (intro cm_ok_put) (simp_all add: Chunk_new_def)
  have len: "length (cm_chunks ?cm) = 1" using i c by (simp add: cm_ok_length)
  define dl where "dl = Downloader_new 2 (cm_put_chunk 0 ?c ?cm) \<lparr>sel_chunks = [0], sel_last = 0\<rparr> [0]
            (\<lambda>_. PeerDownloader_new some_peer 2)"
  have dl: "dl_ok dl" "dl_key (dl_cm dl) 0" "cm_chunk (dl_cm dl) 0 = ?c"
    using ok len by (simp_all add: dl_def Downloader_new_def dl_ok_def pm_ok_def dl_keys_def c dl_key_def Chunk_new_def ch_isExcluded_def)
  have "same_state (cm_chunk (dl_cm dl) 0) (cd_chunk (fst (ChunkDownload_new ?c, dl_pds dl)))"
    unfolding dl(3) by (simp add: ChunkDownload_new_def Let_def same_state_def same_chunk_def)
  note st = dl_store_next(1) [OF dl(1,2) this]
  have o: "one_chunk = dl_store 0 (ChunkDownload_new ?c, dl_pds dl) dl"
    by (simp only: one_chunk_def dl_def Let_def)
  show "dl_ok one_chunk" using dl_next_ok [OF st] unfolding o .
  show "\<not> dl_bit one_chunk 0" using st dl(2) unfolding o dl_next_def dl_key_def by simp
qed

theorem only_verified_chunks_witness:
  "\<exists>dl'. pieceRecieved sf_ops 5 9 (\<lambda>_. False) last_piece one_chunk = Some dl' \<and> dl_bit dl' 0 \<and>
    (\<exists>cd. verified_by sf_ops 5 last_piece one_chunk 0 cd)"
proof -
  define c where "c = (Chunk_new 0 2)\<lparr>ch_status := BUFFERED, ch_data := Some [0, 0], ch_ref_count := 1\<rparr>"
  define cd where "cd = ChunkDownload_new ((Chunk_new 0 2)\<lparr>ch_status := BUFFERED, ch_data := Some [0, 0]\<rparr>)"
  have cd: "cd_chunk cd = c" "cd_num cd = 1" "cd_pdown cd = []" "cd_num_downloaded cd = 0" "cd_dstatus cd = Map.empty"
    "cd_pieces cd = bs_clear (BitSet_new 1)" "cd_last_size cd = 2"
    by (simp_all add: cd_def c_def ChunkDownload_new_def Let_def Chunk_new_def MAX_PIECE_LEN_def usingContinuousHashing_def bs_clear_def)
  have f: "dl_current one_chunk = [(0, cd)]" "cm_chunks (dl_cm one_chunk) = [c]"
    "cm_todo (dl_cm one_chunk) = bs_setAll (BitSet_new 1) True" "cm_bits (dl_cm one_chunk) = BitSet_new 1"
    "cm_cache (dl_cm one_chunk) = some_cache" "dl_peers one_chunk = []"
    "cm_hashes (dl_cm one_chunk) = [snd (sha_generate sha_fresh [1, 2])]" "cm_writable (dl_cm one_chunk)"
    "cm_index_file (dl_cm one_chunk) = None" "dl_pds one_chunk = (\<lambda>_. PeerDownloader_new some_peer 2)"
    using cd(1) by (simp_all add: one_chunk_def cd_def [symmetric] Let_def dl_store_def Downloader_new_def cm_put_chunk_def cm_initial_def chunk_sizes_def)
  have nc: "\<not> cm_completed (dl_cm one_chunk)"
    by (simp add: cm_completed_def f bs_setAll_def BitSet_new_def Let_def)
  define cd' where "cd' = cd\<lparr>cd_chunk := c\<lparr>ch_data := Some [1, 2]\<rparr>, cd_pieces := bs_set (cd_pieces cd) 0 True,
    cd_queue := removeAll 0 (cd_queue cd), cd_providers := insert 9 (cd_providers cd), cd_num_downloaded := 1,
    cd_dstatus := Map.empty, cd_pdown := []\<rparr>"
  have live: "dl_live one_chunk 0 cd = cd" using cd(1) by (simp add: dl_live_def cm_chunk_def f)
  have rl: "dl_reload sf_ops 0 one_chunk = Some one_chunk" by (simp add: dl_reload_def cm_chunk_def f c_def)
  have g: "\<not> bs_get (cd_pieces cd) 0" "bs_num_bits (cd_pieces cd) = 1" "bs_num_bits (bs_set (cd_pieces cd) 0 True) = 1"
    using bs_get_setAll [of "BitSet_new 1" False 0] bs_ok_shape [OF bs_ok_new [of 1]]
    by (simp_all add: cd(6) bs_clear_def)
  have pc: "cd_piece 5 last_piece (cd, dl_pds one_chunk) = Some ((cd', dl_pds one_chunk), True, True)"
    by (simp add: cd_piece_def last_piece_def Request_def Let_def g cd(1-5) c_def store_piece_def MAX_PIECE_LEN_def
        memcpy_def usingContinuousHashing_def cd'_def)
  have h: "download_hash cd' = Some (snd (sha_generate sha_fresh [1, 2]))"
    by (simp add: download_hash_def usingContinuousHashing_def cd'_def g c_def Chunk_new_def)
  have v: "verified_by sf_ops 5 last_piece one_chunk 0 cd'"
    unfolding verified_by_def using pc h rl
    by (intro exI [of _ cd] exI [of _ one_chunk] exI [of _ "dl_pds one_chunk"] exI [of _ True])
      (simp add: f pm_find_def live)
  define dl2 where "dl2 = (dl_store 0 (cd', dl_pds one_chunk) one_chunk)\<lparr>dl_downloaded := dl_downloaded one_chunk + 2\<rparr>"
  have f2: "cm_chunks (dl_cm dl2) = [c\<lparr>ch_data := Some [1, 2]\<rparr>]" "cm_hashes (dl_cm dl2) = cm_hashes (dl_cm one_chunk)"
    "cm_cache (dl_cm dl2) = some_cache" "cm_writable (dl_cm dl2)" "cm_index_file (dl_cm dl2) = None"
    "cm_bits (dl_cm dl2) = BitSet_new 1" "cm_todo (dl_cm dl2) = bs_setAll (BitSet_new 1) True" "dl_peers dl2 = []"
    by (simp_all add: dl2_def dl_store_def cm_put_chunk_def f cd'_def)
  obtain cm' where cm': "saveChunk sf_ops 0 True (dl_cm dl2) = Some cm'"
      "cm_bits cm' = bs_set (BitSet_new 1) 0 True" "cm_todo cm' = bs_set (bs_setAll (BitSet_new 1) True) 0 False"
    by (simp add: saveChunk_def f2 cm_chunk_def c_def ch_isExcluded_def Chunk_new_def sf_ops_def sf_save_def some_cache_def
        cf_write_def Let_def writeIndexFileEntry_def cm_put_chunk_def cm_percentage_def)
  have ok1: "bs_ok (BitSet_new 1)" "bs_ok (bs_setAll (BitSet_new 1) True)"
    using bs_ok_new [of 1] bs_ok_setAll [OF bs_ok_shape, of "BitSet_new 1" True] by simp_all
  have ok2: "bs_ok (cm_bits cm')" "bs_ok (cm_todo cm')" unfolding cm'(2,3) using ok1 by (simp_all add: bits.ok_put)
  have n: "bs_num_bits (cm_bits cm') = 1" "bs_num_bits (cm_todo cm') = 1" by (simp_all add: cm'(2,3))
  have b: "bs_get (cm_bits cm') 0" "\<not> bs_get (cm_todo cm') 0"
    using bits.get_put_eq [OF ok1(1), of 0 True 0] bits.get_put_eq [OF ok1(2), of 0 False 0] by (simp_all add: cm'(2,3))
  have bit: "bs_numOnBits (cm_todo cm') = 0" "bs_numOnBits (cm_bits cm') \<noteq> 0"
  proof -
    have "\<not> bs_get (cm_todo cm') i" for i using b(2) n(2) bits.get_outside [of "cm_todo cm'" i] ok2(2) by (cases i) auto
    then show "bs_numOnBits (cm_todo cm') = 0" using bits.count_zero_iff [OF ok2(2)] by simp
    show "bs_numOnBits (cm_bits cm') \<noteq> 0" using bits.count_zero_iff [OF ok2(1)] b(1) by auto
  qed
  have "dl_finished sf_ops 0 cd' dl2 = Some (dl2\<lparr>dl_cm := cm', dl_haves := dl_haves dl2\<rparr>, True)"
    using h cm'(1) by (simp add: dl_finished_def verifyHash_def f2 f)
  moreover have "cm_completed (dl_cm (dl_erase 0 (dl2\<lparr>dl_cm := cm', dl_haves := dl_haves dl2\<rparr>)))"
  proof -
    have "cm_todo (dl_cm (dl_erase 0 (dl2\<lparr>dl_cm := cm', dl_haves := dl_haves dl2\<rparr>))) = cm_todo cm'"
      "cm_bits (dl_cm (dl_erase 0 (dl2\<lparr>dl_cm := cm', dl_haves := dl_haves dl2\<rparr>))) = cm_bits cm'"
      by (simp_all add: dl_erase_def)
    then show ?thesis using bit by (simp add: cm_completed_def)
  qed
  ultimately have pd: "piece_done sf_ops 5 9 (\<lambda>_. False) 0 cd' True dl2 = Some (dl_erase 0 (dl2\<lparr>dl_cm := cm', dl_haves := dl_haves dl2\<rparr>))"
    by (simp add: piece_done_def dl_update_def)
  have "pieceRecieved sf_ops 5 9 (\<lambda>_. False) last_piece one_chunk =
      Some (dl_erase 0 (dl2\<lparr>dl_cm := cm', dl_haves := dl_haves dl2\<rparr>))"
    using nc rl pc pd live
    by (simp add: pieceRecieved_def pm_find_def f Let_def dl2_def) (simp add: last_piece_def Request_def dl_store_def)
  moreover have "dl_bit (dl_erase 0 (dl2\<lparr>dl_cm := cm', dl_haves := dl_haves dl2\<rparr>)) 0"
    using b(1) by (simp add: dl_erase_def)
  ultimately show ?thesis
    using only_verified_chunks [OF sff.cache_frame_axioms one_chunk_ok(1), of 5 9 "\<lambda>_. False" last_piece] one_chunk_ok(2)
    by blast
qed



section \<open>What is chosen\<close>

lemma selectCD_fold_best:
  assumes "fold (selectCD_step pd num) m sel = r"
    "\<And>i l. sel = Some (i, l) \<Longrightarrow> \<exists>cd. (i, cd) \<in> A \<and> l = pieces_left cd \<and> length (cd_pdown cd) = num \<and>
      pd_hasChunk pd i \<and> (\<forall>(j, c) \<in> A. pd_hasChunk pd j \<and> length (cd_pdown c) = num \<longrightarrow> l \<le> pieces_left c)"
    "sel = None \<Longrightarrow> \<forall>(j, c) \<in> A. \<not> (pd_hasChunk pd j \<and> length (cd_pdown c) = num)" "\<not> pd_isChoked pd"
  shows "(\<forall>i l. r = Some (i, l) \<longrightarrow> (\<exists>cd. (i, cd) \<in> A \<union> set m \<and> l = pieces_left cd \<and> length (cd_pdown cd) = num \<and>
      pd_hasChunk pd i \<and> (\<forall>(j, c) \<in> A \<union> set m. pd_hasChunk pd j \<and> length (cd_pdown c) = num \<longrightarrow> l \<le> pieces_left c))) \<and>
    (r = None \<longrightarrow> (\<forall>(j, c) \<in> A \<union> set m. \<not> (pd_hasChunk pd j \<and> length (cd_pdown c) = num)))"
  using assms(1-3)
proof (induction m arbitrary: sel A)
  case Nil
  show ?case using Nil.prems by simp
next
  case (Cons e m)
  obtain j c where e: "e = (j, c)" by (cases e)
  let ?sel = "selectCD_step pd num e sel"
  have f: "fold (selectCD_step pd num) m ?sel = r" using Cons.prems(1) by simp
  have some: "\<exists>cd. (i, cd) \<in> insert e A \<and> l = pieces_left cd \<and> length (cd_pdown cd) = num \<and>
      pd_hasChunk pd i \<and> (\<forall>(j, c) \<in> insert e A. pd_hasChunk pd j \<and> length (cd_pdown c) = num \<longrightarrow> l \<le> pieces_left c)"
    if r: "?sel = Some (i, l)" for i l
  proof (cases "pd_hasChunk pd j \<and> length (cd_pdown c) = num")
    case False
    then have "sel = Some (i, l)" using r assms(4) by (auto simp: e selectCD_step_def split: if_splits)
    from Cons.prems(2) [OF this] False show ?thesis by (auto simp: e)
  next
    case True
    show ?thesis
    proof (cases sel)
      case None
      then have "i = j" "l = pieces_left c" using r True assms(4) by (auto simp: e selectCD_step_def)
      then show ?thesis using Cons.prems(3) [OF None] True by (auto simp: e)
    next
      case (Some x)
      obtain i0 l0 where x: "x = (i0, l0)" by (cases x)
      from Cons.prems(2) [OF Some [unfolded x]] obtain cd0 where cd0: "(i0, cd0) \<in> A" "l0 = pieces_left cd0"
        "length (cd_pdown cd0) = num" "pd_hasChunk pd i0"
        "\<forall>(j, c) \<in> A. pd_hasChunk pd j \<and> length (cd_pdown c) = num \<longrightarrow> l0 \<le> pieces_left c" by blast
      have "(i, l) = (if pieces_left c < l0 then (j, pieces_left c) else (i0, l0))"
        using r True assms(4) Some x by (auto simp: e selectCD_step_def split: if_splits)
      then show ?thesis using cd0 True by (fastforce simp: e split: if_splits)
    qed
  qed
  have none: "\<forall>(j, c) \<in> insert e A. \<not> (pd_hasChunk pd j \<and> length (cd_pdown c) = num)" if r: "?sel = None"
  proof -
    have "sel = None" "\<not> (pd_hasChunk pd j \<and> length (cd_pdown c) = num)"
      using r assms(4) by (auto simp: e selectCD_step_def split: if_splits option.splits prod.splits)
    then show ?thesis using Cons.prems(3) by (auto simp: e)
  qed
  show ?case using Cons.IH [OF f some none] by simp
qed

text \<open>Claim C31: among the chunks being downloaded by a given number of peers that a peer who does not
  choke us has, the one with the fewest pieces left is chosen, and one is chosen whenever there is any.\<close>

theorem selectCD_fewest_left:
  assumes "\<not> pd_isChoked pd"
  shows "(case selectCD dl pd num of
      Some i \<Rightarrow> \<exists>cd. (i, cd) \<in> set (dl_current dl) \<and> length (cd_pdown cd) = num \<and> pd_hasChunk pd i \<and>
        (\<forall>(j, c) \<in> set (dl_current dl). pd_hasChunk pd j \<and> length (cd_pdown c) = num \<longrightarrow> pieces_left cd \<le> pieces_left c)
    | None \<Rightarrow> \<forall>(j, c) \<in> set (dl_current dl). \<not> (pd_hasChunk pd j \<and> length (cd_pdown c) = num))"
proof -
  define r where "r = fold (selectCD_step pd num) (dl_current dl) None"
  from selectCD_fold_best [OF r_def [symmetric], of "{}"] assms
  have s: "\<forall>i l. r = Some (i, l) \<longrightarrow> (\<exists>cd. (i, cd) \<in> set (dl_current dl) \<and> l = pieces_left cd \<and> length (cd_pdown cd) = num \<and>
      pd_hasChunk pd i \<and> (\<forall>(j, c) \<in> set (dl_current dl). pd_hasChunk pd j \<and> length (cd_pdown c) = num \<longrightarrow> l \<le> pieces_left c))"
    "r = None \<longrightarrow> (\<forall>(j, c) \<in> set (dl_current dl). \<not> (pd_hasChunk pd j \<and> length (cd_pdown c) = num))"
    by simp_all
  show ?thesis
  proof (cases r)
    case None
    then show ?thesis using s(2) by (simp add: selectCD_def r_def)
  next
    case (Some x)
    obtain i l where x: "x = (i, l)" by (cases x)
    then have "selectCD dl pd num = Some i" using Some by (simp add: selectCD_def r_def)
    then show ?thesis using s(1) Some x by auto
  qed
qed

theorem selectCD_fewest_left_witness:
  "\<exists>cd. (0, cd) \<in> set (dl_current one_chunk) \<and> cd_pdown cd = [] \<and> selectCD one_chunk
     (PeerDownloader_new (some_peer\<lparr>pv_bits := bs_setAll (BitSet_new 1) True\<rparr>) 2) 0 = Some 0"
proof -
  define pd where "pd = PeerDownloader_new (some_peer\<lparr>pv_bits := bs_setAll (BitSet_new 1) True\<rparr>) 2"
  obtain cd where cd: "dl_current one_chunk = [(0, cd)]" "cd_pdown cd = []"
    by (simp add: one_chunk_def Let_def dl_store_def Downloader_new_def ChunkDownload_new_def)
  have "bs_ok (BitSet_new 1)" by (rule bs_ok_new) simp
  from bs_get_setAll [OF bs_ok_shape [OF this]] have h: "pd_hasChunk pd 0"
    by (simp add: pd_def pd_hasChunk_def PeerDownloader_new_def)
  have "\<not> pd_isChoked pd" by (simp add: pd_def pd_isChoked_def PeerDownloader_new_def some_peer_def)
  from selectCD_fewest_left [OF this, of one_chunk 0] have "selectCD one_chunk pd 0 = Some 0"
    using h cd by (auto split: option.splits)
  then show ?thesis using cd unfolding pd_def by (intro exI [of _ cd]) simp
qed

end
