(* ===== verification/Bencode.thy ===== *)
theory Bencode
  imports KtPrelude
begin

text \<open>
  Bencoded data: \<^verbatim>\<open>libktorrent/torrent/bdecoder.cpp\<close>, \<^verbatim>\<open>bnode.cpp\<close>, \<^verbatim>\<open>value.cpp\<close> and
  \<^verbatim>\<open>bencoder.cpp\<close>. The decoder reads a byte array from a position; a thrown \<^verbatim>\<open>Error\<close> is the left
  of a sum, a null node is \<open>None\<close>. The recursion of \<^verbatim>\<open>decode\<close> is bounded by fuel, and a theorem
  shows how much is enough. How the toolkit reads and prints numbers is not part of the program:
  it is a parameter, the record \<open>tq_numbers\<close>, and the locale \<open>number_format\<close> states what the
  code relies on. Characters are bytes: \<open>d\<close> is 100, \<open>e\<close> 101, \<open>i\<close> 105, \<open>l\<close> 108, the colon 58
  and the digits 48 to 57.
\<close>

section \<open>Nodes\<close>

datatype bvalue = VInt int | VInt64 int | VString bytes

text \<open>Every node knows the offset where it starts and its length in the data.\<close>

datatype bnode =
  BValueNode bvalue nat nat
| BDictNode "(bytes \<times> bnode option) list" nat nat
| BListNode "bnode option list" nat nat

fun bn_offset :: "bnode \<Rightarrow> nat" where
  "bn_offset (BValueNode v off len) = off"
| "bn_offset (BDictNode c off len) = off"
| "bn_offset (BListNode c off len) = off"

fun bn_length :: "bnode \<Rightarrow> nat" where
  "bn_length (BValueNode v off len) = len"
| "bn_length (BDictNode c off len) = len"
| "bn_length (BListNode c off len) = len"

text \<open>\<^verbatim>\<open>dynamic_cast\<close> and the access to children: the first entry of a key counts.\<close>

fun as_value :: "bnode option \<Rightarrow> bvalue option" where
  "as_value (Some (BValueNode v off len)) = Some v"
| "as_value _ = None"

fun as_dict :: "bnode option \<Rightarrow> (bytes \<times> bnode option) list option" where
  "as_dict (Some (BDictNode c off len)) = Some c"
| "as_dict _ = None"

fun as_list :: "bnode option \<Rightarrow> bnode option list option" where
  "as_list (Some (BListNode c off len)) = Some c"
| "as_list _ = None"

fun bd_getData :: "bytes \<Rightarrow> (bytes \<times> bnode option) list \<Rightarrow> bnode option" where
  "bd_getData key [] = None"
| "bd_getData key ((k, n) # es) = (if k = key then n else bd_getData key es)"

definition bd_getValue :: "bytes \<Rightarrow> (bytes \<times> bnode option) list \<Rightarrow> bvalue option" where
  "bd_getValue key d = as_value (bd_getData key d)"

definition bd_getDict :: "bytes \<Rightarrow> (bytes \<times> bnode option) list \<Rightarrow> (bytes \<times> bnode option) list option" where
  "bd_getDict key d = as_dict (bd_getData key d)"

definition bd_getList :: "bytes \<Rightarrow> (bytes \<times> bnode option) list \<Rightarrow> bnode option list option" where
  "bd_getList key d = as_list (bd_getData key d)"

definition bl_getChild :: "nat \<Rightarrow> bnode option list \<Rightarrow> bnode option" where
  "bl_getChild i l = (if i < length l then l ! i else None)"

definition bl_getValue :: "nat \<Rightarrow> bnode option list \<Rightarrow> bvalue option" where
  "bl_getValue i l = as_value (bl_getChild i l)"

definition bl_getDict :: "nat \<Rightarrow> bnode option list \<Rightarrow> (bytes \<times> bnode option) list option" where
  "bl_getDict i l = as_dict (bl_getChild i l)"

section \<open>Decoding\<close>

text \<open>\<^verbatim>\<open>TQString::toInt\<close>, \<^verbatim>\<open>toLongLong\<close> and \<^verbatim>\<open>number\<close>.\<close>

record tq_numbers =
  tq_toInt :: "bytes \<Rightarrow> int option"
  tq_toLongLong :: "bytes \<Rightarrow> int option"
  tq_number :: "int \<Rightarrow> bytes"

datatype berror = IllegalToken u8 | DecodeError | UnexpectedEnd | CannotConvert | Incomplete | OutOfFuel

definition parseInt :: "tq_numbers \<Rightarrow> bytes \<Rightarrow> nat \<Rightarrow> berror + (bnode option \<times> nat)" where
  "parseInt nf data off =
     (let n = takeWhile (\<lambda>c. c \<noteq> 101) (drop (off + 1) data); pos = off + 1 + length n in
      if pos \<ge> length data then Inl UnexpectedEnd
      else case tq_toInt nf n of
        Some v \<Rightarrow> Inr (Some (BValueNode (VInt v) off (pos + 1 - off)), pos + 1)
      | None \<Rightarrow> (case tq_toLongLong nf n of
          None \<Rightarrow> Inl CannotConvert
        | Some v \<Rightarrow> Inr (Some (BValueNode (VInt64 v) off (pos + 1 - off)), pos + 1)))"

text \<open>\<^verbatim>\<open>pos + len\<close> is computed in 32 bits.\<close>

definition parseString :: "tq_numbers \<Rightarrow> bytes \<Rightarrow> nat \<Rightarrow> berror + (bnode option \<times> nat)" where
  "parseString nf data off =
     (let n = takeWhile (\<lambda>c. c \<noteq> 58) (drop off data); pos = off + length n in
      if pos \<ge> length data then Inl UnexpectedEnd
      else case tq_toInt nf n of
        None \<Rightarrow> Inl CannotConvert
      | Some len \<Rightarrow>
          let pos = pos + 1 in
          if (int pos + len) mod 2 ^ 32 > int (length data) then Inl Incomplete
          else let end_pos = nat (int pos + len)
               in Inr (Some (BValueNode (VString (take (nat len) (drop pos data))) off (end_pos - off)), end_pos))"

text \<open>The loops of \<^verbatim>\<open>parseDict\<close> and \<^verbatim>\<open>parseList\<close>, with \<open>dec\<close> for the call of \<^verbatim>\<open>decode\<close>.\<close>

fun parseDict :: "(nat \<Rightarrow> berror + (bnode option \<times> nat)) \<Rightarrow> bytes \<Rightarrow> nat \<Rightarrow> nat \<Rightarrow> (bytes \<times> bnode option) list \<Rightarrow> nat \<Rightarrow>
    berror + (bnode option \<times> nat)" where
  "parseDict dec data 0 off acc pos = Inl OutOfFuel"
| "parseDict dec data (Suc j) off acc pos =
     (if pos < length data \<and> data ! pos \<noteq> 101 then
        (case dec pos of
           Inl e \<Rightarrow> Inl e
         | Inr (kn, pos) \<Rightarrow>
             (case as_value kn of
                Some (VString key) \<Rightarrow>
                  (case dec pos of
                     Inl e \<Rightarrow> Inl e
                   | Inr (v, pos) \<Rightarrow> parseDict dec data j off (acc @ [(key, v)]) pos)
              | _ \<Rightarrow> Inl DecodeError))
      else Inr (Some (BDictNode acc off (pos + 1 - off)), pos + 1))"

fun parseList :: "(nat \<Rightarrow> berror + (bnode option \<times> nat)) \<Rightarrow> bytes \<Rightarrow> nat \<Rightarrow> nat \<Rightarrow> bnode option list \<Rightarrow> nat \<Rightarrow>
    berror + (bnode option \<times> nat)" where
  "parseList dec data 0 off acc pos = Inl OutOfFuel"
| "parseList dec data (Suc j) off acc pos =
     (if pos < length data \<and> data ! pos \<noteq> 101 then
        (case dec pos of
           Inl e \<Rightarrow> Inl e
         | Inr (v, pos) \<Rightarrow> parseList dec data j off (acc @ [v]) pos)
      else Inr (Some (BListNode acc off (pos + 1 - off)), pos + 1))"

primrec bdecode :: "nat \<Rightarrow> tq_numbers \<Rightarrow> bytes \<Rightarrow> nat \<Rightarrow> berror + (bnode option \<times> nat)" where
  "bdecode 0 nf data pos = Inl OutOfFuel"
| "bdecode (Suc k) nf data pos =
     (if pos \<ge> length data then Inr (None, pos)
      else let c = data ! pos in
        if c = 100 then parseDict (bdecode k nf data) data k pos [] (pos + 1)
        else if c = 108 then parseList (bdecode k nf data) data k pos [] (pos + 1)
        else if c = 105 then parseInt nf data pos
        else if 48 \<le> c \<and> c \<le> 57 then parseString nf data pos
        else Inl (IllegalToken c))"

text \<open>\<^verbatim>\<open>BDecoder(data,verbose,off).decode()\<close>, with fuel that is enough.\<close>

definition bdecode_all :: "tq_numbers \<Rightarrow> bytes \<Rightarrow> nat \<Rightarrow> berror + (bnode option \<times> nat)" where
  "bdecode_all nf data off = bdecode (length data + 1) nf data off"

section \<open>Encoding\<close>

text \<open>\<^verbatim>\<open>BEncoderBufferOutput\<close>: bytes that a resize adds are overwritten at once.\<close>

record benc_output =
  bo_data :: bytes
  bo_ptr :: nat

definition bo_new :: "bytes \<Rightarrow> benc_output" where
  "bo_new data = \<lparr>bo_data = data, bo_ptr = 0\<rparr>"

definition bo_write :: "bytes \<Rightarrow> benc_output \<Rightarrow> benc_output" where
  "bo_write s out =
     (let d = bo_data out @ replicate (bo_ptr out + length s - length (bo_data out)) 0
      in \<lparr>bo_data = memcpy d (bo_ptr out) s (length s), bo_ptr = bo_ptr out + length s\<rparr>)"

definition beginDict :: "benc_output \<Rightarrow> benc_output" where
  "beginDict = bo_write [100]"

definition beginList :: "benc_output \<Rightarrow> benc_output" where
  "beginList = bo_write [108]"

definition be_end :: "benc_output \<Rightarrow> benc_output" where
  "be_end = bo_write [101]"

definition be_int :: "tq_numbers \<Rightarrow> int \<Rightarrow> benc_output \<Rightarrow> benc_output" where
  "be_int nf v = bo_write (105 # tq_number nf v @ [101])"

definition be_bytes :: "tq_numbers \<Rightarrow> bytes \<Rightarrow> benc_output \<Rightarrow> benc_output" where
  "be_bytes nf d out = bo_write d (bo_write [58] (bo_write (tq_number nf (int (length d))) out))"

text \<open>What the callers write, as a term, and the calls they make for it.\<close>

datatype bterm = TInt int | TStr bytes | TList "bterm list" | TDict "(bytes \<times> bterm) list"

fun encode :: "tq_numbers \<Rightarrow> bterm \<Rightarrow> benc_output \<Rightarrow> benc_output"
  and encode_list :: "tq_numbers \<Rightarrow> bterm list \<Rightarrow> benc_output \<Rightarrow> benc_output"
  and encode_dict :: "tq_numbers \<Rightarrow> (bytes \<times> bterm) list \<Rightarrow> benc_output \<Rightarrow> benc_output" where
  "encode nf (TInt v) out = be_int nf v out"
| "encode nf (TStr s) out = be_bytes nf s out"
| "encode nf (TList ts) out = be_end (encode_list nf ts (beginList out))"
| "encode nf (TDict es) out = be_end (encode_dict nf es (beginDict out))"
| "encode_list nf [] out = out"
| "encode_list nf (t # ts) out = encode_list nf ts (encode nf t out)"
| "encode_dict nf [] out = out"
| "encode_dict nf ((k, t) # es) out = encode_dict nf es (encode nf t (be_bytes nf k out))"

section \<open>What the numbers must satisfy\<close>

locale number_format =
  fixes nf :: tq_numbers
  assumes int_range: "tq_toInt nf s = Some v \<Longrightarrow> - (2 ^ 31) \<le> v \<and> v < 2 ^ 31"
    and int_digit: "tq_toInt nf (c # s) = Some v \<Longrightarrow> 48 \<le> c \<Longrightarrow> c \<le> 57 \<Longrightarrow> 0 \<le> v"
    and long_range: "tq_toLongLong nf s = Some v \<Longrightarrow> - (2 ^ 63) \<le> v \<and> v < 2 ^ 63"
    and int_number: "- (2 ^ 31) \<le> v \<Longrightarrow> v < 2 ^ 31 \<Longrightarrow> tq_toInt nf (tq_number nf v) = Some v"
    and long_number: "\<not> (- (2 ^ 31) \<le> v \<and> v < 2 ^ 31) \<Longrightarrow> - (2 ^ 63) \<le> v \<Longrightarrow> v < 2 ^ 63 \<Longrightarrow>
      tq_toInt nf (tq_number nf v) = None \<and> tq_toLongLong nf (tq_number nf v) = Some v"
    and number_chars: "c \<in> set (tq_number nf v) \<Longrightarrow> c = 45 \<or> 48 \<le> c \<and> c \<le> 57"
    and number_digit: "0 \<le> v \<Longrightarrow> \<exists>c s. tq_number nf v = c # s \<and> 48 \<le> c \<and> c \<le> 57"
    and number_length: "- (2 ^ 63) \<le> v \<Longrightarrow> v < 2 ^ 63 \<Longrightarrow> length (tq_number nf v) \<le> 20"

text \<open>Decimal notation with an optional minus sign satisfies it.\<close>

fun dec_digits :: "nat \<Rightarrow> bytes" where
  "dec_digits n = (if n < 10 then [48 + of_nat n] else dec_digits (n div 10) @ [48 + of_nat (n mod 10)])"

declare dec_digits.simps [simp del]

definition dec_show :: "int \<Rightarrow> bytes" where
  "dec_show v = (if v < 0 then 45 # dec_digits (nat (- v)) else dec_digits (nat v))"

definition dec_digit :: "u8 \<Rightarrow> bool" where
  "dec_digit c \<longleftrightarrow> 48 \<le> c \<and> c \<le> 57"

definition dec_value :: "bytes \<Rightarrow> nat" where
  "dec_value s = foldl (\<lambda>a c. 10 * a + unat (c - 48)) 0 s"

definition dec_parse :: "nat \<Rightarrow> bytes \<Rightarrow> int option" where
  "dec_parse w s =
     (let neg = (s \<noteq> [] \<and> hd s = 45); ds = (if neg then tl s else s);
          v = (if neg then - int (dec_value ds) else int (dec_value ds))
      in if ds = [] \<or> \<not> list_all dec_digit ds \<or> v < - (2 ^ (w - 1)) \<or> 2 ^ (w - 1) \<le> v then None else Some v)"

definition decimal :: tq_numbers where
  "decimal = \<lparr>tq_toInt = dec_parse 32, tq_toLongLong = dec_parse 64, tq_number = dec_show\<rparr>"

lemma dec_digits_props: "list_all dec_digit (dec_digits n) \<and> dec_digits n \<noteq> [] \<and> dec_value (dec_digits n) = n"
proof (induction n rule: dec_digits.induct)
  case (1 n)
  have d: "dec_digit (48 + of_nat m) \<and> unat ((48 + of_nat m :: u8) - 48) = m" if "m < 10" for m
  proof -
    have "m \<in> {0, 1, 2, 3, 4, 5, 6, 7, 8, 9}" using that by auto
    then show ?thesis by (auto simp: dec_digit_def)
  qed
  show ?case
  proof (cases "n < 10")
    case True
    then show ?thesis using d [of n] by (subst (1 2 3) dec_digits.simps) (simp add: dec_value_def)
  next
    case False
    have "n mod 10 < 10" by simp
    from d [OF this] 1 False show ?thesis
      by (subst (1 2 3) dec_digits.simps) (simp add: dec_value_def)
  qed
qed

lemma dec_digits_length: "n < 10 ^ Suc k \<Longrightarrow> length (dec_digits n) \<le> Suc k"
proof (induction k arbitrary: n)
  case (Suc k)
  then have "n div 10 < 10 ^ Suc k" by (simp add: div_less_iff_less_mult)
  then show ?case using Suc.IH by (subst dec_digits.simps) simp
qed (subst dec_digits.simps, simp)

lemma dec_parse_show:
  assumes "- (2 ^ (w - 1)) \<le> v" "v < 2 ^ (w - 1)"
  shows "dec_parse w (dec_show v) = Some v"
proof -
  have "hd (dec_digits n) \<noteq> 45" for n
  proof -
    have "dec_digit (hd (dec_digits n))" using dec_digits_props [of n] by (cases "dec_digits n") auto
    then show ?thesis by (auto simp: dec_digit_def)
  qed
  then show ?thesis
    using assms dec_digits_props [of "nat v"] dec_digits_props [of "nat (- v)"]
    by (auto simp: dec_parse_def dec_show_def Let_def)
qed

lemma dec_parse_range: "dec_parse w s = Some v \<Longrightarrow> - (2 ^ (w - 1)) \<le> v \<and> v < 2 ^ (w - 1)"
  by (auto simp: dec_parse_def Let_def split: if_splits)

lemma dec_parse_unique: "dec_parse w s = Some v \<Longrightarrow> dec_parse w' s = Some u \<Longrightarrow> u = v"
  by (auto simp: dec_parse_def Let_def split: if_splits)

interpretation dec: number_format decimal
proof
  show "- (2 ^ 31) \<le> v \<and> v < 2 ^ 31" if "tq_toInt decimal s = Some v" for s v
    using dec_parse_range [of 32 s v] that by (simp add: decimal_def)
  show "0 \<le> v" if "tq_toInt decimal (c # s) = Some v" "48 \<le> c" "c \<le> 57" for c s v
    using that by (auto simp: decimal_def dec_parse_def Let_def split: if_splits)
  show "- (2 ^ 63) \<le> v \<and> v < 2 ^ 63" if "tq_toLongLong decimal s = Some v" for s v
    using dec_parse_range [of 64 s v] that by (simp add: decimal_def)
  show "tq_toInt decimal (tq_number decimal v) = Some v" if "- (2 ^ 31) \<le> v" "v < 2 ^ 31" for v
    using dec_parse_show [of 32 v] that by (simp add: decimal_def)
  show "tq_toInt decimal (tq_number decimal v) = None \<and> tq_toLongLong decimal (tq_number decimal v) = Some v"
    if "\<not> (- (2 ^ 31) \<le> v \<and> v < 2 ^ 31)" "- (2 ^ 63) \<le> v" "v < 2 ^ 63" for v
  proof -
    have l: "dec_parse 64 (dec_show v) = Some v" using dec_parse_show [of 64 v] that by simp
    moreover have "dec_parse 32 (dec_show v) = None"
    proof (rule ccontr)
      assume "dec_parse 32 (dec_show v) \<noteq> None"
      then obtain u where u: "dec_parse 32 (dec_show v) = Some u" by blast
      then show False using dec_parse_unique [OF l u] dec_parse_range [OF u] that(1) by simp
    qed
    ultimately show ?thesis by (simp add: decimal_def)
  qed
  show "c = 45 \<or> 48 \<le> c \<and> c \<le> 57" if "c \<in> set (tq_number decimal v)" for c v
    using that dec_digits_props [of "nat v"] dec_digits_props [of "nat (- v)"]
    by (auto simp: decimal_def dec_show_def list_all_iff dec_digit_def split: if_splits)
  show "\<exists>c s. tq_number decimal v = c # s \<and> 48 \<le> c \<and> c \<le> 57" if "0 \<le> v" for v
  proof -
    have "list_all dec_digit (dec_digits (nat v))" "dec_digits (nat v) \<noteq> []" using dec_digits_props by blast+
    then show ?thesis using that by (cases "dec_digits (nat v)") (auto simp: decimal_def dec_show_def dec_digit_def)
  qed
  show "length (tq_number decimal v) \<le> 20" if "- (2 ^ 63) \<le> v" "v < 2 ^ 63" for v
  proof -
    have "nat v < 10 ^ Suc 18" "nat (- v) < 10 ^ Suc 18" using that by simp_all
    then have "length (dec_digits (nat v)) \<le> 19" "length (dec_digits (nat (- v))) \<le> 19"
      using dec_digits_length [of _ 18] by simp_all
    then show ?thesis by (simp add: decimal_def dec_show_def)
  qed
qed

section \<open>Decoding ends\<close>

text \<open>Something is read, and it is in front of the new position.\<close>

definition goes_on :: "bytes \<Rightarrow> (nat \<Rightarrow> berror + (bnode option \<times> nat)) \<Rightarrow> bool" where
  "goes_on data dec \<longleftrightarrow> (\<forall>pos n p. dec pos = Inr (n, p) \<longrightarrow> pos \<le> p \<and> (pos < length data \<longrightarrow> pos < p \<and> n \<noteq> None))"

lemma dict_progress: "goes_on data dec \<Longrightarrow> parseDict dec data j off acc pos = Inr (n, p) \<Longrightarrow> pos < p \<and> n \<noteq> None"
proof (induction j arbitrary: acc pos)
  case (Suc j)
  show ?case
  proof (cases "pos < length data \<and> data ! pos \<noteq> 101")
    case True
    then obtain kn p1 key v p2 where d: "dec pos = Inr (kn, p1)" "dec p1 = Inr (v, p2)"
      and l: "parseDict dec data j off (acc @ [(key, v)]) p2 = Inr (n, p)"
      using Suc.prems(2) by (auto split: sum.splits option.splits bvalue.splits)
    have "pos < p1" "p1 \<le> p2" using Suc.prems(1) d True unfolding goes_on_def by blast+
    then show ?thesis using Suc.IH [OF Suc.prems(1) l] by simp
  next
    case False
    then show ?thesis using Suc.prems(2) by auto
  qed
qed simp

lemma list_progress: "goes_on data dec \<Longrightarrow> parseList dec data j off acc pos = Inr (n, p) \<Longrightarrow> pos < p \<and> n \<noteq> None"
proof (induction j arbitrary: acc pos)
  case (Suc j)
  show ?case
  proof (cases "pos < length data \<and> data ! pos \<noteq> 101")
    case True
    then obtain v p1 where d: "dec pos = Inr (v, p1)" and l: "parseList dec data j off (acc @ [v]) p1 = Inr (n, p)"
      using Suc.prems(2) by (auto split: sum.splits)
    have "pos < p1" using Suc.prems(1) d True unfolding goes_on_def by blast
    then show ?thesis using Suc.IH [OF Suc.prems(1) l] by simp
  next
    case False
    then show ?thesis using Suc.prems(2) by auto
  qed
qed simp

text \<open>The loops need one unit of fuel for every byte left and one more, as does what they call.\<close>

lemma dict_fuel:
  assumes "goes_on data dec" "\<forall>q \<ge> pos. dec q \<noteq> Inl OutOfFuel" "length data - pos + 1 \<le> j"
  shows "parseDict dec data j off acc pos \<noteq> Inl OutOfFuel"
  using assms(2,3)
proof (induction j arbitrary: acc pos)
  case (Suc j)
  show ?case
  proof (cases "pos < length data \<and> data ! pos \<noteq> 101")
    case True
    have l: "parseDict dec data j off a p2 \<noteq> Inl OutOfFuel" if "dec pos = Inr (kn, p1)" "dec p1 = Inr (v, p2)" for a kn p1 v p2
    proof -
      have "pos < p1" "p1 \<le> p2" using assms(1) that True unfolding goes_on_def by blast+
      moreover from this have "length data - p2 + 1 \<le> j" using Suc.prems(2) True by arith
      ultimately show ?thesis using Suc.IH [of p2 a] Suc.prems(1) by simp
    qed
    have d1: "dec p1 \<noteq> Inl OutOfFuel" if "dec pos = Inr (kn, p1)" for kn p1
      using assms(1) that Suc.prems(1) unfolding goes_on_def by blast
    show ?thesis
      using True Suc.prems(1) d1 l by (auto split: sum.splits option.splits bvalue.splits)
  next
    case False
    then show ?thesis by auto
  qed
qed simp

lemma list_fuel:
  assumes "goes_on data dec" "\<forall>q \<ge> pos. dec q \<noteq> Inl OutOfFuel" "length data - pos + 1 \<le> j"
  shows "parseList dec data j off acc pos \<noteq> Inl OutOfFuel"
  using assms(2,3)
proof (induction j arbitrary: acc pos)
  case (Suc j)
  show ?case
  proof (cases "pos < length data \<and> data ! pos \<noteq> 101")
    case True
    have l: "parseList dec data j off a p1 \<noteq> Inl OutOfFuel" if "dec pos = Inr (v, p1)" for a v p1
    proof -
      have "pos < p1" using assms(1) that True unfolding goes_on_def by blast
      moreover from this have "length data - p1 + 1 \<le> j" using Suc.prems(2) True by arith
      ultimately show ?thesis using Suc.IH [of p1 a] Suc.prems(1) by simp
    qed
    show ?thesis using True Suc.prems(1) l by (auto split: sum.splits)
  next
    case False
    then show ?thesis by auto
  qed
qed simp

context number_format
begin

lemma string_progress:
  assumes "parseString nf data off = Inr (n, p)" "off < length data" "48 \<le> data ! off \<and> data ! off \<le> 57"
  shows "off < p \<and> n \<noteq> None"
proof -
  have "\<exists>s. takeWhile (\<lambda>c. c \<noteq> 58) (drop off data) = (data ! off) # s"
    using assms(2,3) by (subst Cons_nth_drop_Suc [symmetric]) auto
  then obtain s where s: "takeWhile (\<lambda>c. c \<noteq> 58) (drop off data) = (data ! off) # s" ..
  then show ?thesis
    using assms(1,3) int_digit [of "data ! off" s]
    by (fastforce simp: parseString_def Let_def split: if_splits option.splits)
qed

lemma int_progress: "parseInt nf data off = Inr (n, p) \<Longrightarrow> off < p \<and> n \<noteq> None"
  by (auto simp: parseInt_def Let_def split: if_splits option.splits)

lemma decode_progress: "goes_on data (bdecode k nf data)"
proof (induction k)
  case (Suc k)
  show ?case unfolding goes_on_def
  proof (intro allI impI)
    fix pos n p
    assume r: "bdecode (Suc k) nf data pos = Inr (n, p)"
    have "pos < p \<and> n \<noteq> None" if i: "pos < length data"
    proof -
      let ?c = "data ! pos"
      consider "parseDict (bdecode k nf data) data k pos [] (pos + 1) = Inr (n, p)"
        | "parseList (bdecode k nf data) data k pos [] (pos + 1) = Inr (n, p)"
        | "parseInt nf data pos = Inr (n, p)" | "48 \<le> ?c \<and> ?c \<le> 57" "parseString nf data pos = Inr (n, p)"
        using r i by (auto simp: Let_def split: if_splits)
      then show ?thesis
      proof cases
        case 1
        then show ?thesis using dict_progress [OF Suc.IH 1] by simp
      next
        case 2
        then show ?thesis using list_progress [OF Suc.IH 2] by simp
      next
        case 3
        then show ?thesis by (rule int_progress)
      next
        case 4
        then show ?thesis using string_progress i by blast
      qed
    qed
    then show "pos \<le> p \<and> (pos < length data \<longrightarrow> pos < p \<and> n \<noteq> None)"
      using r by (cases "pos < length data") auto
  qed
qed (simp add: goes_on_def)

lemma decode_fuel: "length data - pos + 1 \<le> k \<Longrightarrow> bdecode k nf data pos \<noteq> Inl OutOfFuel"
proof (induction k arbitrary: pos)
  case (Suc k)
  have leaf: "parseInt nf data pos \<noteq> Inl OutOfFuel" "parseString nf data pos \<noteq> Inl OutOfFuel"
    by (auto simp: parseInt_def parseString_def Let_def split: option.splits)
  show ?case
  proof (cases "pos < length data")
    case True
    then have "length data - (pos + 1) + 1 \<le> k" using Suc.prems by arith
    moreover have "\<forall>q \<ge> pos + 1. bdecode k nf data q \<noteq> Inl OutOfFuel"
      using True Suc.prems by (intro allI impI Suc.IH) arith
    ultimately show ?thesis
      using leaf dict_fuel [OF decode_progress] list_fuel [OF decode_progress] True by (simp add: Let_def)
  qed simp
qed simp

end

section \<open>What is written can be read\<close>

text \<open>The text of a term, and the node that its decoding gives at an offset.\<close>

fun enc :: "tq_numbers \<Rightarrow> bterm \<Rightarrow> bytes"
  and enc_list :: "tq_numbers \<Rightarrow> bterm list \<Rightarrow> bytes"
  and enc_dict :: "tq_numbers \<Rightarrow> (bytes \<times> bterm) list \<Rightarrow> bytes" where
  "enc nf (TInt v) = 105 # tq_number nf v @ [101]"
| "enc nf (TStr s) = tq_number nf (int (length s)) @ 58 # s"
| "enc nf (TList ts) = 108 # enc_list nf ts @ [101]"
| "enc nf (TDict es) = 100 # enc_dict nf es @ [101]"
| "enc_list nf [] = []"
| "enc_list nf (t # ts) = enc nf t @ enc_list nf ts"
| "enc_dict nf [] = []"
| "enc_dict nf ((k, t) # es) = tq_number nf (int (length k)) @ 58 # k @ enc nf t @ enc_dict nf es"

fun node_of :: "tq_numbers \<Rightarrow> bterm \<Rightarrow> nat \<Rightarrow> bnode"
  and nodes_of :: "tq_numbers \<Rightarrow> bterm list \<Rightarrow> nat \<Rightarrow> bnode option list"
  and entries_of :: "tq_numbers \<Rightarrow> (bytes \<times> bterm) list \<Rightarrow> nat \<Rightarrow> (bytes \<times> bnode option) list" where
  "node_of nf (TInt v) off =
     BValueNode (if - (2 ^ 31) \<le> v \<and> v < 2 ^ 31 then VInt v else VInt64 v) off (length (enc nf (TInt v)))"
| "node_of nf (TStr s) off = BValueNode (VString s) off (length (enc nf (TStr s)))"
| "node_of nf (TList ts) off = BListNode (nodes_of nf ts (off + 1)) off (length (enc nf (TList ts)))"
| "node_of nf (TDict es) off = BDictNode (entries_of nf es (off + 1)) off (length (enc nf (TDict es)))"
| "nodes_of nf [] off = []"
| "nodes_of nf (t # ts) off = Some (node_of nf t off) # nodes_of nf ts (off + length (enc nf t))"
| "entries_of nf [] off = []"
| "entries_of nf ((k, t) # es) off =
     (let off = off + length (enc nf (TStr k))
      in (k, Some (node_of nf t off)) # entries_of nf es (off + length (enc nf t)))"

text \<open>The integers of a term fit in 64 bits.\<close>

fun term_ok :: "bterm \<Rightarrow> bool" where
  "term_ok (TInt v) \<longleftrightarrow> - (2 ^ 63) \<le> v \<and> v < 2 ^ 63"
| "term_ok (TStr s) \<longleftrightarrow> True"
| "term_ok (TList ts) \<longleftrightarrow> (\<forall>t \<in> set ts. term_ok t)"
| "term_ok (TDict es) \<longleftrightarrow> (\<forall>e \<in> set es. term_ok (snd e))"

text \<open>The encoder appends that text.\<close>

definition bo_full :: "benc_output \<Rightarrow> bool" where
  "bo_full out \<longleftrightarrow> bo_ptr out = length (bo_data out)"

lemma bo_write_full: "bo_full out \<Longrightarrow> bo_full (bo_write s out) \<and> bo_data (bo_write s out) = bo_data out @ s"
  by (simp add: bo_full_def bo_write_def Let_def memcpy_def)

lemma encode_text:
  "bo_full out \<Longrightarrow> bo_full (encode nf t out) \<and> bo_data (encode nf t out) = bo_data out @ enc nf t"
  "bo_full out \<Longrightarrow> bo_full (encode_list nf ts out) \<and> bo_data (encode_list nf ts out) = bo_data out @ enc_list nf ts"
  "bo_full out \<Longrightarrow> bo_full (encode_dict nf es out) \<and> bo_data (encode_dict nf es out) = bo_data out @ enc_dict nf es"
  by (induction nf t out and nf ts out and nf es out rule: encode_encode_list_encode_dict.induct)
     (simp_all add: be_int_def be_bytes_def beginList_def beginDict_def be_end_def bo_write_full)

lemma takeWhile_text: "\<forall>x \<in> set s. x \<noteq> c \<Longrightarrow> takeWhile (\<lambda>x. x \<noteq> c) (s @ c # r) = s"
  by (induction s) auto

text \<open>A term is read back wherever it stands.\<close>

definition reads :: "tq_numbers \<Rightarrow> bterm \<Rightarrow> bool" where
  "reads nf t \<longleftrightarrow> (\<forall>pre rest k. length (pre @ enc nf t @ rest) < 2 ^ 31 \<longrightarrow> length (enc nf t @ rest) + 1 \<le> k \<longrightarrow>
     bdecode k nf (pre @ enc nf t @ rest) (length pre) =
       Inr (Some (node_of nf t (length pre)), length pre + length (enc nf t)))"

context number_format
begin

lemma number_no: "\<forall>c \<in> set (tq_number nf v). c \<noteq> 101" "\<forall>c \<in> set (tq_number nf v). c \<noteq> 58"
  using number_chars [of _ v] by fastforce+

lemma read_int:
  assumes "- (2 ^ 63) \<le> v" "v < 2 ^ 63"
  shows "parseInt nf (pre @ enc nf (TInt v) @ rest) (length pre) =
    Inr (Some (node_of nf (TInt v) (length pre)), length pre + length (enc nf (TInt v)))"
proof -
  have "takeWhile (\<lambda>c. c \<noteq> 101) (drop (length pre + 1) (pre @ enc nf (TInt v) @ rest)) = tq_number nf v"
    using takeWhile_text [OF number_no(1)] by simp
  then show ?thesis
    using int_number [of v] long_number [of v] assms
    by (cases "- (2 ^ 31) \<le> v \<and> v < 2 ^ 31") (simp_all add: parseInt_def Let_def)
qed

lemma read_string:
  assumes "length (pre @ enc nf (TStr s) @ rest) < 2 ^ 31"
  shows "parseString nf (pre @ enc nf (TStr s) @ rest) (length pre) =
    Inr (Some (node_of nf (TStr s) (length pre)), length pre + length (enc nf (TStr s)))"
proof -
  have "takeWhile (\<lambda>c. c \<noteq> 58) (drop (length pre) (pre @ enc nf (TStr s) @ rest)) = tq_number nf (int (length s))"
    using takeWhile_text [OF number_no(2)] by simp
  moreover have "tq_toInt nf (tq_number nf (int (length s))) = Some (int (length s))"
    using int_number [of "int (length s)"] assms by simp
  ultimately show ?thesis
    using assms by (simp add: parseString_def Let_def nat_add_distrib nat_int_add)
qed

lemma string_start: "\<exists>c r. enc nf (TStr s) = c # r \<and> 48 \<le> c \<and> c \<le> 57"
  using number_digit [of "int (length s)"] by auto

lemma digit_not: "48 \<le> (c :: u8) \<Longrightarrow> c \<le> 57 \<Longrightarrow> c \<noteq> 100 \<and> c \<noteq> 108 \<and> c \<noteq> 105 \<and> c \<noteq> 101"
  by auto

lemma decode_string:
  assumes "length (pre @ enc nf (TStr s) @ rest) < 2 ^ 31" "0 < k"
  shows "bdecode k nf (pre @ enc nf (TStr s) @ rest) (length pre) =
    Inr (Some (node_of nf (TStr s) (length pre)), length pre + length (enc nf (TStr s)))"
proof -
  obtain c r where c: "enc nf (TStr s) = c # r" "48 \<le> c" "c \<le> 57" using string_start by blast
  have "(pre @ enc nf (TStr s) @ rest) ! length pre = c" "length pre < length (pre @ enc nf (TStr s) @ rest)"
    unfolding c(1) by (simp_all add: nth_append)
  then show ?thesis
    using read_string [OF assms(1)] c(2,3) digit_not [OF c(2,3)] assms(2)
    by (cases k) (simp_all add: Let_def del: enc.simps)
qed

lemma readsD:
  "reads nf t \<Longrightarrow> length (pre @ enc nf t @ rest) < 2 ^ 31 \<Longrightarrow> length (enc nf t @ rest) + 1 \<le> k \<Longrightarrow>
   bdecode k nf (pre @ enc nf t @ rest) (length pre) =
     Inr (Some (node_of nf t (length pre)), length pre + length (enc nf t))"
  unfolding reads_def by blast

lemma enc_start: "\<exists>c r. enc nf t = c # r \<and> c \<noteq> 101"
proof (cases t)
  case (TStr s)
  then show ?thesis using string_start [of s] digit_not by auto
qed simp_all

lemma list_read:
  assumes "\<forall>t \<in> set ts. reads nf t" "length (pre @ enc_list nf ts @ 101 # rest) < 2 ^ 31"
    "length (enc_list nf ts @ 101 # rest) + 1 \<le> k" "length (enc_list nf ts @ 101 # rest) + 1 \<le> j"
  shows "parseList (bdecode k nf (pre @ enc_list nf ts @ 101 # rest)) (pre @ enc_list nf ts @ 101 # rest) j off acc (length pre) =
    Inr (Some (BListNode (acc @ nodes_of nf ts (length pre)) off (length pre + length (enc_list nf ts) + 1 - off)),
      length pre + length (enc_list nf ts) + 1)"
  using assms
proof (induction ts arbitrary: pre acc j)
  case Nil
  then show ?case by (cases j) (simp_all add: nth_append)
next
  case (Cons t ts)
  obtain c r where c: "enc nf t = c # r" "c \<noteq> 101" using enc_start by blast
  obtain j' where j: "j = Suc j'" using Cons.prems(4) by (cases j) simp_all
  let ?d = "pre @ enc_list nf (t # ts) @ 101 # rest"
  have d: "?d = pre @ enc nf t @ (enc_list nf ts @ 101 # rest)" by simp
  have d2: "(pre @ enc nf t) @ enc_list nf ts @ 101 # rest = ?d" by simp
  have "?d ! length pre = c" "length pre < length ?d" using c(1) by (simp_all add: nth_append)
  moreover have "reads nf t" using Cons.prems(1) by simp
  then have "bdecode k nf ?d (length pre) = Inr (Some (node_of nf t (length pre)), length pre + length (enc nf t))"
    using Cons.prems(2,3) unfolding reads_def d by simp
  moreover have "parseList (bdecode k nf ((pre @ enc nf t) @ enc_list nf ts @ 101 # rest)) ((pre @ enc nf t) @ enc_list nf ts @ 101 # rest) j' off
      (acc @ [Some (node_of nf t (length pre))]) (length (pre @ enc nf t)) =
    Inr (Some (BListNode ((acc @ [Some (node_of nf t (length pre))]) @
        nodes_of nf ts (length (pre @ enc nf t))) off (length (pre @ enc nf t) + length (enc_list nf ts) + 1 - off)),
      length (pre @ enc nf t) + length (enc_list nf ts) + 1)"
    using Cons.prems j c(1) by (intro Cons.IH) auto
  ultimately show ?case using c(2) unfolding d2 by (simp add: j add.assoc)
qed

lemma dict_read:
  assumes "\<forall>e \<in> set es. reads nf (snd e)" "length (pre @ enc_dict nf es @ 101 # rest) < 2 ^ 31"
    "length (enc_dict nf es @ 101 # rest) + 1 \<le> k" "length (enc_dict nf es @ 101 # rest) + 1 \<le> j"
  shows "parseDict (bdecode k nf (pre @ enc_dict nf es @ 101 # rest)) (pre @ enc_dict nf es @ 101 # rest) j off acc (length pre) =
    Inr (Some (BDictNode (acc @ entries_of nf es (length pre)) off (length pre + length (enc_dict nf es) + 1 - off)),
      length pre + length (enc_dict nf es) + 1)"
  using assms
proof (induction es arbitrary: pre acc j)
  case Nil
  then show ?case by (cases j) (simp_all add: nth_append)
next
  case (Cons e es)
  obtain key t where e: "e = (key, t)" by (cases e)
  let ?ks = "enc nf (TStr key)"
  obtain c r where c: "?ks = c # r" "48 \<le> c" "c \<le> 57" using string_start by blast
  obtain c' r' where c': "enc nf t = c' # r'" using enc_start by blast
  obtain j' where j: "j = Suc j'" using Cons.prems(4) by (cases j) simp_all
  let ?d = "pre @ enc_dict nf (e # es) @ 101 # rest"
  have d: "?d = pre @ ?ks @ (enc nf t @ enc_dict nf es @ 101 # rest)" by (simp add: e)
  have d2: "?d = (pre @ ?ks) @ enc nf t @ (enc_dict nf es @ 101 # rest)" unfolding d by simp
  have d3: "(pre @ ?ks @ enc nf t) @ enc_dict nf es @ 101 # rest = ?d" unfolding d by simp
  have "?d ! length pre = c" "length pre < length ?d" unfolding d c(1) by (simp_all add: nth_append)
  moreover have "bdecode k nf ?d (length pre) = Inr (Some (node_of nf (TStr key) (length pre)), length pre + length ?ks)"
    using Cons.prems(2,3) unfolding d by (intro decode_string) auto
  moreover have "bdecode k nf ?d (length (pre @ ?ks)) =
      Inr (Some (node_of nf t (length (pre @ ?ks))), length (pre @ ?ks) + length (enc nf t))"
    unfolding d2 using Cons.prems(1-3) by (intro readsD) (auto simp: e)
  moreover have "parseDict (bdecode k nf ((pre @ ?ks @ enc nf t) @ enc_dict nf es @ 101 # rest))
      ((pre @ ?ks @ enc nf t) @ enc_dict nf es @ 101 # rest) j' off
      (acc @ [(key, Some (node_of nf t (length (pre @ ?ks))))]) (length (pre @ ?ks @ enc nf t)) =
    Inr (Some (BDictNode ((acc @ [(key, Some (node_of nf t (length (pre @ ?ks))))]) @
        entries_of nf es (length (pre @ ?ks @ enc nf t))) off
        (length (pre @ ?ks @ enc nf t) + length (enc_dict nf es) + 1 - off)),
      length (pre @ ?ks @ enc nf t) + length (enc_dict nf es) + 1)"
    using Cons.prems j e c' by (intro Cons.IH) auto
  ultimately show ?case
    using digit_not [OF c(2,3)] unfolding d3 by (simp add: j e Let_def add.assoc)
qed

lemma all_read: "term_ok t \<Longrightarrow> reads nf t"
proof (induction t)
  case (TInt v)
  show ?case unfolding reads_def
  proof (intro allI impI)
    fix pre rest k
    assume "length (enc nf (TInt v) @ rest) + 1 \<le> k"
    then obtain k' where "k = Suc k'" by (cases k) simp_all
    then show "bdecode k nf (pre @ enc nf (TInt v) @ rest) (length pre) =
       Inr (Some (node_of nf (TInt v) (length pre)), length pre + length (enc nf (TInt v)))"
      using read_int [of v pre rest] TInt by (simp add: nth_append)
  qed
next
  case (TStr s)
  show ?case unfolding reads_def using decode_string [of _ s] by (auto simp del: enc.simps)
next
  case (TList ts)
  then have r: "\<forall>t \<in> set ts. reads nf t" by simp
  show ?case unfolding reads_def
  proof (intro allI impI)
    fix pre rest k
    assume l: "length (pre @ enc nf (TList ts) @ rest) < 2 ^ 31" and f: "length (enc nf (TList ts) @ rest) + 1 \<le> k"
    then obtain k' where k: "k = Suc k'" by (cases k) simp_all
    have "parseList (bdecode k' nf ((pre @ [108]) @ enc_list nf ts @ 101 # rest)) ((pre @ [108]) @ enc_list nf ts @ 101 # rest) k' (length pre) [] (length (pre @ [108])) =
      Inr (Some (BListNode ([] @ nodes_of nf ts (length (pre @ [108]))) (length pre)
        (length (pre @ [108]) + length (enc_list nf ts) + 1 - length pre)), length (pre @ [108]) + length (enc_list nf ts) + 1)"
      using l f k by (intro list_read [OF r]) simp_all
    then show "bdecode k nf (pre @ enc nf (TList ts) @ rest) (length pre) =
       Inr (Some (node_of nf (TList ts) (length pre)), length pre + length (enc nf (TList ts)))"
      using k by (simp add: nth_append)
  qed
next
  case (TDict es)
  then have r: "\<forall>e \<in> set es. reads nf (snd e)" by (metis snds.intros surjective_pairing term_ok.simps(4))
  show ?case unfolding reads_def
  proof (intro allI impI)
    fix pre rest k
    assume l: "length (pre @ enc nf (TDict es) @ rest) < 2 ^ 31" and f: "length (enc nf (TDict es) @ rest) + 1 \<le> k"
    then obtain k' where k: "k = Suc k'" by (cases k) simp_all
    have "parseDict (bdecode k' nf ((pre @ [100]) @ enc_dict nf es @ 101 # rest)) ((pre @ [100]) @ enc_dict nf es @ 101 # rest) k' (length pre) [] (length (pre @ [100])) =
      Inr (Some (BDictNode ([] @ entries_of nf es (length (pre @ [100]))) (length pre)
        (length (pre @ [100]) + length (enc_dict nf es) + 1 - length pre)), length (pre @ [100]) + length (enc_dict nf es) + 1)"
      using l f k by (intro dict_read [OF r]) simp_all
    then show "bdecode k nf (pre @ enc nf (TDict es) @ rest) (length pre) =
       Inr (Some (node_of nf (TDict es) (length pre)), length pre + length (enc nf (TDict es)))"
      using k by (simp add: nth_append)
  qed
qed

end

section \<open>Properties\<close>

text \<open>Claim C33: decoding always ends. From any position of any data the decoder returns a node or throws,
  without running out of the fuel of one call per byte; when something is left to read it returns a
  node, never null, and stands behind the position where it started.\<close>

theorem bdecode_returns:
  assumes "number_format nf"
  shows "(\<exists>e. bdecode_all nf data off = Inl e \<and> e \<noteq> OutOfFuel) \<or>
    (\<exists>n p. bdecode_all nf data off = Inr (n, p) \<and> off \<le> p \<and> (off < length data \<longrightarrow> off < p \<and> n \<noteq> None))"
proof (cases "bdecode_all nf data off")
  case (Inl e)
  then show ?thesis
    using number_format.decode_fuel [OF assms, of data off "length data + 1"] by (auto simp: bdecode_all_def)
next
  case (Inr r)
  obtain n p where "r = (n, p)" by (cases r)
  then show ?thesis
    using Inr number_format.decode_progress [OF assms, of data "length data + 1"]
    unfolding goes_on_def bdecode_all_def by blast
qed

theorem bdecode_returns_witness:
  "(\<exists>e. bdecode_all decimal [108, 105, 51, 101] 0 = Inl e \<and> e \<noteq> OutOfFuel) \<or>
    (\<exists>n p. bdecode_all decimal [108, 105, 51, 101] 0 = Inr (n, p) \<and> 0 \<le> p \<and>
      (0 < length [108, 105, 51, 101 :: u8] \<longrightarrow> 0 < p \<and> n \<noteq> None))"
  by (rule bdecode_returns [OF dec.number_format_axioms])

text \<open>Claim C20: what the encoder writes the decoder reads back. The calls for any term of integers of up
  to 64 bits, strings, lists and dictionaries, nested in any way, produce data that decodes to the
  nodes of that term, with the offset and length of every node, and nothing is left over.\<close>

theorem bencode_round_trip:
  assumes "number_format nf" "term_ok t" "length (bo_data (encode nf t (bo_new []))) < 2 ^ 31"
  shows "bdecode_all nf (bo_data (encode nf t (bo_new []))) 0 =
    Inr (Some (node_of nf t 0), length (bo_data (encode nf t (bo_new []))))"
proof -
  have d: "bo_data (encode nf t (bo_new [])) = enc nf t"
    using encode_text(1) [of "bo_new []" nf t] by (simp add: bo_full_def bo_new_def)
  show ?thesis
    using number_format.readsD [OF assms(1) number_format.all_read [OF assms(1,2)], of "[]" "[]" "length (enc nf t) + 1"] assms(3)
    unfolding d bdecode_all_def by simp
qed

theorem bencode_round_trip_witness:
  "bdecode_all decimal (bo_data (encode decimal (TDict [([109], TList [TInt (- 7), TStr [1, 2]])]) (bo_new []))) 0 =
    Inr (Some (node_of decimal (TDict [([109], TList [TInt (- 7), TStr [1, 2]])]) 0),
      length (bo_data (encode decimal (TDict [([109], TList [TInt (- 7), TStr [1, 2]])]) (bo_new []))))"
proof (rule bencode_round_trip [OF dec.number_format_axioms])
  let ?t = "TDict [([109], TList [TInt (- 7), TStr [1, 2]])]"
  have "bo_data (encode decimal ?t (bo_new [])) = enc decimal ?t"
    using encode_text(1) [of "bo_new []" decimal ?t] by (simp add: bo_full_def bo_new_def)
  moreover have "length (enc decimal ?t) < 2 ^ 31"
    by (simp add: decimal_def dec_show_def dec_digits.simps)
  ultimately show "length (bo_data (encode decimal ?t (bo_new []))) < 2 ^ 31" by simp
qed simp

text \<open>The end of a list or dictionary is not required. Data that ends inside a list is
  accepted as if the list were closed, the decoder then stands behind the end of the data, and a key
  without a value makes an entry whose node is null.\<close>

theorem bdecode_unterminated:
  "bdecode_all nf [108] 0 = Inr (Some (BListNode [] 0 2), 2) \<and>
   bdecode_all decimal [100, 49, 58, 97] 0 = Inr (Some (BDictNode [([97], None)] 0 5), 5)"
proof
  have "bdecode (Suc (Suc 0)) nf [108] 0 = Inr (Some (BListNode [] 0 2), 2)" by (simp del: One_nat_def)
  then show "bdecode_all nf [108] 0 = Inr (Some (BListNode [] 0 2), 2)" by (simp add: bdecode_all_def)
  let ?d = "[100, 49, 58, 97] :: bytes"
  have s: "parseString decimal ?d 1 = Inr (Some (BValueNode (VString [97]) 1 3), 4)"
    by (simp add: parseString_def Let_def decimal_def dec_parse_def dec_digit_def dec_value_def)
  have d: "bdecode (Suc k) decimal ?d 1 = parseString decimal ?d 1" "bdecode (Suc k) decimal ?d 4 = Inr (None, 4)" for k
    by simp_all
  have "bdecode (Suc (Suc (Suc k))) decimal ?d 0 = Inr (Some (BDictNode [([97], None)] 0 5), 5)" for k
    by (subst bdecode.simps(2)) (simp add: d s Let_def del: bdecode.simps(2) One_nat_def)
  note r = this [of 2]
  have "length ?d + 1 = Suc (Suc (Suc 2))" by simp
  then show "bdecode_all decimal ?d 0 = Inr (Some (BDictNode [([97], None)] 0 5), 5)"
    unfolding bdecode_all_def by (simp only: r)
qed

end
