(* ===== verification/Peer.thy ===== *)
theory Peer
  imports PacketReader PacketWriter PeerDownloader ChunkManager Bencode Complex_Main
begin

text \<open>
  One connection: \<^verbatim>\<open>libktorrent/torrent/peer.cpp\<close>, \<^verbatim>\<open>peeruploader.cpp\<close>, \<^verbatim>\<open>utpex.cpp\<close> and
  the extension handshake of \<^verbatim>\<open>packetwriter.cpp\<close>. A peer owns its packet reader, packet writer,
  downloader and uploader, so its record contains them; the peer the downloader sees is made from
  the record before each call, and the packets the downloader sends are moved to the writer after
  it. Signals are returned in the order in which they are emitted. The socket is outside: closing
  it is a flag, and what it answers is an argument. What comes from the surroundings, the clocks,
  the rate of the socket, the port of the server and the number format, is the record \<open>peer_env\<close>.
\<close>

section \<open>State\<close>

type_synonym address = "u32 \<times> u16"

text \<open>\<^verbatim>\<open>std::map<Uint32,net::Address>\<close>: sorted by key; an insert leaves an existing entry alone.\<close>

type_synonym address_map = "(u32 \<times> address) list"

fun am_insert :: "u32 \<Rightarrow> address \<Rightarrow> address_map \<Rightarrow> address_map" where
  "am_insert k a [] = [(k, a)]"
| "am_insert k a ((k', a') # m) =
     (if k < k' then (k, a) # (k', a') # m else if k = k' then (k', a') # m else (k', a') # am_insert k a m)"

definition am_count :: "u32 \<Rightarrow> address_map \<Rightarrow> nat" where
  "am_count k m = (if k \<in> fst ` set m then 1 else 0)"

definition am_erase :: "u32 \<Rightarrow> address_map \<Rightarrow> address_map" where
  "am_erase k m = filter (\<lambda>e. fst e \<noteq> k) m"

record ut_pex =
  ux_id :: u32
  ux_peers :: address_map
  ux_last :: u64

record peer_uploader =
  pu_requests :: "request list"
  pu_uploaded :: u32

record peer_env =
  pe_now :: u64
  pe_clock :: int
  pe_rate :: u32
  pe_port :: u16
  pe_version :: bytes
  pe_numbers :: tq_numbers
  pe_junk :: int

text \<open>\<open>p_reqs_seen\<close> is the number of open requests when \<^verbatim>\<open>getStats\<close> was last called.\<close>

record peer =
  p_id :: u32
  p_peer_id :: bytes
  p_addr :: address
  p_choked :: bool
  p_interested :: bool
  p_am :: peer_am
  p_killed :: bool
  p_open :: bool
  p_time_choked :: u64
  p_time_unchoked :: u64
  p_connect :: int
  p_pieces :: bitset
  p_snub :: int
  p_reader :: packet_reader
  p_writer :: packet_writer
  p_down :: peer_downloader
  p_up :: peer_uploader
  p_dht :: bool
  p_fast :: bool
  p_ext :: bool
  p_local :: bool
  p_bytes_down :: u64
  p_bytes_up :: u64
  p_evil :: bool
  p_aca :: real
  p_reqs_seen :: nat
  p_pex :: "ut_pex option"
  p_pex_allowed :: bool
  p_pex_id :: u32

datatype peer_signal =
  HaveChunk nat
| BitSetReceived bitset
| RerunChoker
| GotPiece u32 u32 bytes
| Rejected "request list"
| GotPort u16
| GotPex bytes

definition UTPex_new :: "u32 \<Rightarrow> ut_pex" where
  "UTPex_new i = \<lparr>ux_id = i, ux_peers = [], ux_last = 0\<rparr>"

definition PeerUploader_new :: peer_uploader where
  "PeerUploader_new = \<lparr>pu_requests = [], pu_uploaded = 0\<rparr>"

definition p_kill :: "peer \<Rightarrow> peer" where
  "p_kill p = p\<lparr>p_open := False, p_killed := True\<rparr>"

definition p_view :: "peer_env \<Rightarrow> peer \<Rightarrow> peer_view" where
  "p_view env p = \<lparr>pv_id = p_id p, pv_choked = p_choked p, pv_rate = pe_rate env, pv_fast = p_fast p,
     pv_bits = p_pieces p\<rparr>"

text \<open>\<^verbatim>\<open>support\<close> is the mask of extensions; the address 0.0.0.0 is refused.\<close>

definition Peer_new :: "peer_env \<Rightarrow> u32 \<Rightarrow> bytes \<Rightarrow> address \<Rightarrow> nat \<Rightarrow> u32 \<Rightarrow> u32 \<Rightarrow> bool \<Rightarrow> peer" where
  "Peer_new env i peer_id addr num_chunks chunk_size support loc =
     (let p = \<lparr>p_id = i, p_peer_id = peer_id, p_addr = addr, p_choked = True, p_interested = False,
        p_am = \<lparr>am_choked = True, am_interested = False, has_upload_slot = False\<rparr>,
        p_killed = False, p_open = True, p_time_choked = pe_now env, p_time_unchoked = 0,
        p_connect = pe_clock env, p_pieces = BitSet_new num_chunks, p_snub = pe_clock env,
        p_reader = PacketReader_new, p_writer = PacketWriter_new,
        p_down = PeerDownloader_new \<lparr>pv_id = i, pv_choked = True, pv_rate = pe_rate env,
          pv_fast = support AND 0x04 \<noteq> 0, pv_bits = BitSet_new num_chunks\<rparr> chunk_size,
        p_up = PeerUploader_new, p_dht = support AND 0x01 \<noteq> 0, p_fast = support AND 0x04 \<noteq> 0,
        p_ext = support AND 0x10 \<noteq> 0, p_local = loc, p_bytes_down = 0, p_bytes_up = 0, p_evil = False, p_aca = 0,
        p_reqs_seen = 0, p_pex = None, p_pex_allowed = (support AND 0x10 \<noteq> 0), p_pex_id = 0\<rparr>
      in if fst addr = 0 then p_kill p else p)"

section \<open>The downloader inside the peer\<close>

definition pd_packet_send :: "pd_packet \<Rightarrow> packet_writer \<Rightarrow> packet_writer" where
  "pd_packet_send k w = (case k of SendRequest r \<Rightarrow> sendRequest w r | SendCancel r \<Rightarrow> sendCancel w r)"

definition p_down_view :: "peer_env \<Rightarrow> peer \<Rightarrow> peer_downloader" where
  "p_down_view env p = (p_down p)\<lparr>pd_peer := Some (p_view env p)\<rparr>"

definition p_down_put :: "peer_downloader \<Rightarrow> peer \<Rightarrow> peer" where
  "p_down_put pd p =
     p\<lparr>p_down := pd\<lparr>pd_sent := []\<rparr>, p_writer := fold pd_packet_send (pd_sent pd) (p_writer p)\<rparr>"

section \<open>Uploading\<close>

definition isSnubbed :: "peer_env \<Rightarrow> peer \<Rightarrow> bool" where
  "isSnubbed env p \<longleftrightarrow> max 0 (pe_clock env - p_snub p) \<ge> 2 * 60 * 1000 \<and> p_reqs_seen p > 0"

definition getStats :: "peer \<Rightarrow> peer" where
  "getStats p = p\<lparr>p_reqs_seen := getNumRequests (p_down p)\<rparr>"

definition addRequest :: "request \<Rightarrow> peer \<Rightarrow> peer" where
  "addRequest r p = p\<lparr>p_up := (p_up p)\<lparr>pu_requests := pu_requests (p_up p) @ [r]\<rparr>\<rparr>"

definition removeRequest :: "request \<Rightarrow> peer \<Rightarrow> peer option" where
  "removeRequest r p = do {
     let p = p\<lparr>p_up := (p_up p)\<lparr>pu_requests := rq_remove r (pu_requests (p_up p))\<rparr>\<rparr>;
     let p = getStats p;
     w \<leftarrow> doNotSendPiece (p_writer p) r (p_fast p);
     Some (p\<lparr>p_writer := w\<rparr>) }"

definition clearAllRequests :: "peer \<Rightarrow> peer option" where
  "clearAllRequests p = do {
     let p = getStats p;
     w \<leftarrow> clearPieces (p_writer p) (p_fast p);
     let w = (if p_fast p then fold (\<lambda>r w. sendReject w r) (pu_requests (p_up p)) w else w);
     Some (p\<lparr>p_writer := w, p_up := (p_up p)\<lparr>pu_requests := []\<rparr>\<rparr>) }"

definition addUploadedBytes :: "u32 \<Rightarrow> peer \<Rightarrow> peer" where
  "addUploadedBytes n p = p\<lparr>p_up := (p_up p)\<lparr>pu_uploaded := pu_uploaded (p_up p) + n\<rparr>\<rparr>"

definition pu_getNumRequests :: "peer \<Rightarrow> nat" where
  "pu_getNumRequests p = length (pu_requests (p_up p)) + getNumDataPacketsToWrite (p_writer p)"

definition reject_request :: "request \<Rightarrow> peer \<Rightarrow> peer" where
  "reject_request r p =
     (let p = getStats p in if p_fast p then p\<lparr>p_writer := sendReject (p_writer p) r\<rparr> else p)"

definition pop_request :: "peer \<Rightarrow> peer" where
  "pop_request p = p\<lparr>p_up := (p_up p)\<lparr>pu_requests := tl (pu_requests (p_up p))\<rparr>\<rparr>"

text \<open>The loop of \<^verbatim>\<open>update\<close>: the answer to the first request is the piece, or a rejection if the peer
  understands one.\<close>

definition serve :: "'k cache_ops \<Rightarrow> u64 \<Rightarrow> request \<Rightarrow> 'k chunk_manager \<Rightarrow> peer \<Rightarrow> ('k chunk_manager \<times> peer) option" where
  "serve ops now r cm p = do {
     (cm, ok) \<leftarrow> grabChunk ops now (unat (rq_index r)) cm;
     let c = cm_chunk cm (unat (rq_index r));
     if ok \<and> ch_data c \<noteq> None then do {
       (w, sent) \<leftarrow> sendChunk (p_writer p) (rq_index r) (rq_off r) (rq_len r) (of_nat (ch_size c)) (ch_data c);
       let p = p\<lparr>p_writer := w\<rparr>;
       Some (cm, pop_request (if \<not> sent then reject_request r p else p)) }
     else Some (cm, pop_request (reject_request r p)) }"

fun serve_all :: "'k cache_ops \<Rightarrow> u64 \<Rightarrow> request list \<Rightarrow> 'k chunk_manager \<Rightarrow> peer \<Rightarrow> ('k chunk_manager \<times> peer) option" where
  "serve_all ops now [] cm p = Some (cm, p)"
| "serve_all ops now (r # rs) cm p =
     (case serve ops now r cm p of None \<Rightarrow> None | Some (cm, p) \<Rightarrow> serve_all ops now rs cm p)"

definition pu_update :: "'k cache_ops \<Rightarrow> peer_env \<Rightarrow> u32 \<Rightarrow> 'k chunk_manager \<Rightarrow> peer \<Rightarrow> ('k chunk_manager \<times> peer \<times> u32) option" where
  "pu_update ops env opt_unchoked cm p =
     (let ret = pu_uploaded (p_up p);
          p = p\<lparr>p_up := (p_up p)\<lparr>pu_uploaded := 0\<rparr>\<rparr>
      in if am_choked (p_am p) then Some (cm, p, ret)
         else if isSnubbed env p \<and> \<not> am_choked (p_am p) \<and> \<not> cm_completed cm \<and> p_id p \<noteq> opt_unchoked then Some (cm, p, ret)
         else (case serve_all ops (pe_now env) (pu_requests (p_up p)) cm p of None \<Rightarrow> None
               | Some (cm, p) \<Rightarrow> Some (cm, p, ret)))"

definition p_choke :: "peer \<Rightarrow> peer option" where
  "p_choke p =
     (if am_choked (p_am p) then Some p
      else case sendChoke (p_am p, p_writer p) of (am, w) \<Rightarrow> clearAllRequests (p\<lparr>p_am := am, p_writer := w\<rparr>))"

definition p_unchoke :: "peer \<Rightarrow> peer" where
  "p_unchoke p = (case sendUnchoke (p_am p, p_writer p) of (am, w) \<Rightarrow> p\<lparr>p_am := am, p_writer := w\<rparr>)"

section \<open>Exchanging peers\<close>

text \<open>Strings: \<^verbatim>\<open>m\<close>, \<^verbatim>\<open>p\<close>, \<^verbatim>\<open>v\<close>, \<^verbatim>\<open>ut_pex\<close>, \<^verbatim>\<open>added\<close>, \<^verbatim>\<open>added.f\<close> and \<^verbatim>\<open>dropped\<close>.\<close>

definition str_ut_pex :: bytes where "str_ut_pex = [117, 116, 95, 112, 101, 120]"
definition str_added :: bytes where "str_added = [97, 100, 100, 101, 100]"
definition str_added_f :: bytes where "str_added_f = [97, 100, 100, 101, 100, 46, 102]"
definition str_dropped :: bytes where "str_dropped = [100, 114, 111, 112, 112, 101, 100]"

definition sendExtProtHandshake :: "peer_env \<Rightarrow> bool \<Rightarrow> packet_writer \<Rightarrow> packet_writer" where
  "sendExtProtHandshake env pex_on w =
     (let nf = pe_numbers env; out = beginDict (bo_new []);
          out = be_bytes nf [109] out;
          out = beginDict out;
          out = be_int nf (if pex_on then 1 else 0) (be_bytes nf str_ut_pex out);
          out = be_end out;
          out = (if pe_port env > 0 then be_int nf (uint (pe_port env)) (be_bytes nf [112] out) else out);
          out = be_bytes nf (pe_version env) (be_bytes nf [118] out);
          out = be_end out
      in sendExtProtMsg w 0 (bo_data out))"

text \<open>\<^verbatim>\<open>encode\<close>: six bytes for each address.\<close>

definition pex_record :: "address \<Rightarrow> bytes" where
  "pex_record a = WriteUint16 (WriteUint32 (replicate 6 0) 0 (fst a)) 4 (snd a)"

definition pex_encode :: "tq_numbers \<Rightarrow> address_map \<Rightarrow> benc_output \<Rightarrow> benc_output" where
  "pex_encode nf ps out =
     (if ps = [] then be_bytes nf [] out else be_bytes nf (concat (map (\<lambda>e. pex_record (snd e)) ps)) out)"

definition needsUpdate :: "u64 \<Rightarrow> ut_pex \<Rightarrow> bool" where
  "needsUpdate now ux \<longleftrightarrow> now - ux_last ux \<ge> 60 * 1000"

text \<open>One connected peer in the loop of \<^verbatim>\<open>update\<close>; the state is the added, the new and the old peers.\<close>

definition pex_collect :: "u32 \<Rightarrow> u32 \<times> address \<Rightarrow> address_map \<times> address_map \<times> address_map \<Rightarrow>
    address_map \<times> address_map \<times> address_map" where
  "pex_collect me e s = (case s of (added, npeers, old) \<Rightarrow>
     if fst e = me then s
     else if am_count (fst e) old = 0 then (am_insert (fst e) (snd e) added, am_insert (fst e) (snd e) npeers, old)
     else (added, am_insert (fst e) (snd e) npeers, am_erase (fst e) old))"

definition pex_message :: "tq_numbers \<Rightarrow> address_map \<Rightarrow> address_map \<Rightarrow> bytes" where
  "pex_message nf added dropped =
     (let out = beginDict (bo_new []);
          out = pex_encode nf added (be_bytes nf str_added out);
          out = be_bytes nf [] (be_bytes nf str_added_f out);
          out = pex_encode nf dropped (be_bytes nf str_dropped out)
      in bo_data (be_end out))"

definition pex_update :: "peer_env \<Rightarrow> u32 \<Rightarrow> (u32 \<times> address) list \<Rightarrow> ut_pex \<Rightarrow> packet_writer \<Rightarrow> ut_pex \<times> packet_writer" where
  "pex_update env me conns ux w =
     (let ux = ux\<lparr>ux_last := pe_now env\<rparr> in
      case fold (pex_collect me) conns ([], [], ux_peers ux) of (added, npeers, dropped) \<Rightarrow>
        (ux\<lparr>ux_peers := npeers\<rparr>,
         if \<not> (dropped = [] \<and> added = [])
         then sendExtProtMsg w (ucast (ux_id ux)) (pex_message (pe_numbers env) added dropped) else w))"

definition handlePexPacket :: "peer_env \<Rightarrow> bytes \<Rightarrow> peer_signal list" where
  "handlePexPacket env packet =
     (if length packet \<le> 2 \<or> packet ! 1 \<noteq> 1 then []
      else case bdecode_all (pe_numbers env) packet 2 of
        Inr (Some (BDictNode d off len), p) \<Rightarrow>
          (case bd_getValue str_added d of
             None \<Rightarrow> []
           | Some (VString s) \<Rightarrow> [GotPex s]
           | Some _ \<Rightarrow> [GotPex []])
      | _ \<Rightarrow> [])"

text \<open>\<^verbatim>\<open>toInt\<close> of a value: a 64-bit value leaves the field that is read uninitialised.\<close>

fun val_toInt :: "int \<Rightarrow> bvalue \<Rightarrow> int" where
  "val_toInt junk (VInt v) = v"
| "val_toInt junk (VInt64 v) = junk"
| "val_toInt junk (VString s) = 0"

definition pex_setID :: "u32 \<Rightarrow> peer \<Rightarrow> peer" where
  "pex_setID i p =
     (let p = p\<lparr>p_pex_id := i\<rparr> in
      case p_pex p of
        Some ux \<Rightarrow> if i > 0 then p\<lparr>p_pex := Some (ux\<lparr>ux_id := i\<rparr>)\<rparr> else p\<lparr>p_pex := None\<rparr>
      | None \<Rightarrow> if i \<noteq> 0 \<and> p_pex_allowed p then p\<lparr>p_pex := Some (UTPex_new i)\<rparr> else p)"

definition handleExtendedPacket :: "peer_env \<Rightarrow> bytes \<Rightarrow> peer \<Rightarrow> peer \<times> peer_signal list" where
  "handleExtendedPacket env packet p =
     (if length packet \<le> 2 \<or> packet ! 1 > 1 then (p, [])
      else if packet ! 1 = 1 then (p, if p_pex p \<noteq> None then handlePexPacket env packet else [])
      else case bdecode_all (pe_numbers env) packet 2 of
        Inr (Some (BDictNode d off len), pos) \<Rightarrow>
          (case bd_getDict [109] d of
             None \<Rightarrow> (p, [])
           | Some m \<Rightarrow> (case bd_getValue str_ut_pex m of
               None \<Rightarrow> (p, [])
             | Some v \<Rightarrow> (pex_setID (of_int (val_toInt (pe_junk env) v)) p, [])))
      | _ \<Rightarrow> (p, []))"

definition p_setPexEnabled :: "peer_env \<Rightarrow> bool \<Rightarrow> peer \<Rightarrow> peer" where
  "p_setPexEnabled env on p =
     (if \<not> p_ext p then p
      else let p = (if p_pex p \<noteq> None \<and> \<not> on then p\<lparr>p_pex := None\<rparr>
                    else if p_pex p = None \<and> on \<and> p_pex_id p > 0 then p\<lparr>p_pex := Some (UTPex_new (p_pex_id p))\<rparr>
                    else p)
           in p\<lparr>p_writer := sendExtProtHandshake env on (p_writer p), p_pex_allowed := on\<rparr>)"

section \<open>Packets\<close>

definition on_choke :: "peer_env \<Rightarrow> peer \<Rightarrow> (peer \<times> peer_signal list) option" where
  "on_choke env p = do {
     let p = (if \<not> p_choked p then p\<lparr>p_time_choked := pe_now env\<rparr> else p);
     let p = p\<lparr>p_choked := True\<rparr>;
     (pd, rejected) \<leftarrow> pd_choked (p_down_view env p);
     Some (p_down_put pd p, [Rejected rejected]) }"

definition on_unchoke :: "peer_env \<Rightarrow> peer \<Rightarrow> peer" where
  "on_unchoke env p = (if p_choked p then p\<lparr>p_time_unchoked := pe_now env\<rparr> else p)\<lparr>p_choked := False\<rparr>"

definition on_have :: "u32 \<Rightarrow> peer \<Rightarrow> peer \<times> peer_signal list" where
  "on_have ch p =
     (if unat ch < bs_num_bits (p_pieces p)
      then (p\<lparr>p_pieces := bs_set (p_pieces p) (unat ch) True\<rparr>, [HaveChunk (unat ch)])
      else (p_kill p, []))"

definition packet_request :: "bytes \<Rightarrow> peer \<Rightarrow> request" where
  "packet_request packet p =
     Request (ReadUint32 packet 1) (ReadUint32 packet 5) (ReadUint32 packet 9) (p_id p)"

definition on_request :: "request \<Rightarrow> peer \<Rightarrow> peer" where
  "on_request r p =
     (if \<not> am_choked (p_am p) then addRequest r p
      else if p_fast p then p\<lparr>p_writer := sendReject (p_writer p) r\<rparr> else p)"

definition on_piece :: "peer_env \<Rightarrow> bytes \<Rightarrow> peer \<Rightarrow> (peer \<times> peer_signal list) option" where
  "on_piece env packet p = do {
     let p = p\<lparr>p_snub := pe_clock env, p_bytes_down := p_bytes_down p + of_nat (length packet - 9), p_evil := False\<rparr>;
     let index = ReadUint32 packet 1;
     let off = ReadUint32 packet 5;
     pd \<leftarrow> pd_piece (p_down_view env p) (Request index off (of_nat (length packet - 9)) (p_id p)) (pe_now env);
     Some (p_down_put pd p, [GotPiece index off (drop 9 packet)]) }"

definition on_rejected :: "peer_env \<Rightarrow> request \<Rightarrow> peer \<Rightarrow> peer \<times> peer_signal list" where
  "on_rejected env r p =
     (case pd_onRejected (p_down_view env p) r of (pd, rejected) \<Rightarrow> (p_down_put pd p, [Rejected rejected]))"

definition packetReady :: "peer_env \<Rightarrow> bytes \<Rightarrow> peer \<Rightarrow> (peer \<times> peer_signal list) option" where
  "packetReady env packet p =
     (if p_killed p \<or> packet = [] then Some (p, [])
      else let type = packet ! 0; len = length packet; bad = Some (p_kill p, []) in
        if type = CHOKE then (if len \<noteq> 1 then bad else on_choke env p)
        else if type = UNCHOKE then (if len \<noteq> 1 then bad else Some (on_unchoke env p, []))
        else if type = INTERESTED then
          (if len \<noteq> 1 then bad else if \<not> p_interested p then Some (p\<lparr>p_interested := True\<rparr>, [RerunChoker]) else Some (p, []))
        else if type = NOT_INTERESTED then
          (if len \<noteq> 1 then bad else if p_interested p then Some (p\<lparr>p_interested := False\<rparr>, [RerunChoker]) else Some (p, []))
        else if type = HAVE then (if len \<noteq> 5 then bad else Some (on_have (ReadUint32 packet 1) p))
        else if type = BITFIELD then
          (if len \<noteq> 1 + bs_num_bytes (p_pieces p) then bad
           else let bs = BitSet_of_data (drop 1 packet) (bs_num_bits (p_pieces p))
                in Some (p\<lparr>p_pieces := bs\<rparr>, [BitSetReceived bs]))
        else if type = REQUEST then (if len \<noteq> 13 then bad else Some (on_request (packet_request packet p) p, []))
        else if type = PIECE then (if len < 9 then bad else on_piece env packet p)
        else if type = CANCEL then
          (if len \<noteq> 13 then bad else map_option (\<lambda>p. (p, [])) (removeRequest (packet_request packet p) p))
        else if type = REJECT_REQUEST then (if len \<noteq> 13 then bad else Some (on_rejected env (packet_request packet p) p))
        else if type = PORT then (if len \<noteq> 3 then bad else Some (p, [GotPort (ReadUint16 packet 1)]))
        else if type = HAVE_ALL then
          (if len \<noteq> 1 then bad
           else let bs = bs_setAll (p_pieces p) True in Some (p\<lparr>p_pieces := bs\<rparr>, [BitSetReceived bs]))
        else if type = HAVE_NONE then
          (if len \<noteq> 1 then bad
           else let bs = bs_setAll (p_pieces p) False in Some (p\<lparr>p_pieces := bs\<rparr>, [BitSetReceived bs]))
        else if type = SUGGEST_PIECE then Some (p, [])
        else if type = ALLOWED_FAST then Some (p, [])
        else if type = EXTENDED then Some (handleExtendedPacket env packet p)
        else Some (p, []))"

fun packets_ready :: "peer_env \<Rightarrow> bytes list \<Rightarrow> peer \<Rightarrow> (peer \<times> peer_signal list) option" where
  "packets_ready env [] p = Some (p, [])"
| "packets_ready env (k # ks) p =
     (case packetReady env k p of None \<Rightarrow> None
      | Some (p, s) \<Rightarrow> (case packets_ready env ks p of None \<Rightarrow> None | Some (p, s') \<Rightarrow> Some (p, s @ s')))"

text \<open>\<^verbatim>\<open>update\<close>: \<open>sock_ok\<close> is what the socket answers, \<open>conns\<close> the peers of the peer manager.\<close>

definition p_count_uploaded :: "peer \<Rightarrow> peer" where
  "p_count_uploaded p =
     (case getUploadedDataBytes (p_writer p) of (w, n) \<Rightarrow>
        let p = p\<lparr>p_writer := w\<rparr>
        in if n > 0 then addUploadedBytes n (p\<lparr>p_bytes_up := p_bytes_up p + ucast n\<rparr>) else p)"

definition p_pex_tick :: "peer_env \<Rightarrow> (u32 \<times> address) list \<Rightarrow> peer \<Rightarrow> peer" where
  "p_pex_tick env conns p =
     (case p_pex p of
        None \<Rightarrow> p
      | Some ux \<Rightarrow>
          if needsUpdate (pe_now env) ux
          then (case pex_update env (p_id p) conns ux (p_writer p) of (ux, w) \<Rightarrow> p\<lparr>p_pex := Some ux, p_writer := w\<rparr>)
          else p)"

definition p_update :: "peer_env \<Rightarrow> bool \<Rightarrow> (u32 \<times> address) list \<Rightarrow> peer \<Rightarrow> (peer \<times> peer_signal list) option" where
  "p_update env sock_ok conns p =
     (if p_killed p then Some (p, [])
      else if \<not> sock_ok \<or> pr_error (p_reader p) then Some (p_kill p, [])
      else case pr_update (p_reader p) of (r, out) \<Rightarrow>
        (case packets_ready env out (p\<lparr>p_reader := r\<rparr>) of
           None \<Rightarrow> None
         | Some (p, sigs) \<Rightarrow> Some (p_pex_tick env conns (p_count_uploaded p), sigs)))"

text \<open>\<^verbatim>\<open>sendData\<close> and \<^verbatim>\<open>readData\<close>: what the socket does is its result and whether it is still usable.\<close>

definition p_transfer :: "u32 \<Rightarrow> bool \<Rightarrow> peer \<Rightarrow> peer \<times> u32" where
  "p_transfer ret sock_ok p =
     (if p_killed p then (p, 0) else (if \<not> sock_ok then p_kill p else p, ret))"

definition isSeeder :: "peer \<Rightarrow> bool" where
  "isSeeder p \<longleftrightarrow> bs_allOn (p_pieces p)"

definition setACAScore :: "real \<Rightarrow> peer \<Rightarrow> peer" where
  "setACAScore x p = p\<lparr>p_aca := x\<rparr>"

definition emitPortPacket :: "peer \<Rightarrow> peer_signal" where
  "emitPortPacket p = GotPort (snd (p_addr p))"

section \<open>Uploading to all peers\<close>

text \<open>\<^verbatim>\<open>Uploader::update\<close> over the peers of the peer manager, and the sum of their rates.\<close>

fun up_update :: "'k cache_ops \<Rightarrow> peer_env \<Rightarrow> u32 \<Rightarrow> 'k chunk_manager \<Rightarrow> u64 \<Rightarrow> peer list \<Rightarrow> ('k chunk_manager \<times> u64 \<times> peer list) option" where
  "up_update ops env opt cm uploaded [] = Some (cm, uploaded, [])"
| "up_update ops env opt cm uploaded (p # ps) =
     (case pu_update ops env opt cm p of None \<Rightarrow> None
      | Some (cm, p, n) \<Rightarrow>
          (case up_update ops env opt cm (uploaded + ucast n) ps of None \<Rightarrow> None
           | Some (cm, uploaded, ps) \<Rightarrow> Some (cm, uploaded, p # ps)))"

end
