(* ===== verification/PeerManager.thy ===== *)
theory PeerManager
  imports Peer ChunkSelector "HOL-Library.List_Lexorder"
begin

text \<open>
  The peers of a torrent: \<^verbatim>\<open>libktorrent/torrent/peermanager.cpp\<close> and the parts of
  \<^verbatim>\<open>authenticate.cpp\<close> that call it. \<^verbatim>\<open>peer_list\<close> holds the peers in the order of their arrival;
  \<^verbatim>\<open>peer_map\<close> has the same peers by number, so only its keys are kept. The static counters are
  fields, which is what one manager sees of them. Strings are bytes; the potential peers are a
  multimap sorted by address. The outgoing connections that are started, and the signals to the
  torrent control, are lists the operations append to.
\<close>

section \<open>State\<close>

record potential_peer =
  pp_ip :: bytes
  pp_port :: u16
  pp_local :: bool

record connect_env =
  ce_blocked :: "bytes \<Rightarrow> bool"
  ce_can_connect :: bool
  ce_encryption :: bool
  ce_unencrypted :: bool
  ce_refused :: "bytes \<Rightarrow> u16 \<Rightarrow> bool"
  ce_aton :: "bytes \<Rightarrow> u32"

text \<open>An outgoing connection that is being authenticated.\<close>

record auth =
  au_ip :: bytes
  au_port :: u16
  au_encrypted :: bool
  au_local :: bool

datatype pm_event = NewPeer u32 | PeerKilled u32 | Stopped

record peer_manager =
  pm_num_chunks :: nat
  pm_chunk_size :: u32
  pm_private :: bool
  pm_peers :: "peer list"
  pm_map :: "u32 list"
  pm_killed :: "peer option list"
  pm_started :: bool
  pm_available :: bitset
  pm_cnt :: chunk_counter
  pm_pending :: u32
  pm_pex_on :: bool
  pm_potential :: "potential_peer list"
  pm_auths :: "auth list"
  pm_events :: "pm_event list"
  pm_next_id :: u32
  pm_max_conn :: u32
  pm_max_total :: u32
  pm_total :: u32

definition PeerManager_new :: "nat \<Rightarrow> u32 \<Rightarrow> bool \<Rightarrow> u32 \<Rightarrow> u32 \<Rightarrow> u32 \<Rightarrow> u32 \<Rightarrow> peer_manager" where
  "PeerManager_new n csize priv next_id max_conn max_total tot =
     \<lparr>pm_num_chunks = n, pm_chunk_size = csize, pm_private = priv, pm_peers = [], pm_map = [], pm_killed = [],
      pm_started = False, pm_available = BitSet_new n, pm_cnt = ChunkCounter_new n, pm_pending = 0,
      pm_pex_on = (\<not> priv), pm_potential = [], pm_auths = [], pm_events = [], pm_next_id = next_id,
      pm_max_conn = max_conn, pm_max_total = max_total, pm_total = tot\<rparr>"

definition pm_emit :: "pm_event \<Rightarrow> peer_manager \<Rightarrow> peer_manager" where
  "pm_emit e pm = pm\<lparr>pm_events := pm_events pm @ [e]\<rparr>"

section \<open>Peers and chunks\<close>

definition updateAvailableChunks :: "peer_manager \<Rightarrow> peer_manager" where
  "updateAvailableChunks pm =
     pm\<lparr>pm_available := fold (\<lambda>i b. bs_set b i (cc_get (pm_cnt pm) i > 0)) [0..<bs_num_bits (pm_available pm)] (pm_available pm)\<rparr>"

definition onHave :: "nat \<Rightarrow> peer_manager \<Rightarrow> peer_manager" where
  "onHave i pm = pm\<lparr>pm_available := bs_set (pm_available pm) i True, pm_cnt := cc_inc i (pm_cnt pm)\<rparr>"

definition onBitSetRecieved :: "bitset \<Rightarrow> peer_manager \<Rightarrow> peer_manager" where
  "onBitSetRecieved bs pm = fold (\<lambda>i pm. if bs_get bs i then onHave i pm else pm) [0..<bs_num_bits bs] pm"

definition onRerunChoker :: "peer_manager \<Rightarrow> peer_manager" where
  "onRerunChoker pm = pm\<lparr>pm_killed := pm_killed pm @ [None]\<rparr>"

definition findPeer :: "u32 \<Rightarrow> peer_manager \<Rightarrow> peer option" where
  "findPeer i pm = (if i \<in> set (pm_map pm) then find (\<lambda>p. p_id p = i) (pm_peers pm) else None)"

definition pm_addresses :: "peer_manager \<Rightarrow> (u32 \<times> address) list" where
  "pm_addresses pm = map (\<lambda>p. (p_id p, p_addr p)) (pm_peers pm)"

section \<open>Potential peers\<close>

text \<open>An insert into the multimap goes behind the entries with the same key.\<close>

definition pp_insert :: "potential_peer \<Rightarrow> potential_peer list \<Rightarrow> potential_peer list" where
  "pp_insert pp l = takeWhile (\<lambda>e. pp_ip e \<le> pp_ip pp) l @ pp # dropWhile (\<lambda>e. pp_ip e \<le> pp_ip pp) l"

definition addPotentialPeer :: "potential_peer \<Rightarrow> peer_manager \<Rightarrow> peer_manager" where
  "addPotentialPeer pp pm =
     (if length (pm_potential pm) > 150 then pm
      else if list_ex (\<lambda>e. pp_ip e = pp_ip pp \<and> pp_port e = pp_port pp) (pm_potential pm) then pm
      else pm\<lparr>pm_potential := pp_insert pp (pm_potential pm)\<rparr>)"

definition peerSourceReady :: "potential_peer list \<Rightarrow> peer_manager \<Rightarrow> peer_manager" where
  "peerSourceReady pps pm = fold addPotentialPeer pps pm"

definition ip_string :: "tq_numbers \<Rightarrow> u32 \<Rightarrow> bytes" where
  "ip_string nf ip =
     (let n = (\<lambda>x :: u32. tq_number nf (uint x))
      in n (drop_bit 24 (ip AND 0xFF000000)) @ 46 # n (drop_bit 16 (ip AND 0x00FF0000)) @ 46 #
         n (drop_bit 8 (ip AND 0x0000FF00)) @ 46 # n (ip AND 0x000000FF))"

text \<open>\<^verbatim>\<open>pex\<close>: records of six bytes, while there are six.\<close>

fun pex_peers :: "tq_numbers \<Rightarrow> bytes \<Rightarrow> potential_peer list" where
  "pex_peers nf (a # b # c # d # e # f # rest) =
     (let tmp = [a, b, c, d, e, f]
      in \<lparr>pp_ip = ip_string nf (ReadUint32 tmp 0), pp_port = ReadUint16 tmp 4, pp_local = False\<rparr> # pex_peers nf rest)"
| "pex_peers nf _ = []"

definition pm_pex :: "tq_numbers \<Rightarrow> bytes \<Rightarrow> peer_manager \<Rightarrow> peer_manager" where
  "pm_pex nf arr pm = (if \<not> pm_pex_on pm then pm else fold addPotentialPeer (pex_peers nf arr) pm)"

text \<open>What the signals of a peer do here.\<close>

definition pm_signal :: "tq_numbers \<Rightarrow> peer_signal \<Rightarrow> peer_manager \<Rightarrow> peer_manager" where
  "pm_signal nf s pm = (case s of
     HaveChunk i \<Rightarrow> onHave i pm
   | BitSetReceived bs \<Rightarrow> onBitSetRecieved bs pm
   | RerunChoker \<Rightarrow> onRerunChoker pm
   | GotPex d \<Rightarrow> pm_pex nf d pm
   | _ \<Rightarrow> pm)"

section \<open>Connections\<close>

definition connectedToPeer :: "bytes \<Rightarrow> peer_manager \<Rightarrow> bool" where
  "connectedToPeer peer_id pm \<longleftrightarrow> pm_started pm \<and> list_ex (\<lambda>p. p_peer_id p = peer_id) (pm_peers pm)"

definition connectedTo :: "tq_numbers \<Rightarrow> bytes \<Rightarrow> u16 \<Rightarrow> peer_manager \<Rightarrow> bool" where
  "connectedTo nf ip port pm \<longleftrightarrow>
     list_ex (\<lambda>i. case findPeer i pm of None \<Rightarrow> False
       | Some p \<Rightarrow> snd (p_addr p) = port \<and> ip_string nf (fst (p_addr p)) = ip) (pm_map pm)"

definition createPeer :: "peer_env \<Rightarrow> bytes \<Rightarrow> address \<Rightarrow> u32 \<Rightarrow> bool \<Rightarrow> peer_manager \<Rightarrow> peer_manager" where
  "createPeer env peer_id addr support loc pm =
     (let p = Peer_new env (pm_next_id pm) peer_id addr (pm_num_chunks pm) (pm_chunk_size pm) support loc;
          pm = pm\<lparr>pm_next_id := pm_next_id pm + 1, pm_map := insort_insert (p_id p) (pm_map pm), pm_total := pm_total pm + 1\<rparr>;
          pm = pm_emit (NewPeer (p_id p)) pm
      in pm\<lparr>pm_peers := pm_peers pm @ [p_setPexEnabled env (pm_pex_on pm) p]\<rparr>)"

text \<open>The counters when an authentication ended.\<close>

definition auth_ended :: "peer_manager \<Rightarrow> peer_manager" where
  "auth_ended pm = pm\<lparr>pm_total := (if pm_total pm > 0 then pm_total pm - 1 else pm_total pm), pm_pending := pm_pending pm - 1\<rparr>"

text \<open>Starting one: the constructor reports a connection that is refused at once before it is counted.\<close>

definition start_auth :: "connect_env \<Rightarrow> auth \<Rightarrow> peer_manager \<Rightarrow> peer_manager" where
  "start_auth ce a pm =
     (let pm = (if ce_refused ce (au_ip a) (au_port a) \<and> pm_started pm then auth_ended pm else pm)
      in pm\<lparr>pm_auths := pm_auths pm @ [a], pm_pending := pm_pending pm + 1, pm_total := pm_total pm + 1\<rparr>)"

definition peerAuthenticated :: "peer_env \<Rightarrow> connect_env \<Rightarrow> auth \<Rightarrow> bool \<Rightarrow> bytes \<Rightarrow> address \<Rightarrow> u32 \<Rightarrow> peer_manager \<Rightarrow> peer_manager" where
  "peerAuthenticated env ce a ok peer_id addr support pm =
     (if \<not> pm_started pm then pm
      else let pm = auth_ended pm in
        if \<not> ok then
          (if au_encrypted a \<and> ce_unencrypted ce then start_auth ce (a\<lparr>au_encrypted := False\<rparr>) pm else pm)
        else if connectedToPeer peer_id pm then pm
        else createPeer env peer_id addr support (au_local a) pm)"

definition MAX_SIMULTANIOUS_AUTHS :: u32 where
  "MAX_SIMULTANIOUS_AUTHS = 20"

definition connect_one :: "tq_numbers \<Rightarrow> connect_env \<Rightarrow> potential_peer \<Rightarrow> peer_manager \<Rightarrow> peer_manager" where
  "connect_one nf ce pp pm =
     (if \<not> ce_blocked ce (pp_ip pp) \<and> \<not> connectedTo nf (pp_ip pp) (pp_port pp) pm
      then start_auth ce \<lparr>au_ip = pp_ip pp, au_port = pp_port pp, au_encrypted = ce_encryption ce, au_local = pp_local pp\<rparr> pm
      else pm)"

fun connect_loop :: "tq_numbers \<Rightarrow> connect_env \<Rightarrow> nat \<Rightarrow> peer_manager \<Rightarrow> peer_manager" where
  "connect_loop nf ce 0 pm = pm"
| "connect_loop nf ce (Suc n) pm =
     (if pm_pending pm > MAX_SIMULTANIOUS_AUTHS then pm
      else case pm_potential pm of
        [] \<Rightarrow> pm
      | pp # rest \<Rightarrow> connect_loop nf ce n ((connect_one nf ce pp pm)\<lparr>pm_potential := rest\<rparr>))"

definition connect_num :: "peer_manager \<Rightarrow> u32" where
  "connect_num pm =
     (let sz = of_nat (length (pm_potential pm));
          n = (if pm_max_conn pm > 0 then
                 let available = pm_max_conn pm - (of_nat (length (pm_peers pm)) + pm_pending pm)
                 in if available \<ge> sz then sz else available
               else sz)
      in if n + pm_total pm \<ge> pm_max_total pm \<and> pm_max_total pm > 0 then pm_max_total pm - pm_total pm else n)"

definition connectToPeers :: "tq_numbers \<Rightarrow> connect_env \<Rightarrow> peer_manager \<Rightarrow> peer_manager" where
  "connectToPeers nf ce pm =
     (if pm_potential pm = [] then pm
      else if of_nat (length (pm_peers pm)) + pm_pending pm \<ge> pm_max_conn pm \<and> pm_max_conn pm > 0 then pm
      else if pm_total pm \<ge> pm_max_total pm \<and> pm_max_total pm > 0 then pm
      else if pm_pending pm > MAX_SIMULTANIOUS_AUTHS then pm
      else if \<not> ce_can_connect ce then pm
      else connect_loop nf ce (unat (connect_num pm)) pm)"

section \<open>Killing\<close>

definition pm_kill_where :: "(peer \<Rightarrow> bool) \<Rightarrow> peer_manager \<Rightarrow> peer_manager" where
  "pm_kill_where P pm = pm\<lparr>pm_peers := map (\<lambda>p. if P p then p_kill p else p) (pm_peers pm)\<rparr>"

text \<open>\<^verbatim>\<open>killChokedPeers\<close> stops after twenty.\<close>

fun kill_choked :: "u64 \<Rightarrow> u32 \<Rightarrow> nat \<Rightarrow> peer list \<Rightarrow> peer list" where
  "kill_choked now older n [] = []"
| "kill_choked now older n (p # ps) =
     (if n < 20 then
        (if p_choked p \<and> now - p_time_choked p > ucast older then p_kill p # kill_choked now older (n + 1) ps
         else p # kill_choked now older n ps)
      else p # ps)"

definition killChokedPeers :: "u64 \<Rightarrow> u32 \<Rightarrow> peer_manager \<Rightarrow> peer_manager" where
  "killChokedPeers now older pm = pm\<lparr>pm_peers := kill_choked now older 0 (pm_peers pm)\<rparr>"

definition killSeeders :: "peer_manager \<Rightarrow> peer_manager" where
  "killSeeders = pm_kill_where isSeeder"

definition killUninterested :: "int \<Rightarrow> peer_manager \<Rightarrow> peer_manager" where
  "killUninterested clock = pm_kill_where (\<lambda>p. \<not> p_interested p \<and> (clock - p_connect p) div 1000 > 30)"

definition bad_peer :: "peer_manager \<Rightarrow> u32 \<Rightarrow> bool" where
  "bad_peer pm i = (case findPeer i pm of None \<Rightarrow> False | Some p \<Rightarrow> p_aca p \<le> -5 \<and> p_aca p > -50)"

definition killBadPeer :: "peer_manager \<Rightarrow> peer_manager \<times> bool" where
  "killBadPeer pm =
     (case find (bad_peer pm) (pm_map pm) of
        None \<Rightarrow> (pm, False)
      | Some i \<Rightarrow> (pm_kill_where (\<lambda>p. p_id p = i) pm, True))"

definition newConnection :: "peer_env \<Rightarrow> bytes \<Rightarrow> address \<Rightarrow> u32 \<Rightarrow> peer_manager \<Rightarrow> peer_manager" where
  "newConnection env peer_id addr support pm =
     (let n = of_nat (length (pm_peers pm)) + pm_pending pm;
          local_not_ok = (pm_max_conn pm > 0 \<and> n \<ge> pm_max_conn pm);
          global_not_ok = (pm_max_total pm > 0 \<and> pm_total pm \<ge> pm_max_total pm)
      in if \<not> pm_started pm \<or> local_not_ok \<or> global_not_ok then
           (case killBadPeer pm of (pm, found) \<Rightarrow>
              if \<not> found then pm else createPeer env peer_id addr support False pm)
         else createPeer env peer_id addr support False pm)"

section \<open>Updates\<close>

definition pm_remove :: "peer \<Rightarrow> peer_manager \<Rightarrow> peer_manager" where
  "pm_remove p pm =
     (let pm = pm\<lparr>pm_cnt := cc_decBitSet (p_pieces p) (pm_cnt pm)\<rparr>;
          pm = updateAvailableChunks pm;
          pm = pm\<lparr>pm_killed := pm_killed pm @ [Some p], pm_map := removeAll (p_id p) (pm_map pm)\<rparr>;
          pm = (if pm_total pm > 0 then pm\<lparr>pm_total := pm_total pm - 1\<rparr> else pm)
      in pm_emit (PeerKilled (p_id p)) pm)"

text \<open>The loop over the peers: \<open>seen\<close> are those in front of the iterator.\<close>

fun update_loop :: "peer_env \<Rightarrow> (u32 \<Rightarrow> bool) \<Rightarrow> peer list \<Rightarrow> peer list \<Rightarrow> peer_manager \<Rightarrow> peer_manager option" where
  "update_loop env sock seen [] pm = Some (pm\<lparr>pm_peers := seen\<rparr>)"
| "update_loop env sock seen (p # ps) pm =
     (if p_killed p then update_loop env sock seen ps (pm_remove p (pm\<lparr>pm_peers := seen @ ps\<rparr>))
      else (case p_update env (sock (p_id p)) (pm_addresses (pm\<lparr>pm_peers := seen @ p # ps\<rparr>)) p of
          None \<Rightarrow> None
        | Some (p, sigs) \<Rightarrow>
            update_loop env sock (seen @ [p]) ps
              (fold (pm_signal (pe_numbers env)) sigs (pm\<lparr>pm_peers := seen @ p # ps\<rparr>))))"

definition pm_update :: "peer_env \<Rightarrow> connect_env \<Rightarrow> (u32 \<Rightarrow> bool) \<Rightarrow> peer_manager \<Rightarrow> peer_manager option" where
  "pm_update env ce sock pm =
     (if \<not> pm_started pm then Some pm
      else map_option (connectToPeers (pe_numbers env) ce) (update_loop env sock [] (pm_peers pm) pm))"

definition clearDeadPeers :: "peer_manager \<Rightarrow> peer_manager \<times> nat" where
  "clearDeadPeers pm = (pm\<lparr>pm_killed := []\<rparr>, length (pm_killed pm))"

definition closeAllConnections :: "peer_manager \<Rightarrow> peer_manager" where
  "closeAllConnections pm =
     pm\<lparr>pm_killed := [],
        pm_total := (if of_nat (length (pm_peers pm)) \<le> pm_total pm then pm_total pm - of_nat (length (pm_peers pm)) else 0),
        pm_map := [], pm_peers := []\<rparr>"

definition pm_start :: "peer_manager \<Rightarrow> peer_manager" where
  "pm_start pm = pm\<lparr>pm_started := True\<rparr>"

text \<open>\<^verbatim>\<open>stopped\<close> makes every running authentication forget the manager and end.\<close>

definition pm_stop :: "peer_manager \<Rightarrow> peer_manager" where
  "pm_stop pm =
     (let pm = pm\<lparr>pm_cnt := cc_reset (pm_cnt pm), pm_available := bs_clear (pm_available pm), pm_started := False\<rparr>;
          pm = (pm_emit Stopped pm)\<lparr>pm_auths := []\<rparr>
      in pm\<lparr>pm_pending := 0\<rparr>)"

definition pm_setPexEnabled :: "peer_env \<Rightarrow> bool \<Rightarrow> peer_manager \<Rightarrow> peer_manager" where
  "pm_setPexEnabled env on pm =
     (if on \<and> pm_private pm then pm
      else if pm_pex_on pm = on then pm
      else pm\<lparr>pm_peers := map (\<lambda>p. if \<not> p_killed p then p_setPexEnabled env on p else p) (pm_peers pm), pm_pex_on := on\<rparr>)"

definition setMaxTotalConnections :: "u32 \<Rightarrow> u32 \<Rightarrow> peer_manager \<Rightarrow> peer_manager" where
  "setMaxTotalConnections max_open_files m pm =
     (let sys_max = max_open_files - 50
      in pm\<lparr>pm_max_total := (if m = 0 \<or> m > sys_max then sys_max else m)\<rparr>)"

definition setMaxConnections :: "u32 \<Rightarrow> peer_manager \<Rightarrow> peer_manager" where
  "setMaxConnections m pm = pm\<lparr>pm_max_conn := m\<rparr>"

section \<open>The file of peers\<close>

definition PEER_LIST_HDR_MAGIC :: u32 where
  "PEER_LIST_HDR_MAGIC = 0xEF12AB34"

record peer_list_file =
  pl_magic :: u32
  pl_num :: u32
  pl_version :: u32
  pl_entries :: "address list"

definition savePeerList :: "connect_env \<Rightarrow> peer_manager \<Rightarrow> peer_list_file" where
  "savePeerList ce pm =
     \<lparr>pl_magic = PEER_LIST_HDR_MAGIC, pl_num = of_nat (length (pm_peers pm) + length (pm_potential pm)), pl_version = 4,
      pl_entries = map p_addr (pm_peers pm) @ map (\<lambda>pp. (ce_aton ce (pp_ip pp), pp_port pp)) (pm_potential pm)\<rparr>"

text \<open>The end of the file is only seen after a read has failed, so the entry behind the last is
  taken from what the memory holds, \<open>junk\<close>.\<close>

fun load_entries :: "tq_numbers \<Rightarrow> address \<Rightarrow> nat \<Rightarrow> address list \<Rightarrow> peer_manager \<Rightarrow> peer_manager" where
  "load_entries nf junk 0 es pm = pm"
| "load_entries nf junk (Suc n) [] pm =
     addPotentialPeer \<lparr>pp_ip = ip_string nf (fst junk), pp_port = snd junk, pp_local = False\<rparr> pm"
| "load_entries nf junk (Suc n) (e # es) pm =
     load_entries nf junk n es (addPotentialPeer \<lparr>pp_ip = ip_string nf (fst e), pp_port = snd e, pp_local = False\<rparr> pm)"

definition loadPeerList :: "tq_numbers \<Rightarrow> address \<Rightarrow> peer_list_file \<Rightarrow> peer_manager \<Rightarrow> peer_manager" where
  "loadPeerList nf junk f pm =
     (if pl_magic f \<noteq> PEER_LIST_HDR_MAGIC \<or> pl_version f \<noteq> 4 then pm
      else load_entries nf junk (unat (pl_num f)) (pl_entries f) pm)"

end
