(* ===== verification/PeerProps.thy ===== *)
theory PeerProps
  imports Peer ChunkManagerInv
begin

text \<open>
  What holds of a connection. First the messages of the peer exchange and of the extension
  handshake as terms, which are read back; then the invariant of a peer over all its operations,
  how requests are answered and what choking does to them, and what malformed packets do.
\<close>

lemma ReadUint32_at: "length pre = off \<Longrightarrow> ReadUint32 (pre @ u32_bytes v @ ys) off = v"
  by (simp add: ReadUint32_def nth_append u32_bytes_def join_bytes32)

section \<open>Messages as terms\<close>

definition pex_term :: "address_map \<Rightarrow> address_map \<Rightarrow> bterm" where
  "pex_term added dropped = TDict
     [(str_added, TStr (concat (map (\<lambda>e. pex_record (snd e)) added))), (str_added_f, TStr []),
      (str_dropped, TStr (concat (map (\<lambda>e. pex_record (snd e)) dropped)))]"

definition handshake_term :: "peer_env \<Rightarrow> bool \<Rightarrow> bterm" where
  "handshake_term env on = TDict
     ([([109], TDict [(str_ut_pex, TInt (if on then 1 else 0))])] @
      (if pe_port env > 0 then [([112], TInt (uint (pe_port env)))] else []) @
      [([118], TStr (pe_version env))])"

lemma bo_full_new: "bo_full (bo_new [])" "bo_data (bo_new []) = []"
  by (simp_all add: bo_full_def bo_new_def)

lemma encode_calls: "be_bytes nf s out = encode nf (TStr s) out" "be_int nf v out = encode nf (TInt v) out"
  by simp_all

lemma pex_encode_str: "pex_encode nf ps out = be_bytes nf (concat (map (\<lambda>e. pex_record (snd e)) ps)) out"
  by (simp add: pex_encode_def)

lemma pex_message_text: "pex_message nf added dropped = enc nf (pex_term added dropped)"
proof -
  have "pex_message nf added dropped = bo_data (encode nf (pex_term added dropped) (bo_new []))"
    by (simp add: pex_message_def pex_term_def pex_encode_str)
  then show ?thesis using encode_text(1) [OF bo_full_new(1)] by (simp add: bo_full_new)
qed

lemma handshake_text: "sendExtProtHandshake env on w = sendExtProtMsg w 0 (enc (pe_numbers env) (handshake_term env on))"
proof -
  have "sendExtProtHandshake env on w =
      sendExtProtMsg w 0 (bo_data (encode (pe_numbers env) (handshake_term env on) (bo_new [])))"
    by (simp add: sendExtProtHandshake_def handshake_term_def Let_def)
  then show ?thesis using encode_text(1) [OF bo_full_new(1)] by (simp add: bo_full_new)
qed

lemma pex_record_length [simp]: "length (pex_record a) = 6"
  by (simp add: pex_record_def)

lemma pex_records_length [simp]: "length (concat (map (\<lambda>e. pex_record (snd e)) ps)) = 6 * length ps"
  by (induction ps) simp_all

text \<open>The surroundings are reasonable.\<close>

definition env_ok :: "peer_env \<Rightarrow> bool" where
  "env_ok env \<longleftrightarrow> number_format (pe_numbers env) \<and> length (pe_version env) < 2 ^ 16"

definition MAX_CONNECTED :: nat where
  "MAX_CONNECTED = 2 ^ 20"

lemma pex_message_length:
  assumes "number_format nf" "length added \<le> MAX_CONNECTED" "length dropped \<le> MAX_CONNECTED"
  shows "length (enc nf (pex_term added dropped)) < 2 ^ 30"
proof -
  have n: "length (tq_number nf (int k)) \<le> 20" if "k < 2 ^ 62" for k
    using number_format.number_length [OF assms(1), of "int k"] that by simp
  have "length (tq_number nf (int (6 * length ps))) \<le> 20" if "length ps \<le> MAX_CONNECTED" for ps :: address_map
    using that by (intro n) (simp add: MAX_CONNECTED_def)
  from this [OF assms(2)] this [OF assms(3)] show ?thesis
    using n [of 0] n [of 5] n [of 7] assms(2,3)
    by (simp add: pex_term_def str_added_def str_added_f_def str_dropped_def MAX_CONNECTED_def)
qed

lemma handshake_length:
  assumes "env_ok env"
  shows "length (enc (pe_numbers env) (handshake_term env on)) < 2 ^ 30"
proof -
  let ?nf = "pe_numbers env"
  have f: "number_format ?nf" and v: "length (pe_version env) < 2 ^ 16" using assms by (simp_all add: env_ok_def)
  have n: "length (tq_number ?nf k) \<le> 20" if "0 \<le> k" "k < 2 ^ 62" for k
    using number_format.number_length [OF f, of k] that by simp
  have "uint (pe_port env) < 2 ^ 16" using uint_lt2p [of "pe_port env"] by simp
  then have "length (tq_number ?nf (uint (pe_port env))) \<le> 20" by (intro n) simp_all
  then show ?thesis
    using n [of 0] n [of 1] n [of 6] n [of "int (length (pe_version env))"] v
    by (auto simp: handshake_term_def str_ut_pex_def)
qed

lemma decode_message:
  assumes "number_format nf" "term_ok t" "length (enc nf t) < 2 ^ 30"
  shows "bdecode_all nf (a # b # enc nf t) 2 = Inr (Some (node_of nf t 2), 2 + length (enc nf t))"
proof -
  have "length ([a, b] @ enc nf t @ []) < 2 ^ 31" using assms(3) by simp
  from number_format.readsD [OF assms(1) number_format.all_read [OF assms(1,2)] this, of "length (enc nf t) + 3"]
  have r: "bdecode (length (enc nf t) + 3) nf (a # b # enc nf t) (length [a, b]) =
      Inr (Some (node_of nf t (length [a, b])), length [a, b] + length (enc nf t))" by simp
  have "length (a # b # enc nf t) + 1 = length (enc nf t) + 3" "length [a, b] = 2" by simp_all
  then show ?thesis using r unfolding bdecode_all_def by metis
qed

section \<open>Writers\<close>

definition pw_fine :: "packet_writer \<Rightarrow> bool" where
  "pw_fine w \<longleftrightarrow> (\<exists>L. pw_ok L w)"

lemma pw_ok_mono:
  assumes "pw_ok L w" "L \<le> L'"
  shows "pw_ok L' w"
proof -
  have "length (pk_data (pw_at w a)) \<le> L'" if "a \<in> set (pw_control w @ pw_data w)" for a
    using assms that le_trans [of _ L L'] unfolding pw_ok_def by blast
  then show ?thesis using assms unfolding pw_ok_def by (meson le_trans)
qed

lemma pw_fine_new [inv_intro]: "pw_fine PacketWriter_new"
  using pw_ok_new [of 17] by (auto simp: pw_fine_def)

lemma pw_fine_queue:
  assumes "pw_fine w" "pk_ok p" "pk_written p = 0" "pk_getType p = PIECE \<longrightarrow> 17 \<le> length (pk_data p)"
  shows "pw_fine (queuePacket w p)"
proof -
  obtain L where L: "pw_ok L w" using assms(1) by (auto simp: pw_fine_def)
  let ?L = "max L (length (pk_data p))"
  have "pw_ok ?L w" using pw_ok_mono [OF L] by simp
  moreover have "pk_fresh ?L p" using assms by (simp add: pk_fresh_def)
  ultimately show ?thesis using pw_ok_queue by (auto simp: pw_fine_def)
qed

lemma pw_fine_request: "t \<noteq> PIECE \<Longrightarrow> pw_fine w \<Longrightarrow> pw_fine (queuePacket w (Packet_request r t))"
  using Packet_fixed_ok(4) [of r t] getType_frame [OF Packet_request_data, of r t] by (intro pw_fine_queue) simp_all

lemma pw_fine_sends [inv_intro]:
  "pw_fine w \<Longrightarrow> pw_fine (sendRequest w r)" "pw_fine w \<Longrightarrow> pw_fine (sendCancel w r)"
  "pw_fine w \<Longrightarrow> pw_fine (sendReject w r)"
  by (simp_all add: sendRequest_def sendCancel_def sendReject_def pw_fine_request message_ids)

lemma pw_fine_type [inv_intro]: "t \<noteq> PIECE \<Longrightarrow> pw_fine w \<Longrightarrow> pw_fine (queuePacket w (Packet_type t))"
  using Packet_fixed_ok(1) [of t] by (intro pw_fine_queue) simp_all

lemma pw_fine_ext [inv_intro]: "length d < 2 ^ 30 \<Longrightarrow> pw_fine w \<Longrightarrow> pw_fine (sendExtProtMsg w i d)"
  unfolding sendExtProtMsg_def
  by (rule pw_fine_queue) (simp_all add: Packet_ext_data getType_frame [OF Packet_ext_data(1)] message_ids)

lemma pw_fine_chunk [inv_intro]:
  assumes "sendChunk w i b n s d = Some (w', sent)" "pw_fine w" "4 \<le> unat n"
  shows "pw_fine w'"
proof (cases sent)
  case True
  then obtain d' p where p: "Packet_piece i b n d' = Some p" "w' = queuePacket w p"
    using assms(1) by (auto simp: sendChunk_def split: if_splits option.splits)
  note P = Packet_piece_Some [OF p(1)]
  have "17 \<le> length (pk_data p)" using P(1,6) assms(3) by simp
  then show ?thesis using p P assms(2) by (simp add: pw_fine_queue)
next
  case False
  then show ?thesis using assms by (auto simp: sendChunk_def split: if_splits option.splits)
qed

lemma pw_fine_fold [inv_intro]:
  "pw_fine w \<Longrightarrow> pw_fine (fold (\<lambda>r w. sendReject w r) rs w)"
  "pw_fine w \<Longrightarrow> pw_fine (fold pd_packet_send ks w)"
  by (induction rs arbitrary: w; simp add: inv_intro; fail)
     (induction ks arbitrary: w; auto simp: pd_packet_send_def inv_intro split: pd_packet.split; fail)

lemma pw_fine_clear: "pw_fine w \<Longrightarrow> \<exists>w'. clearPieces w rej = Some w' \<and> pw_fine w'"
  unfolding pw_fine_def clearPieces_def
  using clear_walk_effect [OF _ subset_refl] by (metis distinct_append pw_ok_def)

lemma pw_fine_doNotSend: "pw_fine w \<Longrightarrow> \<exists>w'. doNotSendPiece w req rej = Some w' \<and> pw_fine w'"
  unfolding pw_fine_def doNotSendPiece_def
  using doNotSend_walk_effect [OF _ subset_refl] by (metis distinct_append pw_ok_def)

lemma pw_fine_write:
  assumes "pw_fine w"
  shows "\<exists>w' out. onReadyToWrite w m = Some (w', out) \<and> pw_fine w'"
proof -
  obtain L where "pw_ok L w" using assms by (auto simp: pw_fine_def)
  then show ?thesis using onReadyToWrite_effect [of L w m] unfolding pw_fine_def by blast
qed

lemma pw_fine_uploaded [simp]: "pw_fine (w\<lparr>pw_uploaded := n\<rparr>) = pw_fine w"
  by (simp add: pw_fine_def pw_ok_def pw_at_def front_def)

section \<open>The invariant of a peer\<close>

definition peer_base :: "nat \<Rightarrow> peer \<Rightarrow> bool" where
  "peer_base N p \<longleftrightarrow> bs_ok (p_pieces p) \<and> bs_num_bits (p_pieces p) = N \<and> pw_fine (p_writer p) \<and>
     pr_ok (p_reader p) \<and> pd_sent (p_down p) = [] \<and>
     (\<forall>r \<in> set (pu_requests (p_up p)). rq_peer r = p_id p \<and> 4 \<le> unat (rq_len r)) \<and>
     (\<forall>ux. p_pex p = Some ux \<longrightarrow> length (ux_peers ux) \<le> MAX_CONNECTED)"

text \<open>A peer that is choked has no requests waiting.\<close>

definition peer_ok :: "nat \<Rightarrow> peer \<Rightarrow> bool" where
  "peer_ok N p \<longleftrightarrow> peer_base N p \<and> (am_choked (p_am p) \<longrightarrow> pu_requests (p_up p) = [])"

lemma peer_base_kill [simp]: "peer_base N (p_kill p) = peer_base N p"
  by (simp add: peer_base_def p_kill_def)

lemma peer_ok_kill [simp]: "peer_ok N (p_kill p) = peer_ok N p"
  by (simp add: peer_ok_def) (simp add: p_kill_def)

lemma peer_base_writer: "peer_base N p \<Longrightarrow> pw_fine w \<Longrightarrow> peer_base N (p\<lparr>p_writer := w\<rparr>)"
  by (simp add: peer_base_def)

lemma peer_ok_new:
  assumes "N < 2 ^ 32"
  shows "peer_ok N (Peer_new env i pid addr N cs support loc)"
  using bs_ok_new [OF assms] pr_ok_new pw_fine_new
  by (simp add: Peer_new_def Let_def peer_ok_def peer_base_def PeerUploader_new_def PeerDownloader_new_def
      bs_new_fields p_kill_def)

lemma peer_base_removeRequest:
  assumes "peer_base N p"
  shows "\<exists>p'. removeRequest r p = Some p' \<and> peer_base N p' \<and> p_am p' = p_am p \<and>
    set (pu_requests (p_up p')) \<subseteq> set (pu_requests (p_up p))"
proof -
  have "pw_fine (p_writer p)" using assms by (simp add: peer_base_def)
  from pw_fine_doNotSend [OF this] obtain w where "doNotSendPiece (p_writer p) r (p_fast p) = Some w" "pw_fine w"
    by blast
  then show ?thesis using assms by (auto simp: removeRequest_def getStats_def peer_base_def rq_remove_def)
qed

lemma peer_ok_removeRequest: "peer_ok N p \<Longrightarrow> \<exists>p'. removeRequest r p = Some p' \<and> peer_ok N p'"
  using peer_base_removeRequest [of N p r] by (fastforce simp: peer_ok_def)

lemma peer_base_clearAll:
  assumes "peer_base N p"
  shows "\<exists>p'. clearAllRequests p = Some p' \<and> peer_base N p' \<and> p_am p' = p_am p \<and> pu_requests (p_up p') = []"
proof -
  have "pw_fine (p_writer p)" using assms by (simp add: peer_base_def)
  from pw_fine_clear [OF this] obtain w where "clearPieces (p_writer p) (p_fast p) = Some w" "pw_fine w"
    by blast
  then show ?thesis
    using assms by (auto simp: clearAllRequests_def getStats_def peer_base_def Let_def inv_intro)
qed

lemma peer_ok_choke:
  assumes "peer_ok N p"
  shows "\<exists>p'. p_choke p = Some p' \<and> peer_ok N p' \<and> am_choked (p_am p')"
proof (cases "am_choked (p_am p)")
  case False
  let ?p = "p\<lparr>p_am := fst (sendChoke (p_am p, p_writer p)), p_writer := snd (sendChoke (p_am p, p_writer p))\<rparr>"
  have "pw_fine (snd (sendChoke (p_am p, p_writer p)))"
    using assms by (simp add: sendChoke_def peer_ok_def peer_base_def inv_intro message_ids)
  then have "peer_base N ?p" using assms by (simp add: peer_ok_def peer_base_def)
  moreover have "p_choke p = clearAllRequests ?p" "am_choked (p_am ?p)"
    using False by (simp_all add: p_choke_def sendChoke_def)
  ultimately show ?thesis using peer_base_clearAll [of N ?p] by (auto simp: peer_ok_def)
qed (use assms in \<open>simp add: p_choke_def\<close>)

lemma peer_ok_unchoke: "peer_ok N p \<Longrightarrow> peer_ok N (p_unchoke p)"
  by (auto simp: p_unchoke_def sendUnchoke_def peer_ok_def peer_base_def inv_intro message_ids)

lemma peer_ok_down_put:
  assumes "peer_ok N p" "p' = p_down_put pd p"
  shows "peer_ok N p'"
  using assms by (simp add: p_down_put_def peer_ok_def peer_base_def inv_intro)

lemma down_view_total:
  "\<exists>x. pd_choked (p_down_view env p) = Some x" "\<exists>pd. pd_piece (p_down_view env p) r now = Some pd"
  by (auto simp: pd_choked_def p_down_view_def pd_piece_def pd_update_def Let_def)

lemma peer_ok_pex: "peer_ok N p \<Longrightarrow> peer_ok N (pex_setID i p)"
  unfolding pex_setID_def Let_def
  by (auto simp: peer_ok_def peer_base_def UTPex_new_def split: option.split)

lemma peer_ok_extended: "peer_ok N p \<Longrightarrow> peer_ok N (fst (handleExtendedPacket env k p))"
  by (auto simp: handleExtendedPacket_def peer_ok_pex split: sum.split option.split bnode.split prod.split)

lemma peer_ok_pieces:
  "peer_ok N p \<Longrightarrow> bs_ok bs \<Longrightarrow> bs_num_bits bs = N \<Longrightarrow> peer_ok N (p\<lparr>p_pieces := bs\<rparr>)"
  by (simp add: peer_ok_def peer_base_def)

text \<open>A request for fewer than four bytes leads to a read outside the packet when it is cancelled, see
  below; a peer is polite when it makes none.\<close>

definition polite :: "bytes \<Rightarrow> bool" where
  "polite k \<longleftrightarrow> (k \<noteq> [] \<and> k ! 0 = REQUEST \<longrightarrow> 4 \<le> unat (ReadUint32 k 9))"

lemma peer_ok_on_request:
  assumes "peer_ok N p" "rq_peer r = p_id p" "4 \<le> unat (rq_len r)"
  shows "peer_ok N (on_request r p)"
  using assms by (auto simp: on_request_def addRequest_def peer_ok_def peer_base_def inv_intro)

text \<open>A handler returns, with a peer that is fine.\<close>

definition gives_ok :: "nat \<Rightarrow> (peer \<times> peer_signal list) option \<Rightarrow> bool" where
  "gives_ok N r \<longleftrightarrow> (\<exists>p s. r = Some (p, s) \<and> peer_ok N p)"

lemma gives_ok_Some [simp]: "gives_ok N (Some r) = peer_ok N (fst r)"
  by (cases r) (simp add: gives_ok_def)

lemma gives_ok_if: "(c \<Longrightarrow> gives_ok N a) \<Longrightarrow> (\<not> c \<Longrightarrow> gives_ok N b) \<Longrightarrow> gives_ok N (if c then a else b)"
  by simp

lemma ok_on_choke: "peer_ok N p \<Longrightarrow> gives_ok N (on_choke env p)"
proof -
  assume ok: "peer_ok N p"
  define q where "q = (if \<not> p_choked p then p\<lparr>p_time_choked := pe_now env\<rparr> else p)\<lparr>p_choked := True\<rparr>"
  have q: "peer_ok N q" using ok by (simp add: q_def peer_ok_def peer_base_def)
  obtain pd rej where "pd_choked (p_down_view env q) = Some (pd, rej)" using down_view_total(1) by fastforce
  then show ?thesis
    using peer_ok_down_put [OF q refl] by (simp add: on_choke_def q_def Let_def)
qed

lemma ok_on_piece: "peer_ok N p \<Longrightarrow> gives_ok N (on_piece env k p)"
proof -
  assume ok: "peer_ok N p"
  define q where "q = p\<lparr>p_snub := pe_clock env, p_bytes_down := p_bytes_down p + of_nat (length k - 9), p_evil := False\<rparr>"
  have q: "peer_ok N q" using ok by (simp add: q_def peer_ok_def peer_base_def)
  obtain pd where "pd_piece (p_down_view env q) (Request (ReadUint32 k 1) (ReadUint32 k 5)
      (of_nat (length k - 9)) (p_id q)) (pe_now env) = Some pd" using down_view_total(2) by blast
  then show ?thesis
    using peer_ok_down_put [OF q refl] by (simp add: on_piece_def q_def Let_def)
qed

lemma ok_on_unchoke: "peer_ok N p \<Longrightarrow> peer_ok N (on_unchoke env p)"
  by (simp add: on_unchoke_def peer_ok_def peer_base_def)

lemma ok_on_have: "peer_ok N p \<Longrightarrow> peer_ok N (fst (on_have ch p))"
  by (auto simp: on_have_def intro!: peer_ok_pieces inv_intro) (simp_all add: peer_ok_def peer_base_def)

lemma ok_on_rejected: "peer_ok N p \<Longrightarrow> peer_ok N (fst (on_rejected env r p))"
  using peer_ok_down_put [OF _ refl] by (simp add: on_rejected_def split: prod.split)

lemma ok_bitfield:
  assumes "peer_ok N p" "length k = 1 + bs_num_bytes (p_pieces p)"
  shows "peer_ok N (p\<lparr>p_pieces := BitSet_of_data (drop 1 k) (bs_num_bits (p_pieces p))\<rparr>)"
proof (rule peer_ok_pieces [OF assms(1)])
  have b: "bs_ok (p_pieces p)" "bs_num_bits (p_pieces p) = N" using assms(1) by (simp_all add: peer_ok_def peer_base_def)
  then show "bs_ok (BitSet_of_data (drop 1 k) (bs_num_bits (p_pieces p)))"
    using assms(2) by (intro bs_ok_of_data) (simp_all add: bs_ok_def)
  show "bs_num_bits (BitSet_of_data (drop 1 k) (bs_num_bits (p_pieces p))) = N"
    using b by (simp add: BitSet_of_data_def Let_def)
qed

lemma ok_setAll: "peer_ok N p \<Longrightarrow> peer_ok N (p\<lparr>p_pieces := bs_setAll (p_pieces p) on\<rparr>)"
  using bs_ok_setAll [OF bs_ok_shape]
  by (intro peer_ok_pieces) (simp_all add: peer_ok_def peer_base_def bs_setAll_def)

lemma packetReady_ok:
  assumes ok: "peer_ok N p" and polite: "polite k"
  shows "gives_ok N (packetReady env k p)"
proof -
  have req: "peer_ok N (on_request (packet_request k p) p)" if "k \<noteq> []" "k ! 0 = REQUEST"
    using peer_ok_on_request [OF ok] polite that by (simp add: polite_def packet_request_def Request_def)
  have cancel: "gives_ok N (map_option (\<lambda>p. (p, [])) (removeRequest r p))" for r
    using peer_ok_removeRequest [OF ok, of r] by (auto simp: gives_ok_def)
  have interest: "peer_ok N (p\<lparr>p_interested := i\<rparr>)" for i using ok by (simp add: peer_ok_def peer_base_def)
  show ?thesis
    unfolding packetReady_def Let_def
    by (intro gives_ok_if)
       (simp_all add: ok ok_on_choke ok_on_piece ok_on_unchoke ok_on_have ok_on_rejected ok_bitfield [simplified] ok_setAll
         req cancel interest peer_ok_extended)
qed

lemma packets_ready_ok:
  "peer_ok N p \<Longrightarrow> \<forall>k \<in> set ks. polite k \<Longrightarrow> gives_ok N (packets_ready env ks p)"
proof (induction ks arbitrary: p)
  case (Cons k ks)
  then have "gives_ok N (packetReady env k p)" by (intro packetReady_ok) simp_all
  then obtain p1 s where "packetReady env k p = Some (p1, s)" "peer_ok N p1" by (auto simp: gives_ok_def)
  then show ?case using Cons.IH [of p1] Cons.prems by (auto simp: gives_ok_def)
qed simp

section \<open>Updates, uploads and runs\<close>

lemma am_insert_length: "length (am_insert k a m) \<le> Suc (length m)"
  by (induction m rule: am_insert.induct) auto

lemma pex_collect_length:
  "fold (pex_collect me) es (added, npeers, old) = (a, n, d) \<Longrightarrow>
   length a \<le> length added + length es \<and> length n \<le> length npeers + length es \<and> length d \<le> length old"
proof (induction es arbitrary: added npeers old)
  case (Cons e es)
  obtain added' npeers' old' where s: "pex_collect me e (added, npeers, old) = (added', npeers', old')"
    by (metis prod_cases3)
  have "length added' \<le> Suc (length added)" "length npeers' \<le> Suc (length npeers)" "length old' \<le> length old"
    using s am_insert_length [of "fst e" "snd e" added] am_insert_length [of "fst e" "snd e" npeers]
    by (auto simp: pex_collect_def am_erase_def split: if_splits)
  then show ?case using Cons.IH [of added' npeers' old'] Cons.prems s by fastforce
qed simp

lemma peer_ok_pex_update:
  assumes "peer_ok N p" "p_pex p = Some ux" "env_ok env" "length conns \<le> MAX_CONNECTED"
    "pex_update env me conns ux (p_writer p) = (ux', w)"
  shows "peer_ok N (p\<lparr>p_pex := Some ux', p_writer := w\<rparr>)"
proof -
  obtain a n d where c: "fold (pex_collect me) conns ([], [], ux_peers ux) = (a, n, d)" by (metis prod_cases3)
  have ux: "length (ux_peers ux) \<le> MAX_CONNECTED" and f: "pw_fine (p_writer p)"
    using assms(1,2) by (simp_all add: peer_ok_def peer_base_def)
  have l: "length a \<le> MAX_CONNECTED" "length n \<le> MAX_CONNECTED" "length d \<le> MAX_CONNECTED"
    using pex_collect_length [OF c] assms(4) ux by simp_all
  have "length (pex_message (pe_numbers env) a d) < 2 ^ 30"
    using pex_message_length [of "pe_numbers env" a d] assms(3) l(1,3) by (simp add: pex_message_text env_ok_def)
  then have "pw_fine w \<and> ux_peers ux' = n"
    using assms(5) c f by (auto simp: pex_update_def Let_def intro: pw_fine_ext split: if_splits)
  then show ?thesis using assms(1) l(2) by (simp add: peer_ok_def peer_base_def)
qed

lemma peer_ok_pex_tick:
  "peer_ok N p \<Longrightarrow> env_ok env \<Longrightarrow> length conns \<le> MAX_CONNECTED \<Longrightarrow> peer_ok N (p_pex_tick env conns p)"
  using peer_ok_pex_update [of N p _ env conns] by (auto simp: p_pex_tick_def split: option.split prod.split)

lemma p_update_ok:
  assumes ok: "peer_ok N p" and env: "env_ok env" "length conns \<le> MAX_CONNECTED"
    and polite: "\<forall>k \<in> set (snd (pr_update (p_reader p))). polite k"
  shows "gives_ok N (p_update env sock_ok conns p)"
proof (cases "p_killed p \<or> \<not> sock_ok \<or> pr_error (p_reader p)")
  case True
  then show ?thesis using ok by (auto simp: p_update_def)
next
  case False
  obtain r out where u: "pr_update (p_reader p) = (r, out)" by (cases "pr_update (p_reader p)")
  have "pr_ok (p_reader p)" using ok by (simp add: peer_ok_def peer_base_def)
  then have "pr_ok r" using pr_update_effect [OF _ u] by blast
  then have "peer_ok N (p\<lparr>p_reader := r\<rparr>)" using ok by (simp add: peer_ok_def peer_base_def)
  then obtain q sigs where q: "packets_ready env out (p\<lparr>p_reader := r\<rparr>) = Some (q, sigs)" "peer_ok N q"
    using packets_ready_ok [of N "p\<lparr>p_reader := r\<rparr>" out env] polite u by (auto simp: gives_ok_def)
  have "peer_ok N (p_count_uploaded q)"
    using q(2)
    by (simp add: p_count_uploaded_def getUploadedDataBytes_def addUploadedBytes_def Let_def peer_ok_def peer_base_def)
  then show ?thesis
    using False u q(1) peer_ok_pex_tick [OF _ env] by (simp add: p_update_def)
qed

lemma peer_ok_reject: "peer_ok N p \<Longrightarrow> peer_ok N (reject_request r p)"
  by (simp add: reject_request_def getStats_def Let_def peer_ok_def peer_base_def inv_intro)

lemma set_tl_subset: "set (tl xs) \<subseteq> set xs"
  by (cases xs) auto

lemma peer_ok_pop: "peer_ok N p \<Longrightarrow> peer_ok N (pop_request p)"
  using set_tl_subset [of "pu_requests (p_up p)"] by (fastforce simp: pop_request_def peer_ok_def peer_base_def)

lemma serve_ok:
  assumes "serve ops now r cm p = Some (cm', p')" "peer_ok N p" "4 \<le> unat (rq_len r)"
  shows "peer_ok N p' \<and> pu_requests (p_up p') = tl (pu_requests (p_up p)) \<and> p_am p' = p_am p"
proof -
  obtain cm1 ok where g: "grabChunk ops now (unat (rq_index r)) cm = Some (cm1, ok)"
    using assms(1) by (auto simp: serve_def Option.bind_eq_Some_conv)
  let ?c = "cm_chunk cm1 (unat (rq_index r))"
  have pop: "pu_requests (p_up (pop_request q)) = tl (pu_requests (p_up q)) \<and> p_am (pop_request q) = p_am q" for q
    by (simp add: pop_request_def)
  have rej: "pu_requests (p_up (reject_request r q)) = pu_requests (p_up q) \<and> p_am (reject_request r q) = p_am q" for q
    by (simp add: reject_request_def getStats_def Let_def)
  show ?thesis
  proof (cases "ok \<and> ch_data ?c \<noteq> None")
    case True
    then obtain w sent where s: "sendChunk (p_writer p) (rq_index r) (rq_off r) (rq_len r) (of_nat (ch_size ?c)) (ch_data ?c) = Some (w, sent)"
      "p' = pop_request (if \<not> sent then reject_request r (p\<lparr>p_writer := w\<rparr>) else p\<lparr>p_writer := w\<rparr>)"
      using assms(1) g by (auto simp: serve_def Let_def Option.bind_eq_Some_conv)
    have "pw_fine w" using pw_fine_chunk [OF s(1)] assms by (simp add: peer_ok_def peer_base_def)
    then have "peer_ok N (p\<lparr>p_writer := w\<rparr>)" using assms(2) by (simp add: peer_ok_def peer_base_def)
    then show ?thesis using s(2) pop rej by (auto intro: peer_ok_pop peer_ok_reject)
  next
    case False
    then have "p' = pop_request (reject_request r p)" using assms(1) g by (auto simp: serve_def Let_def split: if_splits)
    then show ?thesis using assms(2) pop rej by (auto intro: peer_ok_pop peer_ok_reject)
  qed
qed

lemma serve_all_ok:
  "serve_all ops now rs cm p = Some (cm', p') \<Longrightarrow> peer_ok N p \<Longrightarrow> pu_requests (p_up p) = rs \<Longrightarrow>
   peer_ok N p' \<and> pu_requests (p_up p') = [] \<and> p_am p' = p_am p"
proof (induction rs arbitrary: cm p)
  case (Cons r rs)
  obtain cm1 p1 where s: "serve ops now r cm p = Some (cm1, p1)" "serve_all ops now rs cm1 p1 = Some (cm', p')"
    using Cons.prems(1) by (auto split: option.splits)
  have "4 \<le> unat (rq_len r)" using Cons.prems(2,3) by (simp add: peer_ok_def peer_base_def)
  then have "peer_ok N p1 \<and> pu_requests (p_up p1) = rs \<and> p_am p1 = p_am p"
    using serve_ok [OF s(1) Cons.prems(2)] Cons.prems(3) by simp
  then show ?case using Cons.IH [OF s(2)] by simp
qed simp

lemma pu_update_ok:
  assumes "pu_update ops env opt cm p = Some (cm', p', n)" "peer_ok N p"
  shows "peer_ok N p'"
proof -
  let ?p = "p\<lparr>p_up := (p_up p)\<lparr>pu_uploaded := 0\<rparr>\<rparr>"
  have ok: "peer_ok N ?p" using assms(2) by (simp add: peer_ok_def peer_base_def)
  have "p' = ?p \<or> serve_all ops (pe_now env) (pu_requests (p_up p)) cm ?p = Some (cm', p')"
    using assms(1) by (auto simp: pu_update_def Let_def split: if_splits option.splits)
  then show ?thesis using ok by (auto dest: serve_all_ok [OF _ ok])
qed

lemma peer_ok_setPex:
  assumes "peer_ok N p" "env_ok env"
  shows "peer_ok N (p_setPexEnabled env on p)"
proof (cases "p_ext p")
  case True
  let ?q = "if p_pex p \<noteq> None \<and> \<not> on then p\<lparr>p_pex := None\<rparr>
     else if p_pex p = None \<and> on \<and> p_pex_id p > 0 then p\<lparr>p_pex := Some (UTPex_new (p_pex_id p))\<rparr> else p"
  have q: "peer_ok N ?q" using assms(1) by (auto simp: peer_ok_def peer_base_def UTPex_new_def)
  then have "pw_fine (sendExtProtHandshake env on (p_writer ?q))"
    using handshake_length [OF assms(2)] by (simp add: handshake_text pw_fine_ext peer_ok_def peer_base_def)
  then show ?thesis
    using True q by (simp add: p_setPexEnabled_def Let_def peer_ok_def peer_base_def)
qed (use assms in \<open>simp add: p_setPexEnabled_def\<close>)

text \<open>What happens to a peer: data arrives from the network thread, the upload thread takes bytes,
  and the main thread updates it, which delivers its packets, serves its requests, chokes and unchokes it, tells it about
  interest and chunks, and switches the peer exchange.\<close>

inductive peer_run :: "'k cache_ops \<Rightarrow> nat \<Rightarrow> peer \<Rightarrow> bool" for ops N where
  run_new: "peer_run ops N (Peer_new env i pid addr N cs support loc)"
| run_data: "peer_run ops N p \<Longrightarrow> onDataReady (p_reader p) buf = Some r \<Longrightarrow> peer_run ops N (p\<lparr>p_reader := r\<rparr>)"
| run_write: "peer_run ops N p \<Longrightarrow> onReadyToWrite (p_writer p) m = Some (w, out) \<Longrightarrow> peer_run ops N (p\<lparr>p_writer := w\<rparr>)"
| run_update: "peer_run ops N p \<Longrightarrow> env_ok env \<Longrightarrow> length conns \<le> MAX_CONNECTED \<Longrightarrow>
    \<forall>k \<in> set (snd (pr_update (p_reader p))). polite k \<Longrightarrow>
    p_update env sock_ok conns p = Some (p', sigs) \<Longrightarrow> peer_run ops N p'"
| run_packet: "peer_run ops N p \<Longrightarrow> polite k \<Longrightarrow> packetReady env k p = Some (p', sigs) \<Longrightarrow> peer_run ops N p'"
| run_serve: "peer_run ops N p \<Longrightarrow> pu_update ops env opt cm p = Some (cm', p', n) \<Longrightarrow> peer_run ops N p'"
| run_choke: "peer_run ops N p \<Longrightarrow> p_choke p = Some p' \<Longrightarrow> peer_run ops N p'"
| run_unchoke: "peer_run ops N p \<Longrightarrow> peer_run ops N (p_unchoke p)"
| run_interest: "peer_run ops N p \<Longrightarrow> (am, w) \<in> {sendInterested (p_am p, p_writer p), sendNotInterested (p_am p, p_writer p)} \<Longrightarrow>
    peer_run ops N (p\<lparr>p_am := am, p_writer := w\<rparr>)"
| run_have: "peer_run ops N p \<Longrightarrow> peer_run ops N (p\<lparr>p_writer := sendHave (p_writer p) ch\<rparr>)"
| run_pex: "peer_run ops N p \<Longrightarrow> env_ok env \<Longrightarrow> peer_run ops N (p_setPexEnabled env on p)"
| run_kill: "peer_run ops N p \<Longrightarrow> peer_run ops N (p_kill p)"

lemma pw_fine_have: "pw_fine w \<Longrightarrow> pw_fine (sendHave w ch)"
  unfolding sendHave_def
  using Packet_fixed_ok(3) [of ch HAVE] getType_frame [OF Packet_chunk_data, of ch HAVE]
  by (intro pw_fine_queue) (simp_all add: message_ids)

lemma peer_run_ok:
  assumes "N < 2 ^ 32" "peer_run ops N p"
  shows "peer_ok N p"
  using assms(2)
proof induction
  case (run_data p buf r)
  then have "pr_ok r" using onDataReady_effect [of "p_reader p" buf] by (auto simp: peer_ok_def peer_base_def)
  then show ?case using run_data.IH by (simp add: peer_ok_def peer_base_def)
next
  case (run_write p m w out)
  then have "pw_fine w" using pw_fine_write [of "p_writer p" m] by (simp add: peer_ok_def peer_base_def)
  then show ?case using run_write.IH by (simp add: peer_ok_def peer_base_def)
next
  case (run_update p env conns sock_ok p' sigs)
  then show ?case using p_update_ok [of N p env conns sock_ok] by (simp add: gives_ok_def)
next
  case (run_packet p k env p' sigs)
  then show ?case using packetReady_ok [of N p k env] by (simp add: gives_ok_def)
next
  case (run_choke p p')
  then show ?case using peer_ok_choke [of N p] by simp
next
  case (run_interest p am w)
  then have "pw_fine w \<and> am_choked am = am_choked (p_am p)"
    by (auto simp: sendInterested_def sendNotInterested_def peer_ok_def peer_base_def inv_intro message_ids split: if_splits)
  then show ?case using run_interest.IH by (simp add: peer_ok_def peer_base_def)
next
  case (run_have p ch)
  then show ?case using pw_fine_have by (simp add: peer_ok_def peer_base_def)
qed (use assms(1) in \<open>auto intro: peer_ok_new pu_update_ok peer_ok_unchoke peer_ok_setPex\<close>)

section \<open>What a request is answered with\<close>

abbreviation data_frames :: "packet_writer \<Rightarrow> bytes list" where
  "data_frames w \<equiv> frames_at w (pw_data w)"

abbreviation control_frames :: "packet_writer \<Rightarrow> bytes list" where
  "control_frames w \<equiv> frames_at w (pw_control w)"

lemma frames_queue:
  assumes "pw_ok L w"
  shows "data_frames (queuePacket w p) = data_frames w @ (if pk_getType p = PIECE then [pk_data p] else [])"
    "control_frames (queuePacket w p) = control_frames w @ (if pk_getType p = PIECE then [] else [pk_data p])"
  using pw_ok_at_old [OF assms, of _ p] by (auto simp: frames_at_def pw_at_def)

definition piece_answer :: "request \<Rightarrow> bytes \<Rightarrow> bool" where
  "piece_answer r f \<longleftrightarrow> (\<exists>content. length content = unat (rq_len r) \<and>
     f = frame_bytes (PIECE # u32_bytes (rq_index r) @ u32_bytes (rq_off r) @ content))"

definition reject_answer :: "request \<Rightarrow> bytes" where
  "reject_answer r = frame_bytes (REJECT_REQUEST # u32_bytes (rq_index r) @ u32_bytes (rq_off r) @ u32_bytes (rq_len r))"

lemma Packet_request_getType [simp]: "pk_getType (Packet_request r t) = t"
  by (rule getType_frame [OF Packet_request_data])

lemma frames_reject:
  assumes "pw_fine w"
  shows "data_frames (sendReject w r) = data_frames w" "control_frames (sendReject w r) = control_frames w @ [reject_answer r]"
proof -
  obtain L where "pw_ok L w" using assms by (auto simp: pw_fine_def)
  note q = frames_queue [OF this]
  show "data_frames (sendReject w r) = data_frames w" "control_frames (sendReject w r) = control_frames w @ [reject_answer r]"
    unfolding sendReject_def q by (simp_all add: message_ids reject_answer_def Packet_request_data)
qed

lemma frames_chunk:
  assumes "pw_fine w" "sendChunk w (rq_index r) (rq_off r) (rq_len r) s d = Some (w', sent)"
  shows "control_frames w' = control_frames w \<and>
    (if sent then \<exists>f. piece_answer r f \<and> data_frames w' = data_frames w @ [f] else w' = w)"
proof (cases sent)
  case True
  then obtain d' p where p: "Packet_piece (rq_index r) (rq_off r) (rq_len r) d' = Some p" "w' = queuePacket w p"
    using assms(2) by (auto simp: sendChunk_def split: if_splits option.splits)
  note P = Packet_piece_Some [OF p(1)]
  obtain L where "pw_ok L w" using assms(1) by (auto simp: pw_fine_def)
  note q = frames_queue [OF this]
  have "pk_getType p = PIECE" by (rule getType_frame [OF P(1)])
  moreover have "piece_answer r (pk_data p)"
    unfolding piece_answer_def using P(1,6)
    by (intro exI [of _ "take (unat (rq_len r)) (drop (unat (rq_off r)) d')"]) simp
  ultimately show ?thesis using True unfolding p(2) q by auto
next
  case False
  then show ?thesis using assms by (auto simp: sendChunk_def split: if_splits option.splits)
qed

text \<open>Answering one request adds its piece to the data queue, or its rejection to the control queue
  if the peer understands one.\<close>

lemma serve_answer:
  assumes "serve ops now r cm p = Some (cm', p')" "peer_ok N p"
  shows "\<exists>sent. p_fast p' = p_fast p \<and>
    (if sent then \<exists>f. piece_answer r f \<and> data_frames (p_writer p') = data_frames (p_writer p) @ [f]
     else data_frames (p_writer p') = data_frames (p_writer p)) \<and>
    control_frames (p_writer p') = control_frames (p_writer p) @ (if p_fast p \<and> \<not> sent then [reject_answer r] else [])"
proof -
  have w: "pw_fine (p_writer p)" using assms(2) by (simp add: peer_ok_def peer_base_def)
  obtain cm1 ok where g: "grabChunk ops now (unat (rq_index r)) cm = Some (cm1, ok)"
    using assms(1) by (auto simp: serve_def Option.bind_eq_Some_conv)
  let ?c = "cm_chunk cm1 (unat (rq_index r))"
  have rej: "p_fast (pop_request (reject_request r p)) = p_fast p \<and>
      data_frames (p_writer (pop_request (reject_request r p))) = data_frames (p_writer p) \<and>
      control_frames (p_writer (pop_request (reject_request r p))) =
        control_frames (p_writer p) @ (if p_fast p then [reject_answer r] else [])"
    using frames_reject [OF w] by (simp add: pop_request_def reject_request_def getStats_def Let_def)
  show ?thesis
  proof (cases "ok \<and> ch_data ?c \<noteq> None")
    case True
    then obtain w' sent where s: "sendChunk (p_writer p) (rq_index r) (rq_off r) (rq_len r) (of_nat (ch_size ?c)) (ch_data ?c) = Some (w', sent)"
      "p' = pop_request (if \<not> sent then reject_request r (p\<lparr>p_writer := w'\<rparr>) else p\<lparr>p_writer := w'\<rparr>)"
      using assms(1) g by (auto simp: serve_def Let_def Option.bind_eq_Some_conv)
    note f = frames_chunk [OF w s(1)]
    show ?thesis
    proof (cases sent)
      case True
      then show ?thesis using f s(2) by (intro exI [of _ True]) (simp add: pop_request_def)
    next
      case False
      then have "p' = pop_request (reject_request r p)" using f s(2) by simp
      then show ?thesis using rej by (intro exI [of _ False]) simp
    qed
  next
    case False
    then have "p' = pop_request (reject_request r p)" using assms(1) g by (auto simp: serve_def Let_def split: if_splits)
    then show ?thesis using rej by (intro exI [of _ False]) simp
  qed
qed

text \<open>All requests in order: those marked are answered by pieces, the others rejected.\<close>

definition answered :: "request list \<Rightarrow> bool list \<Rightarrow> bool \<Rightarrow> packet_writer \<Rightarrow> packet_writer \<Rightarrow> bool" where
  "answered rs marks fast w w' \<longleftrightarrow> length marks = length rs \<and>
     (\<exists>fs. list_all2 piece_answer (map fst (filter snd (zip rs marks))) fs \<and> data_frames w' = data_frames w @ fs) \<and>
     control_frames w' = control_frames w @
       (if fast then map (\<lambda>e. reject_answer (fst e)) (filter (\<lambda>e. \<not> snd e) (zip rs marks)) else [])"

lemma serve_all_answers:
  "serve_all ops now rs cm p = Some (cm', p') \<Longrightarrow> peer_ok N p \<Longrightarrow> \<forall>r \<in> set rs. 4 \<le> unat (rq_len r) \<Longrightarrow>
   \<exists>marks. answered rs marks (p_fast p) (p_writer p) (p_writer p')"
proof (induction rs arbitrary: cm p)
  case (Cons r rs)
  obtain cm1 p1 where s: "serve ops now r cm p = Some (cm1, p1)" "serve_all ops now rs cm1 p1 = Some (cm', p')"
    using Cons.prems(1) by (auto split: option.splits)
  have ok: "peer_ok N p1" using serve_ok [OF s(1) Cons.prems(2)] Cons.prems(3) by simp
  obtain sent where a: "p_fast p1 = p_fast p"
    "if sent then \<exists>f. piece_answer r f \<and> data_frames (p_writer p1) = data_frames (p_writer p) @ [f]
     else data_frames (p_writer p1) = data_frames (p_writer p)"
    "control_frames (p_writer p1) = control_frames (p_writer p) @ (if p_fast p \<and> \<not> sent then [reject_answer r] else [])"
    using serve_answer [OF s(1) Cons.prems(2)] by blast
  obtain marks fs where m: "length marks = length rs"
    "list_all2 piece_answer (map fst (filter snd (zip rs marks))) fs" "data_frames (p_writer p') = data_frames (p_writer p1) @ fs"
    "control_frames (p_writer p') = control_frames (p_writer p1) @
       (if p_fast p then map (\<lambda>e. reject_answer (fst e)) (filter (\<lambda>e. \<not> snd e) (zip rs marks)) else [])"
    using Cons.IH [OF s(2) ok] Cons.prems(3) a(1) by (auto simp: answered_def)
  have "answered (r # rs) (sent # marks) (p_fast p) (p_writer p) (p_writer p')"
    using m a(2,3) unfolding answered_def by (cases sent) force+
  then show ?case by blast
qed (auto simp: answered_def intro!: exI [of _ "[]"])

lemma pu_update_serves:
  assumes "\<not> am_choked (p_am p)" "\<not> isSnubbed env p \<or> cm_completed cm \<or> p_id p = opt"
  shows "pu_update ops env opt cm p =
    (case serve_all ops (pe_now env) (pu_requests (p_up p)) cm (p\<lparr>p_up := (p_up p)\<lparr>pu_uploaded := 0\<rparr>\<rparr>) of
       None \<Rightarrow> None | Some (cm, q) \<Rightarrow> Some (cm, q, pu_uploaded (p_up p)))"
  using assms by (auto simp: pu_update_def Let_def isSnubbed_def)

section \<open>Properties\<close>

text \<open>A peer of a torrent with two chunks, for the examples.\<close>

definition some_env :: peer_env where
  "some_env = \<lparr>pe_now = 100, pe_clock = 0, pe_rate = 0, pe_port = 6881, pe_version = [75],
     pe_numbers = decimal, pe_junk = 0\<rparr>"

definition a_peer :: "u32 \<Rightarrow> peer" where
  "a_peer support = Peer_new some_env 7 [1] (16909060, 80) 2 32768 support False"

lemma some_env_ok: "env_ok some_env"
  using dec.number_format_axioms by (simp add: env_ok_def some_env_def)





text \<open>Claim C25: choking a peer takes back everything that is not on its way. No request is left, of the queued
  pieces at most the one that is being sent stays, and a peer with the fast extension gets a
  rejection for each of its requests.\<close>

theorem choke_takes_back:
  assumes "peer_run ops N p" "N < 2 ^ 32" "\<not> am_choked (p_am p)" "p_choke p = Some p'"
  shows "am_choked (p_am p') \<and> pu_requests (p_up p') = [] \<and> length (pw_data (p_writer p')) \<le> 1 \<and>
    (\<forall>a \<in> set (pw_data (p_writer p')). pk_sending (pw_at (p_writer p) a)) \<and>
    (p_fast p \<longrightarrow> (\<exists>fs. control_frames (p_writer p') = fs @ map reject_answer (pu_requests (p_up p))))"
proof -
  note ok = peer_run_ok [OF assms(2,1)]
  let ?w = "queuePacket (p_writer p) (Packet_type CHOKE)"
  obtain L where L0: "pw_ok L (p_writer p)" using ok by (auto simp: peer_ok_def peer_base_def pw_fine_def)
  then have L: "pw_ok L ?w"
    using Packet_fixed_ok(1) [of CHOKE] Packet_type_data [of CHOKE]
    by (intro pw_ok_queue) (auto simp: pk_fresh_def message_ids pw_ok_def)
  have old: "pw_at ?w a = pw_at (p_writer p) a" if "a \<in> set (pw_data (p_writer p))" for a
    using pw_ok_at_old [OF L0] that by simp
  have d: "pw_data ?w = pw_data (p_writer p)" by (simp add: message_ids)
  have "distinct (pw_data ?w)" using L by (simp add: pw_ok_def)
  from clear_walk_effect [OF L subset_refl this, of "p_fast p"] obtain w where w: "clearPieces ?w (p_fast p) = Some w"
    "pw_ok L w" "set (pw_data w) = {a \<in> set (pw_data ?w). pk_sending (pw_at ?w a)}"
    unfolding clearPieces_def by blast
  let ?w' = "if p_fast p then fold (\<lambda>r w. sendReject w r) (pu_requests (p_up p)) w else w"
  have rejects: "pw_fine v \<Longrightarrow> pw_data (fold (\<lambda>r w. sendReject w r) rs v) = pw_data v \<and>
      control_frames (fold (\<lambda>r w. sendReject w r) rs v) = control_frames v @ map reject_answer rs" for rs v
  proof (induction rs arbitrary: v)
    case (Cons r rs)
    then show ?case
      using frames_reject [of v r] pw_fine_sends(3) [of v r] by (simp add: sendReject_def message_ids)
  qed simp
  have p': "pw_data (p_writer p') = pw_data ?w'" "p_writer p' = ?w'" "am_choked (p_am p')" "pu_requests (p_up p') = []"
    using assms(3,4) w(1) by (auto simp: p_choke_def sendChoke_def clearAllRequests_def getStats_def Let_def)
  have w': "pw_data ?w' = pw_data w" "p_fast p \<Longrightarrow> control_frames ?w' = control_frames w @ map reject_answer (pu_requests (p_up p))"
    using rejects [of w] w(2) by (auto simp: pw_fine_def)
  have sending: "\<forall>a \<in> set (pw_data w). pk_sending (pw_at (p_writer p) a)" using w(3) d old by auto
  have curr: "pw_curr (p_writer p) = Some x" if "x \<in> set (pw_data w)" for x
  proof (rule ccontr)
    assume "pw_curr (p_writer p) \<noteq> Some x"
    moreover have "x \<in> set (pw_data (p_writer p))" using that w(3) d by simp
    ultimately have "pk_written (pw_at (p_writer p) x) = 0" using pw_okD(5) [OF L0, of x] by simp
    then show False using bspec [OF sending that] pk_sending_iff by blast
  qed
  have one: "a = b" if "a \<in> set (pw_data w)" "b \<in> set (pw_data w)" for a b
    using curr [OF that(1)] curr [OF that(2)] by simp
  have "distinct (pw_data w)" using w(2) by (simp add: pw_ok_def)
  then have "length (pw_data w) \<le> 1" using one
    by (cases "pw_data w") (auto, metis distinct.simps(2) length_0_conv list.set_intros(1) neq_Nil_conv)
  then show ?thesis using p' w' sending by auto
qed

theorem choke_takes_back_witness:
  "\<exists>p'. p_choke (p_unchoke (a_peer 4)) = Some p' \<and> am_choked (p_am p') \<and> length (pw_data (p_writer p')) \<le> 1"
proof -
  let ?q = "p_unchoke (a_peer 4)"
  have r: "peer_run sf_ops 2 ?q" unfolding a_peer_def by (rule peer_run.run_unchoke) (rule peer_run.run_new)
  obtain p' where "p_choke ?q = Some p'" using peer_ok_choke [OF peer_run_ok [OF _ r]] by auto
  moreover have "\<not> am_choked (p_am ?q)" by (simp add: p_unchoke_def sendUnchoke_def a_peer_def Peer_new_def Let_def)
  ultimately show ?thesis using choke_takes_back [OF r, of p'] by auto
qed

text \<open>The lengths of the messages; a message that is not listed is not checked.\<close>

definition well_formed :: "bytes \<Rightarrow> bitset \<Rightarrow> bool" where
  "well_formed k bs \<longleftrightarrow>
     (k ! 0 \<in> {CHOKE, UNCHOKE, INTERESTED, NOT_INTERESTED, HAVE_ALL, HAVE_NONE} \<longrightarrow> length k = 1) \<and>
     (k ! 0 = HAVE \<longrightarrow> length k = 5 \<and> unat (ReadUint32 k 1) < bs_num_bits bs) \<and>
     (k ! 0 = BITFIELD \<longrightarrow> length k = 1 + bs_num_bytes bs) \<and>
     (k ! 0 \<in> {REQUEST, CANCEL, REJECT_REQUEST} \<longrightarrow> length k = 13) \<and>
     (k ! 0 = PIECE \<longrightarrow> 9 \<le> length k) \<and> (k ! 0 = PORT \<longrightarrow> length k = 3)"

text \<open>Claim C28: a message of the wrong length, or one that announces a chunk the torrent does not have,
  ends the connection: the peer is killed, nothing else about it changes, no signal is sent, and the
  packets that follow are ignored.\<close>

theorem malformed_packet_kills:
  assumes "\<not> p_killed p" "k \<noteq> []" "\<not> well_formed k (p_pieces p)"
  shows "packets_ready env (k # ks) p = Some (p_kill p, [])"
proof -
  consider "k ! 0 \<in> {CHOKE, UNCHOKE, INTERESTED, NOT_INTERESTED, HAVE_ALL, HAVE_NONE}" "length k \<noteq> 1"
    | "k ! 0 = HAVE" "length k \<noteq> 5 \<or> \<not> unat (ReadUint32 k 1) < bs_num_bits (p_pieces p)"
    | "k ! 0 = BITFIELD" "length k \<noteq> 1 + bs_num_bytes (p_pieces p)"
    | "k ! 0 \<in> {REQUEST, CANCEL, REJECT_REQUEST}" "length k \<noteq> 13"
    | "k ! 0 = PIECE" "\<not> 9 \<le> length k" | "k ! 0 = PORT" "length k \<noteq> 3"
    using assms(3) unfolding well_formed_def by blast
  then have "packetReady env k p = Some (p_kill p, [])"
    using assms(1,2) by cases (auto simp: packetReady_def message_ids on_have_def)
  moreover have "packets_ready env ks (p_kill p) = Some (p_kill p, [])"
    by (induction ks) (simp_all add: packetReady_def p_kill_def)
  ultimately show ?thesis by simp
qed

theorem malformed_packet_kills_witness:
  "packets_ready some_env [[4, 0, 0, 0, 2], [2]] (a_peer 4) = Some (p_kill (a_peer 4), [])"
proof (rule malformed_packet_kills)
  have "ReadUint32 ([4] @ u32_bytes 2 @ []) 1 = 2" by (rule ReadUint32_at) simp
  then have "ReadUint32 [4, 0, 0, 0, 2] 1 = 2" by (simp add: u32_bytes_def)
  then show "\<not> well_formed [4, 0, 0, 0, 2] (p_pieces (a_peer 4))"
    by (simp add: well_formed_def message_ids a_peer_def Peer_new_def Let_def BitSet_new_def)
qed (simp_all add: a_peer_def Peer_new_def Let_def)

text \<open>A request for fewer than four bytes is served with a piece too short for the comparison
  that looks for it when it is cancelled: the cancellation reads past the end of the packet.\<close>

theorem short_piece_overread:
  "\<exists>w. sendChunk PacketWriter_new 0 0 1 2 (Some [5, 6]) = Some (w, True) \<and>
     packetReady env (CANCEL # u32_bytes 0 @ u32_bytes 0 @ u32_bytes 1) ((a_peer 4)\<lparr>p_writer := w\<rparr>) = None"
proof -
  obtain q where q: "Packet_piece 0 0 1 [5, 6] = Some q" by (simp add: Packet_piece_def)
  note Q = Packet_piece_Some [OF q]
  define w where "w = queuePacket PacketWriter_new q"
  have s: "sendChunk PacketWriter_new 0 0 1 2 (Some [5, 6]) = Some (w, True)" by (simp add: sendChunk_def q w_def)
  let ?k = "CANCEL # u32_bytes 0 @ u32_bytes 0 @ u32_bytes 1" and ?p = "(a_peer 4)\<lparr>p_writer := w\<rparr>"
  have k: "packet_request ?k ?p = Request 0 0 1 (p_id (a_peer 4))"
    using ReadUint32_at [of "[CANCEL]" 1 0 "u32_bytes 0 @ u32_bytes 1"] ReadUint32_at [of "CANCEL # u32_bytes 0" 5 0 "u32_bytes 1"]
      ReadUint32_at [of "CANCEL # u32_bytes 0 @ u32_bytes 0" 9 1 "[]"]
    by (simp add: packet_request_def)
  have t: "pk_getType q = PIECE" using getType_frame [OF Q(1)] .
  have l: "pk_data q = u32_bytes 10 @ [PIECE] @ u32_bytes 0 @ u32_bytes 0 @ [5]"
    using Q(1) by (simp add: frame_bytes_def)
  have "ReadUint32 (pk_data q) 5 = 0" "ReadUint32 (pk_data q) 9 = 0" "length (pk_data q) = 14"
    unfolding l using ReadUint32_at [of "u32_bytes 10 @ [PIECE]" 5 0 "u32_bytes 0 @ [5]"]
      ReadUint32_at [of "u32_bytes 10 @ [PIECE] @ u32_bytes 0" 9 0 "[5]"] by simp_all
  then have "pk_isPiece q (Request 0 0 1 i) = None" for i using t by (simp add: pk_isPiece_def Request_def)
  then have "doNotSendPiece w (Request 0 0 1 i) f = None" for i f
    using t by (simp add: doNotSendPiece_def w_def PacketWriter_new_def)
  then have "removeRequest (packet_request ?k ?p) ?p = None"
    unfolding k by (simp add: removeRequest_def getStats_def Let_def)
  then have "packetReady env ?k ?p = None"
    by (simp add: packetReady_def Let_def message_ids a_peer_def Peer_new_def)
  then show ?thesis using s by blast
qed

text \<open>The extension handshake is understood. The packet that one side queues to announce
  whether it takes part in the peer exchange, and with which message number, sets that number at the
  other side, and changes nothing else there.\<close>

theorem handshake_round_trip:
  assumes "env_ok env" "pe_numbers env' = pe_numbers env" "\<not> p_killed q"
  shows "\<exists>pk. sendExtProtHandshake env on w = queuePacket w pk \<and>
    packetReady env' (drop 4 (pk_data pk)) q = Some (pex_setID (if on then 1 else 0) q, [])"
proof -
  let ?nf = "pe_numbers env" and ?t = "handshake_term env on"
  let ?m = "enc ?nf ?t"
  have l: "length ?m < 2 ^ 30" by (rule handshake_length [OF assms(1)])
  have f: "number_format ?nf" using assms(1) by (simp add: env_ok_def)
  have "uint (pe_port env) < 2 ^ 16" using uint_lt2p [of "pe_port env"] by simp
  moreover have "- (2 ^ 63) \<le> uint (pe_port env)" by (rule order_trans [of _ 0]) simp_all
  ultimately have "term_ok ?t" by (auto simp: handshake_term_def)
  note d = decode_message [OF f this l, of EXTENDED 0]
  have ne: "?m \<noteq> []" by (simp add: handshake_term_def)
  have x: "pk_data (Packet_ext 0 ?m) = frame_bytes (EXTENDED # 0 # ?m)" using l by (simp add: Packet_ext_data)
  have "handleExtendedPacket env' (EXTENDED # 0 # ?m) q = (case node_of ?nf ?t 2 of
      BDictNode es off len \<Rightarrow> (case bd_getDict [109] es of None \<Rightarrow> (q, [])
        | Some m \<Rightarrow> (case bd_getValue str_ut_pex m of None \<Rightarrow> (q, [])
          | Some v \<Rightarrow> (pex_setID (of_int (val_toInt (pe_junk env') v)) q, []))) | _ \<Rightarrow> (q, []))"
    using d assms(2) ne by (auto simp: handleExtendedPacket_def split: bnode.split)
  also have "\<dots> = (pex_setID (if on then 1 else 0) q, [])"
    by (simp add: handshake_term_def bd_getDict_def bd_getValue_def Let_def)
  finally show ?thesis
    using assms(3) x
    by (intro exI [of _ "Packet_ext 0 ?m"])
       (simp add: handshake_text sendExtProtMsg_def packetReady_def message_ids)
qed

theorem handshake_round_trip_witness:
  "\<exists>pk. sendExtProtHandshake some_env True PacketWriter_new = queuePacket PacketWriter_new pk \<and>
    packetReady some_env (drop 4 (pk_data pk)) (a_peer 16) = Some (pex_setID 1 (a_peer 16), [])"
proof -
  have "\<not> p_killed (a_peer 16)" by (simp add: a_peer_def Peer_new_def Let_def)
  from handshake_round_trip [OF some_env_ok refl this, of True PacketWriter_new] show ?thesis by simp
qed

end
