(* ===== verification/PeerManagerProps.thy ===== *)
theory PeerManagerProps
  imports PeerManager PeerProps
begin

text \<open>
  What holds of the peers of a torrent: the chunk counters never fall below the number of peers that
  have a chunk, so every chunk a connected peer has counts as available; the limits on connections;
  the peer exchange from one client to the next; and where the counters drift.
\<close>

section \<open>What the signals of a peer count\<close>

definition mention :: "nat \<Rightarrow> peer_signal \<Rightarrow> nat" where
  "mention i s = (case s of HaveChunk j \<Rightarrow> (if j = i then 1 else 0)
     | BitSetReceived bs \<Rightarrow> (if bs_get bs i then 1 else 0) | _ \<Rightarrow> 0)"

definition mentions :: "nat \<Rightarrow> peer_signal list \<Rightarrow> nat" where
  "mentions i sigs = sum_list (map (mention i) sigs)"

lemma mentions_simps [simp]:
  "mentions i [] = 0" "mentions i (s # sigs) = mention i s + mentions i sigs"
  "mentions i (xs @ ys) = mentions i xs + mentions i ys"
  by (simp_all add: mentions_def)

definition signal_ok :: "nat \<Rightarrow> peer_signal \<Rightarrow> bool" where
  "signal_ok N s \<longleftrightarrow> (case s of HaveChunk j \<Rightarrow> j < N | BitSetReceived bs \<Rightarrow> bs_num_bits bs = N | _ \<Rightarrow> True)"

text \<open>A packet that adds a chunk to the bit set of a peer is announced by its signal; it emits at
  most one signal, so it counts each chunk at most once.\<close>

definition announces :: "nat \<Rightarrow> nat \<Rightarrow> peer \<Rightarrow> peer \<times> peer_signal list \<Rightarrow> bool" where
  "announces N n p r \<longleftrightarrow> p_id (fst r) = p_id p \<and> (\<forall>s \<in> set (snd r). signal_ok N s) \<and>
     (\<forall>i. mentions i (snd r) \<le> n \<and>
        (bs_get (p_pieces (fst r)) i \<longrightarrow> bs_get (p_pieces p) i \<or> 0 < mentions i (snd r)))"

lemma announces_quiet:
  "p_pieces q = p_pieces p \<Longrightarrow> p_id q = p_id p \<Longrightarrow> \<forall>s \<in> set sigs. signal_ok N s \<and> (\<forall>i. mention i s = 0) \<Longrightarrow>
   announces N n p (q, sigs)"
proof -
  assume a: "p_pieces q = p_pieces p" "p_id q = p_id p" "\<forall>s \<in> set sigs. signal_ok N s \<and> (\<forall>i. mention i s = 0)"
  have "mentions i sigs = 0" for i using a(3) by (induction sigs) auto
  then show ?thesis using a by (simp add: announces_def)
qed

lemma down_put_fields [simp]: "p_pieces (p_down_put pd p) = p_pieces p" "p_id (p_down_put pd p) = p_id p"
  by (simp_all add: p_down_put_def)

lemma removeRequest_fields: "removeRequest r p = Some p' \<Longrightarrow> p_pieces p' = p_pieces p \<and> p_id p' = p_id p"
  by (auto simp: removeRequest_def getStats_def Let_def Option.bind_eq_Some_conv)

lemma pex_setID_fields: "p_pieces (pex_setID i p) = p_pieces p \<and> p_id (pex_setID i p) = p_id p"
  by (simp add: pex_setID_def Let_def split: option.split)

lemma extended_quiet: "announces N n p (handleExtendedPacket env k p)"
proof -
  have "handlePexPacket env k = [] \<or> (\<exists>d. handlePexPacket env k = [GotPex d])"
    by (simp add: handlePexPacket_def split: sum.split option.split bnode.split prod.split bvalue.split)
  then have "\<forall>s \<in> set (handlePexPacket env k). signal_ok N s \<and> (\<forall>i. mention i s = 0)"
    by (auto simp: signal_ok_def mention_def)
  then have "announces N n p (p, handlePexPacket env k)" by (intro announces_quiet) auto
  then show ?thesis
    using pex_setID_fields [of _ p]
    by (auto simp: handleExtendedPacket_def intro!: announces_quiet split: sum.split option.split bnode.split prod.split)
qed

definition announced :: "nat \<Rightarrow> nat \<Rightarrow> peer \<Rightarrow> (peer \<times> peer_signal list) option \<Rightarrow> bool" where
  "announced N n p r \<longleftrightarrow> (\<forall>x. r = Some x \<longrightarrow> announces N n p x)"

lemma announced_Some [simp]: "announced N n p (Some x) = announces N n p x"
  by (simp add: announced_def)

lemma announced_if: "(c \<Longrightarrow> announced N n p a) \<Longrightarrow> (\<not> c \<Longrightarrow> announced N n p b) \<Longrightarrow> announced N n p (if c then a else b)"
  by simp

lemma announces_pieces:
  "bs_num_bits bs = N \<Longrightarrow> announces N (Suc 0) p (p\<lparr>p_pieces := bs\<rparr>, [BitSetReceived bs])"
  by (simp add: announces_def mention_def signal_ok_def)

lemma announces_have:
  assumes "bs_ok (p_pieces p)" "bs_num_bits (p_pieces p) = N"
  shows "announces N (Suc 0) p (on_have ch p)"
proof (cases "unat ch < N")
  case True
  then show ?thesis
    using assms bits.get_put_eq [OF assms(1), of "unat ch" True]
    by (auto simp: on_have_def announces_def mention_def signal_ok_def)
next
  case False
  then show ?thesis using assms by (simp add: on_have_def announces_quiet p_kill_def)
qed

lemma announced_packet:
  assumes "bs_ok (p_pieces p)" "bs_num_bits (p_pieces p) = N"
  shows "announced N (Suc 0) p (packetReady env k p)"
proof -
  have q: "announces N (Suc 0) p (q, sigs)" if "p_pieces q = p_pieces p" "p_id q = p_id p" "sigs = [] \<or> sigs = [s]"
    "signal_ok N s" "\<forall>i. mention i s = 0" for q sigs s
    using that by (intro announces_quiet) auto
  have quiet: "signal_ok N RerunChoker" "signal_ok N (Rejected rs)" "signal_ok N (GotPiece x y d)" "signal_ok N (GotPort po)"
    "mention i RerunChoker = 0" "mention i (Rejected rs) = 0" "mention i (GotPiece x y d) = 0" "mention i (GotPort po) = 0"
    for rs x y d po i by (simp_all add: signal_ok_def mention_def)
  have "announced N (Suc 0) p (on_choke env p)"
    unfolding announced_def on_choke_def
    by (auto simp: Let_def Option.bind_eq_Some_conv quiet intro!: announces_quiet split: if_splits)
  moreover have "announced N (Suc 0) p (on_piece env k p)"
    unfolding announced_def on_piece_def
    by (auto simp: Let_def Option.bind_eq_Some_conv quiet intro!: announces_quiet)
  moreover have "announces N (Suc 0) p (on_rejected env r p)" for r
    by (auto simp: on_rejected_def quiet intro!: announces_quiet split: prod.split)
  moreover have "announces N (Suc 0) p (p_kill p, [])" "announces N (Suc 0) p (on_unchoke env p, [])"
    "announces N (Suc 0) p (on_request r p, [])" "announces N (Suc 0) p (p, [])" "announces N (Suc 0) p (p, [GotPort po])"
    "announces N (Suc 0) p (p\<lparr>p_interested := i\<rparr>, [RerunChoker])" for r po i
    by (auto simp: p_kill_def on_unchoke_def on_request_def addRequest_def quiet intro!: announces_quiet)
  moreover have "announced N (Suc 0) p (map_option (\<lambda>p. (p, [])) (removeRequest r p))" for r
    using removeRequest_fields [of r p] by (auto simp: announced_def intro!: announces_quiet)
  moreover have "bs_num_bits (BitSet_of_data d N) = N" "bs_num_bits (bs_setAll (p_pieces p) b) = N" for d b
    using assms(2) by (simp_all add: BitSet_of_data_def bs_setAll_def Let_def)
  ultimately show ?thesis
    unfolding packetReady_def Let_def
    by (intro announced_if) (simp_all add: extended_quiet announces_have assms announces_pieces)
qed

lemma announces_trans:
  assumes "announces N n p (q, s)" "announces N m q (r, t)"
  shows "announces N (n + m) p (r, s @ t)"
  using assms by (fastforce simp: announces_def intro: add_mono)

lemma announced_packets:
  "peer_ok N p \<Longrightarrow> \<forall>k \<in> set ks. polite k \<Longrightarrow> announced N (length ks) p (packets_ready env ks p)"
proof (induction ks arbitrary: p)
  case Nil
  then show ?case by (simp add: announces_quiet)
next
  case (Cons k ks)
  have k: "gives_ok N (packetReady env k p)" using Cons.prems by (intro packetReady_ok) simp_all
  then obtain q s where q: "packetReady env k p = Some (q, s)" "peer_ok N q" by (auto simp: gives_ok_def)
  have "bs_ok (p_pieces p)" "bs_num_bits (p_pieces p) = N" using Cons.prems(1) by (simp_all add: peer_ok_def peer_base_def)
  from announced_packet [OF this, of env k] have a: "announces N (Suc 0) p (q, s)" using q by simp
  have "announced N (length ks) q (packets_ready env ks q)" using Cons q(2) by simp
  then show ?case
    using q(1) announces_trans [OF a] by (fastforce simp: announced_def split: option.split)
qed

lemma count_pex_fields:
  "p_pieces (p_pex_tick env conns (p_count_uploaded p)) = p_pieces p"
  "p_id (p_pex_tick env conns (p_count_uploaded p)) = p_id p"
  by (simp_all add: p_pex_tick_def p_count_uploaded_def addUploadedBytes_def Let_def split: option.split prod.split)

text \<open>The packets an update delivers.\<close>

abbreviation delivered :: "peer \<Rightarrow> bytes list" where
  "delivered p \<equiv> snd (pr_update (p_reader p))"

lemma announced_update:
  assumes "peer_ok N p" "\<forall>k \<in> set (delivered p). polite k"
  shows "announced N (length (delivered p)) p (p_update env sock conns p)"
proof (cases "p_killed p \<or> \<not> sock \<or> pr_error (p_reader p)")
  case True
  then show ?thesis by (auto simp: p_update_def p_kill_def intro!: announces_quiet)
next
  case False
  obtain r out where u: "pr_update (p_reader p) = (r, out)" by (cases "pr_update (p_reader p)")
  have "pr_ok (p_reader p)" using assms(1) by (simp add: peer_ok_def peer_base_def)
  then have "pr_ok r" using pr_update_effect [OF _ u] by blast
  then have "peer_ok N (p\<lparr>p_reader := r\<rparr>)" using assms(1) by (simp add: peer_ok_def peer_base_def)
  then have a: "announced N (length out) (p\<lparr>p_reader := r\<rparr>) (packets_ready env out (p\<lparr>p_reader := r\<rparr>))"
    using assms(2) u by (intro announced_packets) simp_all
  show ?thesis
  proof (cases "packets_ready env out (p\<lparr>p_reader := r\<rparr>)")
    case None
    then show ?thesis using False u by (simp add: p_update_def announced_def)
  next
    case (Some x)
    obtain q sigs where x: "x = (q, sigs)" by (cases x)
    have "p_update env sock conns p = Some (p_pex_tick env conns (p_count_uploaded q), sigs)"
      using False u Some x by (simp add: p_update_def)
    moreover have "announces N (length out) (p\<lparr>p_reader := r\<rparr>) (q, sigs)" using a Some x by simp
    ultimately show ?thesis using u by (simp add: announces_def count_pex_fields)
  qed
qed

section \<open>Counters and available chunks\<close>

definition holders :: "nat \<Rightarrow> peer list \<Rightarrow> nat" where
  "holders i ps = length (filter (\<lambda>p. bs_get (p_pieces p) i) ps)"

lemma holders_simps [simp]:
  "holders i [] = 0" "holders i (p # ps) = (if bs_get (p_pieces p) i then 1 else 0) + holders i ps"
  "holders i (ps @ qs) = holders i ps + holders i qs"
  by (simp_all add: holders_def)

definition tables_ok :: "nat \<Rightarrow> peer_manager \<Rightarrow> bool" where
  "tables_ok N pm \<longleftrightarrow> length (pm_cnt pm) = N \<and> bs_ok (pm_available pm) \<and> bs_num_bits (pm_available pm) = N"

definition counts_ok :: "nat \<Rightarrow> peer list \<Rightarrow> peer_manager \<Rightarrow> bool" where
  "counts_ok N ps pm \<longleftrightarrow> tables_ok N pm \<and>
     (\<forall>i < N. holders i ps \<le> unat (pm_cnt pm ! i) \<and> (0 < holders i ps \<longrightarrow> bs_get (pm_available pm) i))"

text \<open>The fields that neither a signal nor the tables touch.\<close>

definition same_peers :: "peer_manager \<Rightarrow> peer_manager \<Rightarrow> bool" where
  "same_peers pm pm' \<longleftrightarrow> pm_peers pm' = pm_peers pm \<and> pm_map pm' = pm_map pm \<and> pm_num_chunks pm' = pm_num_chunks pm \<and>
     pm_next_id pm' = pm_next_id pm \<and> pm_total pm' = pm_total pm \<and> pm_pending pm' = pm_pending pm"

lemma same_peers_refl [simp]: "same_peers pm pm"
  by (simp add: same_peers_def)

lemma same_peers_trans: "same_peers a b \<Longrightarrow> same_peers b c \<Longrightarrow> same_peers a c"
  by (simp add: same_peers_def)

definition counted :: "nat \<Rightarrow> (nat \<Rightarrow> nat) \<Rightarrow> peer_manager \<Rightarrow> peer_manager \<Rightarrow> bool" where
  "counted N n pm pm' \<longleftrightarrow> tables_ok N pm' \<and> same_peers pm pm' \<and>
     (\<forall>i < N. unat (pm_cnt pm' ! i) = unat (pm_cnt pm ! i) + n i \<and>
        (bs_get (pm_available pm') i \<longleftrightarrow> bs_get (pm_available pm) i \<or> 0 < n i))"

lemma counted_trans:
  "counted N n a b \<Longrightarrow> counted N m b c \<Longrightarrow> counted N (\<lambda>i. n i + m i) a c"
  by (auto simp: counted_def dest: same_peers_trans)

lemma onHave_counts:
  assumes "tables_ok N pm" "i < N" "unat (pm_cnt pm ! i) + 1 < 2 ^ 32"
  shows "counted N (\<lambda>j. if j = i then 1 else 0) pm (onHave i pm)"
proof -
  have b: "bs_ok (pm_available pm)" "bs_num_bits (pm_available pm) = N" "length (pm_cnt pm) = N"
    using assms(1) by (simp_all add: tables_ok_def)
  have "unat (pm_cnt pm ! i + 1) = unat (pm_cnt pm ! i) + 1" using assms(3) by (intro unat_inc) simp
  then show ?thesis
    using assms(2) b bits.get_put_eq [OF b(1), of i True]
    by (auto simp: counted_def tables_ok_def same_peers_def onHave_def cc_inc_def nth_list_update inv_intro)
qed

lemma counted_none: "tables_ok N pm \<Longrightarrow> counted N (\<lambda>_. 0) pm pm"
  by (simp add: counted_def)

lemma counted_cong: "counted N n a b \<Longrightarrow> (\<And>i. i < N \<Longrightarrow> n i = m i) \<Longrightarrow> counted N m a b"
  by (simp add: counted_def)

lemma onBitSet_counts:
  assumes "tables_ok N pm" "bs_num_bits bs = N" "\<forall>i < N. bs_get bs i \<longrightarrow> unat (pm_cnt pm ! i) + 1 < 2 ^ 32"
  shows "counted N (\<lambda>i. if bs_get bs i then 1 else 0) pm (onBitSetRecieved bs pm)"
proof -
  let ?f = "\<lambda>i pm. if bs_get bs i then onHave i pm else pm"
  have "counted N (\<lambda>i. if i < n \<and> bs_get bs i then 1 else 0) pm (fold ?f [0..<n] pm)" if "n \<le> N" for n
    using that
  proof (induction n)
    case 0
    then show ?case using counted_none [OF assms(1)] by simp
  next
    case (Suc n)
    let ?pm = "fold ?f [0..<n] pm"
    have IH: "counted N (\<lambda>i. if i < n \<and> bs_get bs i then 1 else 0) pm ?pm" using Suc by simp
    show ?case
    proof (cases "bs_get bs n")
      case True
      have "tables_ok N ?pm" "unat (pm_cnt ?pm ! n) = unat (pm_cnt pm ! n)" using IH Suc.prems by (simp_all add: counted_def)
      then have "counted N (\<lambda>j. if j = n then 1 else 0) ?pm (onHave n ?pm)"
        using assms(3) Suc.prems True by (intro onHave_counts) auto
      from counted_cong [OF counted_trans [OF IH this], of "\<lambda>i. if i < Suc n \<and> bs_get bs i then 1 else 0"]
      show ?thesis using True by (auto simp: less_Suc_eq)
    next
      case False
      from counted_cong [OF IH, of "\<lambda>i. if i < Suc n \<and> bs_get bs i then 1 else 0"] show ?thesis
        using False by (auto simp: less_Suc_eq)
    qed
  qed
  from counted_cong [OF this [OF order_refl], of "\<lambda>i. if bs_get bs i then 1 else 0"] show ?thesis
    using assms(2) by (simp add: onBitSetRecieved_def)
qed

lemma potential_keeps: "same_peers pm (addPotentialPeer pp pm) \<and> pm_cnt (addPotentialPeer pp pm) = pm_cnt pm \<and>
    pm_available (addPotentialPeer pp pm) = pm_available pm \<and> pm_pex_on (addPotentialPeer pp pm) = pm_pex_on pm"
  by (simp add: addPotentialPeer_def same_peers_def)

lemma potentials_keep: "same_peers pm (fold addPotentialPeer pps pm) \<and> pm_cnt (fold addPotentialPeer pps pm) = pm_cnt pm \<and>
    pm_available (fold addPotentialPeer pps pm) = pm_available pm"
proof (induction pps arbitrary: pm)
  case (Cons pp pps)
  then show ?case using potential_keeps [of pm pp] same_peers_trans [of pm "addPotentialPeer pp pm"] by simp
qed simp

lemma signal_counts:
  assumes "tables_ok N pm" "signal_ok N s" "\<forall>i < N. unat (pm_cnt pm ! i) + mention i s < 2 ^ 32"
  shows "counted N (\<lambda>i. mention i s) pm (pm_signal nf s pm)"
proof (cases s)
  case (HaveChunk j)
  then have j: "j < N" using assms(2) by (simp add: signal_ok_def)
  then have "unat (pm_cnt pm ! j) + 1 < 2 ^ 32" using assms(3) HaveChunk by (fastforce simp: mention_def)
  from counted_cong [OF onHave_counts [OF assms(1) j this], of "\<lambda>i. mention i s"] show ?thesis
    using HaveChunk by (simp add: pm_signal_def mention_def)
next
  case (BitSetReceived bs)
  then have "bs_num_bits bs = N" using assms(2) by (simp add: signal_ok_def)
  moreover have "\<forall>i < N. bs_get bs i \<longrightarrow> unat (pm_cnt pm ! i) + 1 < 2 ^ 32"
    using assms(3) BitSetReceived by (fastforce simp: mention_def)
  ultimately show ?thesis
    using onBitSet_counts [OF assms(1), of bs] BitSetReceived by (simp add: pm_signal_def mention_def)
next
  case (GotPex d)
  then show ?thesis
    using potentials_keep [of pm] assms(1)
    by (simp add: pm_signal_def mention_def pm_pex_def counted_def tables_ok_def)
qed (use assms(1) in \<open>simp_all add: pm_signal_def mention_def counted_none, simp add: counted_def tables_ok_def onRerunChoker_def same_peers_def\<close>)

lemma signals_count:
  "tables_ok N pm \<Longrightarrow> \<forall>s \<in> set sigs. signal_ok N s \<Longrightarrow> \<forall>i < N. unat (pm_cnt pm ! i) + mentions i sigs < 2 ^ 32 \<Longrightarrow>
   counted N (\<lambda>i. mentions i sigs) pm (fold (pm_signal nf) sigs pm)"
proof (induction sigs arbitrary: pm)
  case (Cons s sigs)
  have "\<forall>i < N. unat (pm_cnt pm ! i) + mention i s < 2 ^ 32" using Cons.prems(3) by fastforce
  then have c: "counted N (\<lambda>i. mention i s) pm (pm_signal nf s pm)" using Cons.prems by (intro signal_counts) simp_all
  moreover have "counted N (\<lambda>i. mentions i sigs) (pm_signal nf s pm) (fold (pm_signal nf) sigs (pm_signal nf s pm))"
    using Cons.prems c by (intro Cons.IH) (auto simp: counted_def add.assoc)
  ultimately show ?case using counted_trans by fastforce
qed (simp add: counted_none)

lemma decBitSet_nth:
  "length (cc_decBitSet bs cc) = length cc \<and> (\<forall>i < length cc. cc_decBitSet bs cc ! i =
     (if bs_get bs i \<and> cc ! i > 0 then cc ! i - 1 else cc ! i))"
proof -
  let ?f = "\<lambda>i cc. if bs_get bs i then cc_dec i cc else cc"
  have "length (fold ?f [0..<n] cc) = length cc \<and> (\<forall>i < length cc. fold ?f [0..<n] cc ! i =
     (if i < n \<and> bs_get bs i \<and> cc ! i > 0 then cc ! i - 1 else cc ! i))" if "n \<le> length cc" for n
    using that by (induction n) (auto simp: cc_dec_def nth_list_update less_Suc_eq)
  from this [OF order_refl] show ?thesis by (simp add: cc_decBitSet_def)
qed

lemma updateAvailable_get:
  assumes "tables_ok N pm"
  shows "tables_ok N (updateAvailableChunks pm) \<and> (\<forall>i < N. bs_get (pm_available (updateAvailableChunks pm)) i \<longleftrightarrow> pm_cnt pm ! i > 0)"
proof -
  have ok: "bs_ok (pm_available pm)" "bs_num_bits (pm_available pm) = N" "length (pm_cnt pm) = N"
    using assms by (simp_all add: tables_ok_def)
  show ?thesis
    using ok bits.get_fold_put [OF ok(1) distinct_upt, of "\<lambda>i _. cc_get (pm_cnt pm) i > 0" 0 N]
      bits.ok_fold_put [OF ok(1), of "\<lambda>i _. cc_get (pm_cnt pm) i > 0" "[0..<N]"]
      bits.size_fold_put [of "\<lambda>i _. cc_get (pm_cnt pm) i > 0" "[0..<N]" "pm_available pm"]
    by (simp add: updateAvailableChunks_def tables_ok_def cc_get_def)
qed

lemma remove_counts:
  assumes "counts_ok N (seen @ p # ps) pm"
  shows "counts_ok N (seen @ ps) (pm_remove p pm)"
proof -
  let ?cc = "cc_decBitSet (p_pieces p) (pm_cnt pm)"
  have t: "tables_ok N pm" "length (pm_cnt pm) = N" using assms by (simp_all add: counts_ok_def tables_ok_def)
  then have t1: "tables_ok N (pm\<lparr>pm_cnt := ?cc\<rparr>)" using decBitSet_nth [of "p_pieces p" "pm_cnt pm"] by (simp add: tables_ok_def)
  note u = updateAvailable_get [OF t1]
  have le: "holders i (seen @ ps) \<le> unat (?cc ! i)" if "i < N" for i
  proof -
    have h: "holders i (seen @ p # ps) \<le> unat (pm_cnt pm ! i)" using assms that by (simp add: counts_ok_def)
    have c: "?cc ! i = (if bs_get (p_pieces p) i \<and> pm_cnt pm ! i > 0 then pm_cnt pm ! i - 1 else pm_cnt pm ! i)"
      using decBitSet_nth [of "p_pieces p" "pm_cnt pm"] that t(2) by simp
    show ?thesis
    proof (cases "bs_get (p_pieces p) i")
      case True
      then have "0 < unat (pm_cnt pm ! i)" using h by simp
      then show ?thesis using c h True by (simp add: unat_dec word_gt_0 unat_gt_0)
    next
      case False
      then show ?thesis using c h by simp
    qed
  qed
  have "pm_cnt (pm_remove p pm) = ?cc" "pm_available (pm_remove p pm) = pm_available (updateAvailableChunks (pm\<lparr>pm_cnt := ?cc\<rparr>))"
    by (simp_all add: pm_remove_def Let_def pm_emit_def updateAvailableChunks_def)
  then have f: "pm_cnt (pm_remove p pm) = ?cc" "tables_ok N (pm_remove p pm)"
      "\<forall>i < N. bs_get (pm_available (pm_remove p pm)) i \<longleftrightarrow> ?cc ! i > 0"
    using u t1 by (simp_all add: tables_ok_def)
  have "?cc ! i > 0" if "i < N" "0 < holders i (seen @ ps)" for i
    using le [OF that(1)] that(2) by (metis less_le_trans unat_gt_0 word_gt_0)
  then show ?thesis using f le by (simp add: counts_ok_def)
qed

text \<open>The peers in the list and in the map are the same, each has its own number, and the counters
  cover them.\<close>

definition list_ok :: "nat \<Rightarrow> peer list \<Rightarrow> peer_manager \<Rightarrow> bool" where
  "list_ok N ps pm \<longleftrightarrow> pm_num_chunks pm = N \<and> (\<forall>p \<in> set ps. peer_ok N p) \<and> distinct (map p_id ps) \<and>
     set (pm_map pm) = p_id ` set ps \<and> sorted (pm_map pm) \<and> distinct (pm_map pm) \<and> counts_ok N ps pm"

definition pm_ok :: "nat \<Rightarrow> peer_manager \<Rightarrow> bool" where
  "pm_ok N pm \<longleftrightarrow> list_ok N (pm_peers pm) pm"

lemma list_ok_remove:
  assumes "list_ok N (seen @ p # ps) pm"
  shows "list_ok N (seen @ ps) (pm_remove p pm)"
proof -
  have "counts_ok N (seen @ ps) (pm_remove p pm)" using assms remove_counts by (simp add: list_ok_def)
  moreover have "pm_map (pm_remove p pm) = removeAll (p_id p) (pm_map pm)" "pm_num_chunks (pm_remove p pm) = pm_num_chunks pm"
    by (simp_all add: pm_remove_def Let_def pm_emit_def updateAvailableChunks_def)
  moreover have "sorted (removeAll (p_id p) (pm_map pm))" "distinct (removeAll (p_id p) (pm_map pm))"
    using assms by (simp_all add: list_ok_def removeAll_filter_not_eq sorted_wrt_filter)
  moreover have "p_id p \<notin> p_id ` set (seen @ ps)" "set (pm_map pm) = insert (p_id p) (p_id ` set (seen @ ps))"
    using assms by (simp_all add: list_ok_def image_Un)
  then have "set (removeAll (p_id p) (pm_map pm)) = p_id ` set (seen @ ps)" by simp
  ultimately show ?thesis using assms unfolding list_ok_def by simp
qed

lemma list_ok_cong: "list_ok N ps pm \<Longrightarrow> list_ok N ps (pm\<lparr>pm_peers := qs\<rparr>)"
  by (simp add: list_ok_def counts_ok_def tables_ok_def)

text \<open>One peer is replaced after an update that sent the given signals.\<close>

lemma list_ok_signals:
  assumes ok: "list_ok N (seen @ p # ps) pm" and a: "announces N n p (q, sigs)" and q: "peer_ok N q"
    and room: "\<forall>i < N. unat (pm_cnt pm ! i) + n < 2 ^ 32"
  shows "list_ok N (seen @ q # ps) (fold (pm_signal nf) sigs pm)"
    "\<forall>i < N. unat (pm_cnt (fold (pm_signal nf) sigs pm) ! i) \<le> unat (pm_cnt pm ! i) + n"
proof -
  have t: "tables_ok N pm" using ok by (simp add: list_ok_def counts_ok_def)
  have m: "mentions i sigs \<le> n" "bs_get (p_pieces q) i \<longrightarrow> bs_get (p_pieces p) i \<or> 0 < mentions i sigs"
    "p_id q = p_id p" "\<forall>s \<in> set sigs. signal_ok N s" for i using a by (simp_all add: announces_def)
  have "\<forall>i < N. unat (pm_cnt pm ! i) + mentions i sigs < 2 ^ 32" using room m(1) by (meson add_left_mono le_less_trans)
  from signals_count [OF t m(4) this, of nf] have c: "counted N (\<lambda>i. mentions i sigs) pm (fold (pm_signal nf) sigs pm)" .
  show "\<forall>i < N. unat (pm_cnt (fold (pm_signal nf) sigs pm) ! i) \<le> unat (pm_cnt pm ! i) + n"
    using c m(1) by (simp add: counted_def)
  have "counts_ok N (seen @ q # ps) (fold (pm_signal nf) sigs pm)"
    unfolding counts_ok_def
  proof (intro conjI allI impI)
    show "tables_ok N (fold (pm_signal nf) sigs pm)" using c by (simp add: counted_def)
    fix i
    assume i: "i < N"
    have h: "holders i (seen @ p # ps) \<le> unat (pm_cnt pm ! i)" "0 < holders i (seen @ p # ps) \<longrightarrow> bs_get (pm_available pm) i"
      using ok i by (simp_all add: list_ok_def counts_ok_def)
    have e: "unat (pm_cnt (fold (pm_signal nf) sigs pm) ! i) = unat (pm_cnt pm ! i) + mentions i sigs"
      "bs_get (pm_available (fold (pm_signal nf) sigs pm)) i \<longleftrightarrow> bs_get (pm_available pm) i \<or> 0 < mentions i sigs"
      using c i by (simp_all add: counted_def)
    show "holders i (seen @ q # ps) \<le> unat (pm_cnt (fold (pm_signal nf) sigs pm) ! i)"
      using h(1) m(2) [of i] unfolding e by (auto split: if_splits)
    show "bs_get (pm_available (fold (pm_signal nf) sigs pm)) i" if "0 < holders i (seen @ q # ps)"
      using h(2) m(2) [of i] that unfolding e by (auto split: if_splits)
  qed
  then show "list_ok N (seen @ q # ps) (fold (pm_signal nf) sigs pm)"
    using ok c m(3) q by (auto simp: list_ok_def counted_def same_peers_def)
qed

text \<open>The whole loop: it returns and keeps everything, if no counter can overflow and the packets
  waiting are polite.\<close>

definition waiting :: "peer list \<Rightarrow> nat" where
  "waiting ps = sum_list (map (\<lambda>p. length (delivered p)) ps)"

lemma update_loop_ok:
  assumes "list_ok N (seen @ ps) pm" "env_ok env" "length (seen @ ps) \<le> MAX_CONNECTED"
    "\<forall>p \<in> set ps. \<forall>k \<in> set (delivered p). polite k" "\<forall>i < N. unat (pm_cnt pm ! i) + waiting ps < 2 ^ 32"
  shows "\<exists>pm'. update_loop env sock seen ps pm = Some pm' \<and> pm_ok N pm'"
  using assms
proof (induction ps arbitrary: seen pm)
  case Nil
  then show ?case using list_ok_cong by (auto simp: pm_ok_def)
next
  case (Cons p ps)
  show ?case
  proof (cases "p_killed p")
    case True
    let ?pm = "pm_remove p (pm\<lparr>pm_peers := seen @ ps\<rparr>)"
    have l: "list_ok N (seen @ ps) ?pm" using Cons.prems(1) list_ok_remove list_ok_cong by blast
    have "length (pm_cnt pm) = N" using Cons.prems(1) by (simp add: list_ok_def counts_ok_def tables_ok_def)
    then have "unat (pm_cnt ?pm ! i) \<le> unat (pm_cnt pm ! i)" if "i < N" for i
      using that decBitSet_nth [of "p_pieces p" "pm_cnt pm"]
      by (auto simp: pm_remove_def Let_def pm_emit_def updateAvailableChunks_def unat_dec unat_gt_0)
    moreover have "waiting ps \<le> waiting (p # ps)" by (simp add: waiting_def)
    ultimately have "\<forall>i < N. unat (pm_cnt ?pm ! i) + waiting ps < 2 ^ 32"
      using Cons.prems(5) by (meson add_mono le_less_trans)
    then have "\<exists>pm'. update_loop env sock seen ps ?pm = Some pm' \<and> pm_ok N pm'"
      using Cons.prems l by (intro Cons.IH) auto
    then show ?thesis using True by simp
  next
    case False
    let ?pm = "pm\<lparr>pm_peers := seen @ p # ps\<rparr>"
    have p: "peer_ok N p" using Cons.prems(1) by (simp add: list_ok_def)
    have "length (pm_addresses ?pm) \<le> MAX_CONNECTED" using Cons.prems(3) by (simp add: pm_addresses_def)
    from p_update_ok [OF p Cons.prems(2) this, of "sock (p_id p)"] Cons.prems(4)
    obtain q sigs where q: "p_update env (sock (p_id p)) (pm_addresses ?pm) p = Some (q, sigs)" "peer_ok N q"
      by (auto simp: gives_ok_def)
    have a: "announces N (length (delivered p)) p (q, sigs)"
      using announced_update [OF p, of env "sock (p_id p)" "pm_addresses ?pm"] Cons.prems(4) q(1) by simp
    have w: "waiting (p # ps) = length (delivered p) + waiting ps" by (simp add: waiting_def)
    let ?pm = "pm\<lparr>pm_peers := seen @ q # ps\<rparr>"
    have "\<forall>i < N. unat (pm_cnt ?pm ! i) + length (delivered p) < 2 ^ 32" using Cons.prems(5) w by fastforce
    note s = list_ok_signals [OF list_ok_cong [OF Cons.prems(1)] a q(2) this, of "pe_numbers env"]
    let ?pm' = "fold (pm_signal (pe_numbers env)) sigs ?pm"
    have "\<forall>i < N. unat (pm_cnt ?pm' ! i) + waiting ps < 2 ^ 32" using s(2) Cons.prems(5) w by fastforce
    then have "\<exists>pm'. update_loop env sock (seen @ [q]) ps ?pm' = Some pm' \<and> pm_ok N pm'"
      using Cons.prems s(1) by (intro Cons.IH) auto
    then show ?thesis using False q(1) by simp
  qed
qed

section \<open>The other operations\<close>

definition same_tables :: "peer_manager \<Rightarrow> peer_manager \<Rightarrow> bool" where
  "same_tables pm pm' \<longleftrightarrow> pm_peers pm' = pm_peers pm \<and> pm_map pm' = pm_map pm \<and> pm_num_chunks pm' = pm_num_chunks pm \<and>
     pm_cnt pm' = pm_cnt pm \<and> pm_available pm' = pm_available pm"

lemma same_tables_refl [simp]: "same_tables pm pm"
  by (simp add: same_tables_def)

lemma same_tables_trans: "same_tables a b \<Longrightarrow> same_tables b c \<Longrightarrow> same_tables a c"
  by (simp add: same_tables_def)

lemma same_tables_ok: "same_tables pm pm' \<Longrightarrow> pm_ok N pm \<Longrightarrow> pm_ok N pm'"
  by (simp add: same_tables_def pm_ok_def list_ok_def counts_ok_def tables_ok_def)

lemma start_auth_tables: "same_tables pm (start_auth ce a pm)"
  by (simp add: start_auth_def auth_ended_def same_tables_def Let_def)

lemma connect_loop_tables: "same_tables pm (connect_loop nf ce n pm)"
proof (induction n arbitrary: pm)
  case (Suc n)
  have "same_tables pm ((connect_one nf ce pp pm)\<lparr>pm_potential := rest\<rparr>)" for pp rest
    using start_auth_tables [of pm ce] by (simp add: connect_one_def same_tables_def)
  from same_tables_trans [OF this Suc] show ?case by (simp split: list.split)
qed simp

lemma connect_tables: "same_tables pm (connectToPeers nf ce pm)"
  by (simp add: connectToPeers_def connect_loop_tables)

lemma setPex_fields: "p_pieces (p_setPexEnabled env on p) = p_pieces p" "p_id (p_setPexEnabled env on p) = p_id p"
  by (simp_all add: p_setPexEnabled_def Let_def)

lemma create_ok:
  assumes "pm_ok N pm" "N < 2 ^ 32" "env_ok env" "pm_next_id pm \<notin> set (pm_map pm)"
  shows "pm_ok N (createPeer env pid addr support loc pm)"
proof -
  define p where "p = Peer_new env (pm_next_id pm) pid addr N (pm_chunk_size pm) support loc"
  define q where "q = p_setPexEnabled env (pm_pex_on pm) p"
  have p: "peer_ok N p" unfolding p_def by (rule peer_ok_new [OF assms(2)])
  have q: "peer_ok N q" unfolding q_def by (rule peer_ok_setPex [OF p assms(3)])
  have f: "p_id p = pm_next_id pm" "p_pieces p = BitSet_new N" by (simp_all add: p_def Peer_new_def Let_def p_kill_def)
  then have fq: "p_id q = pm_next_id pm" "p_pieces q = BitSet_new N" by (simp_all add: q_def setPex_fields)
  have none: "\<not> bs_get (BitSet_new N) i" for i using bs_new_fields by (simp add: bs_ok_new)
  have ok: "list_ok N (pm_peers pm) pm" using assms(1) by (simp add: pm_ok_def)
  define pm' where "pm' = createPeer env pid addr support loc pm"
  have "pm_num_chunks pm = N" using ok by (simp add: list_ok_def)
  then have pm': "pm_peers pm' = pm_peers pm @ [q]" "pm_map pm' = insort_insert (pm_next_id pm) (pm_map pm)"
    "pm_num_chunks pm' = N" "pm_cnt pm' = pm_cnt pm" "pm_available pm' = pm_available pm"
    by (simp_all add: pm'_def createPeer_def Let_def pm_emit_def p_def [symmetric] q_def f)
  have "counts_ok N (pm_peers pm @ [q]) pm'"
    using ok pm' none fq by (simp add: list_ok_def counts_ok_def tables_ok_def)
  then show ?thesis
    using ok q fq assms(4) pm'
    by (auto simp: pm_ok_def pm'_def [symmetric] list_ok_def set_insort_insert sorted_insort_insert distinct_insort_insert)
qed

text \<open>Operations that leave the number and the chunks of every peer alone.\<close>

definition touched :: "nat \<Rightarrow> peer list \<Rightarrow> peer list \<Rightarrow> bool" where
  "touched N ps qs \<longleftrightarrow> list_all2 (\<lambda>p q. p_id q = p_id p \<and> p_pieces q = p_pieces p \<and> peer_ok N q) ps qs"

lemma touched_ok:
  assumes "touched N (pm_peers pm) qs" "pm_ok N pm" "same_tables (pm\<lparr>pm_peers := qs\<rparr>) pm'"
  shows "pm_ok N pm'"
proof -
  have "list_all2 (\<lambda>p q. p_id q = p_id p \<and> p_pieces q = p_pieces p \<and> peer_ok N q) ps qs \<Longrightarrow>
      map p_id qs = map p_id ps \<and> (\<forall>i. holders i qs = holders i ps) \<and> (\<forall>q \<in> set qs. peer_ok N q)" for ps qs
    by (induction ps qs rule: list_all2_induct) auto
  then have t: "map p_id qs = map p_id (pm_peers pm)" "\<forall>i. holders i qs = holders i (pm_peers pm)" "\<forall>q \<in> set qs. peer_ok N q"
    using assms(1) by (simp_all add: touched_def)
  then have "p_id ` set qs = p_id ` set (pm_peers pm)" by (metis list.set_map)
  then show ?thesis using assms(2,3) t
    by (simp add: pm_ok_def list_ok_def counts_ok_def tables_ok_def same_tables_def)
qed

lemma touched_map:
  "\<forall>p \<in> set ps. p_id (f p) = p_id p \<and> p_pieces (f p) = p_pieces p \<and> peer_ok N (f p) \<Longrightarrow> touched N ps (map f ps)"
  by (simp add: touched_def list_all2_map2 list.rel_refl_strong)

lemma kill_fields [simp]: "p_id (p_kill p) = p_id p" "p_pieces (p_kill p) = p_pieces p"
  by (simp_all add: p_kill_def)

lemma kill_where_ok: "pm_ok N pm \<Longrightarrow> pm_ok N (pm_kill_where P pm)"
  by (rule touched_ok [OF touched_map [of _ "\<lambda>p. if P p then p_kill p else p"], of pm])
     (simp_all add: pm_ok_def list_ok_def pm_kill_where_def)

lemma kill_choked_touched: "\<forall>p \<in> set ps. peer_ok N p \<Longrightarrow> touched N ps (kill_choked now older n ps)"
  unfolding touched_def by (induction ps arbitrary: n) (auto simp: list.rel_refl_strong)

lemma kill_choked_ok: "pm_ok N pm \<Longrightarrow> pm_ok N (killChokedPeers now older pm)"
  by (rule touched_ok [OF kill_choked_touched [where now = now and older = older and n = 0], of pm])
     (simp_all add: pm_ok_def list_ok_def killChokedPeers_def)

lemma setPexEnabled_ok:
  assumes "pm_ok N pm" "env_ok env"
  shows "pm_ok N (pm_setPexEnabled env on pm)"
proof -
  let ?f = "\<lambda>p. if \<not> p_killed p then p_setPexEnabled env on p else p"
  have "touched N (pm_peers pm) (map ?f (pm_peers pm))"
    using assms by (intro touched_map) (simp add: setPex_fields peer_ok_setPex pm_ok_def list_ok_def)
  from touched_ok [OF this assms(1), of "pm\<lparr>pm_peers := map ?f (pm_peers pm), pm_pex_on := on\<rparr>"] show ?thesis
    using assms(1) by (simp add: pm_setPexEnabled_def same_tables_def)
qed

lemma killBad_ok: "pm_ok N pm \<Longrightarrow> pm_ok N (fst (killBadPeer pm))"
  by (simp add: killBadPeer_def kill_where_ok split: option.split)

lemma killBad_fields: "pm_next_id (fst (killBadPeer pm)) = pm_next_id pm" "pm_map (fst (killBadPeer pm)) = pm_map pm"
  by (simp_all add: killBadPeer_def pm_kill_where_def split: option.split)

lemma newConnection_ok:
  assumes "pm_ok N pm" "N < 2 ^ 32" "env_ok env" "pm_next_id pm \<notin> set (pm_map pm)"
  shows "pm_ok N (newConnection env pid addr support pm)"
proof -
  obtain pm' found where k: "killBadPeer pm = (pm', found)" by (cases "killBadPeer pm")
  have "pm_ok N pm'" "pm_next_id pm' \<notin> set (pm_map pm')"
    using killBad_ok [OF assms(1)] killBad_fields [of pm] assms(4) k by simp_all
  then show ?thesis using create_ok [OF assms] create_ok [OF _ assms(2,3), of pm'] k by (simp add: newConnection_def Let_def)
qed

lemma authenticated_ok:
  assumes "pm_ok N pm" "N < 2 ^ 32" "env_ok env" "pm_next_id pm \<notin> set (pm_map pm)"
  shows "pm_ok N (peerAuthenticated env ce a ok pid addr support pm)"
proof -
  have t: "same_tables pm (auth_ended pm)" and n: "pm_next_id (auth_ended pm) = pm_next_id pm"
    by (simp_all add: auth_ended_def same_tables_def)
  note e = same_tables_ok [OF t assms(1)]
  have "pm_ok N (createPeer env pid addr support (au_local a) (auth_ended pm))"
    using t n assms(4) by (intro create_ok [OF e assms(2,3)]) (simp add: same_tables_def)
  then show ?thesis
    using assms(1) e same_tables_ok [OF start_auth_tables e] by (simp add: peerAuthenticated_def Let_def)
qed

lemma halt_ok:
  assumes "pm_ok N pm"
  shows "pm_ok N (closeAllConnections (pm_stop pm))"
proof -
  have "bs_ok (pm_available pm)" "bs_num_bits (pm_available pm) = N" "length (pm_cnt pm) = N" "pm_num_chunks pm = N"
    using assms by (simp_all add: pm_ok_def list_ok_def counts_ok_def tables_ok_def)
  then show ?thesis
    using bs_ok_setAll [OF bs_ok_shape, of "pm_available pm" False]
    by (simp add: closeAllConnections_def pm_stop_def Let_def pm_emit_def pm_ok_def list_ok_def counts_ok_def tables_ok_def
        cc_reset_def bs_clear_def bs_setAll_def)
qed

section \<open>Runs\<close>

text \<open>What happens to a manager. The number of the next peer must not be one still in use; no counter
  may overflow in an update; the packets waiting must be polite. The choker, the uploader and the
  network threads work on peers in between without changing their chunks (\<open>run_touch\<close>).\<close>

inductive pm_run :: "nat \<Rightarrow> peer_manager \<Rightarrow> bool" for N where
  run_new: "pm_run N (PeerManager_new N csize priv next_id max_conn max_total tot)"
| run_start: "pm_run N pm \<Longrightarrow> pm_run N (pm_start pm)"
| run_halt: "pm_run N pm \<Longrightarrow> pm_run N (closeAllConnections (pm_stop pm))"
| run_update: "pm_run N pm \<Longrightarrow> env_ok env \<Longrightarrow> length (pm_peers pm) \<le> MAX_CONNECTED \<Longrightarrow>
    \<forall>p \<in> set (pm_peers pm). \<forall>k \<in> set (delivered p). polite k \<Longrightarrow>
    \<forall>i < N. unat (pm_cnt pm ! i) + waiting (pm_peers pm) < 2 ^ 32 \<Longrightarrow>
    pm_update env ce sock pm = Some pm' \<Longrightarrow> pm_run N pm'"
| run_incoming: "pm_run N pm \<Longrightarrow> env_ok env \<Longrightarrow> pm_next_id pm \<notin> set (pm_map pm) \<Longrightarrow>
    pm_run N (newConnection env pid addr support pm)"
| run_authenticated: "pm_run N pm \<Longrightarrow> env_ok env \<Longrightarrow> pm_next_id pm \<notin> set (pm_map pm) \<Longrightarrow>
    pm_run N (peerAuthenticated env ce a ok pid addr support pm)"
| run_source: "pm_run N pm \<Longrightarrow> pm_run N (peerSourceReady pps pm)"
| run_clear: "pm_run N pm \<Longrightarrow> pm_run N (fst (clearDeadPeers pm))"
| run_choked: "pm_run N pm \<Longrightarrow> pm_run N (killChokedPeers now older pm)"
| run_seeders: "pm_run N pm \<Longrightarrow> pm_run N (killSeeders pm)"
| run_uninterested: "pm_run N pm \<Longrightarrow> pm_run N (killUninterested clock pm)"
| run_pex: "pm_run N pm \<Longrightarrow> env_ok env \<Longrightarrow> pm_run N (pm_setPexEnabled env on pm)"
| run_limit: "pm_run N pm \<Longrightarrow> pm_run N (setMaxConnections m (setMaxTotalConnections f m' pm))"
| run_touch: "pm_run N pm \<Longrightarrow> touched N (pm_peers pm) qs \<Longrightarrow> pm_run N (pm\<lparr>pm_peers := qs\<rparr>)"

lemma pm_run_ok:
  assumes "N < 2 ^ 32" "pm_run N pm"
  shows "pm_ok N pm"
  using assms(2)
proof induction
  case (run_new csize priv next_id max_conn max_total tot)
  show ?case
    using bs_ok_new [OF assms(1)]
    by (simp add: PeerManager_new_def pm_ok_def list_ok_def counts_ok_def tables_ok_def ChunkCounter_new_def)
next
  case (run_update pm env ce sock pm')
  have "list_ok N ([] @ pm_peers pm) pm" using run_update.IH by (simp add: pm_ok_def)
  from update_loop_ok [OF this, of env sock] run_update.hyps
  obtain pm1 where u: "update_loop env sock [] (pm_peers pm) pm = Some pm1" "pm_ok N pm1" by auto
  then show ?case
    using run_update.hyps(6) run_update.IH same_tables_ok [OF connect_tables u(2)]
    by (auto simp: pm_update_def split: if_splits)
next
  case (run_source pm pps)
  then show ?case
    using potentials_keep [of pm pps] same_tables_ok [of pm "peerSourceReady pps pm" N]
    by (simp add: peerSourceReady_def same_tables_def same_peers_def)
next
  case (run_touch pm qs)
  then show ?case using touched_ok [of N pm qs] by simp
next
  case (run_start pm)
  then show ?case using same_tables_ok [of pm "pm_start pm"] by (simp add: pm_start_def same_tables_def)
next
  case (run_clear pm)
  then show ?case using same_tables_ok [of pm "fst (clearDeadPeers pm)"] by (simp add: clearDeadPeers_def same_tables_def)
next
  case (run_limit pm m f m')
  then show ?case
    using same_tables_ok [of pm "setMaxConnections m (setMaxTotalConnections f m' pm)"]
    by (simp add: setMaxConnections_def setMaxTotalConnections_def same_tables_def Let_def)
qed (auto simp: killSeeders_def killUninterested_def intro: halt_ok newConnection_ok authenticated_ok kill_choked_ok kill_where_ok
  setPexEnabled_ok assms(1))

section \<open>Limits\<close>

lemma start_auth_counts:
  assumes "unat (pm_pending pm) + 1 < 2 ^ 32" "unat (pm_total pm) + 1 < 2 ^ 32"
  shows "unat (pm_pending (start_auth ce a pm)) \<le> unat (pm_pending pm) + 1"
    "unat (pm_total (start_auth ce a pm)) \<le> unat (pm_total pm) + 1"
  using assms unat_inc [of "pm_pending pm"] unat_inc [of "pm_total pm"]
  by (auto simp: start_auth_def auth_ended_def Let_def)

lemma connect_one_counts:
  assumes "unat (pm_pending pm) + 1 < 2 ^ 32" "unat (pm_total pm) + 1 < 2 ^ 32"
  shows "unat (pm_pending (connect_one nf ce pp pm)) \<le> unat (pm_pending pm) + 1"
    "unat (pm_total (connect_one nf ce pp pm)) \<le> unat (pm_total pm) + 1"
  using start_auth_counts [OF assms] by (auto simp: connect_one_def)

lemma connect_loop_counts:
  "unat (pm_pending pm) + n < 2 ^ 32 \<Longrightarrow> unat (pm_total pm) + n < 2 ^ 32 \<Longrightarrow>
   unat (pm_pending (connect_loop nf ce n pm)) \<le> unat (pm_pending pm) + n \<and>
   unat (pm_pending (connect_loop nf ce n pm)) \<le> max (unat (pm_pending pm)) 21 \<and>
   unat (pm_total (connect_loop nf ce n pm)) \<le> unat (pm_total pm) + n"
proof (induction n arbitrary: pm)
  case (Suc n)
  show ?case
  proof (cases "pm_pending pm > MAX_SIMULTANIOUS_AUTHS \<or> pm_potential pm = []")
    case True
    then show ?thesis by (auto split: list.split)
  next
    case False
    then obtain pp rest where pp: "pm_potential pm = pp # rest" by (cases "pm_potential pm") auto
    let ?q = "(connect_one nf ce pp pm)\<lparr>pm_potential := rest\<rparr>"
    have "unat (pm_pending pm) + 1 < 2 ^ 32" "unat (pm_total pm) + 1 < 2 ^ 32" using Suc.prems by simp_all
    note c = connect_one_counts [OF this, of nf ce pp]
    have "unat (pm_pending pm) \<le> 20" using False by (simp add: MAX_SIMULTANIOUS_AUTHS_def word_le_nat_alt not_less)
    moreover have "connect_loop nf ce (Suc n) pm = connect_loop nf ce n ?q" using False pp by simp
    ultimately show ?thesis using Suc.IH [of ?q] Suc.prems c by auto
  qed
qed simp

lemma word_diff_nat: "(b :: u32) \<le> a \<Longrightarrow> unat (a - b) = unat a - unat b"
  by (simp add: unat_sub word_le_nat_alt)

lemma len32: "LENGTH(32) = 32"
  by simp

lemma connect_num_le:
  assumes "length (pm_potential pm) < 2 ^ 16" "unat (pm_total pm) + length (pm_potential pm) < 2 ^ 32"
    "length (pm_peers pm) + unat (pm_pending pm) < 2 ^ 32"
    "\<not> (of_nat (length (pm_peers pm)) + pm_pending pm \<ge> pm_max_conn pm \<and> pm_max_conn pm > 0)"
    "\<not> (pm_total pm \<ge> pm_max_total pm \<and> pm_max_total pm > 0)"
  shows "unat (connect_num pm) \<le> length (pm_potential pm)"
    "0 < pm_max_conn pm \<Longrightarrow> unat (connect_num pm) + (length (pm_peers pm) + unat (pm_pending pm)) \<le> unat (pm_max_conn pm)"
    "0 < pm_max_total pm \<Longrightarrow> unat (connect_num pm) + unat (pm_total pm) \<le> unat (pm_max_total pm)"
proof -
  let ?sz = "of_nat (length (pm_potential pm)) :: u32" and ?c = "of_nat (length (pm_peers pm)) + pm_pending pm"
  have sz: "unat ?sz = length (pm_potential pm)" using assms(1) by (simp add: unat_of_nat_small)
  have c: "unat ?c = length (pm_peers pm) + unat (pm_pending pm)"
    using unat_add_of_nat [of "pm_pending pm" "length (pm_peers pm)"] assms(3) unfolding len32 by (metis add.commute)
  define n where "n = (if pm_max_conn pm > 0 then
      (if pm_max_conn pm - ?c \<ge> ?sz then ?sz else pm_max_conn pm - ?c) else ?sz)"
  have nd: "pm_max_conn pm > 0 \<Longrightarrow> unat (pm_max_conn pm - ?c) = unat (pm_max_conn pm) - unat ?c"
    using assms(4) by (intro word_diff_nat) auto
  have n1: "unat n \<le> length (pm_potential pm)" using sz by (auto simp: n_def word_le_nat_alt)
  have n2: "unat n + unat ?c \<le> unat (pm_max_conn pm)" if m: "0 < pm_max_conn pm"
  proof -
    have lt: "unat ?c < unat (pm_max_conn pm)" using assms(4) m by (simp only: word_le_nat_alt not_le simp_thms)
    have "n = (if pm_max_conn pm - ?c \<ge> ?sz then ?sz else pm_max_conn pm - ?c)" using m by (simp only: n_def if_True)
    then have "unat n \<le> unat (pm_max_conn pm - ?c)" by (simp only: word_le_nat_alt split: if_split) linarith
    then show ?thesis using nd [OF m] lt by linarith
  qed
  have nt: "unat (n + pm_total pm) = unat n + unat (pm_total pm)"
    using n1 assms(2) by (simp add: unat_word_ariths)
  have k: "connect_num pm = (if n + pm_total pm \<ge> pm_max_total pm \<and> pm_max_total pm > 0 then pm_max_total pm - pm_total pm else n)"
    by (simp add: connect_num_def Let_def n_def)
  have td: "0 < pm_max_total pm \<Longrightarrow> unat (pm_max_total pm - pm_total pm) = unat (pm_max_total pm) - unat (pm_total pm)"
    using assms(5) by (intro word_diff_nat) auto
  have le: "unat (connect_num pm) \<le> unat n" using k td nt by (auto simp: word_le_nat_alt)
  show "unat (connect_num pm) \<le> length (pm_potential pm)" using le n1 by simp
  show "unat (connect_num pm) + (length (pm_peers pm) + unat (pm_pending pm)) \<le> unat (pm_max_conn pm)" if "0 < pm_max_conn pm"
    using n2 [OF that] le c by simp
  show "unat (connect_num pm) + unat (pm_total pm) \<le> unat (pm_max_total pm)" if "0 < pm_max_total pm"
    using k td [OF that] nt that assms(5) by (auto simp: word_le_nat_alt not_le)
qed

section \<open>The peer exchange\<close>

lemma am_insert_set: "k \<notin> fst ` set m \<Longrightarrow> set (am_insert k a m) = insert (k, a) (set m)"
  by (induction m rule: am_insert.induct) auto

lemma pex_collect_added:
  "distinct (map fst es) \<Longrightarrow> fst ` set es \<inter> fst ` set added = {} \<Longrightarrow> fold (pex_collect me) es (added, np, old) = (a, n, d) \<Longrightarrow>
   set a = set added \<union> {e \<in> set es. fst e \<noteq> me \<and> fst e \<notin> fst ` set old}"
proof (induction es arbitrary: added np old)
  case (Cons e es)
  obtain added' np' old' where s: "pex_collect me e (added, np, old) = (added', np', old')" by (metis prod_cases3)
  have e: "fst e \<notin> fst ` set es" "fst e \<notin> fst ` set added" using Cons.prems(1,2) by auto
  have a': "set added' = (if fst e \<noteq> me \<and> fst e \<notin> fst ` set old then insert e (set added) else set added)"
    using s am_insert_set [OF e(2), of "snd e"] by (auto simp: pex_collect_def am_count_def split: if_splits)
  have o': "x \<in> fst ` set old' \<longleftrightarrow> x \<in> fst ` set old" if "x \<noteq> fst e" for x
    using s that by (force simp: pex_collect_def am_erase_def split: if_splits)
  have "fst ` set es \<inter> fst ` set added' = {}" using Cons.prems(2) e a' by (auto split: if_splits)
  then have "set a = set added' \<union> {x \<in> set es. fst x \<noteq> me \<and> fst x \<notin> fst ` set old'}"
    using Cons.prems s by (intro Cons.IH) simp_all
  moreover have "{x \<in> set es. fst x \<noteq> me \<and> fst x \<notin> fst ` set old'} = {x \<in> set es. fst x \<noteq> me \<and> fst x \<notin> fst ` set old}"
    using o' e(1) by (metis (mono_tags, lifting) imageI)
  ultimately show ?case using a' by (auto split: if_splits)
qed simp

definition as_potential :: "tq_numbers \<Rightarrow> address \<Rightarrow> potential_peer" where
  "as_potential nf a = \<lparr>pp_ip = ip_string nf (fst a), pp_port = snd a, pp_local = False\<rparr>"

lemma six_bytes: "length xs = 6 \<Longrightarrow> \<exists>a b c d e f. xs = [a, b, c, d, e, f]"
  by (auto simp: numeral_eq_Suc length_Suc_conv)

lemma pex_peers_record: "pex_peers nf (pex_record a @ rest) = as_potential nf a # pex_peers nf rest"
proof -
  have "ReadUint32 (pex_record a) 0 = ReadUint32 (WriteUint32 (replicate 6 0) 0 (fst a)) 0"
    by (rule ReadUint32_cong) (simp add: pex_record_def nth_WriteUint_other)
  then have r: "ReadUint32 (pex_record a) 0 = fst a" "ReadUint16 (pex_record a) 4 = snd a"
    by (simp_all add: pex_record_def)
  obtain x1 x2 x3 x4 x5 x6 where "pex_record a = [x1, x2, x3, x4, x5, x6]"
    using six_bytes [OF pex_record_length] by blast
  then show ?thesis using r by (simp add: as_potential_def Let_def)
qed

lemma pex_peers_records: "pex_peers nf (concat (map (\<lambda>e. pex_record (snd e)) es)) = map (\<lambda>e. as_potential nf (snd e)) es"
  by (induction es) (simp_all add: pex_peers_record)

section \<open>Properties\<close>

text \<open>Claim C12: no chunk that a connected peer has is missed. In every state a peer manager reaches, for
  every chunk the counter is at least the number of peers that have it, and the chunk counts as
  available when there is one; the peers have different numbers and the map holds exactly these.\<close>

theorem availability_complete:
  assumes "N < 2 ^ 32" "pm_run N pm"
  shows "(\<forall>i < N. holders i (pm_peers pm) \<le> unat (cc_get (pm_cnt pm) i)) \<and>
    (\<forall>p \<in> set (pm_peers pm). \<forall>i. bs_get (p_pieces p) i \<longrightarrow> bs_get (pm_available pm) i) \<and>
    distinct (map p_id (pm_peers pm)) \<and> set (pm_map pm) = p_id ` set (pm_peers pm)"
proof -
  have ok: "list_ok N (pm_peers pm) pm" using pm_run_ok [OF assms] by (simp add: pm_ok_def)
  have "bs_get (pm_available pm) i" if "p \<in> set (pm_peers pm)" "bs_get (p_pieces p) i" for p i
  proof -
    have "bs_num_bits (p_pieces p) = N" using ok that(1) by (simp add: list_ok_def peer_ok_def peer_base_def)
    then have "i < N" using that(2) bs_get_outside [of "p_pieces p" i] by (meson not_le)
    moreover have "0 < holders i (pm_peers pm)"
      unfolding holders_def using that by (metis (mono_tags, lifting) filter_empty_conv length_greater_0_conv)
    ultimately show ?thesis using ok by (simp add: list_ok_def counts_ok_def)
  qed
  then show ?thesis using ok by (auto simp: list_ok_def counts_ok_def tables_ok_def cc_get_def)
qed

text \<open>A started manager of a torrent with two chunks, with one peer.\<close>

definition a_manager :: peer_manager where
  "a_manager = newConnection some_env [1] (16909060, 80) 4 (pm_start (PeerManager_new 2 32768 False 7 10 20 0))"

lemma a_manager_run: "pm_run 2 a_manager"
  unfolding a_manager_def
  by (intro pm_run.run_incoming pm_run.run_start pm_run.run_new some_env_ok) (simp add: pm_start_def PeerManager_new_def)

lemma a_manager_peers: "pm_peers a_manager = [a_peer 4]" "length (pm_cnt a_manager) = 2"
  by (simp_all add: a_manager_def newConnection_def Let_def pm_start_def PeerManager_new_def createPeer_def pm_emit_def
      a_peer_def p_setPexEnabled_def Peer_new_def ChunkCounter_new_def)

theorem availability_complete_witness:
  "pm_peers a_manager \<noteq> [] \<and> holders 0 (pm_peers a_manager) \<le> unat (cc_get (pm_cnt a_manager) 0) \<and>
   holders 1 (pm_peers a_manager) \<le> unat (cc_get (pm_cnt a_manager) 1)"
  using availability_complete [OF _ a_manager_run] a_manager_peers(1) by simp

text \<open>Claim C26: starting connections keeps to the limits. However many potential peers there are, no more than
  21 authentications are pending afterwards, unless there were more before, and neither the limit for the
  torrent nor the one for all torrents is passed, unless it was already.\<close>

theorem connection_limits:
  assumes "length (pm_potential pm) < 2 ^ 16" "unat (pm_total pm) + length (pm_potential pm) < 2 ^ 32"
    "length (pm_peers pm) + unat (pm_pending pm) + length (pm_potential pm) < 2 ^ 32"
  shows "unat (pm_pending (connectToPeers nf ce pm)) \<le> max (unat (pm_pending pm)) 21 \<and>
    (0 < pm_max_conn pm \<longrightarrow> length (pm_peers pm) + unat (pm_pending (connectToPeers nf ce pm)) \<le>
       max (unat (pm_max_conn pm)) (length (pm_peers pm) + unat (pm_pending pm))) \<and>
    (0 < pm_max_total pm \<longrightarrow> unat (pm_total (connectToPeers nf ce pm)) \<le> max (unat (pm_max_total pm)) (unat (pm_total pm)))"
proof (cases "connectToPeers nf ce pm = pm")
  case False
  then have g: "\<not> (of_nat (length (pm_peers pm)) + pm_pending pm \<ge> pm_max_conn pm \<and> pm_max_conn pm > 0)"
    "\<not> (pm_total pm \<ge> pm_max_total pm \<and> pm_max_total pm > 0)"
    and c: "connectToPeers nf ce pm = connect_loop nf ce (unat (connect_num pm)) pm"
    by (simp_all add: connectToPeers_def split: if_splits)
  have "length (pm_peers pm) + unat (pm_pending pm) < 2 ^ 32" using assms(3) by simp
  note n = connect_num_le [OF assms(1,2) this g]
  have "unat (pm_pending pm) + unat (connect_num pm) < 2 ^ 32" "unat (pm_total pm) + unat (connect_num pm) < 2 ^ 32"
    using n(1) assms(2,3) by linarith+
  from connect_loop_counts [OF this, of nf ce] n(2,3) show ?thesis unfolding c by fastforce
qed simp

theorem connection_limits_witness:
  "unat (pm_total (connectToPeers decimal \<lparr>ce_blocked = (\<lambda>_. False), ce_can_connect = True, ce_encryption = True,
      ce_unencrypted = True, ce_refused = (\<lambda>_ _. False), ce_aton = (\<lambda>_. 0)\<rparr>
    ((PeerManager_new 2 32768 False 7 10 3 2)\<lparr>pm_potential := [\<lparr>pp_ip = [49], pp_port = 1, pp_local = False\<rparr>,
       \<lparr>pp_ip = [50], pp_port = 2, pp_local = False\<rparr>]\<rparr>))) \<le> 3"
  using connection_limits [of "(PeerManager_new 2 32768 False 7 10 3 2)\<lparr>pm_potential := [\<lparr>pp_ip = [49], pp_port = 1, pp_local = False\<rparr>,
       \<lparr>pp_ip = [50], pp_port = 2, pp_local = False\<rparr>]\<rparr>" decimal "\<lparr>ce_blocked = (\<lambda>_. False), ce_can_connect = True, ce_encryption = True,
      ce_unencrypted = True, ce_refused = (\<lambda>_ _. False), ce_aton = (\<lambda>_. 0)\<rparr>"]
  by (simp add: PeerManager_new_def)

text \<open>Stopping a torrent loses connections from the count of all torrents. When the count is the
  connections of others plus the peers and pending authentications of this one, stopping and closing
  everything leaves the pending ones in it, although none is left.\<close>

theorem stop_leaks_connections:
  assumes "unat (pm_total pm) = others + length (pm_peers pm) + unat (pm_pending pm)"
  shows "pm_peers (closeAllConnections (pm_stop pm)) = [] \<and> pm_pending (closeAllConnections (pm_stop pm)) = 0 \<and>
    pm_auths (closeAllConnections (pm_stop pm)) = [] \<and>
    unat (pm_total (closeAllConnections (pm_stop pm))) = others + unat (pm_pending pm)"
proof -
  let ?n = "of_nat (length (pm_peers pm)) :: u32"
  have "length (pm_peers pm) < 2 ^ 32" using assms unat_bound [of "pm_total pm"] by simp
  then have n: "unat ?n = length (pm_peers pm)" by (simp add: unat_of_nat_small)
  then have "?n \<le> pm_total pm" using assms by (simp add: word_le_nat_alt)
  then show ?thesis
    using assms n word_diff_nat by (simp add: closeAllConnections_def pm_stop_def Let_def pm_emit_def)
qed

theorem stop_leaks_connections_witness:
  "unat (pm_total (closeAllConnections (pm_stop ((PeerManager_new 2 32768 False 7 10 20 5)\<lparr>pm_pending := 3\<rparr>)))) = 5"
  using stop_leaks_connections [of "(PeerManager_new 2 32768 False 7 10 20 5)\<lparr>pm_pending := 3\<rparr>" 2]
  by (simp add: PeerManager_new_def)

text \<open>A peer that announces a chunk twice leaves it counted for ever. The second announcement changes
  nothing at the peer but raises the counter; when the peer goes, the chunk stays available although
  nobody has it.\<close>

theorem repeated_have_drifts:
  assumes "N < 2 ^ 32" "pm_run N pm" "pm_peers pm = seen @ p # ps" "i < N" "bs_get (p_pieces p) i" "\<not> p_killed p"
    "unat (cc_get (pm_cnt pm) i) + 1 < 2 ^ 32" "holders i (seen @ ps) = 0"
  shows "packetReady env (HAVE # u32_bytes (of_nat i)) p = Some (p, [HaveChunk i]) \<and>
    bs_get (pm_available (pm_remove p (pm_signal nf (HaveChunk i) pm))) i"
proof -
  have ok: "list_ok N (pm_peers pm) pm" using pm_run_ok [OF assms(1,2)] by (simp add: pm_ok_def)
  then have t: "tables_ok N pm" "length (pm_cnt pm) = N" and b: "bs_num_bits (p_pieces p) = N"
    using assms(3) by (simp_all add: list_ok_def counts_ok_def tables_ok_def peer_ok_def peer_base_def)
  have "ReadUint32 ([HAVE] @ u32_bytes (of_nat i) @ []) 1 = of_nat i" by (rule ReadUint32_at) simp
  moreover have "unat (of_nat i :: u32) = i" using assms(1,4) by (simp add: unat_of_nat_small)
  moreover have "bs_set (p_pieces p) i True = p_pieces p" using assms(5) by (simp add: bs_set_def Let_def)
  ultimately have r: "packetReady env (HAVE # u32_bytes (of_nat i)) p = Some (p, [HaveChunk i])"
    using assms(4,6) b by (simp add: packetReady_def Let_def message_ids on_have_def)
  have c: "counted N (\<lambda>j. if j = i then 1 else 0) pm (onHave i pm)"
    using assms(4,7) t by (intro onHave_counts) (simp_all add: cc_get_def)
  have "1 \<le> unat (pm_cnt pm ! i)"
    using ok assms(3-5) by (fastforce simp: list_ok_def counts_ok_def)
  then have two: "2 \<le> unat (pm_cnt (onHave i pm) ! i)" and t': "tables_ok N (onHave i pm)" using c assms(4) by (simp_all add: counted_def)
  let ?q = "onHave i pm" and ?cc = "cc_decBitSet (p_pieces p) (pm_cnt (onHave i pm))"
  have l: "length (pm_cnt ?q) = N" using t' by (simp add: tables_ok_def)
  then have "?cc ! i = pm_cnt ?q ! i - 1" "0 < unat (pm_cnt ?q ! i)"
    using decBitSet_nth [of "p_pieces p" "pm_cnt ?q"] assms(4,5) two by (simp_all add: unat_gt_0 word_gt_0) (auto simp: unat_gt_0 word_gt_0)
  then have "0 < ?cc ! i" using two unat_dec [of "pm_cnt ?q ! i"] by (simp add: word_less_nat_alt)
  moreover have "tables_ok N (?q\<lparr>pm_cnt := ?cc\<rparr>)" using t' decBitSet_nth [of "p_pieces p" "pm_cnt ?q"] by (simp add: tables_ok_def)
  from updateAvailable_get [OF this] have "bs_get (pm_available (updateAvailableChunks (?q\<lparr>pm_cnt := ?cc\<rparr>))) i \<longleftrightarrow> ?cc ! i > 0"
    using assms(4) by simp
  moreover have "pm_available (pm_remove p ?q) = pm_available (updateAvailableChunks (?q\<lparr>pm_cnt := ?cc\<rparr>))"
    by (simp add: pm_remove_def Let_def pm_emit_def)
  ultimately show ?thesis using r by (simp add: pm_signal_def)
qed

text \<open>The peer of \<open>a_manager\<close> with a complete announcement of chunk 0 in its reader.\<close>

definition announcing_peer :: peer where
  "announcing_peer = (a_peer 4)\<lparr>p_reader := \<lparr>pr_error = False,
     pr_queue = [\<lparr>ip_data = HAVE # u32_bytes 0, ip_size = 5, ip_read = 5\<rparr>], pr_len = replicate 4 0, pr_len_received = 0\<rparr>\<rparr>"

definition quiet_env :: connect_env where
  "quiet_env = \<lparr>ce_blocked = (\<lambda>_. False), ce_can_connect = True, ce_encryption = True, ce_unencrypted = True,
     ce_refused = (\<lambda>_ _. False), ce_aton = (\<lambda>_. 0)\<rparr>"

lemma announcing_update:
  "\<exists>pm p. pm_run 2 pm \<and> pm_peers pm = [p] \<and> bs_get (p_pieces p) 0 \<and> \<not> p_killed p \<and> unat (cc_get (pm_cnt pm) 0) = 1"
proof -
  let ?q = "announcing_peer" and ?pm = "a_manager\<lparr>pm_peers := [announcing_peer]\<rparr>"
  have "peer_run sf_ops 2 (a_peer 4)" unfolding a_peer_def by (rule peer_run.run_new)
  then have ok: "peer_ok 2 (a_peer 4)" by (intro peer_run_ok) simp_all
  then have q: "peer_ok 2 ?q"
    by (simp add: announcing_peer_def peer_ok_def peer_base_def pr_ok_def ip_ok_def ip_full_def MAX_PIECE_LEN_def)
  have f: "p_id ?q = p_id (a_peer 4)" "p_pieces ?q = BitSet_new 2" "\<not> p_killed ?q" "p_pex ?q = None" "p_pieces (a_peer 4) = BitSet_new 2"
    "pw_uploaded (p_writer ?q) = 0"
    by (simp_all add: announcing_peer_def a_peer_def Peer_new_def Let_def PacketWriter_new_def)
  have run: "pm_run 2 ?pm"
    using f q by (intro pm_run.run_touch a_manager_run) (simp add: a_manager_peers touched_def)
  have d: "pr_update (p_reader ?q) = ((p_reader ?q)\<lparr>pr_queue := []\<rparr>, [HAVE # u32_bytes 0])" "\<not> pr_error (p_reader ?q)"
    by (simp_all add: announcing_peer_def pr_update_def)
  let ?r = "?q\<lparr>p_reader := (p_reader ?q)\<lparr>pr_queue := []\<rparr>\<rparr>"
  let ?p = "?r\<lparr>p_pieces := bs_set (BitSet_new 2) 0 True\<rparr>"
  have "ReadUint32 ([HAVE] @ u32_bytes 0 @ []) 1 = 0" by (rule ReadUint32_at) simp
  then have "packetReady some_env (HAVE # u32_bytes 0) ?r = Some (?p, [HaveChunk 0])"
    using f by (simp add: packetReady_def Let_def message_ids on_have_def)
  then have u: "p_update some_env True conns ?q = Some (p_pex_tick some_env conns (p_count_uploaded ?p), [HaveChunk 0])" for conns
    using f d by (simp add: p_update_def)
  have tick: "p_pex_tick some_env conns (p_count_uploaded ?p) = ?p" for conns
    using f by (simp add: p_count_uploaded_def getUploadedDataBytes_def p_pex_tick_def)
  have cnt: "pm_cnt a_manager = replicate 2 0" "pm_started a_manager" "pm_potential a_manager = []"
    by (simp_all add: a_manager_def newConnection_def Let_def pm_start_def PeerManager_new_def createPeer_def pm_emit_def ChunkCounter_new_def)
  obtain pm' where pm': "pm_update some_env quiet_env (\<lambda>_. True) ?pm = Some pm'" "pm_peers pm' = [?p]" "pm_cnt pm' = [1, 0]"
    using f u tick cnt
    by (simp add: pm_update_def pm_signal_def onHave_def cc_inc_def connectToPeers_def numeral_2_eq_2)
  have "polite (HAVE # u32_bytes 0)" by (simp add: polite_def message_ids)
  moreover have "waiting [?q] = 1" using d by (simp add: waiting_def)
  ultimately have "pm_run 2 pm'"
    using d cnt(1) by (intro pm_run.run_update [OF run some_env_ok _ _ _ pm'(1)]) (simp_all add: MAX_CONNECTED_def)
  moreover have "bs_get (bs_set (BitSet_new 2) 0 True) 0" using bits.get_put_eq [OF bs_ok_new, of 2 0 True 0] by simp
  ultimately show ?thesis using pm' f by (intro exI [of _ pm'] exI [of _ ?p]) (simp add: cc_get_def)
qed

theorem repeated_have_drifts_witness:
  "\<exists>pm p. pm_run 2 pm \<and> pm_peers pm = [p] \<and> bs_get (pm_available (pm_remove p (pm_signal decimal (HaveChunk 0) pm))) 0"
proof -
  obtain pm p where p: "pm_run 2 pm" "pm_peers pm = [] @ p # []" "bs_get (p_pieces p) 0" "\<not> p_killed p" "unat (cc_get (pm_cnt pm) 0) = 1"
    using announcing_update by auto
  have "bs_get (pm_available (pm_remove p (pm_signal decimal (HaveChunk 0) pm))) 0"
    using repeated_have_drifts [OF _ p(1,2) _ p(3,4), where env = some_env and nf = decimal] p(5) by simp
  then show ?thesis using p by auto
qed

text \<open>Claim C22: peers spread from one client to the next. The message that a connection sends about the peers
  that are new to it, taken apart at the other side, makes exactly those peers potential peers there.\<close>

theorem pex_round_trip:
  assumes "env_ok env" "pe_numbers env' = pe_numbers env" "length conns \<le> MAX_CONNECTED" "length (ux_peers ux) \<le> MAX_CONNECTED"
    "distinct (map fst conns)" "ux_id ux = 1" "\<exists>e \<in> set conns. fst e \<noteq> me \<and> fst e \<notin> fst ` set (ux_peers ux)"
    "\<not> p_killed q" "p_pex q \<noteq> None" "pm_pex_on pm"
  shows "\<exists>pk as d. snd (pex_update env me conns ux w) = queuePacket w pk \<and>
    packetReady env' (drop 4 (pk_data pk)) q = Some (q, [GotPex d]) \<and>
    set as = {e \<in> set conns. fst e \<noteq> me \<and> fst e \<notin> fst ` set (ux_peers ux)} \<and>
    pm_signal (pe_numbers env') (GotPex d) pm = peerSourceReady (map (\<lambda>e. as_potential (pe_numbers env') (snd e)) as) pm"
proof -
  let ?nf = "pe_numbers env"
  obtain a n o' where c: "fold (pex_collect me) conns ([], [], ux_peers ux) = (a, n, o')" by (metis prod_cases3)
  have a: "set a = {e \<in> set conns. fst e \<noteq> me \<and> fst e \<notin> fst ` set (ux_peers ux)}"
    using pex_collect_added [OF assms(5) _ c] by simp
  then have ne: "a \<noteq> []" using assms(7) by auto
  let ?t = "pex_term a o'" and ?d = "concat (map (\<lambda>e. pex_record (snd e)) a)"
  let ?m = "enc ?nf ?t"
  have f: "number_format ?nf" using assms(1) by (simp add: env_ok_def)
  have l: "length ?m < 2 ^ 30"
    using pex_collect_length [OF c] assms(3,4) by (intro pex_message_length [OF f]) simp_all
  have "term_ok ?t" by (simp add: pex_term_def)
  note dec = decode_message [OF f this l, of EXTENDED 1]
  have "handlePexPacket env' (EXTENDED # 1 # ?m) = (case node_of ?nf ?t 2 of
      BDictNode es off len \<Rightarrow> (case bd_getValue str_added es of None \<Rightarrow> [] | Some (VString s) \<Rightarrow> [GotPex s] | Some _ \<Rightarrow> [GotPex []]) | _ \<Rightarrow> [])"
    using dec assms(2) by (cases "?m = []") (auto simp: handlePexPacket_def pex_term_def split: bnode.split)
  also have "\<dots> = [GotPex ?d]" by (simp add: pex_term_def bd_getValue_def Let_def)
  finally have h: "handlePexPacket env' (EXTENDED # 1 # ?m) = [GotPex ?d]" .
  have u: "snd (pex_update env me conns ux w) = queuePacket w (Packet_ext 1 ?m)"
    using c ne assms(6) by (simp add: pex_update_def Let_def pex_message_text sendExtProtMsg_def)
  have x: "drop 4 (pk_data (Packet_ext 1 ?m)) = EXTENDED # 1 # ?m" using l by (simp add: Packet_ext_data)
  have "\<not> length (EXTENDED # 1 # ?m) \<le> 2" by (simp add: pex_term_def)
  then have "packetReady env' (drop 4 (pk_data (Packet_ext 1 ?m))) q = Some (q, [GotPex ?d])"
    unfolding x using assms(8,9) h by (simp add: packetReady_def Let_def message_ids handleExtendedPacket_def)
  moreover have "pm_signal ?nf (GotPex ?d) pm = peerSourceReady (map (\<lambda>e. as_potential ?nf (snd e)) a) pm"
    using assms(10) by (simp add: pm_signal_def pm_pex_def pex_peers_records peerSourceReady_def)
  ultimately show ?thesis
    unfolding assms(2) using u a by (intro exI [of _ "Packet_ext 1 ?m"] exI [of _ a] exI [of _ ?d]) simp
qed

theorem pex_round_trip_witness:
  "\<exists>pk d. snd (pex_update some_env 7 [(3, 167772161, 6881)] (UTPex_new 1) PacketWriter_new) = queuePacket PacketWriter_new pk \<and>
    packetReady some_env (drop 4 (pk_data pk)) ((a_peer 4)\<lparr>p_pex := Some (UTPex_new 1)\<rparr>) =
      Some ((a_peer 4)\<lparr>p_pex := Some (UTPex_new 1)\<rparr>, [GotPex d])"
proof -
  have "pm_pex_on a_manager"
    by (simp add: a_manager_def newConnection_def Let_def pm_start_def PeerManager_new_def createPeer_def pm_emit_def)
  moreover have "\<not> p_killed ((a_peer 4)\<lparr>p_pex := Some (UTPex_new 1)\<rparr>)" by (simp add: a_peer_def Peer_new_def Let_def)
  ultimately show ?thesis
    using pex_round_trip [OF some_env_ok refl, of "[(3, 167772161, 6881)]" "UTPex_new 1" 7
        "(a_peer 4)\<lparr>p_pex := Some (UTPex_new 1)\<rparr>" a_manager PacketWriter_new]
    by (auto simp: UTPex_new_def MAX_CONNECTED_def)
qed

end
