(* ===== verification/Portions.thy ===== *)
theory Portions
  imports TorrentFiles
begin

text \<open>
  Which part of which file belongs to a chunk. The cache, the creator of torrents and the checker
  of the data walk over the files of a chunk with the same computation of offsets and lengths,
  which is translated here once; the lemmas show that it cuts the chunk out of the files laid
  one behind the other.
\<close>

section \<open>The computation\<close>

text \<open>The \<open>i\<close>-th of \<open>n\<close> files of a chunk of \<open>s\<close> bytes, of which \<open>done\<close> are transferred: the length,
  as \<^verbatim>\<open>Uint32\<close>, and the offset in the file.\<close>

definition portion :: "nat \<Rightarrow> nat \<Rightarrow> torrent_file \<Rightarrow> nat \<Rightarrow> nat \<Rightarrow> nat" where
  "portion i n f s done =
     (if n = 1 then s
      else if i = 0 then tf_last_size f mod 2 ^ 32
      else if i = n - 1 then nat ((int s - int done) mod 2 ^ 32)
      else tf_size f mod 2 ^ 32)"

definition portion_off :: "nat \<Rightarrow> torrent_file \<Rightarrow> nat \<Rightarrow> nat \<Rightarrow> nat" where
  "portion_off i f c chunk_size = (if i = 0 then tf_fileOffset f c chunk_size else 0)"

section \<open>Files one behind the other\<close>

fun placed :: "nat \<Rightarrow> nat \<Rightarrow> torrent_file list \<Rightarrow> bool" where
  "placed cs off [] \<longleftrightarrow> True"
| "placed cs off (f # fs) \<longleftrightarrow> tf_off f = off \<and> tf_first f = off div cs \<and> tf_first_off f = off mod cs \<and>
     tf_last f = (if tf_size f > 0 then (off + tf_size f - 1) div cs else off div cs) \<and>
     tf_last_size f = off + tf_size f - tf_last f * cs \<and> placed cs (off + tf_size f) fs"

definition total_size :: "torrent_file list \<Rightarrow> nat" where
  "total_size fs = sum_list (map tf_size fs)"

lemma placed_nth:
  "placed cs off fs \<Longrightarrow> i < length fs \<Longrightarrow>
   tf_off (fs ! i) = off + sum_list (map tf_size (take i fs)) \<and> tf_first (fs ! i) = tf_off (fs ! i) div cs \<and>
   tf_first_off (fs ! i) = tf_off (fs ! i) mod cs \<and>
   tf_last (fs ! i) = (if tf_size (fs ! i) > 0 then (tf_off (fs ! i) + tf_size (fs ! i) - 1) div cs else tf_off (fs ! i) div cs) \<and>
   tf_last_size (fs ! i) = tf_off (fs ! i) + tf_size (fs ! i) - tf_last (fs ! i) * cs"
proof (induction fs arbitrary: off i)
  case (Cons f fs)
  show ?case
  proof (cases i)
    case 0
    then show ?thesis using Cons.prems by simp
  next
    case (Suc j)
    then show ?thesis using Cons.IH [of "off + tf_size f" j] Cons.prems by (simp add: add.assoc)
  qed
qed simp

lemma placed_fields:
  assumes "placed cs off fs" "i < length fs"
  shows "tf_first (fs ! i) = tf_off (fs ! i) div cs" "tf_first_off (fs ! i) = tf_off (fs ! i) mod cs"
  using placed_nth [OF assms] by blast+

lemma placed_order:
  assumes "placed cs off fs" "i < j" "j < length fs"
  shows "tf_off (fs ! i) + tf_size (fs ! i) \<le> tf_off (fs ! j)"
proof -
  have "take (Suc i) fs = take i fs @ [fs ! i]" using assms by (simp add: take_Suc_conv_app_nth)
  moreover have "sum_list (map tf_size (take (Suc i) fs)) \<le> sum_list (map tf_size (take j fs))"
  proof -
    have "take j fs = take (Suc i) fs @ take (j - Suc i) (drop (Suc i) fs)"
      using assms(2) by (simp add: take_add [symmetric])
    then show ?thesis by simp
  qed
  ultimately show ?thesis using placed_nth [OF assms(1)] assms(2,3) by simp
qed

lemma placed_end:
  assumes "placed cs off fs" "i < length fs"
  shows "tf_off (fs ! i) + tf_size (fs ! i) \<le> off + total_size fs"
proof -
  have "sum_list (map tf_size fs) = sum_list (map tf_size (take i fs @ [fs ! i] @ drop (Suc i) fs))"
    using assms(2) by (simp add: id_take_nth_drop [symmetric])
  then have "total_size fs = sum_list (map tf_size (take i fs)) + tf_size (fs ! i) + sum_list (map tf_size (drop (Suc i) fs))"
    by (simp add: total_size_def)
  then show ?thesis using placed_nth [OF assms] by simp
qed

text \<open>Every byte lies in a file.\<close>

lemma placed_owner:
  "placed cs off fs \<Longrightarrow> off \<le> w \<Longrightarrow> w < off + total_size fs \<Longrightarrow>
   \<exists>k < length fs. tf_off (fs ! k) \<le> w \<and> w < tf_off (fs ! k) + tf_size (fs ! k)"
proof (induction fs arbitrary: off)
  case (Cons f fs)
  show ?case
  proof (cases "w < off + tf_size f")
    case True
    then show ?thesis using Cons.prems by (intro exI [of _ 0]) simp
  next
    case False
    then obtain k where "k < length fs" "tf_off (fs ! k) \<le> w \<and> w < tf_off (fs ! k) + tf_size (fs ! k)"
      using Cons.IH [of "off + tf_size f"] Cons.prems by (auto simp: total_size_def add.assoc)
    then show ?thesis by (intro exI [of _ "Suc k"]) simp
  qed
qed (simp add: total_size_def)

section \<open>The bytes of a window\<close>

text \<open>The part of some bytes at offset \<open>off\<close> that lies in the window of \<open>s\<close> bytes at \<open>w\<close>.\<close>

definition clip :: "nat \<Rightarrow> nat \<Rightarrow> nat \<Rightarrow> 'a list \<Rightarrow> 'a list" where
  "clip w s off d = take (w + s - max off w) (drop (w - off) d)"

fun clips :: "nat \<Rightarrow> nat \<Rightarrow> nat \<Rightarrow> 'a list list \<Rightarrow> 'a list list" where
  "clips w s off [] = []"
| "clips w s off (d # ds) = clip w s off d # clips w s (off + length d) ds"

definition clip_len :: "nat \<Rightarrow> nat \<Rightarrow> nat \<Rightarrow> nat \<Rightarrow> nat" where
  "clip_len w s off n = min (off + n) (w + s) - max off w"

lemma length_clip: "length (clip w s off d) = clip_len w s off (length d)"
  by (auto simp: clip_def clip_len_def)

lemma concat_clips: "concat (clips w s off ds) = clip w s off (concat ds)"
proof (induction ds arbitrary: off)
  case (Cons d ds)
  have "clip w s off (d @ r) = clip w s off d @ clip w s (off + length d) r" for r :: "'a list"
  proof (cases "off + length d \<le> w")
    case True
    then show ?thesis by (simp add: clip_def max_def)
  next
    case False
    have "w + s - max off w - (length d - (w - off)) = w + s - max (off + length d) w" using False by linarith
    moreover have "w - (off + length d) = 0" "w - off - length d = 0" using False by simp_all
    ultimately show ?thesis by (simp add: clip_def)
  qed
  then show ?case using Cons by simp
qed (simp add: clip_def)

lemma length_clips [simp]: "length (clips w s off ds) = length ds"
  by (induction ds arbitrary: off) simp_all

lemma nth_clips:
  "i < length ds \<Longrightarrow> clips w s off ds ! i = clip w s (off + length (concat (take i ds))) (ds ! i)"
proof (induction ds arbitrary: off i)
  case (Cons d ds)
  then show ?case by (cases i) (simp_all add: add.assoc)
qed simp

section \<open>The files of a chunk\<close>

text \<open>A list of files for a chunk: in order, every file with data in the chunk, and besides these
  only empty files that stand in it.\<close>

definition covers :: "nat \<Rightarrow> torrent_file list \<Rightarrow> nat list \<Rightarrow> bool" where
  "covers c fs l \<longleftrightarrow> (\<exists>Q. l = filter Q [0..<length fs] \<and>
     (\<forall>k < length fs. Q k \<longrightarrow> tf_first (fs ! k) \<le> c \<and> c \<le> tf_last (fs ! k)) \<and>
     (\<forall>k < length fs. 0 < tf_size (fs ! k) \<longrightarrow> tf_first (fs ! k) \<le> c \<longrightarrow> c \<le> tf_last (fs ! k) \<longrightarrow> Q k))"

lemma covers_sorted: "covers c fs l \<Longrightarrow> sorted_wrt (<) l"
  unfolding covers_def by (auto intro: sorted_wrt_filter)

lemma covers_mem:
  "covers c fs l \<Longrightarrow> k \<in> set l \<Longrightarrow> k < length fs \<and> tf_first (fs ! k) \<le> c \<and> c \<le> tf_last (fs ! k)"
  unfolding covers_def by auto

lemma covers_all:
  "covers c fs l \<Longrightarrow> k < length fs \<Longrightarrow> 0 < tf_size (fs ! k) \<Longrightarrow> tf_first (fs ! k) \<le> c \<Longrightarrow> c \<le> tf_last (fs ! k) \<Longrightarrow> k \<in> set l"
  unfolding covers_def by auto

definition chunk_len :: "nat \<Rightarrow> nat \<Rightarrow> torrent_file list \<Rightarrow> nat" where
  "chunk_len cs c fs = min cs (total_size fs - c * cs)"

definition cut :: "nat \<Rightarrow> nat \<Rightarrow> torrent_file list \<Rightarrow> nat \<Rightarrow> nat" where
  "cut cs c fs k = clip_len (c * cs) (chunk_len cs c fs) (tf_off (fs ! k)) (tf_size (fs ! k))"

lemma div_le_iff: "0 < (cs :: nat) \<Longrightarrow> x div cs \<le> c \<longleftrightarrow> x < c * cs + cs"
  using div_less_iff_less_mult [of cs x "Suc c"] by (simp add: less_Suc_eq_le add.commute)

lemma le_div_iff: "0 < (cs :: nat) \<Longrightarrow> c \<le> x div cs \<longleftrightarrow> c * cs \<le> x"
  by (rule less_eq_div_iff_mult_less_eq)

text \<open>Where a file of the chunk stands.\<close>

lemma in_chunk:
  assumes "placed cs 0 fs" "0 < cs" "k < length fs" "tf_first (fs ! k) \<le> c" "c \<le> tf_last (fs ! k)"
  shows "tf_off (fs ! k) < c * cs + cs"
    "0 < tf_size (fs ! k) \<Longrightarrow> c * cs < tf_off (fs ! k) + tf_size (fs ! k)"
    "tf_size (fs ! k) = 0 \<Longrightarrow> c * cs \<le> tf_off (fs ! k)"
proof -
  note p = placed_nth [OF assms(1,3)]
  show "tf_off (fs ! k) < c * cs + cs" using p assms(2,4) by (simp add: div_le_iff)
  show "c * cs < tf_off (fs ! k) + tf_size (fs ! k)" if "0 < tf_size (fs ! k)"
    using p assms(2,5) that le_div_iff [OF assms(2), of c "tf_off (fs ! k) + tf_size (fs ! k) - 1"] by simp
  show "c * cs \<le> tf_off (fs ! k)" if "tf_size (fs ! k) = 0"
    using p assms(2,5) that by (simp add: le_div_iff)
qed

lemma first_before:
  assumes "placed cs 0 fs" "0 < cs" "covers c fs l" "c * cs < total_size fs"
  shows "l \<noteq> [] \<and> tf_off (fs ! (l ! 0)) \<le> c * cs"
proof -
  obtain k where k: "k < length fs" "tf_off (fs ! k) \<le> c * cs" "c * cs < tf_off (fs ! k) + tf_size (fs ! k)"
    using placed_owner [OF assms(1), of "c * cs"] assms(4) by auto
  then have sz: "0 < tf_size (fs ! k)" by linarith
  have "tf_first (fs ! k) \<le> c" "c \<le> tf_last (fs ! k)"
    using placed_nth [OF assms(1) k(1)] k sz assms(2) by (simp_all add: div_le_iff le_div_iff)
  then have m: "k \<in> set l" using covers_all [OF assms(3) k(1) sz] by simp
  then obtain i where i: "i < length l" "l ! i = k" by (auto simp: in_set_conv_nth)
  have "l ! 0 \<le> k"
    using sorted_wrt_nth_less [OF covers_sorted [OF assms(3)], of 0 i] i by (cases i) auto
  then have "tf_off (fs ! (l ! 0)) \<le> tf_off (fs ! k)"
    using placed_order [OF assms(1), of "l ! 0" k] k(1) by (cases "l ! 0 = k") auto
  then show ?thesis using m k(2) by auto
qed

lemma later_behind:
  assumes "placed cs 0 fs" "0 < cs" "covers c fs l" "0 < i" "i < length l"
  shows "c * cs \<le> tf_off (fs ! (l ! i))"
proof -
  have m: "l ! 0 \<in> set l" "l ! i \<in> set l" using assms(4,5) by (metis length_pos_if_in_set nth_mem order.strict_trans) (simp add: assms(5))
  have "l ! 0 < l ! i" using sorted_wrt_nth_less [OF covers_sorted [OF assms(3)]] assms(4,5) by simp
  then have "tf_off (fs ! (l ! 0)) + tf_size (fs ! (l ! 0)) \<le> tf_off (fs ! (l ! i))"
    using placed_order [OF assms(1)] covers_mem [OF assms(3) m(2)] by simp
  moreover have "c * cs \<le> tf_off (fs ! (l ! 0)) + tf_size (fs ! (l ! 0))"
    using in_chunk(2,3) [OF assms(1,2), of "l ! 0" c] covers_mem [OF assms(3) m(1)] by (cases "tf_size (fs ! (l ! 0)) = 0") auto
  ultimately show ?thesis by simp
qed

lemma earlier_inside:
  assumes "placed cs 0 fs" "0 < cs" "covers c fs l" "i + 1 < length l"
  shows "tf_off (fs ! (l ! i)) + tf_size (fs ! (l ! i)) \<le> c * cs + chunk_len cs c fs \<or>
    tf_off (fs ! (l ! i)) + tf_size (fs ! (l ! i)) \<le> c * cs"
proof -
  have m: "l ! i \<in> set l" "l ! (i + 1) \<in> set l" using assms(4) by simp_all
  have "l ! i < l ! (i + 1)" using sorted_wrt_nth_less [OF covers_sorted [OF assms(3)]] assms(4) by simp
  then have "tf_off (fs ! (l ! i)) + tf_size (fs ! (l ! i)) \<le> tf_off (fs ! (l ! (i + 1)))"
    using placed_order [OF assms(1)] covers_mem [OF assms(3) m(2)] by simp
  moreover have "tf_off (fs ! (l ! (i + 1))) < c * cs + cs"
    using in_chunk(1) [OF assms(1,2)] covers_mem [OF assms(3) m(2)] by simp
  moreover have "tf_off (fs ! (l ! i)) + tf_size (fs ! (l ! i)) \<le> total_size fs"
    using placed_end [OF assms(1)] covers_mem [OF assms(3) m(1)] by simp
  ultimately show ?thesis unfolding chunk_len_def by linarith
qed

text \<open>The cuts of a chunk add up to its size.\<close>

lemma cut_outside:
  assumes "placed cs 0 fs" "0 < cs" "covers c fs l" "k < length fs" "k \<notin> set l"
  shows "cut cs c fs k = 0"
proof (cases "tf_size (fs ! k) = 0")
  case False
  note p = placed_nth [OF assms(1,4)]
  have "\<not> (tf_first (fs ! k) \<le> c \<and> c \<le> tf_last (fs ! k))" using covers_all [OF assms(3,4)] assms(5) False by auto
  then have "c * cs + cs \<le> tf_off (fs ! k) \<or> tf_off (fs ! k) + tf_size (fs ! k) \<le> c * cs"
    using p False assms(2) div_le_iff [OF assms(2), of "tf_off (fs ! k)" c]
      le_div_iff [OF assms(2), of c "tf_off (fs ! k) + tf_size (fs ! k) - 1"] by auto
  then show ?thesis unfolding cut_def clip_len_def chunk_len_def by linarith
qed (simp add: cut_def clip_len_def)

lemma sum_cuts:
  assumes "placed cs 0 fs" "c * cs < total_size fs"
  shows "(\<Sum>k < length fs. cut cs c fs k) = chunk_len cs c fs"
proof -
  let ?D = "map (\<lambda>f. replicate (tf_size f) ()) fs"
  have cat: "length (concat (take i ?D)) = sum_list (map tf_size (take i fs))" for i
    by (simp add: length_concat take_map comp_def)
  have len: "length (concat ?D) = total_size fs" using cat [of "length fs"] by (simp add: total_size_def)
  have "length (clips (c * cs) (chunk_len cs c fs) 0 ?D ! k) = cut cs c fs k" if "k < length fs" for k
    using placed_nth [OF assms(1) that] that by (simp add: nth_clips length_clip cut_def cat)
  then have "(\<Sum>k < length fs. cut cs c fs k) = length (concat (clips (c * cs) (chunk_len cs c fs) 0 ?D))"
    by (simp add: length_concat sum_list_sum_nth atLeast0LessThan)
  also have "\<dots> = chunk_len cs c fs"
    using assms(2) by (simp add: concat_clips length_clip len clip_len_def chunk_len_def)
  finally show ?thesis .
qed

lemma sum_cuts_list:
  assumes "placed cs 0 fs" "0 < cs" "covers c fs l" "c * cs < total_size fs"
  shows "sum_list (map (cut cs c fs) l) = chunk_len cs c fs"
proof -
  have d: "distinct l" using covers_sorted [OF assms(3)] strict_sorted_iff by blast
  have "(\<Sum>k < length fs. cut cs c fs k) = (\<Sum>k \<in> set l. cut cs c fs k)"
    using cut_outside [OF assms(1-3)] covers_mem [OF assms(3)] by (intro sum.mono_neutral_right) auto
  then show ?thesis using sum_cuts [OF assms(1,4)] d by (simp add: sum_list_distinct_conv_sum_set)
qed

text \<open>The computation of the source gives the cuts.\<close>

lemma fileOffset_cut:
  assumes "placed cs 0 fs" "0 < cs" "k < length fs" "tf_first (fs ! k) \<le> c" "c \<le> tf_last (fs ! k)" "tf_off (fs ! k) \<le> c * cs"
  shows "tf_fileOffset (fs ! k) c cs = c * cs - tf_off (fs ! k)"
proof -
  note p = placed_nth [OF assms(1,3)]
  let ?o = "tf_off (fs ! k)"
  have d: "?o = ?o div cs * cs + ?o mod cs" "?o mod cs < cs" using assms(2) by simp_all
  obtain m where m: "c = ?o div cs + m" using assms(4) p by (metis le_iff_add)
  then have e: "c * cs = ?o div cs * cs + m * cs" by (simp add: add_mult_distrib)
  show ?thesis
  proof (cases m)
    case 0
    then have "c * cs = ?o div cs * cs" using m by simp
    then have "c * cs \<le> ?o" by (metis div_times_less_eq_dividend)
    then have o: "?o = c * cs" using assms(6) by (rule antisym [rotated])
    have "?o mod cs = 0" unfolding o by simp
    then have "tf_first_off (fs ! k) = 0" "c - tf_first (fs ! k) = 0"
      using m 0 by (simp_all add: placed_fields [OF assms(1,3)])
    then show ?thesis unfolding tf_fileOffset_def using o by simp
  next
    case (Suc m')
    have "a = b + r \<Longrightarrow> r < cs \<Longrightarrow> w = b + (cs + x) \<Longrightarrow> w - a = x + (cs - r)" for a b r w x :: nat by simp
    from this [OF d, of "c * cs" "m' * cs"] have "c * cs - ?o = m' * cs + (cs - ?o mod cs)" using e Suc by simp
    moreover have f: "c - tf_first (fs ! k) = Suc m'" "tf_first_off (fs ! k) = ?o mod cs" "c > 0"
      using m Suc by (simp_all add: placed_fields [OF assms(1,3)])
    ultimately show ?thesis
      using d(2) by (cases "?o mod cs = 0") (simp_all add: f tf_fileOffset_def)
  qed
qed

lemma portion_cut:
  assumes "placed cs 0 fs" "0 < cs" "cs < 2 ^ 32" "covers c fs l" "c * cs < total_size fs" "i < length l"
  shows "portion i (length l) (fs ! (l ! i)) (chunk_len cs c fs) (sum_list (map (cut cs c fs) (take i l))) = cut cs c fs (l ! i) \<and>
    portion_off i (fs ! (l ! i)) c cs = c * cs - tf_off (fs ! (l ! i)) \<and> cut cs c fs (l ! i) \<le> chunk_len cs c fs"
proof -
  let ?k = "l ! i" let ?s = "chunk_len cs c fs" let ?o = "tf_off (fs ! ?k)" let ?n = "tf_size (fs ! ?k)"
  have k: "?k < length fs" "tf_first (fs ! ?k) \<le> c" "c \<le> tf_last (fs ! ?k)"
    using covers_mem [OF assms(4)] assms(6) by simp_all
  note p = placed_nth [OF assms(1) k(1)] and ic = in_chunk [OF assms(1,2) k]
  have sum: "sum_list (map (cut cs c fs) l) = ?s" by (rule sum_cuts_list [OF assms(1,2,4,5)])
  have le: "cut cs c fs ?k \<le> ?s" by (simp add: cut_def clip_len_def)
  have s32: "?s < 2 ^ 32" using assms(3) by (simp add: chunk_len_def)
  have off: "portion_off i (fs ! ?k) c cs = c * cs - ?o"
    using first_before [OF assms(1,2,4,5)] fileOffset_cut [OF assms(1,2) k] later_behind [OF assms(1,2,4) _ assms(6)]
    by (cases "i = 0") (simp_all add: portion_off_def)
  have "portion i (length l) (fs ! ?k) ?s (sum_list (map (cut cs c fs) (take i l))) = cut cs c fs ?k"
  proof (cases "length l = 1")
    case True
    then have "l = [l ! 0]" "i = 0" using assms(6) by (cases l; simp)+
    then have "cut cs c fs ?k = ?s" using sum by (metis list.simps(8) list.simps(9) sum_list.Cons sum_list.Nil add_0_right)
    then show ?thesis using True by (simp add: portion_def)
  next
    case many: False
    show ?thesis
    proof (cases "i + 1 = length l")
      case True
      have "l = take i l @ [?k]" using True assms(6) take_Suc_conv_app_nth [of i l] by simp
      then have "sum_list (map (cut cs c fs) (take i l)) + cut cs c fs ?k = ?s"
        using sum by (metis (no_types, lifting) list.simps(8) list.simps(9) map_append sum_list.append sum_list.Cons sum_list.Nil add_0_right)
      then show ?thesis using True many s32 by (auto simp: portion_def nat_eq_iff)
    next
      case False
      then have i: "i + 1 < length l" using assms(6) by simp
      note ei = earlier_inside [OF assms(1,2,4) i]
      show ?thesis
      proof (cases "i = 0")
        case True
        have o: "?o \<le> c * cs" using first_before [OF assms(1,2,4,5)] True by simp
        have e1: "c * cs \<le> ?o + ?n" using ic(2,3) by (cases "?n = 0") (simp_all add: less_imp_le)
        have e2: "?o + ?n \<le> c * cs + ?s" using ei by (elim disjE) (simp_all add: trans_le_add1)
        note e = e1 e2
        have "tf_last (fs ! ?k) \<le> c"
          using p e(2) o assms(2) by (auto simp: div_le_iff chunk_len_def)
        then have "tf_last_size (fs ! ?k) = ?o + ?n - c * cs" using p k(3) by simp
        moreover have "cut cs c fs ?k = ?o + ?n - c * cs" using o e by (simp add: cut_def clip_len_def)
        ultimately show ?thesis using many True e s32 by (simp add: portion_def)
      next
        case False
        have o: "c * cs \<le> ?o" using later_behind [OF assms(1,2,4) _ assms(6)] False by simp
        then have "cut cs c fs ?k = ?n" using ei by (auto simp: cut_def clip_len_def)
        moreover have "i \<noteq> length l - 1" using i by linarith
        ultimately show ?thesis using many False le s32 by (simp add: portion_def)
      qed
    qed
  qed
  then show ?thesis using off le by simp
qed

section \<open>The bytes of a chunk\<close>

text \<open>\<open>D k\<close> are the contents of file \<open>k\<close>.\<close>

definition chunk_data :: "nat \<Rightarrow> nat \<Rightarrow> torrent_file list \<Rightarrow> (nat \<Rightarrow> bytes) \<Rightarrow> bytes" where
  "chunk_data cs c fs D = take (chunk_len cs c fs) (drop (c * cs) (concat (map D [0..<length fs])))"

definition piece_of :: "nat \<Rightarrow> nat \<Rightarrow> torrent_file list \<Rightarrow> (nat \<Rightarrow> bytes) \<Rightarrow> nat \<Rightarrow> bytes" where
  "piece_of cs c fs D k = take (cut cs c fs k) (drop (c * cs - tf_off (fs ! k)) (D k))"

lemma piece_of_clip:
  assumes "length (D k) = tf_size (fs ! k)"
  shows "piece_of cs c fs D k = clip (c * cs) (chunk_len cs c fs) (tf_off (fs ! k)) (D k)"
  using assms by (auto simp: piece_of_def clip_def cut_def clip_len_def min_def)

lemma length_piece_of:
  "length (D k) = tf_size (fs ! k) \<Longrightarrow> length (piece_of cs c fs D k) = cut cs c fs k"
  by (simp add: piece_of_clip length_clip cut_def)

lemma chunk_data_pieces:
  assumes "placed cs 0 fs" "0 < cs" "covers c fs l" "\<forall>k < length fs. length (D k) = tf_size (fs ! k)"
  shows "chunk_data cs c fs D = concat (map (piece_of cs c fs D) l)"
proof -
  let ?D = "map D [0..<length fs]"
  have sz: "sum_list (map tf_size (take k fs)) = length (concat (take k ?D))" for k
  proof -
    have "map tf_size (take k fs) = map length (take k ?D)"
      using assms(4) by (intro nth_equalityI) auto
    then show ?thesis by (simp add: length_concat)
  qed
  have cl: "clips (c * cs) (chunk_len cs c fs) 0 ?D = map (piece_of cs c fs D) [0..<length fs]"
  proof (rule nth_equalityI)
    fix i assume "i < length (clips (c * cs) (chunk_len cs c fs) 0 ?D)"
    then have i: "i < length fs" by simp
    then show "clips (c * cs) (chunk_len cs c fs) 0 ?D ! i = map (piece_of cs c fs D) [0..<length fs] ! i"
      using placed_nth [OF assms(1) i] assms(4) by (simp add: nth_clips sz piece_of_clip)
  qed simp
  have "chunk_data cs c fs D = concat (map (piece_of cs c fs D) [0..<length fs])"
    using concat_clips [of "c * cs" "chunk_len cs c fs" 0 ?D] by (simp add: cl chunk_data_def clip_def)
  also have "\<dots> = concat (map (piece_of cs c fs D) l)"
  proof -
    obtain Q where l: "l = filter Q [0..<length fs]" using assms(3) by (auto simp: covers_def)
    have "piece_of cs c fs D k = []" if "k \<in> set [0..<length fs]" "\<not> Q k" for k
      using cut_outside [OF assms(1-3), of k] that l by (simp add: piece_of_def)
    then have "concat (map (piece_of cs c fs D) xs) = concat (map (piece_of cs c fs D) (filter Q xs))"
      if "set xs \<subseteq> set [0..<length fs]" for xs using that by (induction xs) auto
    then show ?thesis using l by blast
  qed
  finally show ?thesis .
qed

lemma length_concat_pieces:
  "\<forall>k \<in> set l. length (D k) = tf_size (fs ! k) \<Longrightarrow>
   length (concat (map (piece_of cs c fs D) l)) = sum_list (map (cut cs c fs) l)"
  by (induction l) (simp_all add: length_piece_of)

lemma filter_as_map: "filter P xs = map ((!) xs) (filter (\<lambda>i. P (xs ! i)) [0..<length xs])"
proof -
  have "filter P xs = filter P (map ((!) xs) [0..<length xs])" by (simp add: map_nth)
  then show ?thesis by (simp add: filter_map comp_def)
qed

text \<open>The files of a chunk, as \<^verbatim>\<open>calcChunkPos\<close> lists them.\<close>

lemma calc_covers:
  assumes "c < n" "\<forall>i < length fs. tf_index (fs ! i) = i"
  shows "covers c fs (calcChunkPos n fs c)"
proof (cases "fs = []")
  case False
  let ?P = "\<lambda>f. c \<ge> tf_first f \<and> c \<le> tf_last f \<and> tf_size f \<noteq> 0"
  let ?l = "filter (\<lambda>i. ?P (fs ! i)) [0..<length fs]"
  have "calcChunkPos n fs c = map tf_index (map ((!) fs) ?l)"
    using assms(1) False filter_as_map [of ?P fs] by (simp add: calcChunkPos_def)
  also have "\<dots> = map (\<lambda>i. i) ?l" unfolding map_map by (rule map_cong) (use assms(2) in auto)
  finally have "calcChunkPos n fs c = ?l" by simp
  then show ?thesis unfolding covers_def by (intro exI [of _ "\<lambda>i. ?P (fs ! i)"]) auto
qed (simp add: calcChunkPos_def covers_def)

text \<open>Any content can be cut into files.\<close>

lemma cut_up:
  "placed cs off fs \<Longrightarrow> concat (map (\<lambda>f. take (tf_size f) (drop (tf_off f - off) G)) fs) = take (total_size fs) G"
proof (induction fs arbitrary: off G)
  case (Cons f fs)
  have e: "map (\<lambda>g. take (tf_size g) (drop (tf_off g - off) G)) fs =
      map (\<lambda>g. take (tf_size g) (drop (tf_off g - (off + tf_size f)) (drop (tf_size f) G))) fs"
  proof (rule map_cong)
    fix g assume "g \<in> set fs"
    then obtain i where i: "i < length fs" "g = fs ! i" by (auto simp: in_set_conv_nth)
    have "off + tf_size f \<le> tf_off g" using placed_nth [of cs "off + tf_size f" fs i] Cons.prems i by simp
    then have "tf_off g - off = tf_size f + (tf_off g - (off + tf_size f))" by simp
    then show "take (tf_size g) (drop (tf_off g - off) G) =
        take (tf_size g) (drop (tf_off g - (off + tf_size f)) (drop (tf_size f) G))"
      by (simp add: add.commute)
  qed simp
  have p: "placed cs (off + tf_size f) fs" "tf_off f = off" using Cons.prems by simp_all
  have "concat (map (\<lambda>g. take (tf_size g) (drop (tf_off g - off) G)) fs) = take (total_size fs) (drop (tf_size f) G)"
    unfolding e by (rule Cons.IH [OF p(1)])
  then show ?case using p(2) by (simp add: total_size_def take_add)
qed (simp add: total_size_def)

lemma any_chunk_data:
  assumes "placed cs 0 fs" "c * cs < total_size fs" "length d = chunk_len cs c fs"
  shows "\<exists>D. (\<forall>k < length fs. length (D k) = tf_size (fs ! k)) \<and> chunk_data cs c fs D = d"
proof -
  let ?w = "c * cs" let ?s = "chunk_len cs c fs"
  let ?G = "replicate ?w 0 @ d @ replicate (total_size fs - ?w - ?s) (0 :: u8)"
  let ?D = "\<lambda>k. take (tf_size (fs ! k)) (drop (tf_off (fs ! k)) ?G)"
  have s: "?w + ?s \<le> total_size fs" using assms(2) by (simp add: chunk_len_def)
  then have G: "length ?G = total_size fs" using assms(3) by simp
  have "map ?D [0..<length fs] = map (\<lambda>f. take (tf_size f) (drop (tf_off f - 0) ?G)) fs"
    by (rule nth_equalityI) simp_all
  then have "concat (map ?D [0..<length fs]) = ?G" using cut_up [OF assms(1), of ?G] G by simp
  then have c: "chunk_data cs c fs ?D = d" using assms(3) by (simp add: chunk_data_def)
  have l: "length (?D k) = tf_size (fs ! k)" if "k < length fs" for k
  proof -
    have m: "a + b \<le> t \<Longrightarrow> min b (t - a) = b" for a b t :: nat by simp
    have "tf_off (fs ! k) + tf_size (fs ! k) \<le> total_size fs" using placed_end [OF assms(1) that] by simp
    from m [OF this] show ?thesis unfolding length_take length_drop G min.commute [of "total_size fs - tf_off (fs ! k)"] .
  qed
  show ?thesis by (intro exI [of _ ?D] conjI allI impI l c)
qed

text \<open>One step of filling a buffer from the front.\<close>

lemma fill_step:
  assumes "take (length p) buf = p" "length p + length d \<le> length buf"
  shows "take (length (p @ d)) (memcpy buf (length p) d (length d)) = p @ d"
    "length (memcpy buf (length p) d (length d)) = length buf"
  using assms take_memcpy [of "length p" "length d" buf d] by simp_all

end
