(* ===== verification/DndFile.thy ===== *)
theory DndFile
  imports KtPrelude
begin

text \<open>
  Files that are not downloaded: \<^verbatim>\<open>libktorrent/torrent/dndfile.cpp\<close>. Of an excluded file only the
  parts are kept that belong to chunks it shares with wanted files: the part in its first chunk
  and the part in its last. A DND file is a header with the two sizes and the two parts behind
  it; a file that is missing or shorter than a header is \<open>None\<close>. What is behind the header is
  \<open>df_body\<close>, and reading into a buffer past its end is \<open>None\<close> of the result. Newly allocated
  memory is an argument.
\<close>

record dnd_file =
  df_magic_ok :: bool
  df_first :: nat
  df_last :: nat
  df_body :: bytes

definition dnd_create :: dnd_file where
  "dnd_create = \<lparr>df_magic_ok = True, df_first = 0, df_last = 0, df_body = []\<rparr>"

definition checkIntegrity :: "dnd_file option \<Rightarrow> dnd_file" where
  "checkIntegrity fd =
     (case fd of
        None \<Rightarrow> dnd_create
      | Some f \<Rightarrow> if \<not> df_magic_ok f \<and> length (df_body f) \<noteq> (df_first f + df_last f) mod 2 ^ 32 then dnd_create else f)"

text \<open>\<^verbatim>\<open>fptr.read(buf + off, n)\<close> of what is left of the file from \<open>pos\<close>: the buffer and the number of
  bytes.\<close>

definition dnd_read :: "bytes \<Rightarrow> nat \<Rightarrow> nat \<Rightarrow> bytes \<Rightarrow> nat \<Rightarrow> (bytes \<times> nat) option" where
  "dnd_read body pos n buf off =
     (let d = take n (drop pos body)
      in if off + length d > length buf then None else Some (memcpy buf off d (length d), length d))"

definition readFirstChunk :: "dnd_file option \<Rightarrow> bytes \<Rightarrow> nat \<Rightarrow> nat \<Rightarrow> (dnd_file \<times> bytes \<times> nat) option" where
  "readFirstChunk fd buf off buf_size =
     (case fd of
        None \<Rightarrow> Some (dnd_create, buf, 0)
      | Some f \<Rightarrow>
          if df_first f = 0 then Some (f, buf, 0)
          else if (df_first f + off) mod 2 ^ 32 > buf_size then Some (f, buf, 0)
          else (case dnd_read (df_body f) 0 (df_first f) buf off of None \<Rightarrow> None | Some (buf, n) \<Rightarrow> Some (f, buf, n)))"

definition readLastChunk :: "dnd_file option \<Rightarrow> bytes \<Rightarrow> nat \<Rightarrow> nat \<Rightarrow> (dnd_file \<times> bytes \<times> nat) option" where
  "readLastChunk fd buf off buf_size =
     (case fd of
        None \<Rightarrow> Some (dnd_create, buf, 0)
      | Some f \<Rightarrow>
          if df_last f = 0 then Some (f, buf, 0)
          else if (df_last f + off) mod 2 ^ 32 > buf_size then Some (f, buf, 0)
          else (case dnd_read (df_body f) (df_first f) (df_last f) buf off of None \<Rightarrow> None | Some (buf, n) \<Rightarrow> Some (f, buf, n)))"

definition opened :: "dnd_file option \<Rightarrow> dnd_file" where
  "opened fd = (case fd of None \<Rightarrow> dnd_create | Some f \<Rightarrow> f)"

text \<open>Writing the first part moves what is behind it: the last part is read where it will be, not
  where it is.\<close>

definition writeFirstChunk :: "(nat \<Rightarrow> bytes) \<Rightarrow> dnd_file option \<Rightarrow> bytes \<Rightarrow> dnd_file" where
  "writeFirstChunk fresh fd d =
     (let f = opened fd; n = length d
      in if df_last f = 0 then f\<lparr>df_first := n, df_body := d @ drop n (df_body f)\<rparr>
         else let tmp = memcpy (fresh (n + df_last f)) 0 d n;
                  r = take (df_last f) (drop n (df_body f));
                  tmp = memcpy tmp n r (length r)
              in f\<lparr>df_first := n, df_body := tmp @ drop (length tmp) (df_body f)\<rparr>)"

definition writeLastChunk :: "(nat \<Rightarrow> bytes) \<Rightarrow> dnd_file option \<Rightarrow> bytes \<Rightarrow> dnd_file" where
  "writeLastChunk fresh fd d =
     (let f = opened fd; n = length d;
          tmp = memcpy (fresh (df_first f + n)) (df_first f) d n;
          r = take (df_first f) (df_body f);
          tmp = (if df_first f > 0 then memcpy tmp 0 r (length r) else tmp)
      in f\<lparr>df_last := n, df_body := tmp @ drop (length tmp) (df_body f)\<rparr>)"

section \<open>What is kept\<close>

text \<open>A DND file that holds its two parts.\<close>

definition holds_parts :: "dnd_file \<Rightarrow> bytes \<Rightarrow> bytes \<Rightarrow> bool" where
  "holds_parts f a b \<longleftrightarrow> df_first f = length a \<and> df_last f = length b \<and> take (length a + length b) (df_body f) = a @ b"

lemma holds_create: "holds_parts dnd_create [] []"
  by (simp add: holds_parts_def dnd_create_def)

lemma holds_first: "holds_parts f a b \<Longrightarrow> take (length a) (df_body f) = a"
proof -
  assume "holds_parts f a b"
  then have "take (length a) (take (length a + length b) (df_body f)) = take (length a) (a @ b)" by (simp add: holds_parts_def)
  then show ?thesis by (simp add: min_def)
qed

lemma holds_last: "holds_parts f a b \<Longrightarrow> take (length b) (drop (length a) (df_body f)) = b"
proof -
  assume "holds_parts f a b"
  then have "drop (length a) (take (length a + length b) (df_body f)) = drop (length a) (a @ b)" by (simp add: holds_parts_def)
  then show ?thesis by (simp add: drop_take)
qed

lemma write_last_holds:
  assumes "holds_parts f a b" "\<forall>n. length (fresh n) = n"
  shows "holds_parts (writeLastChunk fresh (Some f) d) a d"
proof -
  have t: "take (length a) (df_body f) = a"
    by (rule holds_first [OF assms(1)])
  have l: "length (fresh (length a + length d)) = length a + length d" using assms(2) by simp
  have m: "memcpy (fresh (length a + length d)) (length a) d (length d) = take (length a) (fresh (length a + length d)) @ d"
    using memcpy_full [of "length a" "length d" "fresh (length a + length d)" d] l by simp
  have i: "(if 0 < length a then memcpy (take (length a) (fresh (length a + length d)) @ d) 0 a (length a)
      else take (length a) (fresh (length a + length d)) @ d) = a @ d"
    using l by (simp add: memcpy_def)
  have f: "df_first f = length a" using assms(1) by (simp add: holds_parts_def)
  have "writeLastChunk fresh (Some f) d = f\<lparr>df_last := length d, df_body := (a @ d) @ drop (length (a @ d)) (df_body f)\<rparr>"
    unfolding writeLastChunk_def opened_def option.case Let_def f t m i by (rule refl)
  then show ?thesis by (simp add: holds_parts_def f)
qed

text \<open>Writing the first part keeps the last one when there is none, or when the size of the first
  part does not change.\<close>

lemma write_first_holds:
  assumes "holds_parts f a b" "\<forall>n. length (fresh n) = n" "b = [] \<or> length d = length a"
  shows "holds_parts (writeFirstChunk fresh (Some f) d) d b"
proof (cases "b = []")
  case True
  then show ?thesis using assms(1) by (simp add: writeFirstChunk_def opened_def Let_def holds_parts_def)
next
  case False
  then have n: "length d = length a" "df_last f \<noteq> 0" using assms(1,3) by (simp_all add: holds_parts_def)
  have r: "take (length b) (drop (length a) (df_body f)) = b"
    by (rule holds_last [OF assms(1)])
  have l: "length (fresh (length d + length b)) = length d + length b" using assms(2) by simp
  have m: "memcpy (fresh (length d + length b)) 0 d (length d) = d @ drop (length d) (fresh (length d + length b))"
    by (simp add: memcpy_def)
  have "memcpy (d @ drop (length d) (fresh (length d + length b))) (length d) b (length b) = d @ b"
    using l memcpy_full [of "length d" "length b" "d @ drop (length d) (fresh (length d + length b))" b] by simp
  then show ?thesis
    using assms(1) n r m by (simp add: writeFirstChunk_def opened_def Let_def holds_parts_def)
qed

lemma read_last_holds:
  assumes "holds_parts f a b" "b \<noteq> []" "length b + off < 2 ^ 32" "off + length b \<le> length buf" "length buf = n"
  shows "readLastChunk (Some f) buf off n = Some (f, memcpy buf off b (length b), length b)"
proof -
  have "take (length b) (drop (length a) (df_body f)) = b"
    by (rule holds_last [OF assms(1)])
  then show ?thesis
    using assms by (simp add: readLastChunk_def dnd_read_def holds_parts_def Let_def)
qed

lemma read_first_holds:
  assumes "holds_parts f a b" "a \<noteq> []" "length a + off < 2 ^ 32" "off + length a \<le> length buf" "length buf = n"
  shows "readFirstChunk (Some f) buf off n = Some (f, memcpy buf off a (length a), length a)"
proof -
  have "take (length a) (df_body f) = a"
    by (rule holds_first [OF assms(1)])
  then show ?thesis
    using assms by (simp add: readFirstChunk_def dnd_read_def holds_parts_def Let_def)
qed

text \<open>The parts of an excluded file are lost by a change of order. When the part in the last chunk
  was written first, writing the part in the first chunk reads the last part behind its new place,
  past the end of the file, and writes unset memory in its stead.\<close>

theorem dnd_last_part_lost:
  assumes "length (fresh (length a + length b)) = length a + length b" "length b \<le> length a" "b \<noteq> []"
    and "length (fresh (length b)) = length b"
  shows "df_body (writeFirstChunk fresh (Some (writeLastChunk fresh None b)) a) = a @ drop (length a) (fresh (length a + length b)) \<and>
    df_last (writeFirstChunk fresh (Some (writeLastChunk fresh None b)) a) = length b"
proof -
  have l: "df_body (writeLastChunk fresh None b) = b" "df_first (writeLastChunk fresh None b) = 0" "df_last (writeLastChunk fresh None b) = length b"
    using assms(4) by (simp_all add: writeLastChunk_def opened_def dnd_create_def Let_def memcpy_def)
  have m: "memcpy (fresh (length a + length b)) 0 a (length a) = a @ drop (length a) (fresh (length a + length b))"
    by (simp add: memcpy_def)
  show ?thesis
    using assms(1-3) unfolding writeFirstChunk_def opened_def option.case Let_def l
    by (simp add: m l memcpy_def)
qed

theorem dnd_last_part_lost_witness:
  "df_body (writeFirstChunk (\<lambda>n. replicate n 0) (Some (writeLastChunk (\<lambda>n. replicate n 0) None [7])) [1, 2]) = [1, 2, 0]"
  using dnd_last_part_lost [of "\<lambda>n. replicate n 0" "[1, 2]" "[7]"] by simp

end
