(* ===== verification/MultiCache.thy ===== *)
theory MultiCache
  imports FileCache Portions DndFile
begin

text \<open>
  The cache of a torrent with several files: \<^verbatim>\<open>libktorrent/torrent/multifilecache.cpp\<close>. A chunk
  is spread over the files it covers; a file that is not wanted keeps only the parts of the
  chunks it shares, in a DND file. Paths, directories and symbolic links are left out: a file is
  its open \<^verbatim>\<open>CacheFile\<close>, which is there as long as the output file is, and a DND file is its
  content, \<open>None\<close> inside while the file itself is missing. Newly allocated memory is
  \<open>mf_fresh\<close>, and \<open>mf_mapped\<close> the answer of \<^verbatim>\<open>Cache::mappedModeAllowed\<close>. A thrown \<^verbatim>\<open>Error\<close> and reading through a null pointer are \<open>None\<close>.
\<close>

record multi_file_cache =
  mf_tor :: "torrent_file list"
  mf_num :: nat
  mf_chunk_size :: nat
  mf_length :: nat
  mf_files :: "nat \<rightharpoonup> cache_file"
  mf_dnd :: "nat \<rightharpoonup> dnd_file option"
  mf_failures :: nat
  mf_fresh :: "nat \<Rightarrow> bytes"
  mf_mmap :: "bool list"
  mf_mapped :: bool

definition mf_tflist :: "multi_file_cache \<Rightarrow> chunk \<Rightarrow> nat list" where
  "mf_tflist k c = calcChunkPos (mf_num k) (mf_tor k) (ch_index c)"

definition mf_put_file :: "nat \<Rightarrow> cache_file \<Rightarrow> multi_file_cache \<Rightarrow> multi_file_cache" where
  "mf_put_file i cf k = k\<lparr>mf_files := (mf_files k)(i \<mapsto> cf)\<rparr>"

definition mf_put_dnd :: "nat \<Rightarrow> dnd_file \<Rightarrow> multi_file_cache \<Rightarrow> multi_file_cache" where
  "mf_put_dnd i f k = k\<lparr>mf_dnd := (mf_dnd k)(i \<mapsto> Some f)\<rparr>"

section \<open>Opening and closing\<close>

definition mf_close :: "multi_file_cache \<Rightarrow> multi_file_cache" where
  "mf_close k = k\<lparr>mf_files := Map.empty\<rparr>"

text \<open>\<open>disk i\<close> is the data of the output file and \<open>dnds i\<close> the content of the DND file, as they are
  found on disk.\<close>

definition mf_open_file :: "(nat \<Rightarrow> bytes) \<Rightarrow> (nat \<Rightarrow> dnd_file option) \<Rightarrow> nat \<Rightarrow> multi_file_cache \<Rightarrow> multi_file_cache" where
  "mf_open_file disk dnds i k =
     (let tf = mf_tor k ! i
      in if \<not> tf_doNotDownload tf then
           mf_put_file i \<lparr>cf_read_only = False, cf_max = tf_size tf, cf_data = disk i, cf_mmap = mf_mmap k\<rparr> k
         else mf_put_dnd i (checkIntegrity (dnds i)) k)"

definition mf_open :: "(nat \<Rightarrow> bytes) \<Rightarrow> (nat \<Rightarrow> dnd_file option) \<Rightarrow> multi_file_cache \<Rightarrow> multi_file_cache" where
  "mf_open disk dnds k = fold (mf_open_file disk dnds) [0..<length (mf_tor k)] k"

section \<open>Loading\<close>

text \<open>One file of the loop in \<^verbatim>\<open>load\<close>, the \<open>i\<close>-th of \<open>n\<close>: the cache and the buffer.\<close>

definition mf_read_dnd :: "nat \<Rightarrow> dnd_file option \<Rightarrow> bytes \<Rightarrow> nat \<Rightarrow> nat \<Rightarrow> (dnd_file \<times> bytes \<times> nat) option" where
  "mf_read_dnd i fd buf at s = (if i = 0 then readLastChunk fd buf at s else readFirstChunk fd buf at s)"

definition mf_load_file ::
  "nat \<Rightarrow> nat \<Rightarrow> nat \<Rightarrow> nat \<Rightarrow> nat \<Rightarrow> multi_file_cache \<times> bytes \<times> nat \<Rightarrow> (multi_file_cache \<times> bytes \<times> nat) option" where
  "mf_load_file c s n i j st = (case st of (k, buf, done) \<Rightarrow>
     (let f = mf_tor k ! j;
          off = portion_off i f c (mf_chunk_size k);
          to_read = portion i n f s done
      in case mf_files k j of
           Some fd \<Rightarrow>
             (case cf_read fd to_read off of
                None \<Rightarrow> None
              | Some d \<Rightarrow> if done + length d > length buf then None
                          else Some (k, memcpy buf done d (length d), done + to_read))
         | None \<Rightarrow>
             (case mf_dnd k j of
                None \<Rightarrow> Some (k, buf, done + to_read)
              | Some dfd \<Rightarrow>
                  (case mf_read_dnd i dfd buf done s of
                     None \<Rightarrow> None
                   | Some (f, buf, _) \<Rightarrow> Some (mf_put_dnd j f k, buf, done + to_read)))))"

fun mf_load_loop ::
  "nat \<Rightarrow> nat \<Rightarrow> nat \<Rightarrow> nat \<Rightarrow> nat list \<Rightarrow> multi_file_cache \<times> bytes \<times> nat \<Rightarrow> (multi_file_cache \<times> bytes \<times> nat) option" where
  "mf_load_loop c s n i [] st = Some st"
| "mf_load_loop c s n i (j # js) st =
     (case mf_load_file c s n i j st of None \<Rightarrow> None | Some st \<Rightarrow> mf_load_loop c s n (i + 1) js st)"

definition mf_load_buffered :: "multi_file_cache \<Rightarrow> chunk \<Rightarrow> (multi_file_cache \<times> chunk) option" where
  "mf_load_buffered k c =
     (let l = mf_tflist k c
      in case mf_load_loop (ch_index c) (ch_size c) (length l) 0 l (k, mf_fresh k (ch_size c), 0) of
           None \<Rightarrow> None
         | Some (k, buf, _) \<Rightarrow> Some (k, ch_setData c (Some buf) BUFFERED))"

definition mf_load :: "multi_file_cache \<Rightarrow> chunk \<Rightarrow> (multi_file_cache \<times> chunk) option" where
  "mf_load k c =
     (let l = mf_tflist k c
      in if length l = 1 then
           (case mf_files k (hd l) of
              None \<Rightarrow> Some (k, c)
            | Some fd \<Rightarrow>
                if mf_mapped k \<and> mf_failures k < 3 then
                  (case cf_map fd (tf_fileOffset (mf_tor k ! hd l) (ch_index c) (mf_chunk_size k)) (ch_size c) READ of
                     None \<Rightarrow> None
                   | Some (fd, Some buf) \<Rightarrow> Some (mf_put_file (hd l) fd k, ch_setData c (Some buf) MMAPPED)
                   | Some (fd, None) \<Rightarrow>
                       mf_load_buffered ((mf_put_file (hd l) fd k)\<lparr>mf_failures := mf_failures k + 1\<rparr>) c)
                else mf_load_buffered k c)
         else mf_load_buffered k c)"

section \<open>Preparing\<close>

definition mf_prep :: "multi_file_cache \<Rightarrow> chunk \<Rightarrow> (multi_file_cache \<times> chunk) option" where
  "mf_prep k c =
     (let l = mf_tflist k c;
          allocated = (ch_allocate c (mf_fresh k (ch_size c)))\<lparr>ch_status := BUFFERED\<rparr>
      in if length l = 1 then
           (case mf_files k (hd l) of
              None \<Rightarrow> Some (k, allocated)
            | Some fd \<Rightarrow>
                if mf_mapped k \<and> mf_failures k < 3 then
                  (case cf_map fd (tf_fileOffset (mf_tor k ! hd l) (ch_index c) (mf_chunk_size k)) (ch_size c) RW of
                     None \<Rightarrow> None
                   | Some (fd, Some buf) \<Rightarrow> Some (mf_put_file (hd l) fd k, ch_setData c (Some buf) MMAPPED)
                   | Some (fd, None) \<Rightarrow>
                       Some ((mf_put_file (hd l) fd k)\<lparr>mf_failures := mf_failures k + 1\<rparr>, allocated))
                else Some (k, allocated))
         else Some (k, allocated))"

section \<open>Saving\<close>

text \<open>A mapped chunk lies in one file; the mapping knows its place.\<close>

definition mf_save_mapped :: "multi_file_cache \<Rightarrow> chunk \<Rightarrow> (multi_file_cache \<times> chunk) option" where
  "mf_save_mapped k c =
     (case (mf_tflist k c, ch_data c) of
        (j # js, Some d) \<Rightarrow>
          (case mf_files k j of
             None \<Rightarrow> Some (k, c)
           | Some fd \<Rightarrow>
               Some (mf_put_file j (cf_unmap d (tf_fileOffset (mf_tor k ! j) (ch_index c) (mf_chunk_size k)) fd) k,
                     (ch_clear c)\<lparr>ch_status := ON_DISK\<rparr>))
      | _ \<Rightarrow> None)"

definition mf_write_dnd :: "(nat \<Rightarrow> bytes) \<Rightarrow> nat \<Rightarrow> dnd_file option \<Rightarrow> bytes \<Rightarrow> dnd_file" where
  "mf_write_dnd fresh i fd d = (if i = 0 then writeLastChunk fresh fd d else writeFirstChunk fresh fd d)"

text \<open>One file of the loop in \<^verbatim>\<open>save\<close>.\<close>

definition mf_save_file ::
  "nat \<Rightarrow> bytes \<Rightarrow> nat \<Rightarrow> nat \<Rightarrow> nat \<Rightarrow> multi_file_cache \<times> nat \<Rightarrow> (multi_file_cache \<times> nat) option" where
  "mf_save_file c d n i j st = (case st of (k, done) \<Rightarrow>
     (let f = mf_tor k ! j;
          off = portion_off i f c (mf_chunk_size k);
          to_write = portion i n f (length d) done;
          part = take to_write (drop done d)
      in if length part < to_write then None
         else case mf_files k j of
           Some fd \<Rightarrow>
             (case cf_write part off fd of
                None \<Rightarrow> None
              | Some fd \<Rightarrow> Some (mf_put_file j fd k, done + to_write))
         | None \<Rightarrow>
             (case mf_dnd k j of
                None \<Rightarrow> Some (k, done + to_write)
              | Some dfd \<Rightarrow> Some (mf_put_dnd j (mf_write_dnd (mf_fresh k) i dfd part) k, done + to_write))))"

fun mf_save_loop ::
  "nat \<Rightarrow> bytes \<Rightarrow> nat \<Rightarrow> nat \<Rightarrow> nat list \<Rightarrow> multi_file_cache \<times> nat \<Rightarrow> (multi_file_cache \<times> nat) option" where
  "mf_save_loop c d n i [] st = Some st"
| "mf_save_loop c d n i (j # js) st =
     (case mf_save_file c d n i j st of None \<Rightarrow> None | Some st \<Rightarrow> mf_save_loop c d n (i + 1) js st)"

definition mf_save_buffered :: "multi_file_cache \<Rightarrow> chunk \<Rightarrow> (multi_file_cache \<times> chunk) option" where
  "mf_save_buffered k c =
     (let l = mf_tflist k c
      in case ch_data c of
           None \<Rightarrow> if l = [] then Some (k, (ch_clear c)\<lparr>ch_status := ON_DISK\<rparr>) else None
         | Some d \<Rightarrow>
             (case mf_save_loop (ch_index c) (take (ch_size c) d) (length l) 0 l (k, 0) of
                None \<Rightarrow> None
              | Some (k, _) \<Rightarrow> Some (k, (ch_clear c)\<lparr>ch_status := ON_DISK\<rparr>)))"

definition mf_save :: "multi_file_cache \<Rightarrow> chunk \<Rightarrow> (multi_file_cache \<times> chunk) option" where
  "mf_save k c = (if ch_status c = MMAPPED then mf_save_mapped k c else mf_save_buffered k c)"

definition mf_ops :: "multi_file_cache cache_ops" where
  "mf_ops = \<lparr>co_load = mf_load, co_save = mf_save, co_prep = mf_prep\<rparr>"

section \<open>Files that are excluded and included again\<close>

text \<open>The length of the chunk in which a file begins, as both functions compute it.\<close>

definition first_chunk_length :: "multi_file_cache \<Rightarrow> torrent_file \<Rightarrow> nat" where
  "first_chunk_length k tf =
     (if int (tf_first tf) = int (mf_num k) - 1 then
        let cs = mf_length k mod mf_chunk_size k in if cs = 0 then mf_chunk_size k else cs
      else mf_chunk_size k)"

text \<open>\<^verbatim>\<open>fptr.read(tmp,n)\<close>: what the file does not have stays unset in the buffer.\<close>

definition read_some :: "bytes \<Rightarrow> nat \<Rightarrow> nat \<Rightarrow> bytes \<Rightarrow> bytes" where
  "read_some data off n tmp = (let d = take n (drop off data) in memcpy tmp 0 d (length d))"

definition saveFirstAndLastChunk :: "multi_file_cache \<Rightarrow> torrent_file \<Rightarrow> bytes \<Rightarrow> dnd_file" where
  "saveFirstAndLastChunk k tf src =
     (let cs = first_chunk_length k tf;
          tmp = mf_fresh k (mf_chunk_size k);
          n = cs - tf_first_off tf;
          tmp = read_some src 0 n tmp;
          f = writeFirstChunk (mf_fresh k) None (take n tmp)
      in if tf_first tf \<noteq> tf_last tf then
           let off = tf_fileOffset tf (tf_last tf) (mf_chunk_size k);
               tmp = read_some src off (tf_last_size tf) tmp
           in writeLastChunk (mf_fresh k) (Some f) (take (tf_last_size tf) tmp)
         else f)"

text \<open>A new file of the full size, all zeros, with the two parts written into it.\<close>

definition recreateFile :: "multi_file_cache \<Rightarrow> torrent_file \<Rightarrow> dnd_file option \<Rightarrow> bytes option" where
  "recreateFile k tf dnd =
     (let cs = first_chunk_length k tf;
          n = cs - tf_first_off tf;
          ts = max n (tf_last_size tf);
          fd = \<lparr>cf_read_only = False, cf_max = tf_size tf, cf_data = replicate (tf_size tf) 0, cf_mmap = []\<rparr>
      in case readFirstChunk dnd (mf_fresh k ts) 0 n of
           None \<Rightarrow> None
         | Some (f, tmp, _) \<Rightarrow>
             let fd = cf_put (take n tmp) 0 fd
             in if tf_first tf \<noteq> tf_last tf then
                  (case readLastChunk (Some f) tmp 0 (tf_last_size tf) of
                     None \<Rightarrow> None
                   | Some (f, tmp, _) \<Rightarrow>
                       Some (cf_data (cf_put (take (tf_last_size tf) tmp)
                         (tf_fileOffset tf (tf_last tf) (mf_chunk_size k)) fd)))
                else Some (cf_data fd))"

definition mf_downloadStatusChanged :: "nat \<Rightarrow> bool \<Rightarrow> multi_file_cache \<Rightarrow> multi_file_cache option" where
  "mf_downloadStatusChanged i download k =
     (let tf = mf_tor k ! i
      in if \<not> download then
           (case mf_dnd k i of
              Some (Some f) \<Rightarrow> Some k
            | _ \<Rightarrow>
                let f = (case mf_files k i of Some fd \<Rightarrow> Some (saveFirstAndLastChunk k tf (cf_data fd)) | None \<Rightarrow> None)
                in Some (mf_put_dnd i (checkIntegrity f) (k\<lparr>mf_files := (mf_files k)(i := None)\<rparr>)))
         else
           (case mf_files k i of
              Some fd \<Rightarrow> Some k
            | None \<Rightarrow>
                (case recreateFile k tf (case mf_dnd k i of Some f \<Rightarrow> f | None \<Rightarrow> None) of
                   None \<Rightarrow> None
                 | Some d \<Rightarrow>
                     Some (mf_put_file i \<lparr>cf_read_only = False, cf_max = tf_size tf, cf_data = d, cf_mmap = mf_mmap k\<rparr>
                       (k\<lparr>mf_dnd := (mf_dnd k)(i := None)\<rparr>)))))"

end
