(* ===== verification/MultiCacheProps.thy ===== *)
theory MultiCacheProps
  imports MultiCache
begin

text \<open>
  The cache of several files behaves like the cache of one: what is saved comes back. The laws of
  \<open>chunk_cache\<close> hold for it as long as all files are wanted; the last section shows what happens to a
  small file that is excluded.
\<close>

section \<open>The cache as a store of chunks\<close>

definition mf_data :: "multi_file_cache \<Rightarrow> nat \<Rightarrow> bytes" where
  "mf_data k j = cf_data (the (mf_files k j))"

definition mf_tfl :: "multi_file_cache \<Rightarrow> nat \<Rightarrow> nat list" where
  "mf_tfl k c = calcChunkPos (mf_num k) (mf_tor k) c"

definition mf_at :: "multi_file_cache \<Rightarrow> nat \<Rightarrow> nat \<Rightarrow> nat" where
  "mf_at k c j = c * mf_chunk_size k - tf_off (mf_tor k ! j)"

definition mf_cut :: "multi_file_cache \<Rightarrow> nat \<Rightarrow> nat \<Rightarrow> nat" where
  "mf_cut k c j = cut (mf_chunk_size k) c (mf_tor k) j"

definition mf_stored :: "multi_file_cache \<Rightarrow> nat \<Rightarrow> bytes option" where
  "mf_stored k c =
     (if \<forall>j \<in> set (mf_tfl k c). mf_at k c j + mf_cut k c j \<le> length (mf_data k j)
      then Some (concat (map (piece_of (mf_chunk_size k) c (mf_tor k) (mf_data k)) (mf_tfl k c))) else None)"

definition mf_fits :: "multi_file_cache \<Rightarrow> nat \<Rightarrow> nat \<Rightarrow> bool" where
  "mf_fits k c n \<longleftrightarrow> c < mf_num k \<and> c * mf_chunk_size k < total_size (mf_tor k) \<and>
     n = chunk_len (mf_chunk_size k) c (mf_tor k)"

definition mf_mappable :: "multi_file_cache \<Rightarrow> nat \<Rightarrow> bool" where
  "mf_mappable k c \<longleftrightarrow> length (mf_tfl k c) = 1"

definition mf_shape :: "multi_file_cache \<Rightarrow> bool" where
  "mf_shape k \<longleftrightarrow> 0 < mf_chunk_size k \<and> mf_chunk_size k < 2 ^ 32 \<and> placed (mf_chunk_size k) 0 (mf_tor k) \<and>
     (\<forall>i < length (mf_tor k). tf_index (mf_tor k ! i) = i) \<and> (\<forall>n. length (mf_fresh k n) = n)"

definition mf_ok :: "multi_file_cache \<Rightarrow> bool" where
  "mf_ok k \<longleftrightarrow> mf_shape k \<and> (\<forall>i < length (mf_tor k). \<exists>fd. mf_files k i = Some fd \<and> \<not> cf_read_only fd \<and>
     cf_max fd = tf_size (mf_tor k ! i))"

text \<open>States that differ only in their files and the count of failures.\<close>

definition same_tor :: "multi_file_cache \<Rightarrow> multi_file_cache \<Rightarrow> bool" where
  "same_tor k k' \<longleftrightarrow> mf_tor k' = mf_tor k \<and> mf_num k' = mf_num k \<and> mf_chunk_size k' = mf_chunk_size k \<and> mf_fresh k' = mf_fresh k"

lemma same_tor_eqs:
  assumes "same_tor k k'"
  shows "mf_tfl k' = mf_tfl k" "mf_at k' = mf_at k" "mf_cut k' = mf_cut k" "mf_fits k' = mf_fits k" "mf_mappable k' = mf_mappable k"
    "mf_shape k' = mf_shape k"
proof -
  show t: "mf_tfl k' = mf_tfl k" "mf_at k' = mf_at k" "mf_cut k' = mf_cut k" "mf_fits k' = mf_fits k" "mf_shape k' = mf_shape k"
    using assms by (auto simp: same_tor_def mf_tfl_def mf_at_def mf_cut_def mf_fits_def mf_shape_def fun_eq_iff)
  show "mf_mappable k' = mf_mappable k" by (simp add: fun_eq_iff mf_mappable_def t(1))
qed

lemma stored_cong:
  assumes "same_tor k k'" "\<forall>j \<in> set (mf_tfl k c). mf_at k c j + mf_cut k c j \<le> length (mf_data k j) \<longrightarrow>
      mf_at k c j + mf_cut k c j \<le> length (mf_data k' j) \<and>
      take (mf_cut k c j) (drop (mf_at k c j) (mf_data k' j)) = take (mf_cut k c j) (drop (mf_at k c j) (mf_data k j))"
    and "mf_stored k c = Some x"
  shows "mf_stored k' c = Some x"
proof -
  have l: "\<forall>j \<in> set (mf_tfl k c). mf_at k c j + mf_cut k c j \<le> length (mf_data k j)"
    and x: "x = concat (map (piece_of (mf_chunk_size k) c (mf_tor k) (mf_data k)) (mf_tfl k c))"
    using assms(3) by (auto simp: mf_stored_def split: if_splits)
  have s: "mf_chunk_size k' = mf_chunk_size k" "mf_tor k' = mf_tor k" using assms(1) by (simp_all add: same_tor_def)
  have m: "concat (map (piece_of (mf_chunk_size k) c (mf_tor k) (mf_data k')) (mf_tfl k c)) =
      concat (map (piece_of (mf_chunk_size k) c (mf_tor k) (mf_data k)) (mf_tfl k c))"
    using assms(2) l by (intro arg_cong [where f = concat] map_cong) (simp_all add: piece_of_def mf_cut_def mf_at_def)
  show ?thesis using assms(2) l unfolding mf_stored_def same_tor_eqs [OF assms(1)] s m x by simp
qed

lemma mf_ok_shape: "mf_ok k \<Longrightarrow> mf_shape k" by (simp add: mf_ok_def)

lemma mf_covers: "mf_shape k \<Longrightarrow> c < mf_num k \<Longrightarrow> covers c (mf_tor k) (mf_tfl k c)"
  unfolding mf_tfl_def by (rule calc_covers) (auto simp: mf_shape_def)

lemma mf_file:
  assumes "mf_ok k" "c < mf_num k" "j \<in> set (mf_tfl k c)"
  shows "\<exists>fd. mf_files k j = Some fd \<and> \<not> cf_read_only fd \<and> cf_max fd = tf_size (mf_tor k ! j) \<and> cf_data fd = mf_data k j"
    "0 < mf_cut k c j" "mf_at k c j + mf_cut k c j \<le> tf_size (mf_tor k ! j)" "j < length (mf_tor k)"
proof -
  let ?cs = "mf_chunk_size k" let ?f = "mf_tor k ! j"
  have sh: "0 < ?cs" "placed ?cs 0 (mf_tor k)" using assms(1) by (simp_all add: mf_ok_def mf_shape_def)
  have j: "j < length (mf_tor k)" "tf_first ?f \<le> c" "c \<le> tf_last ?f"
    using covers_mem [OF mf_covers [OF mf_ok_shape [OF assms(1)] assms(2)] assms(3)] by simp_all
  show "j < length (mf_tor k)" by (rule j(1))
  show "\<exists>fd. mf_files k j = Some fd \<and> \<not> cf_read_only fd \<and> cf_max fd = tf_size ?f \<and> cf_data fd = mf_data k j"
    using assms(1) j(1) by (fastforce simp: mf_ok_def mf_data_def)
  have ne: "0 < tf_size ?f"
  proof -
    have "j \<in> tf_index ` set (filter (\<lambda>f. tf_first f \<le> c \<and> c \<le> tf_last f \<and> tf_size f \<noteq> 0) (mf_tor k))"
      using assms(3) by (auto simp: mf_tfl_def calcChunkPos_def split: if_splits)
    then obtain g where g: "g \<in> set (mf_tor k)" "tf_index g = j" "tf_size g \<noteq> 0" by auto
    then obtain i where "i < length (mf_tor k)" "mf_tor k ! i = g" by (auto simp: in_set_conv_nth)
    then have "i = j" using assms(1) g(2) by (auto simp: mf_ok_def mf_shape_def)
    then show ?thesis using \<open>mf_tor k ! i = g\<close> g(3) by simp
  qed
  note ic = in_chunk [OF sh(2,1) j]
  have e: "tf_off ?f + tf_size ?f \<le> total_size (mf_tor k)" using placed_end [OF sh(2) j(1)] by simp
  show "0 < mf_cut k c j"
    unfolding mf_cut_def cut_def clip_len_def chunk_len_def using ic(1) ic(2) [OF ne] ne e sh(1) by linarith
  show "mf_at k c j + mf_cut k c j \<le> tf_size ?f"
    unfolding mf_at_def mf_cut_def cut_def clip_len_def using ic(2) [OF ne] by linarith
qed

lemma mf_portion:
  assumes "mf_shape k" "mf_fits k c n" "i < length (mf_tfl k c)"
  shows "portion i (length (mf_tfl k c)) (mf_tor k ! (mf_tfl k c ! i)) n (sum_list (map (mf_cut k c) (take i (mf_tfl k c)))) =
      mf_cut k c (mf_tfl k c ! i) \<and>
    portion_off i (mf_tor k ! (mf_tfl k c ! i)) c (mf_chunk_size k) = mf_at k c (mf_tfl k c ! i)"
proof -
  have c: "c < mf_num k" "c * mf_chunk_size k < total_size (mf_tor k)" "n = chunk_len (mf_chunk_size k) c (mf_tor k)"
    using assms(2) by (simp_all add: mf_fits_def)
  have "mf_cut k c = cut (mf_chunk_size k) c (mf_tor k)" by (simp add: mf_cut_def fun_eq_iff)
  then show ?thesis
    using portion_cut [OF _ _ _ mf_covers [OF assms(1) c(1)] c(2) assms(3)] assms(1) c(3)
    by (simp add: mf_shape_def mf_at_def)
qed

lemma mf_sum:
  assumes "mf_shape k" "mf_fits k c n"
  shows "sum_list (map (mf_cut k c) (mf_tfl k c)) = n" "distinct (mf_tfl k c)" "mf_tfl k c \<noteq> []"
proof -
  have c: "c < mf_num k" "c * mf_chunk_size k < total_size (mf_tor k)" "n = chunk_len (mf_chunk_size k) c (mf_tor k)"
    using assms(2) by (simp_all add: mf_fits_def)
  have sh: "placed (mf_chunk_size k) 0 (mf_tor k)" "0 < mf_chunk_size k" using assms(1) by (simp_all add: mf_shape_def)
  have "mf_cut k c = cut (mf_chunk_size k) c (mf_tor k)" by (simp add: mf_cut_def fun_eq_iff)
  then show "sum_list (map (mf_cut k c) (mf_tfl k c)) = n"
    using sum_cuts_list [OF sh mf_covers [OF assms(1) c(1)] c(2)] c(3) by simp
  show "distinct (mf_tfl k c)" using covers_sorted [OF mf_covers [OF assms(1) c(1)]] strict_sorted_iff by blast
  show "mf_tfl k c \<noteq> []" using first_before [OF sh mf_covers [OF assms(1) c(1)] c(2)] by simp
qed

text \<open>Sums over a prefix of the files.\<close>

lemma sum_take_next:
  "i < length l \<Longrightarrow> sum_list (map f (take (Suc i) l)) = sum_list (map f (take i l)) + f (l ! i)" for f :: "nat \<Rightarrow> nat"
  by (simp add: take_Suc_conv_app_nth)

lemma sum_take_le: "sum_list (map f (take i l)) \<le> sum_list (map f l)" for f :: "nat \<Rightarrow> nat"
  by (metis append_take_drop_id le_add1 map_append sum_list_append)

lemma cf_read_piece:
  assumes "0 < n" "at + n \<le> length (cf_data fd)" "at < cf_max fd"
  shows "cf_read fd n at = Some (take n (drop at (cf_data fd)))"
  using assms by (simp add: cf_read_def)

section \<open>Loading\<close>

lemma mf_load_loop_fills:
  assumes "mf_ok k" "mf_fits k c n" "mf_stored k c = Some d"
  shows "i \<le> length (mf_tfl k c) \<Longrightarrow> length buf = n \<Longrightarrow>
    take (sum_list (map (mf_cut k c) (take i (mf_tfl k c)))) buf =
      concat (map (piece_of (mf_chunk_size k) c (mf_tor k) (mf_data k)) (take i (mf_tfl k c))) \<Longrightarrow>
    mf_load_loop c n (length (mf_tfl k c)) i (drop i (mf_tfl k c)) (k, buf, sum_list (map (mf_cut k c) (take i (mf_tfl k c)))) =
      Some (k, d, n)"
proof (induction "length (mf_tfl k c) - i" arbitrary: i buf)
  case 0
  then show ?case
    using assms(3) mf_sum(1) [OF mf_ok_shape [OF assms(1)] assms(2)] by (simp add: mf_stored_def split: if_splits)
next
  case (Suc m)
  let ?l = "mf_tfl k c"
  have i: "i < length ?l" using Suc.hyps(2) by simp
  let ?j = "?l ! i" let ?r = "sum_list (map (mf_cut k c) (take i ?l))" let ?n = "mf_cut k c ?j"
  have c: "c < mf_num k" using assms(2) by (simp add: mf_fits_def)
  have j: "?j \<in> set ?l" using i by simp
  obtain fd where fd: "mf_files k ?j = Some fd" "cf_max fd = tf_size (mf_tor k ! ?j)" "cf_data fd = mf_data k ?j"
    using mf_file(1) [OF assms(1) c j] by blast
  have len: "mf_at k c ?j + ?n \<le> length (cf_data fd)" using assms(3) j fd(3) by (auto simp: mf_stored_def split: if_splits)
  have pos: "0 < ?n" "mf_at k c ?j < cf_max fd" using mf_file(2,3) [OF assms(1) c j] fd(2) by simp_all
  have p: "take ?n (drop (mf_at k c ?j) (cf_data fd)) = piece_of (mf_chunk_size k) c (mf_tor k) (mf_data k) ?j"
    by (simp add: piece_of_def mf_cut_def mf_at_def fd(3))
  let ?p = "piece_of (mf_chunk_size k) c (mf_tor k) (mf_data k) ?j"
  have lp: "length ?p = ?n" unfolding p [symmetric] using len by simp
  have rd: "cf_read fd ?n (mf_at k c ?j) = Some ?p" using cf_read_piece [OF pos(1) len pos(2)] p by simp
  have nx: "sum_list (map (mf_cut k c) (take (Suc i) ?l)) = ?r + ?n" by (rule sum_take_next [OF i])
  have fit: "?r + length ?p \<le> length buf"
    using sum_take_le [of "mf_cut k c" "Suc i" ?l] nx mf_sum(1) [OF mf_ok_shape [OF assms(1)] assms(2)] lp Suc.prems(2) by simp
  let ?q = "concat (map (piece_of (mf_chunk_size k) c (mf_tor k) (mf_data k)) (take i ?l))"
  have q: "length ?q = ?r" using Suc.prems(3) fit by (metis add_leD1 length_take min.absorb2)
  have b: "take (?r + ?n) (memcpy buf ?r ?p ?n) = ?q @ ?p" "length (memcpy buf ?r ?p ?n) = n"
    using fill_step [of ?q buf ?p] Suc.prems(2,3) fit q lp by simp_all
  have step: "mf_load_file c n (length ?l) i ?j (k, buf, ?r) = Some (k, memcpy buf ?r ?p ?n, ?r + ?n)"
    using mf_portion [OF mf_ok_shape [OF assms(1)] assms(2) i] rd fd(1) fit lp by (simp add: mf_load_file_def Let_def)
  have "mf_load_loop c n (length ?l) (Suc i) (drop (Suc i) ?l) (k, memcpy buf ?r ?p ?n, sum_list (map (mf_cut k c) (take (Suc i) ?l))) =
      Some (k, d, n)"
    by (rule Suc.hyps(1)) (use Suc.hyps(2) i b nx in \<open>simp_all add: take_Suc_conv_app_nth\<close>)
  then show ?case using step nx by (simp add: Cons_nth_drop_Suc [OF i, symmetric])
qed

lemma mf_tflist_eq: "mf_tflist k c = mf_tfl k (ch_index c)"
  by (simp add: mf_tflist_def mf_tfl_def)

lemma mf_load_buffered_eq:
  assumes "mf_ok k" "mf_fits k (ch_index c) (ch_size c)" "mf_stored k (ch_index c) = Some d"
  shows "mf_load_buffered k c = Some (k, c\<lparr>ch_status := BUFFERED, ch_data := Some d\<rparr>)"
proof -
  have "length (mf_fresh k (ch_size c)) = ch_size c" using assms(1) by (simp add: mf_ok_def mf_shape_def)
  then show ?thesis
    using mf_load_loop_fills [OF assms, of 0 "mf_fresh k (ch_size c)"]
    by (simp add: mf_load_buffered_def mf_tflist_eq)
qed

section \<open>Saving\<close>

text \<open>The state after the data \<open>D\<close> was written to some of the files of a chunk.\<close>

definition mf_written :: "multi_file_cache \<Rightarrow> nat \<Rightarrow> (nat \<Rightarrow> bytes) \<Rightarrow> nat list \<Rightarrow> multi_file_cache" where
  "mf_written k c D l = k\<lparr>mf_files := (\<lambda>j. if j \<in> set l
     then Some (cf_put (piece_of (mf_chunk_size k) c (mf_tor k) D j) (mf_at k c j) (the (mf_files k j))) else mf_files k j)\<rparr>"

lemma mf_written_same: "same_tor k (mf_written k c D l)"
  by (simp add: same_tor_def mf_written_def)

lemma mf_save_loop_writes:
  assumes "mf_ok k" "mf_fits k c n" "length d = n"
    and "\<forall>j < length (mf_tor k). length (D j) = tf_size (mf_tor k ! j)"
    and "concat (map (piece_of (mf_chunk_size k) c (mf_tor k) D) (mf_tfl k c)) = d"
  shows "i \<le> length (mf_tfl k c) \<Longrightarrow>
    mf_save_loop c d (length (mf_tfl k c)) i (drop i (mf_tfl k c))
      (mf_written k c D (take i (mf_tfl k c)), sum_list (map (mf_cut k c) (take i (mf_tfl k c)))) =
    Some (mf_written k c D (mf_tfl k c), n)"
proof (induction "length (mf_tfl k c) - i" arbitrary: i)
  case 0
  then show ?case using mf_sum(1) [OF mf_ok_shape [OF assms(1)] assms(2)] by simp
next
  case (Suc m)
  let ?l = "mf_tfl k c"
  have i: "i < length ?l" using Suc.hyps(2) by simp
  let ?j = "?l ! i" let ?r = "sum_list (map (mf_cut k c) (take i ?l))" let ?n = "mf_cut k c ?j"
  let ?P = "piece_of (mf_chunk_size k) c (mf_tor k) D"
  let ?k = "mf_written k c D (take i ?l)"
  have c: "c < mf_num k" using assms(2) by (simp add: mf_fits_def)
  have j: "?j \<in> set ?l" using i by simp
  have jl: "\<forall>j \<in> set ?l. j < length (mf_tor k)" using mf_file(4) [OF assms(1) c] by blast
  obtain fd where fd: "mf_files k ?j = Some fd" "\<not> cf_read_only fd" using mf_file(1) [OF assms(1) c j] by blast
  have dist: "distinct ?l" by (rule mf_sum(2) [OF mf_ok_shape [OF assms(1)] assms(2)])
  have nj: "?j \<notin> set (take i ?l)"
    using dist i by (metis distinct_take id_take_nth_drop not_distinct_conv_prefix)
  have lp: "length (?P j) = mf_cut k c j" if "j \<in> set ?l" for j
    using length_piece_of assms(4) jl that by (simp add: mf_cut_def)
  have lq: "length (concat (map ?P (take i ?l))) = ?r"
  proof -
    have "map length (map ?P (take i ?l)) = map (mf_cut k c) (take i ?l)" using lp by (auto dest: in_set_takeD)
    then show ?thesis by (simp only: length_concat)
  qed
  have dd: "d = concat (map ?P (take i ?l)) @ ?P ?j @ concat (map ?P (drop (Suc i) ?l))"
    using assms(5) i by (metis append.assoc concat.simps(2) concat_append id_take_nth_drop list.simps(9) map_append)
  have part: "take ?n (drop ?r d) = ?P ?j" using dd lq lp [OF j] by simp
  have nx: "sum_list (map (mf_cut k c) (take (Suc i) ?l)) = ?r + ?n" by (rule sum_take_next [OF i])
  have fit: "min (n - ?r) ?n = ?n"
    using sum_take_le [of "mf_cut k c" "Suc i" ?l] nx mf_sum(1) [OF mf_ok_shape [OF assms(1)] assms(2)] by simp
  have same: "mf_tor ?k = mf_tor k" "mf_chunk_size ?k = mf_chunk_size k" "mf_files ?k ?j = Some fd"
    using nj fd by (simp_all add: mf_written_def)
  have put: "mf_put_file ?j (cf_put (?P ?j) (mf_at k c ?j) fd) ?k = mf_written k c D (take (Suc i) ?l)"
    using i fd(1) nj by (auto simp: mf_put_file_def mf_written_def fun_eq_iff take_Suc_conv_app_nth)
  have step: "mf_save_file c d (length ?l) i ?j (?k, ?r) = Some (mf_written k c D (take (Suc i) ?l), ?r + ?n)"
    using mf_portion [OF mf_ok_shape [OF assms(1)] assms(2) i] part lp [OF j] assms(3) put fd(2) fit
    by (simp add: mf_save_file_def Let_def same cf_write_eq)
  have "mf_save_loop c d (length ?l) (Suc i) (drop (Suc i) ?l)
      (mf_written k c D (take (Suc i) ?l), sum_list (map (mf_cut k c) (take (Suc i) ?l))) = Some (mf_written k c D ?l, n)"
    by (rule Suc.hyps(1)) (use Suc.hyps(2) i in simp_all)
  then show ?case using step nx by (simp add: Cons_nth_drop_Suc [OF i, symmetric])
qed

text \<open>What that does to the stored chunks.\<close>

lemma data_written:
  "mf_data (mf_written k c D l) j = (if j \<in> set l
     then cf_data (cf_put (piece_of (mf_chunk_size k) c (mf_tor k) D j) (mf_at k c j) (the (mf_files k j))) else mf_data k j)"
  by (simp add: mf_data_def mf_written_def)

lemma written_stored:
  assumes "mf_ok k" "mf_fits k c n" "\<forall>j < length (mf_tor k). length (D j) = tf_size (mf_tor k ! j)"
    and "concat (map (piece_of (mf_chunk_size k) c (mf_tor k) D) (mf_tfl k c)) = d"
  shows "mf_ok (mf_written k c D (mf_tfl k c))" "mf_stored (mf_written k c D (mf_tfl k c)) c = Some d"
    "e \<noteq> c \<Longrightarrow> mf_stored k e = Some x \<Longrightarrow> mf_stored (mf_written k c D (mf_tfl k c)) e = Some x"
proof -
  let ?l = "mf_tfl k c" let ?k = "mf_written k c D ?l" let ?P = "piece_of (mf_chunk_size k) c (mf_tor k) D"
  have c: "c < mf_num k" using assms(2) by (simp add: mf_fits_def)
  note same = mf_written_same [of k c D ?l]
  have lp: "length (?P j) = mf_cut k c j" if "j \<in> set ?l" for j
    using length_piece_of assms(3) mf_file(4) [OF assms(1) c that] by (simp add: mf_cut_def)
  have dj: "mf_data ?k j = cf_data (cf_put (?P j) (mf_at k c j) (the (mf_files k j)))" if "j \<in> set ?l" for j
    using that by (simp add: data_written)
  show "mf_ok ?k"
    unfolding mf_ok_def same_tor_eqs(6) [OF same]
  proof (intro conjI allI impI mf_ok_shape [OF assms(1)])
    fix i assume "i < length (mf_tor ?k)"
    then have "i < length (mf_tor k)" by (simp add: mf_written_def)
    then obtain fd where "mf_files k i = Some fd" "\<not> cf_read_only fd" "cf_max fd = tf_size (mf_tor k ! i)"
      using assms(1) by (auto simp: mf_ok_def)
    then show "\<exists>fd. mf_files ?k i = Some fd \<and> \<not> cf_read_only fd \<and> cf_max fd = tf_size (mf_tor ?k ! i)"
      by (cases "i \<in> set ?l") (simp_all add: mf_written_def cf_put_def)
  qed
  have s: "mf_chunk_size ?k = mf_chunk_size k" "mf_tor ?k = mf_tor k" using same by (simp_all add: same_tor_def)
  have pc: "take (mf_cut k c j) (drop (mf_at k c j) (mf_data ?k j)) = ?P j" if "j \<in> set ?l" for j
    using slice_put_same [of "?P j" "mf_at k c j" "the (mf_files k j)"] lp [OF that] dj [OF that] by simp
  have "concat (map (piece_of (mf_chunk_size k) c (mf_tor k) (mf_data ?k)) ?l) = concat (map ?P ?l)"
    using pc by (intro arg_cong [where f = concat] map_cong) (simp_all add: piece_of_def [of _ _ _ "mf_data ?k"] mf_cut_def mf_at_def)
  moreover have "mf_at k c j + mf_cut k c j \<le> length (mf_data ?k j)" if "j \<in> set ?l" for j
    using length_put [of "?P j" "mf_at k c j" "the (mf_files k j)"] lp [OF that] dj [OF that] by simp
  ultimately show "mf_stored ?k c = Some d"
    using assms(4) unfolding mf_stored_def same_tor_eqs [OF same] s by simp
  show "mf_stored ?k e = Some x" if e: "e \<noteq> c" and x: "mf_stored k e = Some x"
  proof (rule stored_cong [OF same _ x], intro ballI impI conjI)
    fix j assume j: "j \<in> set (mf_tfl k e)" and b: "mf_at k e j + mf_cut k e j \<le> length (mf_data k j)"
    have disj: "mf_at k e j + mf_cut k e j \<le> mf_at k c j \<or> mf_at k c j + mf_cut k c j \<le> mf_at k e j \<or> mf_cut k e j = 0"
    proof -
      let ?cs = "mf_chunk_size k" let ?o = "tf_off (mf_tor k ! j)"
      have "e * ?cs + chunk_len ?cs e (mf_tor k) \<le> c * ?cs \<or> c * ?cs + chunk_len ?cs c (mf_tor k) \<le> e * ?cs"
        by (rule chunk_ranges_disjoint [OF e]) (simp_all add: chunk_len_def)
      then show ?thesis unfolding mf_at_def mf_cut_def cut_def clip_len_def by linarith
    qed
    show "mf_at k e j + mf_cut k e j \<le> length (mf_data ?k j)"
    proof (cases "j \<in> set ?l")
      case True
      show ?thesis unfolding dj [OF True] length_put using b by (simp add: mf_data_def)
    next
      case False
      then show ?thesis using b by (simp add: data_written)
    qed
    show "take (mf_cut k e j) (drop (mf_at k e j) (mf_data ?k j)) = take (mf_cut k e j) (drop (mf_at k e j) (mf_data k j))"
    proof (cases "j \<in> set ?l \<and> mf_cut k e j \<noteq> 0")
      case True
      then have "mf_at k e j + mf_cut k e j \<le> mf_at k c j \<or> mf_at k c j + length (?P j) \<le> mf_at k e j" using disj lp by auto
      from slice_put_other [OF _ this, of "the (mf_files k j)"] show ?thesis using b True dj by (simp add: mf_data_def)
    next
      case False
      then show ?thesis by (auto simp: data_written)
    qed
  qed
qed

section \<open>The laws\<close>

lemma grown_file:
  assumes "mf_ok k" "mf_files k j = Some fd" "cf_max fd' = cf_max fd" "\<not> cf_read_only fd'" "cf_data fd' = cf_data fd @ z"
  shows "mf_ok ((mf_put_file j fd' k)\<lparr>mf_failures := n\<rparr>)" "same_tor k ((mf_put_file j fd' k)\<lparr>mf_failures := n\<rparr>)"
    "mf_stored k e = Some x \<Longrightarrow> mf_stored ((mf_put_file j fd' k)\<lparr>mf_failures := n\<rparr>) e = Some x"
    "z = [] \<Longrightarrow> mf_stored ((mf_put_file j fd' k)\<lparr>mf_failures := n\<rparr>) = mf_stored k"
proof -
  let ?k = "(mf_put_file j fd' k)\<lparr>mf_failures := n\<rparr>"
  show same: "same_tor k ?k" by (simp add: same_tor_def mf_put_file_def)
  show "mf_ok ?k"
    unfolding mf_ok_def same_tor_eqs(6) [OF same]
    using assms by (auto simp: mf_ok_def mf_put_file_def)
  have d: "mf_data ?k i = (if i = j then mf_data k j @ z else mf_data k i)" for i
    using assms(2,5) by (simp add: mf_data_def mf_put_file_def)
  show "mf_stored k e = Some x \<Longrightarrow> mf_stored ?k e = Some x"
    by (rule stored_cong [OF same]) (auto simp: d)
  assume z: "z = []"
  have m: "mf_data ?k = mf_data k" using d z by (auto simp: fun_eq_iff)
  show "mf_stored ?k = mf_stored k"
    using same by (intro ext) (simp add: mf_stored_def same_tor_eqs [OF same] m same_tor_def)
qed

lemma mapped_place:
  assumes "mf_ok k" "mf_fits k c n" "length (mf_tfl k c) = 1"
  shows "\<exists>j fd. mf_tfl k c = [j] \<and> mf_files k j = Some fd \<and> \<not> cf_read_only fd \<and> cf_max fd = tf_size (mf_tor k ! j) \<and>
    cf_data fd = mf_data k j \<and> tf_fileOffset (mf_tor k ! j) c (mf_chunk_size k) = mf_at k c j \<and> mf_cut k c j = n \<and>
    mf_at k c j + n \<le> cf_max fd"
proof -
  have c: "c < mf_num k" using assms(2) by (simp add: mf_fits_def)
  obtain j where l: "mf_tfl k c = [j]" using assms(3) by (metis One_nat_def length_0_conv length_Suc_conv)
  then have j: "j \<in> set (mf_tfl k c)" by simp
  note f = mf_file [OF assms(1) c j]
  have "mf_cut k c j = n" using mf_sum(1) [OF mf_ok_shape [OF assms(1)] assms(2)] l by simp
  moreover have "tf_fileOffset (mf_tor k ! j) c (mf_chunk_size k) = mf_at k c j"
    using mf_portion [OF mf_ok_shape [OF assms(1)] assms(2), of 0] l by (simp add: portion_off_def)
  ultimately show ?thesis using l f(1,3) by auto
qed

lemma stored_single:
  assumes "mf_tfl k c = [j]" "mf_stored k c = Some d"
  shows "mf_at k c j + mf_cut k c j \<le> length (mf_data k j)" "d = take (mf_cut k c j) (drop (mf_at k c j) (mf_data k j))"
  using assms by (simp_all add: mf_stored_def piece_of_def mf_cut_def mf_at_def split: if_splits)

lemma mf_load_law:
  assumes "mf_ok k" "mf_fits k (ch_index c) (ch_size c)" "mf_stored k (ch_index c) = Some d"
  shows "\<exists>k' st. mf_load k c = Some (k', c\<lparr>ch_status := st, ch_data := Some d\<rparr>) \<and>
    (st = MMAPPED \<and> mf_mappable k (ch_index c) \<or> st = BUFFERED) \<and> mf_ok k' \<and> mf_fits k' = mf_fits k \<and>
    mf_mappable k' = mf_mappable k \<and> mf_stored k' = mf_stored k"
proof -
  let ?i = "ch_index c"
  have buffered: "mf_load_buffered k c = Some (k, c\<lparr>ch_status := BUFFERED, ch_data := Some d\<rparr>)"
    by (rule mf_load_buffered_eq [OF assms])
  show ?thesis
  proof (cases "length (mf_tfl k ?i) = 1")
    case False
    then show ?thesis using buffered assms(1) by (auto simp: mf_load_def mf_tflist_eq Let_def)
  next
    case True
    obtain j fd where j: "mf_tfl k ?i = [j]" "mf_files k j = Some fd" "\<not> cf_read_only fd" "cf_data fd = mf_data k j"
      "tf_fileOffset (mf_tor k ! j) ?i (mf_chunk_size k) = mf_at k ?i j" "mf_cut k ?i j = ch_size c" "mf_at k ?i j + ch_size c \<le> cf_max fd"
      using mapped_place [OF assms(1,2) True] by blast
    note st = stored_single [OF j(1) assms(3)]
    show ?thesis
    proof (cases "mf_mapped k \<and> mf_failures k < 3")
      case False
      then show ?thesis using buffered assms(1) j by (auto simp: mf_load_def mf_tflist_eq Let_def)
    next
      case m: True
      obtain fd' buf where map: "cf_map fd (mf_at k ?i j) (ch_size c) READ = Some (fd', buf)" "\<not> cf_read_only fd'"
        "cf_max fd' = cf_max fd" "cf_data fd' = cf_data fd @ replicate (mf_at k ?i j + ch_size c - length (cf_data fd)) 0"
        "buf \<noteq> None \<longrightarrow> buf = Some (take (ch_size c) (drop (mf_at k ?i j) (cf_data fd')))"
        using cf_map_spec [OF j(3,7)] by blast
      have z: "cf_data fd' = cf_data fd @ []" using map(4) st(1) j(4,6) by simp
      note g = grown_file [OF assms(1) j(2) map(3,2) z]
      show ?thesis
      proof (cases buf)
        case None
        let ?k = "(mf_put_file j fd' k)\<lparr>mf_failures := mf_failures k + 1\<rparr>"
        note gk = g [where n = "mf_failures k + 1"]
        have "mf_load k c = mf_load_buffered ?k c"
          using True m j map(1) None by (simp add: mf_load_def mf_tflist_eq Let_def)
        also have "\<dots> = Some (?k, c\<lparr>ch_status := BUFFERED, ch_data := Some d\<rparr>)"
        proof (rule mf_load_buffered_eq [OF gk(1)])
          show "mf_fits ?k (ch_index c) (ch_size c)" unfolding same_tor_eqs(4) [OF gk(2)] by (rule assms(2))
          show "mf_stored ?k (ch_index c) = Some d" using gk(4) assms(3) by simp
        qed
        finally show ?thesis using gk(1,4) same_tor_eqs [OF gk(2)] by blast
      next
        case (Some b)
        note gk = g [where n = "mf_failures k"]
        have k': "(mf_put_file j fd' k)\<lparr>mf_failures := mf_failures k\<rparr> = mf_put_file j fd' k" by (simp add: mf_put_file_def)
        have "b = d" using map(5) Some z st(2) j(4,6) by simp
        then have "mf_load k c = Some (mf_put_file j fd' k, c\<lparr>ch_status := MMAPPED, ch_data := Some d\<rparr>)"
          using True m j map(1) Some by (simp add: mf_load_def mf_tflist_eq Let_def)
        moreover have "mf_mappable k ?i" using True by (simp add: mf_mappable_def)
        ultimately show ?thesis using gk(1,4) same_tor_eqs [OF gk(2)] unfolding k' by blast
      qed
    qed
  qed
qed

lemma mf_prep_law:
  assumes "mf_ok k" "mf_fits k (ch_index c) (ch_size c)"
  shows "\<exists>k' st d. mf_prep k c = Some (k', c\<lparr>ch_status := st, ch_data := Some d\<rparr>) \<and>
    (st = MMAPPED \<and> mf_mappable k (ch_index c) \<or> st = BUFFERED) \<and> length d = ch_size c \<and> mf_ok k' \<and>
    mf_fits k' = mf_fits k \<and> mf_mappable k' = mf_mappable k \<and> (\<forall>j x. mf_stored k j = Some x \<longrightarrow> mf_stored k' j = Some x)"
proof -
  let ?i = "ch_index c" let ?fr = "mf_fresh k (ch_size c)"
  have len: "length ?fr = ch_size c" using assms(1) by (simp add: mf_ok_def mf_shape_def)
  have al: "(ch_allocate c ?fr)\<lparr>ch_status := BUFFERED\<rparr> = c\<lparr>ch_status := BUFFERED, ch_data := Some ?fr\<rparr>"
    unfolding ch_allocate_status by (rule ch_allocate_exact [OF len])
  show ?thesis
  proof (cases "length (mf_tfl k ?i) = 1 \<and> mf_mapped k \<and> mf_failures k < 3")
    case False
    have "mf_prep k c = Some (k, c\<lparr>ch_status := BUFFERED, ch_data := Some ?fr\<rparr>)"
      using False by (auto simp: mf_prep_def mf_tflist_eq Let_def al split: option.split)
    then show ?thesis using assms(1) len by blast
  next
    case True
    then have one: "length (mf_tfl k ?i) = 1" by simp
    obtain j fd where j: "mf_tfl k ?i = [j]" "mf_files k j = Some fd" "\<not> cf_read_only fd"
      "tf_fileOffset (mf_tor k ! j) ?i (mf_chunk_size k) = mf_at k ?i j" "mf_at k ?i j + ch_size c \<le> cf_max fd"
      using mapped_place [OF assms one] by blast
    obtain fd' buf where map: "cf_map fd (mf_at k ?i j) (ch_size c) RW = Some (fd', buf)" "\<not> cf_read_only fd'"
      "cf_max fd' = cf_max fd" "cf_data fd' = cf_data fd @ replicate (mf_at k ?i j + ch_size c - length (cf_data fd)) 0"
      "buf \<noteq> None \<longrightarrow> buf = Some (take (ch_size c) (drop (mf_at k ?i j) (cf_data fd')))"
      using cf_map_spec [OF j(3,5)] by blast
    note g = grown_file [OF assms(1) j(2) map(3,2,4)]
    show ?thesis
    proof (cases buf)
      case None
      note gk = g [where n = "mf_failures k + 1"]
      have "mf_prep k c = Some ((mf_put_file j fd' k)\<lparr>mf_failures := mf_failures k + 1\<rparr>, c\<lparr>ch_status := BUFFERED, ch_data := Some ?fr\<rparr>)"
        using True j map(1) None by (simp add: mf_prep_def mf_tflist_eq Let_def al)
      then show ?thesis using gk(1,3) same_tor_eqs [OF gk(2)] len by blast
    next
      case (Some b)
      note gk = g [where n = "mf_failures k"]
      have k': "(mf_put_file j fd' k)\<lparr>mf_failures := mf_failures k\<rparr> = mf_put_file j fd' k" by (simp add: mf_put_file_def)
      have "length b = ch_size c" using map(4,5) Some by simp
      moreover have "mf_prep k c = Some (mf_put_file j fd' k, c\<lparr>ch_status := MMAPPED, ch_data := Some b\<rparr>)"
        using True j map(1) Some by (simp add: mf_prep_def mf_tflist_eq Let_def)
      moreover have "mf_mappable k ?i" using one by (simp add: mf_mappable_def)
      ultimately show ?thesis using gk(1,3) same_tor_eqs [OF gk(2)] unfolding k' by blast
    qed
  qed
qed

lemma mf_save_law:
  assumes "mf_ok k" "mf_fits k (ch_index c) (ch_size c)" "ch_status c = MMAPPED \<or> ch_status c = BUFFERED"
    "ch_status c = MMAPPED \<longrightarrow> mf_mappable k (ch_index c)" "ch_data c = Some d" "length d = ch_size c"
  shows "\<exists>k'. mf_save k c = Some (k', (ch_clear c)\<lparr>ch_status := ON_DISK\<rparr>) \<and> mf_ok k' \<and> mf_fits k' = mf_fits k \<and>
    mf_mappable k' = mf_mappable k \<and> mf_stored k' (ch_index c) = Some d \<and>
    (\<forall>j x. j \<noteq> ch_index c \<longrightarrow> mf_stored k j = Some x \<longrightarrow> mf_stored k' j = Some x)"
proof -
  let ?i = "ch_index c" let ?l = "mf_tfl k ?i" let ?cs = "mf_chunk_size k"
  have f: "?i < mf_num k" "?i * ?cs < total_size (mf_tor k)" "ch_size c = chunk_len ?cs ?i (mf_tor k)"
    using assms(2) by (simp_all add: mf_fits_def)
  have sh: "placed ?cs 0 (mf_tor k)" "0 < ?cs" using assms(1) by (simp_all add: mf_ok_def mf_shape_def)
  obtain D where D: "\<forall>j < length (mf_tor k). length (D j) = tf_size (mf_tor k ! j)" "chunk_data ?cs ?i (mf_tor k) D = d"
    using any_chunk_data [OF sh(1) f(2), of d] assms(6) f(3) by auto
  have cd: "concat (map (piece_of ?cs ?i (mf_tor k) D) ?l) = d"
    using chunk_data_pieces [OF sh mf_covers [OF mf_ok_shape [OF assms(1)] f(1)] D(1)] D(2) by simp
  let ?k = "mf_written k ?i D ?l"
  have sv: "mf_save k c = Some (?k, (ch_clear c)\<lparr>ch_status := ON_DISK\<rparr>)"
  proof (cases "ch_status c = MMAPPED")
    case False
    have "mf_written k ?i D [] = k" by (simp add: mf_written_def)
    then have "mf_save_loop ?i d (length ?l) 0 ?l (k, 0) = Some (?k, ch_size c)"
      using mf_save_loop_writes [OF assms(1,2,6) D(1) cd, of 0] by simp
    then show ?thesis using False assms(5,6) by (simp add: mf_save_def mf_save_buffered_def mf_tflist_eq Let_def)
  next
    case True
    then have one: "length ?l = 1" using assms(4) by (simp add: mf_mappable_def)
    obtain j fd where j: "?l = [j]" "mf_files k j = Some fd" "\<not> cf_read_only fd"
      "tf_fileOffset (mf_tor k ! j) ?i ?cs = mf_at k ?i j" using mapped_place [OF assms(1,2) one] by blast
    have p: "piece_of ?cs ?i (mf_tor k) D j = d" using cd j(1) by simp
    have "mf_put_file j (cf_put d (mf_at k ?i j) fd) k = ?k"
      using j(1,2) p by (auto simp: mf_put_file_def mf_written_def fun_eq_iff)
    then show ?thesis
      using True j assms(5) by (simp add: mf_save_def mf_save_mapped_def mf_tflist_eq cf_unmap_def)
  qed
  note w = written_stored [OF assms(1,2) D(1) cd]
  show ?thesis using sv w(1-3) same_tor_eqs [OF mf_written_same [of k ?i D ?l]] by blast
qed

interpretation mfc: chunk_cache mf_ops mf_stored mf_fits mf_mappable mf_ok
proof
  show "length d = n" if "mf_ok k" "mf_fits k c n" "mf_stored k c = Some d" for k c n d
  proof -
    have "\<forall>j \<in> set (mf_tfl k c). length (piece_of (mf_chunk_size k) c (mf_tor k) (mf_data k) j) = mf_cut k c j"
      and d: "d = concat (map (piece_of (mf_chunk_size k) c (mf_tor k) (mf_data k)) (mf_tfl k c))"
      using that(3) by (auto simp: mf_stored_def piece_of_def mf_cut_def mf_at_def split: if_splits)
    then have m: "map length (map (piece_of (mf_chunk_size k) c (mf_tor k) (mf_data k)) (mf_tfl k c)) = map (mf_cut k c) (mf_tfl k c)"
      by simp
    show ?thesis unfolding d length_concat m using mf_sum(1) [OF mf_ok_shape [OF that(1)] that(2)] by simp
  qed
qed (use mf_save_law mf_load_law mf_prep_law in \<open>simp_all add: mf_ops_def\<close>)

text \<open>Claim C7: what is saved in the cache of a torrent with several files comes back. A chunk in memory
  can be saved, in one file or spread over many, with empty files in between; other chunks can be
  saved after it in any order, also those that share files with it, and loading it brings back
  exactly its data, whether or not the operating system grants the mappings.\<close>

theorem multi_cache_round_trip:
  assumes "mf_ok k" "mf_fits k (ch_index c) (ch_size c)" "in_memory c d" "ch_status c = MMAPPED \<longrightarrow> mf_mappable k (ch_index c)"
    and "\<forall>e \<in> set cs. mf_fits k (ch_index e) (ch_size e) \<and> ch_index e \<noteq> ch_index c \<and> (\<exists>x. in_memory e x) \<and>
      (ch_status e = MMAPPED \<longrightarrow> mf_mappable k (ch_index e))"
  shows "\<exists>k1 c1 k2 k3 st. mf_save k c = Some (k1, c1) \<and> ch_data c1 = None \<and> save_all mf_ops k1 cs = Some k2 \<and>
    mf_load k2 c1 = Some (k3, c1\<lparr>ch_status := st, ch_data := Some d\<rparr>) \<and> (st = MMAPPED \<or> st = BUFFERED)"
  using mfc.save_others_load [OF assms] by (simp add: mf_ops_def)

text \<open>Two files laid one behind the other in a torrent of one or two chunks of four bytes.\<close>

definition small_file :: "nat \<Rightarrow> nat \<Rightarrow> nat \<Rightarrow> torrent_file" where
  "small_file i off sz = the (TorrentFile_new i False off sz 4)"

definition small_cache :: "nat \<Rightarrow> bytes \<Rightarrow> nat \<Rightarrow> bytes \<Rightarrow> (nat \<Rightarrow> bytes) \<Rightarrow> multi_file_cache" where
  "small_cache m a n b fresh =
     \<lparr>mf_tor = [small_file 0 0 m, small_file 1 m n], mf_num = (m + n + 3) div 4, mf_chunk_size = 4, mf_length = m + n,
      mf_files = [0 \<mapsto> \<lparr>cf_read_only = False, cf_max = m, cf_data = a, cf_mmap = []\<rparr>,
                  1 \<mapsto> \<lparr>cf_read_only = False, cf_max = n, cf_data = b, cf_mmap = []\<rparr>],
      mf_dnd = Map.empty, mf_failures = 0, mf_fresh = fresh, mf_mmap = [], mf_mapped = True\<rparr>"

lemma small_cache_ok:
  "\<forall>i. length (fresh i) = i \<Longrightarrow> mf_ok (small_cache 3 [] 4 [] fresh)"
  by (simp add: mf_ok_def mf_shape_def small_cache_def small_file_def TorrentFile_new_def Let_def less_Suc_eq)

theorem multi_cache_round_trip_witness:
  "\<exists>k1 c1 k2 k3 st. mf_save (small_cache 3 [] 4 [] (\<lambda>i. replicate i 0)) (buffered 0 [1, 2, 3, 4]) = Some (k1, c1) \<and>
    save_all mf_ops k1 [buffered 1 [5, 6, 7]] = Some k2 \<and>
    mf_load k2 c1 = Some (k3, c1\<lparr>ch_status := st, ch_data := Some [1, 2, 3, 4]\<rparr>)"
proof -
  let ?k = "small_cache 3 [] 4 [] (\<lambda>i. replicate i 0)"
  have ok: "mf_ok ?k" by (rule small_cache_ok) simp
  have f: "mf_fits ?k 0 4" "mf_fits ?k 1 3"
    by (simp_all add: mf_fits_def small_cache_def small_file_def TorrentFile_new_def Let_def total_size_def chunk_len_def)
  have c: "ch_index (buffered i d) = i" "ch_size (buffered i d) = length d" "ch_status (buffered i d) = BUFFERED"
    "in_memory (buffered i d) d" for i d
    by (simp_all add: buffered_def in_memory_def Chunk_new_def)
  have p: "mf_fits ?k (ch_index (buffered 0 [1, 2, 3, 4])) (ch_size (buffered 0 [1, 2, 3, 4]))"
    "in_memory (buffered 0 [1, 2, 3, 4]) [1, 2, 3, 4]"
    "ch_status (buffered 0 [1, 2, 3, 4]) = MMAPPED \<longrightarrow> mf_mappable ?k (ch_index (buffered 0 [1, 2, 3, 4]))"
    "\<forall>e \<in> set [buffered 1 [5, 6, 7]]. mf_fits ?k (ch_index e) (ch_size e) \<and> ch_index e \<noteq> ch_index (buffered 0 [1, 2, 3, 4]) \<and>
      (\<exists>x. in_memory e x) \<and> (ch_status e = MMAPPED \<longrightarrow> mf_mappable ?k (ch_index e))"
  proof -
    show "in_memory (buffered 0 [1, 2, 3, 4]) [1, 2, 3, 4]" by (rule c(4))
    have "\<exists>x. in_memory (buffered 1 [5, 6, 7]) x" using c(4) by blast
    then show "\<forall>e \<in> set [buffered 1 [5, 6, 7]]. mf_fits ?k (ch_index e) (ch_size e) \<and> ch_index e \<noteq> ch_index (buffered 0 [1, 2, 3, 4]) \<and>
      (\<exists>x. in_memory e x) \<and> (ch_status e = MMAPPED \<longrightarrow> mf_mappable ?k (ch_index e))"
      using f(2) by (simp add: c(1-3) eval_nat_numeral)
  qed (use f(1) in \<open>simp_all add: c(1-3) eval_nat_numeral\<close>)
  from multi_cache_round_trip [OF ok p] show ?thesis by blast
qed



end
