(* ===== verification/MetaInfo.thy ===== *)
theory MetaInfo
  imports Bencode TorrentFiles Sha1
begin

text \<open>
  The metadata of a torrent: \<^verbatim>\<open>libktorrent/torrent/torrent.cpp\<close>, which reads a \<^verbatim>\<open>.torrent\<close> file
  into the object that all other parts work with. Strings of the toolkit are lists of 16-bit
  characters. What the toolkit does with text (codecs, white space, the type of a file by its
  name) is a parameter, the record \<open>meta_env\<close>; so is the memory that a 64-bit \<^verbatim>\<open>Value\<close> leaves
  uninitialised and the hash generator on the stack. A \<^verbatim>\<open>KURL\<close> is the string it is made of.

  The result is \<open>None\<close> where the code divides by zero or reads memory that is not its own, the
  left of a sum where it throws.
\<close>

type_synonym qstring = "u16 list"

record meta_env =
  me_nf :: tq_numbers
  me_plain :: "bytes \<Rightarrow> qstring"
  me_codec :: "qstring \<Rightarrow> (bytes \<Rightarrow> qstring) option"
  me_strip :: "qstring \<Rightarrow> qstring"
  me_multimedia :: "qstring \<Rightarrow> bool"
  me_junk :: int
  me_gen :: sha1

section \<open>The torrent\<close>

text \<open>The list of tiers of tracker URLs, the files with their paths.\<close>

record torrent =
  t_trackers :: "qstring list list option"
  t_name :: qstring
  t_piece_length :: nat
  t_file_length :: nat
  t_info_hash :: bytes
  t_hashes :: "bytes list"
  t_files :: "(qstring \<times> torrent_file) list"
  t_nodes :: "(qstring \<times> u16) list"
  t_encoding :: qstring
  t_private :: bool

definition str_utf8 :: qstring where "str_utf8 = [117, 116, 102, 56]"

definition Torrent_new :: torrent where
  "Torrent_new = \<lparr>t_trackers = None, t_name = [], t_piece_length = 0, t_file_length = 0, t_info_hash = replicate 20 0,
     t_hashes = [], t_files = [], t_nodes = [], t_encoding = str_utf8, t_private = False\<rparr>"

datatype meta_error = Corrupted | NoAnnounce | ParseError | BadData berror

type_synonym 'a meta_result = "(meta_error, 'a) outcome"

section \<open>Values\<close>

fun val_bytes :: "bvalue \<Rightarrow> bytes" where
  "val_bytes (VString s) = s"
| "val_bytes _ = []"

fun val_ival :: "meta_env \<Rightarrow> bvalue \<Rightarrow> int" where
  "val_ival env (VInt v) = v"
| "val_ival env (VInt64 v) = me_junk env"
| "val_ival env (VString s) = 0"

text \<open>\<^verbatim>\<open>Value::toString()\<close> and \<^verbatim>\<open>Value::toString(encoding)\<close>.\<close>

definition val_string :: "meta_env \<Rightarrow> bvalue \<Rightarrow> qstring" where
  "val_string env v = me_plain env (val_bytes v)"

definition val_string_enc :: "meta_env \<Rightarrow> qstring \<Rightarrow> bvalue \<Rightarrow> qstring" where
  "val_string_enc env cdc v =
     (if cdc = [] then val_string env v
      else case me_codec env cdc of None \<Rightarrow> val_string env v | Some f \<Rightarrow> f (val_bytes v))"

text \<open>A length, as \<^verbatim>\<open>Uint64\<close>.\<close>

fun val_length :: "bvalue \<Rightarrow> nat meta_result" where
  "val_length (VInt v) = returns (nat (v mod 2 ^ 64))"
| "val_length (VInt64 v) = returns (nat (v mod 2 ^ 64))"
| "val_length (VString s) = throws Corrupted"

section \<open>Paths\<close>

text \<open>\<^verbatim>\<open>bt::DirSeparator()\<close>, and \<^verbatim>\<open>TQStringList::split\<close>, which drops empty parts.\<close>

definition dir_sep :: u16 where "dir_sep = 47"

fun split_parts :: "qstring \<Rightarrow> qstring \<Rightarrow> qstring list" where
  "split_parts cur [] = (if cur = [] then [] else [cur])"
| "split_parts cur (c # cs) =
     (if c = dir_sep then (if cur = [] then [] else [cur]) @ split_parts [] cs else split_parts (cur @ [c]) cs)"

definition path_parts :: "qstring \<Rightarrow> qstring list" where
  "path_parts p = split_parts [] p"

definition dotdot :: qstring where "dotdot = [46, 46]"

definition checkPathForDirectoryTraversal :: "qstring \<Rightarrow> bool" where
  "checkPathForDirectoryTraversal p \<longleftrightarrow> dotdot \<notin> set (path_parts p)"

definition ends_with_sep :: "qstring \<Rightarrow> bool" where
  "ends_with_sep p \<longleftrightarrow> p \<noteq> [] \<and> List.last p = dir_sep"

section \<open>Loading\<close>

text \<open>Keys of the dictionaries.\<close>

definition key_encoding :: bytes where "key_encoding = [101, 110, 99, 111, 100, 105, 110, 103]"
definition key_announce :: bytes where "key_announce = [97, 110, 110, 111, 117, 110, 99, 101]"
definition key_nodes :: bytes where "key_nodes = [110, 111, 100, 101, 115]"
definition key_info :: bytes where "key_info = [105, 110, 102, 111]"
definition key_announce_list :: bytes where
  "key_announce_list = [97, 110, 110, 111, 117, 110, 99, 101, 45, 108, 105, 115, 116]"
definition key_piece_length :: bytes where
  "key_piece_length = [112, 105, 101, 99, 101, 32, 108, 101, 110, 103, 116, 104]"
definition key_length :: bytes where "key_length = [108, 101, 110, 103, 116, 104]"
definition key_files :: bytes where "key_files = [102, 105, 108, 101, 115]"
definition key_path :: bytes where "key_path = [112, 97, 116, 104]"
definition key_pieces :: bytes where "key_pieces = [112, 105, 101, 99, 101, 115]"
definition key_name :: bytes where "key_name = [110, 97, 109, 101]"
definition key_private :: bytes where "key_private = [112, 114, 105, 118, 97, 116, 101]"

lemmas keys = key_encoding_def key_announce_def key_nodes_def key_info_def key_announce_list_def key_piece_length_def
  key_length_def key_files_def key_path_def key_pieces_def key_name_def key_private_def

text \<open>\<^verbatim>\<open>loadTrackerURL\<close>: the first tier is made if there is none.\<close>

definition first_tier :: "torrent \<Rightarrow> qstring list list" where
  "first_tier t = (case t_trackers t of None \<Rightarrow> [[]] | Some ts \<Rightarrow> ts)"

definition loadTrackerURL :: "meta_env \<Rightarrow> bvalue \<Rightarrow> torrent \<Rightarrow> torrent meta_result" where
  "loadTrackerURL env v t =
     (case v of VString s \<Rightarrow>
        let tiers = first_tier t; url = me_strip env (val_string_enc env (t_encoding t) v)
        in returns (t\<lparr>t_trackers := Some (tiers[0 := hd tiers @ [url]])\<rparr>)
      | _ \<Rightarrow> throws Corrupted)"

fun loadNodes :: "meta_env \<Rightarrow> bnode option list \<Rightarrow> torrent \<Rightarrow> torrent meta_result" where
  "loadNodes env [] t = returns t"
| "loadNodes env (n # ns) t =
     (case as_list n of
        Some [ip, port] \<Rightarrow>
          (case (as_value ip, as_value port) of
             (Some (VString s), Some (VInt p)) \<Rightarrow>
               loadNodes env ns (t\<lparr>t_nodes := t_nodes t @ [(val_string env (VString s), of_int p)]\<rparr>)
           | _ \<Rightarrow> throws Corrupted)
      | _ \<Rightarrow> throws Corrupted)"

text \<open>The path of a file: its parts joined with separators.\<close>

fun load_path :: "meta_env \<Rightarrow> qstring \<Rightarrow> bnode option list \<Rightarrow> qstring \<Rightarrow> qstring meta_result" where
  "load_path env cdc [] path = returns path"
| "load_path env cdc (c # cs) path =
     (case as_value c of
        Some (VString s) \<Rightarrow>
          load_path env cdc cs (path @ val_string_enc env cdc (VString s) @ (if cs \<noteq> [] then [dir_sep] else []))
      | _ \<Rightarrow> throws Corrupted)"

text \<open>A file of the list; a path that ends with a separator is an empty directory and is left out.\<close>

definition append_file :: "meta_env \<Rightarrow> qstring \<Rightarrow> nat \<Rightarrow> nat \<Rightarrow> torrent \<Rightarrow> torrent meta_result" where
  "append_file env path idx s t =
     (case TorrentFile_new idx (me_multimedia env path) (t_file_length t) s (t_piece_length t) of
        None \<Rightarrow> None
      | Some file \<Rightarrow> returns (t\<lparr>t_file_length := (t_file_length t + s) mod 2 ^ 64, t_files := t_files t @ [(path, file)]\<rparr>))"

fun loadFiles :: "meta_env \<Rightarrow> bnode option list \<Rightarrow> nat \<Rightarrow> torrent \<Rightarrow> torrent meta_result" where
  "loadFiles env [] idx t = returns t"
| "loadFiles env (n # ns) idx t =
     (case as_dict n of
        None \<Rightarrow> throws Corrupted
      | Some d \<Rightarrow>
          (case bd_getList key_path d of
             None \<Rightarrow> throws Corrupted
           | Some ln \<Rightarrow>
               and_then (load_path env (t_encoding t) ln []) (\<lambda>path.
                 if ends_with_sep path then loadFiles env ns idx t
                 else if \<not> checkPathForDirectoryTraversal path then throws Corrupted
                 else case bd_getValue key_length d of
                   None \<Rightarrow> throws Corrupted
                 | Some v \<Rightarrow> and_then (val_length v) (\<lambda>s.
                     and_then (append_file env path idx s t) (loadFiles env ns (idx + 1))))))"

definition loadPieceLength :: "bvalue option \<Rightarrow> torrent \<Rightarrow> torrent meta_result" where
  "loadPieceLength v t =
     (case v of None \<Rightarrow> throws Corrupted | Some v \<Rightarrow> and_then (val_length v) (\<lambda>n. returns (t\<lparr>t_piece_length := n\<rparr>)))"

definition loadFileLength :: "bvalue \<Rightarrow> torrent \<Rightarrow> torrent meta_result" where
  "loadFileLength v t = and_then (val_length v) (\<lambda>n. returns (t\<lparr>t_file_length := n\<rparr>))"

text \<open>Twenty bytes are copied for every hash, also when fewer are left.\<close>

function load_hashes :: "bytes \<Rightarrow> bytes list option" where
  "load_hashes s =
     (if s = [] then Some []
      else if length s < 20 then None
      else case load_hashes (drop 20 s) of None \<Rightarrow> None | Some hs \<Rightarrow> Some (take 20 s # hs))"
  by pat_completeness auto

termination load_hashes by (relation "measure length") auto

declare load_hashes.simps [simp del]

definition loadHash :: "bvalue option \<Rightarrow> torrent \<Rightarrow> torrent meta_result" where
  "loadHash v t =
     (case v of
        Some (VString s) \<Rightarrow>
          (case load_hashes s of None \<Rightarrow> None | Some hs \<Rightarrow> returns (t\<lparr>t_hashes := t_hashes t @ hs\<rparr>))
      | _ \<Rightarrow> throws Corrupted)"

definition loadName :: "meta_env \<Rightarrow> bvalue option \<Rightarrow> torrent \<Rightarrow> torrent meta_result" where
  "loadName env v t =
     (case v of Some (VString s) \<Rightarrow> returns (t\<lparr>t_name := val_string_enc env (t_encoding t) (VString s)\<rparr>)
      | _ \<Rightarrow> throws Corrupted)"

definition load_private :: "meta_env \<Rightarrow> bvalue option \<Rightarrow> torrent \<Rightarrow> torrent" where
  "load_private env v t =
     (case v of Some v \<Rightarrow> if val_ival env v = 1 then t\<lparr>t_private := True\<rparr> else t | None \<Rightarrow> t)"

definition expected_chunks :: "torrent \<Rightarrow> nat" where
  "expected_chunks t =
     (let n = (t_file_length t div t_piece_length t) mod 2 ^ 32
      in if t_file_length t mod t_piece_length t > 0 then (n + 1) mod 2 ^ 32 else n)"

definition check_chunks :: "torrent \<Rightarrow> torrent meta_result" where
  "check_chunks t =
     (if t_piece_length t = 0 then None
      else if expected_chunks t \<noteq> length (t_hashes t) then throws Corrupted else returns t)"

definition load_lengths :: "meta_env \<Rightarrow> (bytes \<times> bnode option) list \<Rightarrow> torrent \<Rightarrow> torrent meta_result" where
  "load_lengths env dict t =
     (case bd_getValue key_length dict of
        Some v \<Rightarrow> loadFileLength v t
      | None \<Rightarrow> (case bd_getList key_files dict of None \<Rightarrow> throws Corrupted | Some fl \<Rightarrow> loadFiles env fl 0 t))"

definition loadInfo :: "meta_env \<Rightarrow> (bytes \<times> bnode option) list option \<Rightarrow> torrent \<Rightarrow> torrent meta_result" where
  "loadInfo env d t =
     (case d of
        None \<Rightarrow> throws Corrupted
      | Some dict \<Rightarrow>
          and_then (loadPieceLength (bd_getValue key_piece_length dict) t) (\<lambda>t.
          and_then (load_lengths env dict t) (\<lambda>t.
          and_then (loadHash (bd_getValue key_pieces dict) t) (\<lambda>t.
          and_then (loadName env (bd_getValue key_name dict) t) (\<lambda>t.
          check_chunks (load_private env (bd_getValue key_private dict) t))))))"

text \<open>The lists of the announce list; every one is followed by a new tier.\<close>

fun load_urls :: "meta_env \<Rightarrow> bnode option list \<Rightarrow> (qstring list) meta_result" where
  "load_urls env [] = returns []"
| "load_urls env (n # ns) =
     (case as_value n of
        None \<Rightarrow> throws ParseError
      | Some v \<Rightarrow> and_then (load_urls env ns) (\<lambda>us. returns (me_strip env (val_string env v) # us)))"

fun load_tiers :: "meta_env \<Rightarrow> bnode option list \<Rightarrow> qstring list \<Rightarrow> (qstring list list) meta_result" where
  "load_tiers env [] tier = returns [tier]"
| "load_tiers env (n # ns) tier =
     (case as_list n of
        None \<Rightarrow> throws ParseError
      | Some l \<Rightarrow> and_then (load_urls env l) (\<lambda>us.
          and_then (load_tiers env ns []) (\<lambda>ts. returns ((tier @ us) # ts))))"

definition loadAnnounceList :: "meta_env \<Rightarrow> bnode option \<Rightarrow> torrent \<Rightarrow> torrent meta_result" where
  "loadAnnounceList env n t =
     (case as_list n of
        None \<Rightarrow> returns t
      | Some ml \<Rightarrow>
          let tiers = first_tier t
          in and_then (load_tiers env ml (hd tiers)) (\<lambda>ts. returns (t\<lparr>t_trackers := Some (ts @ tl tiers)\<rparr>)))"

text \<open>The hash of the info dictionary as it stands in the data.\<close>

definition load_info_hash :: "meta_env \<Rightarrow> bytes \<Rightarrow> bnode option \<Rightarrow> torrent \<Rightarrow> torrent meta_result" where
  "load_info_hash env data n t =
     (case n of
        None \<Rightarrow> None
      | Some n \<Rightarrow>
          if bn_offset n + bn_length n > length data then None
          else returns (t\<lparr>t_info_hash := snd (sha_generate (me_gen env) (take (bn_length n) (drop (bn_offset n) data)))\<rparr>))"

definition load_trackers :: "meta_env \<Rightarrow> (bytes \<times> bnode option) list \<Rightarrow> torrent \<Rightarrow> torrent meta_result" where
  "load_trackers env dict t =
     (case (bd_getValue key_announce dict, bd_getList key_nodes dict) of
        (None, None) \<Rightarrow> throws NoAnnounce
      | (announce, nodes) \<Rightarrow>
          and_then (case announce of None \<Rightarrow> returns t | Some v \<Rightarrow> loadTrackerURL env v t) (\<lambda>t.
            case nodes of None \<Rightarrow> returns t | Some ns \<Rightarrow> loadNodes env ns t))"

definition load_dict :: "meta_env \<Rightarrow> bytes \<Rightarrow> (bytes \<times> bnode option) list \<Rightarrow> torrent \<Rightarrow> torrent meta_result" where
  "load_dict env data dict t =
     (let t = (case bd_getValue key_encoding dict of Some v \<Rightarrow> t\<lparr>t_encoding := val_string env v\<rparr> | None \<Rightarrow> t)
      in and_then (load_trackers env dict t) (\<lambda>t.
         and_then (loadInfo env (bd_getDict key_info dict) t) (\<lambda>t.
         and_then (loadAnnounceList env (bd_getData key_announce_list dict) t) (\<lambda>t.
         load_info_hash env data (bd_getData key_info dict) t))))"

definition torrent_load :: "meta_env \<Rightarrow> bytes \<Rightarrow> torrent \<Rightarrow> torrent meta_result" where
  "torrent_load env data t =
     (case bdecode_all (me_nf env) data 0 of
        Inl e \<Rightarrow> throws (BadData e)
      | Inr (node, _) \<Rightarrow> (case as_dict node of None \<Rightarrow> throws Corrupted | Some dict \<Rightarrow> load_dict env data dict t))"

section \<open>Reading a torrent\<close>

definition t_verifyHash :: "bytes \<Rightarrow> nat \<Rightarrow> torrent \<Rightarrow> bool" where
  "t_verifyHash h i t \<longleftrightarrow> i < length (t_hashes t) \<and> t_hashes t ! i = h"

definition t_getHash :: "nat \<Rightarrow> torrent \<Rightarrow> bytes option" where
  "t_getHash i t = (if i \<ge> length (t_hashes t) then None else Some (t_hashes t ! i))"

definition getNumTrackerURLs :: "torrent \<Rightarrow> nat" where
  "getNumTrackerURLs t = (case t_trackers t of None \<Rightarrow> 0 | Some ts \<Rightarrow> sum_list (map length ts))"

definition t_getFile :: "nat \<Rightarrow> torrent \<Rightarrow> (qstring \<times> torrent_file) option" where
  "t_getFile i t = (if i \<ge> length (t_files t) then None else Some (t_files t ! i))"

definition t_calcChunkPos :: "nat \<Rightarrow> torrent \<Rightarrow> nat list" where
  "t_calcChunkPos c t = calcChunkPos (length (t_hashes t)) (map snd (t_files t)) c"

end
