(* ===== verification/DataCheck.thy ===== *)
theory DataCheck
  imports MetaInfo Portions DndFile BitSets
begin

text \<open>
  Checking the data on disk against the hashes of a torrent:
  \<^verbatim>\<open>libktorrent/datachecker/singledatachecker.cpp\<close> and \<^verbatim>\<open>multidatachecker.cpp\<close>. The listener, which can stop the
  check, is a function that tells after which chunk it does; its progress reports are left out.
  A thrown \<^verbatim>\<open>Error\<close> and writing past the buffer are \<open>None\<close>. The file system is a function from
  paths to contents, for the files and for the DND files.
\<close>

record checked =
  dc_downloaded :: bitset
  dc_failed :: bitset

definition checked_new :: "nat \<Rightarrow> checked" where
  "checked_new n = \<lparr>dc_downloaded = BitSet_new n, dc_failed = BitSet_new n\<rparr>"

definition checked_set :: "nat \<Rightarrow> bool \<Rightarrow> checked \<Rightarrow> checked" where
  "checked_set i good r = \<lparr>dc_downloaded = bs_set (dc_downloaded r) i good, dc_failed = bs_set (dc_failed r) i (\<not> good)\<rparr>"

definition check_hash :: "sha1 \<Rightarrow> bytes \<Rightarrow> nat \<Rightarrow> torrent \<Rightarrow> bool option" where
  "check_hash g d i t = (case t_getHash i t of None \<Rightarrow> None | Some h \<Rightarrow> Some (snd (sha_generate g d) = h))"

text \<open>\<^verbatim>\<open>fptr.read(buf + at,n)\<close> at a position of the file: the buffer and the number of bytes read.\<close>

definition check_read :: "bytes \<Rightarrow> nat \<Rightarrow> bytes \<Rightarrow> nat \<Rightarrow> nat \<Rightarrow> (bytes \<times> nat) option" where
  "check_read buf at content pos n =
     (let d = take n (drop pos content)
      in if at + length d > length buf then None else Some (memcpy buf at d (length d), length d))"

section \<open>One file\<close>

definition single_chunk_size :: "torrent \<Rightarrow> nat \<Rightarrow> nat" where
  "single_chunk_size t i =
     (if i = length (t_hashes t) - 1 \<and> t_file_length t mod t_piece_length t > 0
      then t_file_length t mod t_piece_length t else t_piece_length t) mod 2 ^ 32"

text \<open>The buffer is not cleared between chunks, and the end of the file is only noticed by the read
  after it.\<close>

fun single_loop :: "sha1 \<Rightarrow> (nat \<Rightarrow> bool) \<Rightarrow> bytes \<Rightarrow> torrent \<Rightarrow> nat list \<Rightarrow> bytes \<Rightarrow> bool \<Rightarrow> checked \<Rightarrow> checked option" where
  "single_loop g stop content t [] buf eof r = Some r"
| "single_loop g stop content t (i # is) buf eof r =
     (if stop i then Some r
      else if eof then single_loop g stop content t is buf eof (checked_set i False r)
      else let n = single_chunk_size t i
           in case check_read buf 0 content (i * t_piece_length t) n of
                None \<Rightarrow> None
              | Some (buf, ret) \<Rightarrow>
                  (case check_hash g (take n buf) i t of
                     None \<Rightarrow> None
                   | Some good \<Rightarrow> single_loop g stop content t is buf (ret < n) (checked_set i good r)))"

definition single_check :: "sha1 \<Rightarrow> (nat \<Rightarrow> bytes) \<Rightarrow> (nat \<Rightarrow> bool) \<Rightarrow> bytes option \<Rightarrow> torrent \<Rightarrow> checked option" where
  "single_check g fresh stop content t =
     (case content of
        None \<Rightarrow> None
      | Some d \<Rightarrow> single_loop g stop d t [0..<length (t_hashes t)] (fresh (t_piece_length t mod 2 ^ 32)) False
                   (checked_new (length (t_hashes t))))"

section \<open>Several files\<close>

record check_disk =
  cd_file :: "qstring \<Rightarrow> bytes option"
  cd_dnd :: "qstring \<Rightarrow> dnd_file option"

text \<open>\<^verbatim>\<open>ReadFullChunk\<close>: a file that cannot be opened leaves the buffer as it is.\<close>

definition ReadFullChunk :: "check_disk \<Rightarrow> nat \<Rightarrow> nat \<Rightarrow> qstring \<times> torrent_file \<Rightarrow> torrent \<Rightarrow> bytes \<Rightarrow> (bytes \<times> nat) option" where
  "ReadFullChunk disk c cs pf t buf =
     (case cd_file disk (fst pf) of
        None \<Rightarrow> Some (buf, 0)
      | Some d \<Rightarrow> check_read buf 0 d (tf_fileOffset (snd pf) c (t_piece_length t)) cs)"

text \<open>The loop of \<^verbatim>\<open>loadChunk\<close> over the files; the result is the return value and the buffer.\<close>

definition load_dnd_part :: "check_disk \<Rightarrow> qstring \<Rightarrow> nat \<Rightarrow> nat \<Rightarrow> nat \<Rightarrow> bytes \<Rightarrow> bytes option" where
  "load_dnd_part disk p i done cs buf =
     (case cd_dnd disk p of
        None \<Rightarrow> Some buf
      | Some f \<Rightarrow> map_option (\<lambda>(f, buf, ret). buf)
          (if i = 0 then readLastChunk (Some f) buf done cs else readFirstChunk (Some f) buf done cs))"

fun load_parts :: "check_disk \<Rightarrow> torrent \<Rightarrow> nat \<Rightarrow> nat \<Rightarrow> nat \<Rightarrow> nat \<Rightarrow> nat list \<Rightarrow> bytes \<Rightarrow> nat \<Rightarrow> (bool \<times> bytes) option" where
  "load_parts disk t c cs n i [] buf done = Some (True, buf)"
| "load_parts disk t c cs n i (j # js) buf done =
     (let pf = t_files t ! j;
          off = portion_off i (snd pf) c (t_piece_length t);
          to_read = portion i n (snd pf) cs done
      in if tf_doNotDownload (snd pf) then
           (case load_dnd_part disk (fst pf) i done cs buf of
              None \<Rightarrow> None
            | Some buf \<Rightarrow> load_parts disk t c cs n (i + 1) js buf (done + to_read))
         else (case cd_file disk (fst pf) of
              None \<Rightarrow> Some (False, buf)
            | Some d \<Rightarrow>
                if length d < off then Some (False, buf)
                else (case check_read buf done d off to_read of
                   None \<Rightarrow> None
                 | Some (buf, ret) \<Rightarrow> load_parts disk t c cs n (i + 1) js buf (done + to_read))))"

definition check_loadChunk :: "check_disk \<Rightarrow> nat \<Rightarrow> nat \<Rightarrow> torrent \<Rightarrow> bytes \<Rightarrow> (bool \<times> bytes) option" where
  "check_loadChunk disk c cs t buf =
     (let l = t_calcChunkPos c t
      in if length l = 1 then
           let pf = t_files t ! hd l
           in if \<not> tf_doNotDownload (snd pf)
              then map_option (\<lambda>(buf, ret). (True, buf)) (ReadFullChunk disk c cs pf t buf)
              else Some (False, buf)
         else load_parts disk t c cs (length l) 0 l buf 0)"

definition multi_chunk_size :: "torrent \<Rightarrow> nat \<Rightarrow> nat" where
  "multi_chunk_size t c =
     (let cs = (if c = length (t_hashes t) - 1 then t_file_length t mod t_piece_length t else t_piece_length t) mod 2 ^ 32
      in if cs = 0 then t_piece_length t mod 2 ^ 32 else cs)"

fun multi_loop :: "sha1 \<Rightarrow> (nat \<Rightarrow> bool) \<Rightarrow> check_disk \<Rightarrow> torrent \<Rightarrow> nat list \<Rightarrow> bytes \<Rightarrow> checked \<Rightarrow> checked option" where
  "multi_loop g stop disk t [] buf r = Some r"
| "multi_loop g stop disk t (c # cs) buf r =
     (let n = multi_chunk_size t c
      in case check_loadChunk disk c n t buf of
           None \<Rightarrow> None
         | Some (False, buf) \<Rightarrow> multi_loop g stop disk t cs buf (checked_set c False r)
         | Some (True, buf) \<Rightarrow>
             (case check_hash g (take n buf) c t of
                None \<Rightarrow> None
              | Some good \<Rightarrow>
                  let r = checked_set c good r
                  in if stop c then Some r else multi_loop g stop disk t cs buf r))"

definition multi_check :: "sha1 \<Rightarrow> (nat \<Rightarrow> bytes) \<Rightarrow> (nat \<Rightarrow> bool) \<Rightarrow> check_disk \<Rightarrow> torrent \<Rightarrow> checked option" where
  "multi_check g fresh stop disk t =
     multi_loop g stop disk t [0..<length (t_hashes t)] (fresh (t_piece_length t)) (checked_new (length (t_hashes t)))"

end
