(* ===== verification/Creator.thy ===== *)
theory Creator
  imports MetaInfo Portions
begin

text \<open>
  Making torrents: \<^verbatim>\<open>libktorrent/torrent/torrentcreator.cpp\<close>. The disk is a function from paths
  to contents and, when the target is a directory, the tree of names in it, without symbolic
  links; what newly allocated memory holds, the clock and the version are further parameters. The
  torrent that is written is given as the bytes of the file.
\<close>

section \<open>State\<close>

datatype dtree = DTree "qstring list" "(qstring \<times> dtree) list"

record creator_env =
  ce_nf :: tq_numbers
  ce_utf8 :: "qstring \<Rightarrow> bytes"
  ce_tree :: "dtree option"
  ce_file :: "qstring \<Rightarrow> bytes option"
  ce_fresh :: "nat \<Rightarrow> bytes"
  ce_multimedia :: "qstring \<Rightarrow> bool"
  ce_gen :: sha1
  ce_version :: qstring
  ce_time :: nat

record creator =
  tc_target :: qstring
  tc_trackers :: "qstring list"
  tc_chunk_size :: nat
  tc_name :: qstring
  tc_comments :: qstring
  tc_num_chunks :: nat
  tc_last_size :: nat
  tc_files :: "(qstring \<times> torrent_file) list"
  tc_hashes :: "bytes list"
  tc_cur :: nat
  tc_priv :: bool
  tc_tot :: nat
  tc_decentralized :: bool

datatype creator_error = CannotOpen qstring

type_synonym 'a creator_result = "(creator_error, 'a) outcome"

definition open_file :: "creator_env \<Rightarrow> qstring \<Rightarrow> bytes creator_result" where
  "open_file env p = (case ce_file env p of None \<Rightarrow> throws (CannotOpen p) | Some d \<Rightarrow> returns d)"

section \<open>Construction\<close>

text \<open>\<^verbatim>\<open>buildFileList\<close>: first the files of a directory, then its subdirectories. The index of a
  file starts again in every directory.\<close>

fun add_files :: "creator_env \<Rightarrow> qstring \<Rightarrow> nat \<Rightarrow> qstring list \<Rightarrow> creator \<Rightarrow> creator creator_result" where
  "add_files env dir cnt [] tc = returns tc"
| "add_files env dir cnt (n # ns) tc =
     and_then (open_file env (tc_target tc @ dir @ n)) (\<lambda>d.
       case TorrentFile_new cnt (ce_multimedia env (dir @ n)) (tc_tot tc) (length d) (tc_chunk_size tc) of
         None \<Rightarrow> None
       | Some f \<Rightarrow> add_files env dir (cnt + 1) ns
           (tc\<lparr>tc_files := tc_files tc @ [(dir @ n, f)], tc_tot := (tc_tot tc + length d) mod 2 ^ 64\<rparr>))"

definition subdir_path :: "qstring \<Rightarrow> qstring \<Rightarrow> qstring" where
  "subdir_path dir n = (if ends_with_sep (dir @ n) then dir @ n else dir @ n @ [dir_sep])"

fun buildFileList :: "creator_env \<Rightarrow> qstring \<Rightarrow> dtree \<Rightarrow> creator \<Rightarrow> creator creator_result"
  and build_subdirs :: "creator_env \<Rightarrow> qstring \<Rightarrow> (qstring \<times> dtree) list \<Rightarrow> creator \<Rightarrow> creator creator_result" where
  "buildFileList env dir (DTree fs ds) tc = and_then (add_files env dir 0 fs tc) (build_subdirs env dir ds)"
| "build_subdirs env dir [] tc = returns tc"
| "build_subdirs env dir ((n, t) # ds) tc =
     (if n = [46] \<or> n = dotdot then build_subdirs env dir ds tc
      else and_then (buildFileList env (subdir_path dir n) t tc) (build_subdirs env dir ds))"

definition creator_counts :: "creator \<Rightarrow> creator creator_result" where
  "creator_counts tc =
     (let cs = tc_chunk_size tc
      in if cs = 0 then None
         else let n = (tc_tot tc div cs) mod 2 ^ 32;
                  n = (if tc_tot tc mod cs > 0 then (n + 1) mod 2 ^ 32 else n);
                  l = tc_tot tc mod cs
              in returns (tc\<lparr>tc_num_chunks := n, tc_last_size := (if l = 0 then cs else l)\<rparr>))"

definition TorrentCreator_new ::
  "creator_env \<Rightarrow> qstring \<Rightarrow> qstring list \<Rightarrow> nat \<Rightarrow> qstring \<Rightarrow> qstring \<Rightarrow> bool \<Rightarrow> bool \<Rightarrow> creator creator_result" where
  "TorrentCreator_new env target trackers cs name comments priv decentralized =
     (let tc = \<lparr>tc_target = target, tc_trackers = trackers, tc_chunk_size = cs * 1024, tc_name = name,
          tc_comments = comments, tc_num_chunks = 0, tc_last_size = 0, tc_files = [], tc_hashes = [],
          tc_cur = 0, tc_priv = priv, tc_tot = 0, tc_decentralized = decentralized\<rparr>
      in case ce_tree env of
           Some t \<Rightarrow>
             and_then (buildFileList env [] t
               (if ends_with_sep target then tc else tc\<lparr>tc_target := target @ [dir_sep]\<rparr>)) creator_counts
         | None \<Rightarrow> and_then (open_file env target) (\<lambda>d. creator_counts (tc\<lparr>tc_tot := length d\<rparr>)))"

section \<open>Hashes\<close>

text \<open>\<^verbatim>\<open>File::seek\<close> and \<^verbatim>\<open>File::read\<close> into a buffer; writing past its end is \<open>None\<close>. What the file
  does not have is left as it was.\<close>

definition read_into :: "bytes \<Rightarrow> nat \<Rightarrow> bytes \<Rightarrow> nat \<Rightarrow> nat \<Rightarrow> bytes option" where
  "read_into buf at content pos n =
     (let d = take n (drop pos content)
      in if at + length d > length buf then None else Some (memcpy buf at d (length d)))"

definition creator_chunk_size :: "creator \<Rightarrow> nat" where
  "creator_chunk_size tc = (if int (tc_cur tc) \<noteq> int (tc_num_chunks tc) - 1 then tc_chunk_size tc else tc_last_size tc)"

definition add_hash :: "creator_env \<Rightarrow> bytes \<Rightarrow> creator \<Rightarrow> (creator \<times> bool) creator_result" where
  "add_hash env d tc =
     (let tc = tc\<lparr>tc_hashes := tc_hashes tc @ [snd (sha_generate (ce_gen env) d)], tc_cur := tc_cur tc + 1\<rparr>
      in returns (tc, tc_cur tc \<ge> tc_num_chunks tc))"

definition calcHashSingle :: "creator_env \<Rightarrow> creator \<Rightarrow> (creator \<times> bool) creator_result" where
  "calcHashSingle env tc =
     and_then (open_file env (tc_target tc)) (\<lambda>content.
       let s = creator_chunk_size tc
       in case read_into (ce_fresh env (tc_chunk_size tc)) 0 content (tc_cur tc * tc_chunk_size tc) s of
            None \<Rightarrow> None
          | Some buf \<Rightarrow> add_hash env (take s buf) tc)"

text \<open>The loop over the files of a chunk: \<open>i\<close> of \<open>n\<close> files are done, \<open>read\<close> bytes of \<open>s\<close>.\<close>

fun creator_read :: "creator_env \<Rightarrow> creator \<Rightarrow> nat \<Rightarrow> nat \<Rightarrow> nat \<Rightarrow> (qstring \<times> torrent_file) list \<Rightarrow> bytes \<Rightarrow> nat \<Rightarrow> bytes creator_result" where
  "creator_read env tc s n i [] buf read = returns buf"
| "creator_read env tc s n i ((p, f) # fs) buf read =
     and_then (open_file env (tc_target tc @ p)) (\<lambda>content.
       let to_read = portion i n f s read
       in case read_into buf read content (portion_off i f (tc_cur tc) (tc_chunk_size tc)) to_read of
            None \<Rightarrow> None
          | Some buf \<Rightarrow> creator_read env tc s n (i + 1) fs buf (read + to_read))"

definition creator_files :: "creator \<Rightarrow> (qstring \<times> torrent_file) list" where
  "creator_files tc = filter (\<lambda>(p, f). tc_cur tc \<ge> tf_first f \<and> tc_cur tc \<le> tf_last f) (tc_files tc)"

definition calcHashMulti :: "creator_env \<Rightarrow> creator \<Rightarrow> (creator \<times> bool) creator_result" where
  "calcHashMulti env tc =
     (let s = creator_chunk_size tc; fl = creator_files tc
      in and_then (creator_read env tc s (length fl) 0 fl (ce_fresh env s) 0) (\<lambda>buf. add_hash env buf tc))"

definition calculateHash :: "creator_env \<Rightarrow> creator \<Rightarrow> (creator \<times> bool) creator_result" where
  "calculateHash env tc =
     (if tc_cur tc \<ge> tc_num_chunks tc then returns (tc, True)
      else if tc_files tc = [] then calcHashSingle env tc
      else calcHashMulti env tc)"

text \<open>\<^verbatim>\<open>while (!calculateHash())\<close>, with one round of fuel for every chunk and one to see the end.\<close>

fun hash_loop :: "creator_env \<Rightarrow> nat \<Rightarrow> creator \<Rightarrow> creator creator_result" where
  "hash_loop env 0 tc = None"
| "hash_loop env (Suc k) tc =
     and_then (calculateHash env tc) (\<lambda>(tc, finished). if finished then returns tc else hash_loop env k tc)"

definition calculate_all :: "creator_env \<Rightarrow> creator \<Rightarrow> creator creator_result" where
  "calculate_all env tc = hash_loop env (tc_num_chunks tc + 1) tc"

section \<open>Writing the torrent\<close>

definition key_comments :: bytes where "key_comments = [99, 111, 109, 109, 101, 110, 116, 115]"
definition key_created_by :: bytes where "key_created_by = [99, 114, 101, 97, 116, 101, 100, 32, 98, 121]"
definition key_creation_date :: bytes where
  "key_creation_date = [99, 114, 101, 97, 116, 105, 111, 110, 32, 100, 97, 116, 101]"

definition saveFile :: "creator_env \<Rightarrow> qstring \<times> torrent_file \<Rightarrow> bterm" where
  "saveFile env pf = (case pf of (p, f) \<Rightarrow>
     TDict [(key_length, TInt (int (tf_size f))), (key_path, TList (map (\<lambda>s. TStr (ce_utf8 env s)) (path_parts p)))])"

definition savePieces :: "creator_env \<Rightarrow> creator \<Rightarrow> bytes creator_result" where
  "savePieces env tc =
     and_then (if tc_hashes tc = [] then calculate_all env tc else returns tc) (\<lambda>tc.
       if length (tc_hashes tc) < tc_num_chunks tc then None
       else returns (concat (take (tc_num_chunks tc) (tc_hashes tc))))"

definition info_term :: "creator_env \<Rightarrow> creator \<Rightarrow> nat \<Rightarrow> bytes \<Rightarrow> bterm" where
  "info_term env tc fsize pieces =
     TDict ((if ce_tree env \<noteq> None then [(key_files, TList (map (saveFile env) (tc_files tc)))]
             else [(key_length, TInt (int fsize))]) @
       [(key_name, TStr (ce_utf8 env (tc_name tc))), (key_piece_length, TInt (int (tc_chunk_size tc))),
        (key_pieces, TStr pieces)] @
       (if tc_priv tc then [(key_private, TInt 1)] else []))"

definition saveInfo :: "creator_env \<Rightarrow> creator \<Rightarrow> bterm creator_result" where
  "saveInfo env tc =
     and_then (if ce_tree env \<noteq> None then returns [] else open_file env (tc_target tc)) (\<lambda>d.
     and_then (savePieces env tc) (\<lambda>pieces. returns (info_term env tc (length d) pieces)))"

text \<open>The trackers of a decentralized torrent are nodes, written as address and port with a comma.\<close>

definition node_term :: "creator_env \<Rightarrow> qstring \<Rightarrow> bterm" where
  "node_term env t =
     TList [TStr (ce_utf8 env (takeWhile (\<lambda>c. c \<noteq> 44) t)),
       TInt (case tq_toInt (ce_nf env) (ce_utf8 env (takeWhile (\<lambda>c. c \<noteq> 44) (drop 1 (dropWhile (\<lambda>c. c \<noteq> 44) t)))) of
               None \<Rightarrow> 0 | Some v \<Rightarrow> v mod 2 ^ 32)]"

definition announce_terms :: "creator_env \<Rightarrow> creator \<Rightarrow> (bytes \<times> bterm) list creator_result" where
  "announce_terms env tc =
     (if tc_decentralized tc then returns []
      else case tc_trackers tc of
        [] \<Rightarrow> None
      | t # ts \<Rightarrow> returns ((key_announce, TStr (ce_utf8 env t)) #
          (if ts \<noteq> [] then [(key_announce_list, TList [TList (map (\<lambda>u. TStr (ce_utf8 env u)) (t # ts))])] else [])))"

definition torrent_term :: "creator_env \<Rightarrow> creator \<Rightarrow> (bytes \<times> bterm) list \<Rightarrow> bterm \<Rightarrow> bterm" where
  "torrent_term env tc announce info =
     TDict (announce @
       (if length (tc_comments tc) > 0 then [(key_comments, TStr (ce_utf8 env (tc_comments tc)))] else []) @
       [(key_created_by, TStr (ce_utf8 env (ce_version env))), (key_creation_date, TInt (int (ce_time env))),
        (key_info, info)] @
       (if tc_decentralized tc then [(key_nodes, TList (map (node_term env) (tc_trackers tc)))] else []))"

definition saveTorrent :: "creator_env \<Rightarrow> creator \<Rightarrow> bytes creator_result" where
  "saveTorrent env tc =
     and_then (announce_terms env tc) (\<lambda>announce.
     and_then (saveInfo env tc) (\<lambda>info.
     returns (bo_data (encode (ce_nf env) (torrent_term env tc announce info) (bo_new [])))))"

end
