(* ===== verification/CreatorProps.thy ===== *)
theory CreatorProps
  imports Creator
begin

text \<open>
  Correctness of making torrents: the files are laid out one behind the other, every hash is the
  hash of the bytes of its chunk, and a torrent that was written is read back as it was made.
\<close>

section \<open>Layout\<close>

lemma TorrentFile_new_placed:
  assumes "TorrentFile_new k mm off sz cs = Some f" "off + sz < 2 ^ 64" "(off + sz) div cs < 2 ^ 32"
  shows "0 < cs \<and> tf_size f = sz \<and> placed cs off [f] \<and> tf_index f = k"
proof -
  have cs: "0 < cs" using assms(1) by (simp add: TorrentFile_new_def split: if_splits)
  have le: "off div cs \<le> (off + sz) div cs" "(off + sz - 1) div cs \<le> (off + sz) div cs" by (simp_all add: div_le_mono)
  define l where "l = (if sz > 0 then (off + sz - 1) div cs else off div cs)"
  have "l < 2 ^ 32" "off div cs < 2 ^ 32" using le assms(3) unfolding l_def by (auto intro: le_less_trans)
  moreover have "off + sz - 1 < 2 ^ 64" using assms(2) by (rule le_less_trans [rotated]) simp
  ultimately have lm: "l mod 2 ^ 32 = l" "off div cs mod 2 ^ 32 = off div cs" "(off + sz - 1) mod 2 ^ 64 = off + sz - 1"
    by (simp_all only: mod_less)
  have "l * cs \<le> off + sz" unfolding l_def by (auto intro: order_trans [OF div_times_less_eq_dividend])
  then have "int (off + sz) - int (l * cs) = int (off + sz - l * cs)" by (rule of_nat_diff [symmetric])
  moreover have "int (off + sz - l * cs) mod 2 ^ 64 = int (off + sz - l * cs)"
    using assms(2) by (intro mod_pos_pos_trivial) simp_all
  ultimately have sz: "nat ((int (off + sz) - int (l * cs)) mod 2 ^ 64) = off + sz - l * cs" by simp
  have "f = \<lparr>tf_index = k, tf_size = sz, tf_off = off, tf_first = off div cs, tf_first_off = off mod cs, tf_last = l,
      tf_last_size = off + sz - l * cs, tf_priority = NORMAL_PRIORITY, tf_old = NORMAL_PRIORITY, tf_missing = False,
      tf_multimedia = mm, tf_emit = True, tf_num_downloaded = 0, tf_preview = False\<rparr>"
  proof -
    have "(if sz > 0 then (((off + sz - 1) mod 2 ^ 64) div cs) mod 2 ^ 32 else off div cs) = l"
      unfolding lm(3) using lm(1,2) by (cases "sz > 0") (simp_all only: l_def if_True if_False)
    then show ?thesis using assms(1) cs unfolding TorrentFile_new_def Let_def lm(2) by (auto simp only: sz split: if_splits)
  qed
  then show ?thesis using cs by (simp add: l_def)
qed

lemma placed_append: "placed cs off (fs @ gs) \<longleftrightarrow> placed cs off fs \<and> placed cs (off + total_size fs) gs"
  by (induction fs arbitrary: off) (simp_all add: total_size_def add.assoc)

lemma total_size_append: "total_size (fs @ gs) = total_size fs + total_size gs"
  by (simp add: total_size_def)

text \<open>What the list of files of a creator satisfies, unless sizes overflow.\<close>

definition sizes_ok :: "nat \<Rightarrow> torrent_file list \<Rightarrow> bool" where
  "sizes_ok cs fs \<longleftrightarrow> total_size fs < 2 ^ 63 \<and> total_size fs div cs < 2 ^ 32"

lemma sizes_ok_prefix: "sizes_ok cs (fs @ gs) \<Longrightarrow> sizes_ok cs fs"
proof -
  assume s: "sizes_ok cs (fs @ gs)"
  have "total_size fs div cs \<le> total_size (fs @ gs) div cs" by (simp add: div_le_mono total_size_append)
  then show ?thesis using s by (simp add: sizes_ok_def total_size_append)
qed

definition files_read :: "creator_env \<Rightarrow> creator \<Rightarrow> bool" where
  "files_read env tc \<longleftrightarrow>
     (\<forall>(p, f) \<in> set (tc_files tc). \<exists>d. ce_file env (tc_target tc @ p) = Some d \<and> length d = tf_size f) \<and>
     (sizes_ok (tc_chunk_size tc) (map snd (tc_files tc)) \<longrightarrow>
        placed (tc_chunk_size tc) 0 (map snd (tc_files tc)) \<and> tc_tot tc = total_size (map snd (tc_files tc)))"

definition more_files :: "creator \<Rightarrow> creator \<Rightarrow> bool" where
  "more_files tc tc' \<longleftrightarrow> tc_target tc' = tc_target tc \<and> tc_trackers tc' = tc_trackers tc \<and>
     tc_chunk_size tc' = tc_chunk_size tc \<and> tc_name tc' = tc_name tc \<and> tc_comments tc' = tc_comments tc \<and>
     tc_hashes tc' = tc_hashes tc \<and> tc_cur tc' = tc_cur tc \<and> tc_priv tc' = tc_priv tc \<and>
     tc_decentralized tc' = tc_decentralized tc"

lemma more_files_trans: "more_files a b \<Longrightarrow> more_files b c \<Longrightarrow> more_files a c"
  by (simp add: more_files_def)

lemma open_file_returns: "open_file env p = returns d \<longleftrightarrow> ce_file env p = Some d"
  by (simp add: open_file_def split: option.split)

lemma add_files_ok:
  "add_files env dir cnt ns tc = returns tc' \<Longrightarrow> files_read env tc \<Longrightarrow> files_read env tc' \<and> more_files tc tc'"
proof (induction ns arbitrary: cnt tc)
  case Nil
  then show ?case by (simp add: more_files_def)
next
  case (Cons n ns)
  from Cons.prems(1) obtain d f where d: "ce_file env (tc_target tc @ dir @ n) = Some d"
    and f: "TorrentFile_new cnt (ce_multimedia env (dir @ n)) (tc_tot tc) (length d) (tc_chunk_size tc) = Some f"
    and r: "add_files env dir (cnt + 1) ns
      (tc\<lparr>tc_files := tc_files tc @ [(dir @ n, f)], tc_tot := (tc_tot tc + length d) mod 2 ^ 64\<rparr>) = returns tc'"
    by (auto simp: and_then_returns open_file_returns split: option.splits)
  let ?tc = "tc\<lparr>tc_files := tc_files tc @ [(dir @ n, f)], tc_tot := (tc_tot tc + length d) mod 2 ^ 64\<rparr>"
  have sz: "tf_size f = length d" using f by (auto simp: TorrentFile_new_def Let_def split: if_splits)
  have "files_read env ?tc"
    unfolding files_read_def
  proof (intro conjI impI)
    show "\<forall>(p, f) \<in> set (tc_files ?tc). \<exists>d. ce_file env (tc_target ?tc @ p) = Some d \<and> length d = tf_size f"
      using Cons.prems(2) d sz by (auto simp: files_read_def)
    assume ok: "sizes_ok (tc_chunk_size ?tc) (map snd (tc_files ?tc))"
    then have s: "sizes_ok (tc_chunk_size tc) (map snd (tc_files tc))" using sizes_ok_prefix by fastforce
    have tot: "tc_tot tc = total_size (map snd (tc_files tc))" "placed (tc_chunk_size tc) 0 (map snd (tc_files tc))"
      using Cons.prems(2) s by (simp_all add: files_read_def)
    have sum: "total_size (map snd (tc_files ?tc)) = tc_tot tc + length d"
      using tot sz by (simp add: total_size_append total_size_def)
    then have b: "tc_tot tc + length d < 2 ^ 63" "(tc_tot tc + length d) div tc_chunk_size tc < 2 ^ 32"
      using ok by (simp_all add: sizes_ok_def)
    show "placed (tc_chunk_size ?tc) 0 (map snd (tc_files ?tc))"
      using TorrentFile_new_placed [OF f _ b(2)] b(1) tot by (simp add: placed_append)
    show "tc_tot ?tc = total_size (map snd (tc_files ?tc))" using b(1) unfolding sum by simp
  qed
  from Cons.IH [OF r this] show ?case
    using more_files_trans [of tc ?tc tc'] by (simp add: more_files_def)
qed

lemma build_ok:
  "buildFileList env dir t tc = returns tc' \<Longrightarrow> files_read env tc \<Longrightarrow> files_read env tc' \<and> more_files tc tc'"
  "build_subdirs env dir ds tc = returns tc' \<Longrightarrow> files_read env tc \<Longrightarrow> files_read env tc' \<and> more_files tc tc'"
proof (induction env dir t tc and env dir ds tc arbitrary: tc' and tc' rule: buildFileList_build_subdirs.induct)
  case (1 env dir fs ds tc)
  then show ?case using add_files_ok more_files_trans by (fastforce simp: and_then_returns)
next
  case (2 env dir tc)
  then show ?case by (simp add: more_files_def)
next
  case (3 env dir n t ds tc)
  show ?case
  proof (cases "n = [46] \<or> n = dotdot")
    case True
    then show ?thesis using "3.IH"(1) "3.prems" by simp
  next
    case False
    then obtain tc1 where "buildFileList env (subdir_path dir n) t tc = returns tc1" "build_subdirs env dir ds tc1 = returns tc'"
      using "3.prems"(1) by (auto simp: and_then_returns)
    then show ?thesis using "3.IH"(2,3) False "3.prems"(2) more_files_trans by blast
  qed
qed

text \<open>A creator after its construction: the number of chunks and the size of the last one.\<close>

definition creator_size :: "creator_env \<Rightarrow> creator \<Rightarrow> nat" where
  "creator_size env tc = (if ce_tree env \<noteq> None then total_size (map snd (tc_files tc))
     else length (the (ce_file env (tc_target tc))))"

definition creator_ok :: "creator_env \<Rightarrow> creator \<Rightarrow> bool" where
  "creator_ok env tc \<longleftrightarrow> 0 < tc_chunk_size tc \<and> (ce_tree env \<noteq> None \<longrightarrow> files_read env tc) \<and>
     (ce_tree env = None \<longrightarrow> tc_files tc = [] \<and> ce_file env (tc_target tc) \<noteq> None) \<and>
     tc_tot tc = creator_size env tc \<and>
     tc_num_chunks tc = (tc_tot tc + tc_chunk_size tc - 1) div tc_chunk_size tc \<and>
     tc_last_size tc = (if tc_tot tc mod tc_chunk_size tc = 0 then tc_chunk_size tc else tc_tot tc mod tc_chunk_size tc)"

lemma ceil_div:
  assumes "0 < (cs :: nat)"
  shows "(n + cs - 1) div cs = (if n mod cs > 0 then n div cs + 1 else n div cs)"
proof -
  have n: "n = n div cs * cs + n mod cs" "n mod cs < cs" using assms by simp_all
  show ?thesis
  proof (cases "n mod cs = 0")
    case True
    then have "n + cs - 1 = n div cs * cs + (cs - 1)" using n assms by simp
    then have "(n + cs - 1) div cs = n div cs + (cs - 1) div cs" using assms by (metis add.commute div_mult_self3 not_gr0)
    then show ?thesis using True assms by simp
  next
    case False
    have "a = b + r \<Longrightarrow> 0 < r \<Longrightarrow> a + cs - 1 = (b + cs) + (r - 1)" for a b r :: nat by simp
    from this [OF n(1)] have "n + cs - 1 = (n div cs + 1) * cs + (n mod cs - 1)" using False by (simp add: add_mult_distrib)
    then have "(n + cs - 1) div cs = n div cs + 1 + (n mod cs - 1) div cs" using assms by (metis add.commute div_mult_self3 not_gr0)
    then show ?thesis using False n(2) by simp
  qed
qed

lemma creator_counts_eq:
  assumes "creator_counts tc = returns tc'" "tc_tot tc div tc_chunk_size tc + 1 < 2 ^ 32"
  shows "0 < tc_chunk_size tc \<and> tc' = tc\<lparr>tc_num_chunks := (tc_tot tc + tc_chunk_size tc - 1) div tc_chunk_size tc,
    tc_last_size := (if tc_tot tc mod tc_chunk_size tc = 0 then tc_chunk_size tc else tc_tot tc mod tc_chunk_size tc)\<rparr>"
  using assms ceil_div [of "tc_chunk_size tc" "tc_tot tc"]
  by (auto simp: creator_counts_def Let_def split: if_splits)

lemma creator_new_ok:
  assumes "TorrentCreator_new env target trackers cs name comments priv decentralized = returns tc"
    and "creator_size env tc < 2 ^ 63" "creator_size env tc div tc_chunk_size tc + 1 < 2 ^ 32"
  shows "creator_ok env tc \<and> tc_hashes tc = [] \<and> tc_cur tc = 0 \<and> tc_name tc = name \<and> tc_chunk_size tc = cs * 1024 \<and>
    tc_priv tc = priv \<and> tc_decentralized tc = decentralized \<and> tc_trackers tc = trackers \<and> tc_comments tc = comments"
proof -
  let ?tc = "\<lparr>tc_target = target, tc_trackers = trackers, tc_chunk_size = cs * 1024, tc_name = name,
          tc_comments = comments, tc_num_chunks = 0, tc_last_size = 0, tc_files = [], tc_hashes = [],
          tc_cur = 0, tc_priv = priv, tc_tot = 0, tc_decentralized = decentralized\<rparr>"
  show ?thesis
  proof (cases "ce_tree env")
    case (Some t)
    let ?tc0 = "if ends_with_sep target then ?tc else ?tc\<lparr>tc_target := target @ [dir_sep]\<rparr>"
    obtain tc1 where b: "buildFileList env [] t ?tc0 = returns tc1" and c: "creator_counts tc1 = returns tc"
      using assms(1) Some unfolding TorrentCreator_new_def Let_def and_then_returns by (auto simp: and_then_returns)
    have fr: "files_read env ?tc0" by (simp add: files_read_def total_size_def)
    have f1: "files_read env tc1" and m: "more_files ?tc0 tc1" using build_ok(1) [OF b fr] by simp_all
    have same: "tc_files tc = tc_files tc1" "tc_tot tc = tc_tot tc1" "tc_chunk_size tc = tc_chunk_size tc1" "tc_target tc = tc_target tc1"
      using c by (auto simp: creator_counts_def Let_def split: if_splits)
    have "tc_tot tc1 = creator_size env tc"
      using f1 assms(2,3) Some same by (simp add: files_read_def sizes_ok_def creator_size_def)
    moreover from this have "0 < tc_chunk_size tc1 \<and> tc = tc1\<lparr>tc_num_chunks := (tc_tot tc1 + tc_chunk_size tc1 - 1) div tc_chunk_size tc1,
      tc_last_size := (if tc_tot tc1 mod tc_chunk_size tc1 = 0 then tc_chunk_size tc1 else tc_tot tc1 mod tc_chunk_size tc1)\<rparr>"
      using creator_counts_eq [OF c] assms(3) same by simp
    moreover have "files_read env tc" using f1 same by (simp add: files_read_def)
    ultimately show ?thesis using m Some unfolding creator_ok_def more_files_def same by auto
  next
    case None
    obtain d where d: "ce_file env target = Some d" and c: "creator_counts (?tc\<lparr>tc_tot := length d\<rparr>) = returns tc"
      using assms(1) None by (auto simp: TorrentCreator_new_def Let_def and_then_returns open_file_returns)
    have same: "tc_tot tc = length d" "tc_chunk_size tc = cs * 1024" "tc_target tc = target" "tc_files tc = []"
      using c by (auto simp: creator_counts_def Let_def split: if_splits)
    have sz: "creator_size env tc = length d" using None d same by (simp add: creator_size_def)
    have "0 < cs \<and> tc = (?tc\<lparr>tc_tot := length d\<rparr>)\<lparr>tc_num_chunks := (length d + cs * 1024 - 1) div (cs * 1024),
      tc_last_size := (if length d mod (cs * 1024) = 0 then cs * 1024 else length d mod (cs * 1024))\<rparr>"
      using creator_counts_eq [OF c] assms(3) sz same by simp
    then show ?thesis using None d sz
      by (auto simp: creator_ok_def files_read_def total_size_def)
  qed
qed

section \<open>Hashes\<close>

text \<open>The contents of file \<open>k\<close>, and the bytes of a chunk of the target.\<close>

definition creator_data :: "creator_env \<Rightarrow> creator \<Rightarrow> nat \<Rightarrow> bytes" where
  "creator_data env tc k = the (ce_file env (tc_target tc @ fst (tc_files tc ! k)))"

definition creator_all :: "creator_env \<Rightarrow> creator \<Rightarrow> bytes" where
  "creator_all env tc =
     (if ce_tree env \<noteq> None then concat (map (creator_data env tc) [0..<length (tc_files tc)])
      else the (ce_file env (tc_target tc)))"

definition creator_chunk :: "creator_env \<Rightarrow> creator \<Rightarrow> nat \<Rightarrow> bytes" where
  "creator_chunk env tc c = take (tc_chunk_size tc) (drop (c * tc_chunk_size tc) (creator_all env tc))"

lemma read_into_fill:
  assumes "take (length p) buf = p" "length p + n \<le> length buf" "length (take n (drop pos content)) = n"
  shows "\<exists>buf'. read_into buf (length p) content pos n = Some buf' \<and> length buf' = length buf \<and>
    take (length p + n) buf' = p @ take n (drop pos content)"
proof -
  let ?d = "take n (drop pos content)"
  have "read_into buf (length p) content pos n = Some (memcpy buf (length p) ?d (length ?d))"
    unfolding read_into_def Let_def using assms(2,3) by simp
  moreover have "length p + length ?d \<le> length buf" using assms(2,3) by simp
  ultimately show ?thesis using fill_step [OF assms(1), of ?d] assms(3) by simp
qed

lemma creator_read_fills:
  assumes "placed cs 0 fs" "0 < cs" "cs < 2 ^ 32" "covers c fs l" "c * cs < total_size fs"
    and "\<forall>k < length fs. ce_file env (tc_target tc @ p k) = Some (D k) \<and> length (D k) = tf_size (fs ! k)"
    and "tc_cur tc = c" "tc_chunk_size tc = cs"
  shows "i \<le> length l \<Longrightarrow> length buf = chunk_len cs c fs \<Longrightarrow>
    take (length (concat (map (piece_of cs c fs D) (take i l)))) buf = concat (map (piece_of cs c fs D) (take i l)) \<Longrightarrow>
    creator_read env tc (chunk_len cs c fs) (length l) i (map (\<lambda>k. (p k, fs ! k)) (drop i l)) buf
      (sum_list (map (cut cs c fs) (take i l))) = returns (chunk_data cs c fs D)"
proof (induction "length l - i" arbitrary: i buf)
  case 0
  have D: "\<forall>k < length fs. length (D k) = tf_size (fs ! k)" using assms(6) by simp
  have "length (concat (map (piece_of cs c fs D) l)) = chunk_len cs c fs"
    using length_concat_pieces [of l D fs cs c] covers_mem [OF assms(4)] D sum_cuts_list [OF assms(1,2,4,5)] by simp
  then show ?case using 0 chunk_data_pieces [OF assms(1,2,4) D] by simp
next
  case (Suc m)
  then have i: "i < length l" by simp
  let ?k = "l ! i" let ?p = "concat (map (piece_of cs c fs D) (take i l))" let ?n = "cut cs c fs ?k"
  have k: "?k < length fs" using covers_mem [OF assms(4)] i by simp
  have D: "ce_file env (tc_target tc @ p ?k) = Some (D ?k)" "length (D ?k) = tf_size (fs ! ?k)" using assms(6) k by simp_all
  note pc = portion_cut [OF assms(1-5) i]
  have lp: "length ?p = sum_list (map (cut cs c fs) (take i l))"
    using length_concat_pieces [of "take i l" D fs cs c] covers_mem [OF assms(4)] assms(6) by (auto dest: in_set_takeD)
  have sum: "sum_list (map (cut cs c fs) (take (Suc i) l)) = length ?p + ?n"
    using i lp by (simp add: take_Suc_conv_app_nth)
  have "sum_list (map (cut cs c fs) (take (Suc i) l)) \<le> sum_list (map (cut cs c fs) l)"
    by (metis append_take_drop_id le_add1 map_append sum_list_append)
  then have fit: "length ?p + ?n \<le> length buf"
    using sum sum_cuts_list [OF assms(1,2,4,5)] Suc.prems(2) by simp
  have pl: "length (piece_of cs c fs D ?k) = ?n" "piece_of cs c fs D ?k = take ?n (drop (c * cs - tf_off (fs ! ?k)) (D ?k))"
    using length_piece_of D(2) by (simp_all add: piece_of_def)
  obtain buf' where b: "read_into buf (length ?p) (D ?k) (c * cs - tf_off (fs ! ?k)) ?n = Some buf'"
    "length buf' = length buf" "take (length ?p + ?n) buf' = ?p @ piece_of cs c fs D ?k"
    using read_into_fill [OF Suc.prems(3) fit, of "c * cs - tf_off (fs ! ?k)" "D ?k"] pl by auto
  have q: "concat (map (piece_of cs c fs D) (take (Suc i) l)) = ?p @ piece_of cs c fs D ?k"
    using i by (simp add: take_Suc_conv_app_nth)
  have "creator_read env tc (chunk_len cs c fs) (length l) (Suc i) (map (\<lambda>k. (p k, fs ! k)) (drop (Suc i) l)) buf'
      (sum_list (map (cut cs c fs) (take (Suc i) l))) = returns (chunk_data cs c fs D)"
    by (rule Suc.hyps(1)) (use Suc.hyps(2) i Suc.prems(2) b q pl in simp_all)
  then show ?case
    using D(1) b(1) pc lp sum assms(7,8)
    by (simp add: Cons_nth_drop_Suc [OF i, symmetric] open_file_def Let_def)
qed

lemma creator_covers:
  assumes "tc_cur tc = c"
  shows "\<exists>l. covers c (map snd (tc_files tc)) l \<and> creator_files tc = map (\<lambda>k. (fst (tc_files tc ! k), map snd (tc_files tc) ! k)) l \<and>
    length (creator_files tc) = length l"
proof -
  let ?fs = "map snd (tc_files tc)"
  let ?Q = "\<lambda>i. (case tc_files tc ! i of (p, f) \<Rightarrow> c \<ge> tf_first f \<and> c \<le> tf_last f)"
  let ?l = "filter ?Q [0..<length (tc_files tc)]"
  have "creator_files tc = map ((!) (tc_files tc)) ?l"
    unfolding creator_files_def assms by (rule filter_as_map)
  also have "\<dots> = map (\<lambda>k. (fst (tc_files tc ! k), ?fs ! k)) ?l" by (intro map_cong) auto
  finally have f: "creator_files tc = map (\<lambda>k. (fst (tc_files tc ! k), ?fs ! k)) ?l" .
  show ?thesis
  proof (intro exI [of _ ?l] conjI f)
    show "covers c ?fs ?l" unfolding covers_def
      by (intro exI [of _ ?Q] conjI allI impI) (auto simp: case_prod_unfold)
    show "length (creator_files tc) = length ?l" unfolding f by (rule length_map)
  qed
qed

lemma total_data:
  assumes "\<forall>k < length fs. length (D k) = tf_size (fs ! k)"
  shows "length (concat (map D [0..<length fs])) = total_size fs"
proof -
  have "map length (map D [0..<length fs]) = map tf_size fs" using assms by (intro nth_equalityI) auto
  then show ?thesis by (simp add: length_concat total_size_def)
qed

lemma creator_contents:
  assumes "files_read env tc" "k < length (tc_files tc)"
  shows "ce_file env (tc_target tc @ fst (tc_files tc ! k)) = Some (creator_data env tc k) \<and>
    length (creator_data env tc k) = tf_size (map snd (tc_files tc) ! k)"
proof -
  obtain p f where pf: "tc_files tc ! k = (p, f)" by fastforce
  then have "(p, f) \<in> set (tc_files tc)" using nth_mem [OF assms(2)] by simp
  then obtain d where "ce_file env (tc_target tc @ p) = Some d" "length d = tf_size f"
    using assms(1) by (auto simp: files_read_def)
  then show ?thesis using assms(2) pf by (simp add: creator_data_def)
qed

lemma creator_all_length:
  assumes "creator_ok env tc"
  shows "length (creator_all env tc) = tc_tot tc"
proof (cases "ce_tree env")
  case (Some t)
  then have "files_read env tc" using assms by (simp add: creator_ok_def)
  then have "length (concat (map (creator_data env tc) [0..<length (map snd (tc_files tc))])) = total_size (map snd (tc_files tc))"
    using creator_contents by (intro total_data) simp
  then show ?thesis using assms Some by (simp add: creator_all_def creator_ok_def creator_size_def)
next
  case None
  then show ?thesis using assms by (simp add: creator_ok_def creator_size_def creator_all_def)
qed

text \<open>The chunk that is hashed next.\<close>

lemma chunk_index_less:
  assumes "0 < (cs :: nat)" "c < (n + cs - 1) div cs"
  shows "c * cs < n"
  using assms le_div_iff [of cs "Suc c" "n + cs - 1"] by simp

lemma creator_chunk_size_eq:
  assumes "creator_ok env tc" "tc_cur tc < tc_num_chunks tc"
  shows "creator_chunk_size tc = min (tc_chunk_size tc) (tc_tot tc - tc_cur tc * tc_chunk_size tc)"
proof -
  let ?cs = "tc_chunk_size tc" let ?n = "tc_tot tc" let ?c = "tc_cur tc"
  have cs: "0 < ?cs" and num: "tc_num_chunks tc = (if ?n mod ?cs > 0 then ?n div ?cs + 1 else ?n div ?cs)"
    and l: "tc_last_size tc = (if ?n mod ?cs = 0 then ?cs else ?n mod ?cs)"
    using assms(1) ceil_div [of ?cs ?n] by (simp_all add: creator_ok_def)
  have n: "?n = ?n div ?cs * ?cs + ?n mod ?cs" by simp
  show ?thesis
  proof (cases "Suc ?c = tc_num_chunks tc")
    case True
    have e: "int ?c = int (tc_num_chunks tc) - 1" using True by linarith
    show ?thesis
    proof (cases "?n mod ?cs = 0")
      case z: True
      then have q: "?n div ?cs = Suc ?c" using True num by simp
      then have "?n = ?c * ?cs + ?cs" using n z by (metis add.right_neutral mult_Suc add.commute)
      then have "?n - ?c * ?cs = ?cs" by simp
      then show ?thesis using e l z by (simp add: creator_chunk_size_def)
    next
      case False
      then have q: "?n div ?cs = ?c" using True num by simp
      then have "?n - ?c * ?cs = ?n mod ?cs" using n by (metis diff_add_inverse)
      moreover have "?n mod ?cs < ?cs" using cs by simp
      ultimately show ?thesis using e l False by (simp add: creator_chunk_size_def min_def)
    qed
  next
    case False
    then have "Suc ?c \<le> ?n div ?cs" using assms(2) num by (simp split: if_splits)
    then have "Suc ?c * ?cs \<le> ?n" by (metis div_times_less_eq_dividend mult_le_mono1 order_trans)
    then have "?cs \<le> ?n - ?c * ?cs" by simp
    moreover have "int ?c \<noteq> int (tc_num_chunks tc) - 1" using False by linarith
    ultimately show ?thesis by (simp add: creator_chunk_size_def)
  qed
qed

definition memory_ok :: "creator_env \<Rightarrow> bool" where
  "memory_ok env \<longleftrightarrow> (\<forall>n. length (ce_fresh env n) = n) \<and> length (sh_tmp (ce_gen env)) = 64"

definition hash_added :: "bytes \<Rightarrow> creator \<Rightarrow> creator" where
  "hash_added d tc = tc\<lparr>tc_hashes := tc_hashes tc @ [sha1_spec d], tc_cur := tc_cur tc + 1\<rparr>"

lemma add_hash_eq:
  "memory_ok env \<Longrightarrow> length d < 2 ^ 32 \<Longrightarrow>
   add_hash env d tc = returns (hash_added d tc, tc_cur tc + 1 \<ge> tc_num_chunks tc)"
  by (simp add: add_hash_def Let_def hash_added_def memory_ok_def sha_generate_correct)

lemma calculateHash_eq:
  assumes "creator_ok env tc" "memory_ok env" "tc_chunk_size tc < 2 ^ 32" "tc_cur tc < tc_num_chunks tc"
    and "creator_size env tc < 2 ^ 63" "creator_size env tc div tc_chunk_size tc + 1 < 2 ^ 32"
  shows "calculateHash env tc = returns (hash_added (creator_chunk env tc (tc_cur tc)) tc, tc_cur tc + 1 \<ge> tc_num_chunks tc)"
proof -
  let ?cs = "tc_chunk_size tc" let ?c = "tc_cur tc" let ?s = "creator_chunk_size tc"
  have cs: "0 < ?cs" and num: "tc_num_chunks tc = (tc_tot tc + ?cs - 1) div ?cs" and tot: "tc_tot tc = creator_size env tc"
    using assms(1) by (simp_all add: creator_ok_def)
  have s: "?s = min ?cs (tc_tot tc - ?c * ?cs)" by (rule creator_chunk_size_eq [OF assms(1,4)])
  have w: "?c * ?cs < tc_tot tc" using chunk_index_less [OF cs] assms(4) num by simp
  have len: "length (creator_chunk env tc ?c) = ?s"
    by (simp add: creator_chunk_def creator_all_length [OF assms(1)] s min.commute)
  have s32: "?s < 2 ^ 32" using s assms(3) by simp
  show ?thesis
  proof (cases "ce_tree env")
    case None
    obtain d where d: "ce_file env (tc_target tc) = Some d" "tc_files tc = []"
      using assms(1) None by (auto simp: creator_ok_def)
    have a: "creator_all env tc = d" using None d by (simp add: creator_all_def)
    have dl: "length d = tc_tot tc" using creator_all_length [OF assms(1)] a by simp
    have chunk: "take ?s (drop (?c * ?cs) d) = creator_chunk env tc ?c"
      unfolding creator_chunk_def a s by (simp add: dl min_def)
    obtain buf where "read_into (ce_fresh env ?cs) 0 d (?c * ?cs) ?s = Some buf" "take ?s buf = creator_chunk env tc ?c"
      using read_into_fill [of "[]" "ce_fresh env ?cs" ?s "?c * ?cs" d] assms(2) s len chunk dl by (auto simp: memory_ok_def)
    then show ?thesis
      using add_hash_eq [OF assms(2)] len s32 d assms(4) by (simp add: calculateHash_def calcHashSingle_def open_file_def)
  next
    case (Some t)
    let ?fs = "map snd (tc_files tc)" let ?D = "creator_data env tc"
    have fr: "files_read env tc" using assms(1) Some by (simp add: creator_ok_def)
    have tot': "tc_tot tc = total_size ?fs" using tot Some by (simp add: creator_size_def)
    then have pl: "placed ?cs 0 ?fs" using fr assms(5,6) tot by (simp add: files_read_def sizes_ok_def)
    obtain l where l: "covers ?c ?fs l" "creator_files tc = map (\<lambda>k. (fst (tc_files tc ! k), ?fs ! k)) l"
      "length (creator_files tc) = length l" using creator_covers [of tc ?c] by auto
    have D: "\<forall>k < length ?fs. ce_file env (tc_target tc @ fst (tc_files tc ! k)) = Some (?D k) \<and> length (?D k) = tf_size (?fs ! k)"
      using creator_contents [OF fr] by simp
    have cl: "chunk_len ?cs ?c ?fs = ?s" using s tot' by (simp add: chunk_len_def)
    have "creator_read env tc ?s (length l) 0 (creator_files tc) (ce_fresh env ?s) 0 = returns (chunk_data ?cs ?c ?fs ?D)"
      using creator_read_fills [OF pl cs assms(3) l(1) _ D refl refl, of 0 "ce_fresh env ?s"] w tot' cl assms(2) l(2)
      by (simp add: memory_ok_def)
    moreover have "chunk_data ?cs ?c ?fs ?D = creator_chunk env tc ?c"
      using Some w tot' creator_all_length [OF assms(1)]
      by (simp add: chunk_data_def creator_chunk_def creator_all_def chunk_len_def min_def)
    moreover have "tc_files tc \<noteq> []" using w tot' by (auto simp: total_size_def)
    ultimately show ?thesis
      using add_hash_eq [OF assms(2)] len s32 assms(4) l(3) by (simp add: calculateHash_def calcHashMulti_def Let_def)
  qed
qed

text \<open>All hashes, one after the other.\<close>

definition creator_fits :: "creator_env \<Rightarrow> creator \<Rightarrow> bool" where
  "creator_fits env tc \<longleftrightarrow> creator_ok env tc \<and> tc_chunk_size tc < 2 ^ 32 \<and> creator_size env tc < 2 ^ 63 \<and>
     creator_size env tc div tc_chunk_size tc + 1 < 2 ^ 32"

definition hashed_to :: "creator_env \<Rightarrow> creator \<Rightarrow> nat \<Rightarrow> creator" where
  "hashed_to env tc n = tc\<lparr>tc_hashes := map (\<lambda>c. sha1_spec (creator_chunk env tc c)) [0..<n], tc_cur := n\<rparr>"

lemma hashed_chunk: "creator_chunk env (hashed_to env tc n) c = creator_chunk env tc c"
proof -
  have "creator_data env (hashed_to env tc n) = creator_data env tc" by (intro ext) (simp add: creator_data_def hashed_to_def)
  then have "creator_all env (hashed_to env tc n) = creator_all env tc" by (simp add: creator_all_def) (simp add: hashed_to_def)
  then show ?thesis by (simp add: creator_chunk_def) (simp add: hashed_to_def)
qed

lemma hashed_fields [simp]:
  "tc_num_chunks (hashed_to env tc n) = tc_num_chunks tc" "tc_cur (hashed_to env tc n) = n"
  "tc_chunk_size (hashed_to env tc n) = tc_chunk_size tc" "tc_files (hashed_to env tc n) = tc_files tc"
  "tc_target (hashed_to env tc n) = tc_target tc" "creator_size env (hashed_to env tc n) = creator_size env tc"
  "creator_ok env (hashed_to env tc n) = creator_ok env tc"
  "tc_hashes (hashed_to env tc n) = map (\<lambda>c. sha1_spec (creator_chunk env tc c)) [0..<n]"
  by (simp_all add: hashed_to_def creator_size_def creator_ok_def files_read_def)

lemma hashed_next: "hash_added (creator_chunk env tc n) (hashed_to env tc n) = hashed_to env tc (Suc n)"
  by (simp add: hash_added_def hashed_to_def)

lemma hash_loop_steps:
  assumes "creator_fits env tc" "memory_ok env"
  shows "n \<le> tc_num_chunks tc \<Longrightarrow> tc_num_chunks tc - n < k \<Longrightarrow>
    hash_loop env k (hashed_to env tc n) = returns (hashed_to env tc (tc_num_chunks tc))"
proof (induction k arbitrary: n)
  case (Suc k)
  show ?case
  proof (cases "n < tc_num_chunks tc")
    case True
    then have c: "calculateHash env (hashed_to env tc n) = returns (hashed_to env tc (Suc n), Suc n \<ge> tc_num_chunks tc)"
      using calculateHash_eq [of env "hashed_to env tc n"] assms by (simp add: creator_fits_def hashed_chunk hashed_next)
    show ?thesis
    proof (cases "Suc n \<ge> tc_num_chunks tc")
      case last: True
      then have "Suc n = tc_num_chunks tc" using True by simp
      then show ?thesis using c by simp
    next
      case False
      then show ?thesis using c Suc.IH [of "Suc n"] Suc.prems by simp
    qed
  next
    case False
    then have "n = tc_num_chunks tc" using Suc.prems by simp
    then show ?thesis by (simp add: calculateHash_def)
  qed
qed simp

lemma calculate_all_eq:
  assumes "creator_fits env tc" "memory_ok env" "tc_hashes tc = []" "tc_cur tc = 0"
  shows "calculate_all env tc = returns (hashed_to env tc (tc_num_chunks tc))"
proof -
  have "hashed_to env tc 0 = tc" using assms(3,4) by (simp add: hashed_to_def)
  then show ?thesis
    using hash_loop_steps [OF assms(1,2), of 0 "tc_num_chunks tc + 1"] unfolding calculate_all_def by simp
qed

section \<open>Reading a torrent back\<close>

text \<open>Looking up a key in what the decoder makes of a dictionary.\<close>

fun entry_off :: "tq_numbers \<Rightarrow> (bytes \<times> bterm) list \<Rightarrow> bytes \<Rightarrow> nat \<Rightarrow> nat" where
  "entry_off nf [] key off = off"
| "entry_off nf ((k, t) # es) key off =
     (let off = off + length (enc nf (TStr k)) in if k = key then off else entry_off nf es key (off + length (enc nf t)))"

lemma getData_entries:
  "bd_getData key (entries_of nf es off) =
   (case map_of es key of None \<Rightarrow> None | Some t \<Rightarrow> Some (node_of nf t (entry_off nf es key off)))"
  by (induction es arbitrary: off) (auto simp: Let_def split: option.split)

declare entries_of.simps [simp del]

lemma entry_text:
  "map_of es key = Some t \<Longrightarrow> \<exists>pre post. enc_dict nf es = pre @ enc nf t @ post \<and> entry_off nf es key off = off + length pre"
proof (induction es arbitrary: off)
  case (Cons e es)
  obtain k u where e: "e = (k, u)" by fastforce
  let ?kt = "enc nf (TStr k)"
  show ?case
  proof (cases "k = key")
    case True
    then show ?thesis using Cons.prems e by (intro exI [of _ ?kt] exI [of _ "enc_dict nf es"]) simp
  next
    case False
    then obtain pre post where "enc_dict nf es = pre @ enc nf t @ post"
      "entry_off nf es key (off + length ?kt + length (enc nf u)) = off + length ?kt + length (enc nf u) + length pre"
      using Cons.IH [of "off + length ?kt + length (enc nf u)"] Cons.prems e by auto
    then show ?thesis using False e by (intro exI [of _ "?kt @ enc nf u @ pre"] exI [of _ post]) simp
  qed
qed simp

fun str_of :: "bterm \<Rightarrow> bvalue option" where
  "str_of (TInt v) = Some (if - (2 ^ 31) \<le> v \<and> v < 2 ^ 31 then VInt v else VInt64 v)"
| "str_of (TStr s) = Some (VString s)"
| "str_of _ = None"

lemma as_value_node: "as_value (Some (node_of nf t off)) = str_of t"
  by (cases t) simp_all

lemma getValue_entries: "bd_getValue key (entries_of nf es off) = (case map_of es key of None \<Rightarrow> None | Some t \<Rightarrow> str_of t)"
  by (simp add: bd_getValue_def getData_entries as_value_node split: option.split)

lemma getList_entries:
  "map_of es key = Some (TList ts) \<Longrightarrow> \<exists>o'. bd_getList key (entries_of nf es off) = Some (nodes_of nf ts o')"
  by (auto simp: bd_getList_def getData_entries)

lemma getList_none: "map_of es key = None \<Longrightarrow> bd_getList key (entries_of nf es off) = None"
  by (simp add: bd_getList_def getData_entries)

lemma val_length_int: "0 \<le> v \<Longrightarrow> v < 2 ^ 63 \<Longrightarrow> val_length (the (str_of (TInt v))) = returns (nat v)"
  by simp

text \<open>How text is written and read: the codec of the encoding undoes \<^verbatim>\<open>TQString::utf8\<close>.\<close>

definition text_kept :: "meta_env \<Rightarrow> creator_env \<Rightarrow> qstring \<Rightarrow> bool" where
  "text_kept env ce s \<longleftrightarrow> (\<exists>f. me_codec env str_utf8 = Some f \<and> f (ce_utf8 ce s) = s)"

lemma val_string_kept: "text_kept env ce s \<Longrightarrow> val_string_enc env str_utf8 (VString (ce_utf8 ce s)) = s"
  by (auto simp: text_kept_def val_string_enc_def str_utf8_def)

text \<open>Paths: the parts, joined again.\<close>

fun join_parts :: "qstring list \<Rightarrow> qstring" where
  "join_parts [] = []"
| "join_parts [p] = p"
| "join_parts (p # ps) = p @ [dir_sep] @ join_parts ps"

lemma join_parts_Cons: "join_parts (p # ps) = p @ (if ps \<noteq> [] then dir_sep # join_parts ps else [])"
  by (cases ps) simp_all

lemma load_path_kept:
  assumes "\<forall>s \<in> set ps. text_kept env ce s"
  shows "load_path env str_utf8 (nodes_of nf (map (\<lambda>s. TStr (ce_utf8 ce s)) ps) off) path = returns (path @ join_parts ps)"
  using assms
proof (induction ps arbitrary: off path)
  case (Cons p ps)
  have "nodes_of nf ts o' \<noteq> [] \<longleftrightarrow> ts \<noteq> []" for ts o' by (cases ts) simp_all
  then show ?case using Cons by (simp add: as_value_node join_parts_Cons val_string_kept)
qed simp

definition path_ok :: "qstring \<Rightarrow> bool" where
  "path_ok p \<longleftrightarrow> join_parts (path_parts p) = p \<and> \<not> ends_with_sep p \<and> dotdot \<notin> set (path_parts p)"

text \<open>What of a file is written, besides its place.\<close>

definition file_view :: "qstring \<times> torrent_file \<Rightarrow> qstring \<times> nat \<times> nat" where
  "file_view pf = (fst pf, tf_off (snd pf), tf_size (snd pf))"

definition file_kept :: "meta_env \<Rightarrow> creator_env \<Rightarrow> qstring \<times> torrent_file \<Rightarrow> bool" where
  "file_kept env ce pf \<longleftrightarrow> path_ok (fst pf) \<and> (\<forall>s \<in> set (path_parts (fst pf)). text_kept env ce s)"

lemma view_size: "map file_view a = map file_view b \<Longrightarrow> total_size (map snd a) = total_size (map snd b)"
proof -
  assume "map file_view a = map file_view b"
  then have "map (\<lambda>v. snd (snd v)) (map file_view a) = map (\<lambda>v. snd (snd v)) (map file_view b)" by simp
  then show ?thesis by (simp add: file_view_def total_size_def comp_def)
qed

lemma loadFiles_kept:
  "\<forall>pf \<in> set fl. file_kept env ce pf \<Longrightarrow> placed (t_piece_length t) (t_file_length t) (map snd fl) \<Longrightarrow>
   0 < t_piece_length t \<Longrightarrow> t_encoding t = str_utf8 \<Longrightarrow>
   t_file_length t + total_size (map snd fl) < 2 ^ 63 \<Longrightarrow>
   (t_file_length t + total_size (map snd fl)) div t_piece_length t < 2 ^ 32 \<Longrightarrow>
   \<exists>fl'. loadFiles env (nodes_of nf (map (saveFile ce) fl) off) idx t =
       returns (t\<lparr>t_files := t_files t @ fl', t_file_length := t_file_length t + total_size (map snd fl)\<rparr>) \<and>
     map file_view fl' = map file_view fl \<and> placed (t_piece_length t) (t_file_length t) (map snd fl') \<and>
     map (tf_index \<circ> snd) fl' = [idx..<idx + length fl]"
proof (induction fl arbitrary: t off idx)
  case Nil
  then show ?case by (simp add: total_size_def)
next
  case (Cons pf fl)
  obtain p f where pf: "pf = (p, f)" by fastforce
  let ?cs = "t_piece_length t" let ?o = "t_file_length t" let ?n = "tf_size f"
  let ?es = "[(key_length, TInt (int ?n)), (key_path, TList (map (\<lambda>s. TStr (ce_utf8 ce s)) (path_parts p)))]"
  have k: "path_ok p" "\<forall>s \<in> set (path_parts p). text_kept env ce s" using Cons.prems(1) pf by (simp_all add: file_kept_def)
  have sum: "total_size (map snd (pf # fl)) = ?n + total_size (map snd fl)" using pf by (simp add: total_size_def)
  have n: "?o + ?n < 2 ^ 63" "(?o + ?n) div ?cs < 2 ^ 32"
  proof -
    have "(?o + ?n) div ?cs \<le> (?o + total_size (map snd (pf # fl))) div ?cs" unfolding sum by (intro div_le_mono) simp
    then show "(?o + ?n) div ?cs < 2 ^ 32" using Cons.prems(6) by linarith
    show "?o + ?n < 2 ^ 63" using Cons.prems(5) sum by linarith
  qed
  obtain g where g: "TorrentFile_new idx (me_multimedia env p) ?o ?n ?cs = Some g"
    using Cons.prems(3) by (simp add: TorrentFile_new_def Let_def)
  then have gp: "tf_size g = ?n" "placed ?cs ?o [g]" "tf_index g = idx"
    using TorrentFile_new_placed [OF g _ n(2)] n(1) by simp_all
  let ?t = "t\<lparr>t_file_length := ?o + ?n, t_files := t_files t @ [(p, g)]\<rparr>"
  have ap: "append_file env p idx ?n t = returns ?t" using g n(1) by (simp add: append_file_def)
  have val: "bd_getValue key_length (entries_of nf ?es o') = Some (if int ?n < 2 ^ 31 then VInt (int ?n) else VInt64 (int ?n))" for o'
    by (simp add: getValue_entries)
  have vl: "val_length (if int ?n < 2 ^ 31 then VInt (int ?n) else VInt64 (int ?n)) = returns ?n"
    using n(1) by (auto simp: nat_eq_iff)
  have path: "\<exists>o''. bd_getList key_path (entries_of nf ?es o') =
      Some (nodes_of nf (map (\<lambda>s. TStr (ce_utf8 ce s)) (path_parts p)) o'')" for o'
    by (rule getList_entries) (simp add: keys)
  obtain o'' where o'': "bd_getList key_path (entries_of nf ?es (Suc off)) =
      Some (nodes_of nf (map (\<lambda>s. TStr (ce_utf8 ce s)) (path_parts p)) o'')" using path by blast
  let ?off = "off + length (enc nf (saveFile ce pf))"
  have step: "loadFiles env (nodes_of nf (map (saveFile ce) (pf # fl)) off) idx t =
      loadFiles env (nodes_of nf (map (saveFile ce) fl) ?off) (idx + 1) ?t"
  proof -
    have d: "as_dict (Some (node_of nf (saveFile ce pf) off)) = Some (entries_of nf ?es (Suc off))" using pf by (simp add: saveFile_def)
    have lp: "load_path env (t_encoding t) (nodes_of nf (map (\<lambda>s. TStr (ce_utf8 ce s)) (path_parts p)) o'') [] = returns p"
      using load_path_kept [OF k(2)] k(1) Cons.prems(4) by (simp add: path_ok_def)
    have c: "checkPathForDirectoryTraversal p" "\<not> ends_with_sep p"
      using k(1) by (simp_all add: path_ok_def checkPathForDirectoryTraversal_def)
    show ?thesis
      unfolding list.map nodes_of.simps loadFiles.simps d option.case o'' lp and_then_simps val vl ap
      using c by (simp only: if_False simp_thms)
  qed
  have "\<exists>fl'. loadFiles env (nodes_of nf (map (saveFile ce) fl) ?off) (idx + 1) ?t =
       returns (?t\<lparr>t_files := t_files ?t @ fl', t_file_length := t_file_length ?t + total_size (map snd fl)\<rparr>) \<and>
     map file_view fl' = map file_view fl \<and> placed (t_piece_length ?t) (t_file_length ?t) (map snd fl') \<and>
     map (tf_index \<circ> snd) fl' = [idx + 1..<idx + 1 + length fl]"
    by (rule Cons.IH) (use Cons.prems pf sum in \<open>simp_all add: add.assoc\<close>)
  then obtain fl' where r: "loadFiles env (nodes_of nf (map (saveFile ce) fl) ?off) (idx + 1) ?t =
       returns (?t\<lparr>t_files := t_files ?t @ fl', t_file_length := t_file_length ?t + total_size (map snd fl)\<rparr>)"
    "map file_view fl' = map file_view fl" "placed ?cs (?o + ?n) (map snd fl')" "map (tf_index \<circ> snd) fl' = [idx + 1..<idx + 1 + length fl]"
    by auto
  have "tf_off g = tf_off f" using gp(2) Cons.prems(2) pf by simp
  then have v: "file_view (p, g) = file_view pf" using gp(1) pf by (simp add: file_view_def)
  have u: "[idx..<idx + length (pf # fl)] = idx # [idx + 1..<idx + 1 + length fl]" by (subst upt_conv_Cons) (simp_all del: upt_Suc)
  show ?case
    unfolding step r(1) u
  proof (intro exI [of _ "(p, g) # fl'"] conjI)
    show "map file_view ((p, g) # fl') = map file_view (pf # fl)" using v r(2) by simp
    show "map (tf_index \<circ> snd) ((p, g) # fl') = idx # [idx + 1..<idx + 1 + length fl]" using r(4) gp(3) by simp
    show "placed ?cs ?o (map snd ((p, g) # fl'))" using r(3) gp(1,2) by simp
  qed (use pf sum in \<open>simp add: add.assoc\<close>)
qed

lemma load_hashes_concat: "\<forall>h \<in> set hs. length h = 20 \<Longrightarrow> load_hashes (concat hs) = Some hs"
proof (induction hs)
  case (Cons h hs)
  then have "h \<noteq> []" by auto
  then show ?case using Cons by (subst load_hashes.simps) simp
qed (simp add: load_hashes.simps)

lemma length_digest: "length (sha1_spec d) = 20"
  by (simp add: sha1_spec_def sha_digest_def split: prod.split)

text \<open>The info dictionary.\<close>

definition info_entries :: "creator_env \<Rightarrow> creator \<Rightarrow> nat \<Rightarrow> bytes \<Rightarrow> (bytes \<times> bterm) list" where
  "info_entries env tc fsize pieces =
     (if ce_tree env \<noteq> None then [(key_files, TList (map (saveFile env) (tc_files tc)))] else [(key_length, TInt (int fsize))]) @
     [(key_name, TStr (ce_utf8 env (tc_name tc))), (key_piece_length, TInt (int (tc_chunk_size tc))), (key_pieces, TStr pieces)] @
     (if tc_priv tc then [(key_private, TInt 1)] else [])"

lemma info_term_entries: "info_term env tc fsize pieces = TDict (info_entries env tc fsize pieces)"
  by (simp add: info_term_def info_entries_def)

lemma info_lookup:
  "map_of (info_entries ce tc n ps) key_piece_length = Some (TInt (int (tc_chunk_size tc)))"
  "map_of (info_entries ce tc n ps) key_name = Some (TStr (ce_utf8 ce (tc_name tc)))"
  "map_of (info_entries ce tc n ps) key_pieces = Some (TStr ps)"
  "map_of (info_entries ce tc n ps) key_private = (if tc_priv tc then Some (TInt 1) else None)"
  "map_of (info_entries ce tc n ps) key_length = (if ce_tree ce \<noteq> None then None else Some (TInt (int n)))"
  "ce_tree ce \<noteq> None \<Longrightarrow> map_of (info_entries ce tc n ps) key_files = Some (TList (map (saveFile ce) (tc_files tc)))"
  by (simp_all add: info_entries_def keys)

lemma val_length_word: "v < 2 ^ 63 \<Longrightarrow> (case str_of (TInt (int v)) of None \<Rightarrow> None | Some w \<Rightarrow> val_length w) = returns v"
  by (simp add: nat_eq_iff)

lemma file_view_total: "map file_view a = map file_view b \<Longrightarrow> length a = length b"
  by (rule map_eq_imp_length_eq)

lemma chunk_count:
  assumes "0 < (cs :: nat)" "n div cs + 1 < 2 ^ 32"
  shows "(let q = (n div cs) mod 2 ^ 32 in if n mod cs > 0 then (q + 1) mod 2 ^ 32 else q) = (n + cs - 1) div cs"
  unfolding ceil_div [OF assms(1)] using assms by (simp add: Let_def)

lemma loadInfo_kept:
  assumes c: "creator_fits ce tc" and tk: "text_kept env ce (tc_name tc)"
    and fk: "\<forall>pf \<in> set (tc_files tc). file_kept env ce pf"
    and n: "n = creator_size ce tc" and hs: "length hs = tc_num_chunks tc" "\<forall>h \<in> set hs. length h = 20"
    and t: "t_encoding t = str_utf8" "t_files t = []" "t_file_length t = 0" "t_hashes t = []" "t_private t = False"
  shows "\<exists>fl. loadInfo env (Some (entries_of nf (info_entries ce tc n (concat hs)) off)) t =
      returns (t\<lparr>t_piece_length := tc_chunk_size tc, t_file_length := creator_size ce tc, t_files := fl, t_hashes := hs,
        t_name := tc_name tc, t_private := tc_priv tc\<rparr>) \<and>
    map file_view fl = map file_view (tc_files tc) \<and> placed (tc_chunk_size tc) 0 (map snd fl) \<and>
    map (tf_index \<circ> snd) fl = [0..<length (tc_files tc)]"
proof -
  let ?es = "entries_of nf (info_entries ce tc n (concat hs)) off" and ?cs = "tc_chunk_size tc"
  have ok: "creator_ok ce tc" "?cs < 2 ^ 32" "n < 2 ^ 63" "n div ?cs + 1 < 2 ^ 32"
    using c n by (simp_all add: creator_fits_def)
  have cs: "0 < ?cs" using ok(1) by (simp add: creator_ok_def)
  have num: "tc_num_chunks tc = (n + ?cs - 1) div ?cs" using ok(1) n by (simp add: creator_ok_def)
  have vl: "\<exists>w. str_of (TInt (int v)) = Some w \<and> val_length w = returns v" if "v < 2 ^ 63" for v
    using that by (simp add: nat_eq_iff)
  let ?t1 = "t\<lparr>t_piece_length := ?cs\<rparr>"
  have l1: "loadPieceLength (bd_getValue key_piece_length ?es) t = returns ?t1"
    using vl [of ?cs] ok(2) by (auto simp: getValue_entries info_lookup loadPieceLength_def simp del: str_of.simps val_length.simps)
  obtain fl where l2: "load_lengths env ?es ?t1 = returns (?t1\<lparr>t_file_length := n, t_files := fl\<rparr>)"
    and fl: "map file_view fl = map file_view (tc_files tc)" "placed ?cs 0 (map snd fl)" "map (tf_index \<circ> snd) fl = [0..<length (tc_files tc)]"
  proof (cases "ce_tree ce")
    case None
    obtain w where w: "str_of (TInt (int n)) = Some w" "val_length w = returns n" using vl [OF ok(3)] by blast
    have "load_lengths env ?es ?t1 = returns (?t1\<lparr>t_file_length := n\<rparr>)"
      using None w by (simp add: load_lengths_def getValue_entries info_lookup loadFileLength_def del: str_of.simps val_length.simps)
    moreover have "?t1\<lparr>t_file_length := n\<rparr> = ?t1\<lparr>t_file_length := n, t_files := []\<rparr>" using t(2) by simp
    moreover have "tc_files tc = []" using ok(1) None by (simp add: creator_ok_def)
    ultimately show ?thesis using that [of "[]"] by simp
  next
    case (Some tree)
    have fr: "files_read ce tc" using ok(1) Some by (simp add: creator_ok_def)
    have tot: "total_size (map snd (tc_files tc)) = n" using n Some by (simp add: creator_size_def)
    have pl: "placed ?cs 0 (map snd (tc_files tc))"
      using fr ok(3,4) by (simp add: files_read_def sizes_ok_def tot)
    obtain o' where o': "bd_getList key_files ?es = Some (nodes_of nf (map (saveFile ce) (tc_files tc)) o')"
      using getList_entries [of "info_entries ce tc n (concat hs)" key_files] info_lookup(6) [of ce] Some by blast
    have none: "bd_getValue key_length ?es = None" using Some by (simp add: getValue_entries info_lookup)
    obtain fl' where r: "loadFiles env (nodes_of nf (map (saveFile ce) (tc_files tc)) o') 0 ?t1 =
       returns (?t1\<lparr>t_files := t_files ?t1 @ fl', t_file_length := t_file_length ?t1 + total_size (map snd (tc_files tc))\<rparr>)"
       "map file_view fl' = map file_view (tc_files tc)" "placed (t_piece_length ?t1) (t_file_length ?t1) (map snd fl')"
       "map (tf_index \<circ> snd) fl' = [0..<0 + length (tc_files tc)]"
      using loadFiles_kept [OF fk, where t = ?t1 and nf = nf and off = o' and idx = 0] pl cs t ok(3,4) tot by auto
    have "?t1\<lparr>t_files := t_files ?t1 @ fl', t_file_length := t_file_length ?t1 + total_size (map snd (tc_files tc))\<rparr> =
        ?t1\<lparr>t_file_length := n, t_files := fl'\<rparr>" using t tot by simp
    then show ?thesis
      using that [of fl'] r o' none t by (simp add: load_lengths_def)
  qed
  let ?t2 = "?t1\<lparr>t_file_length := n, t_files := fl\<rparr>"
  have l3: "loadHash (bd_getValue key_pieces ?es) ?t2 = returns (?t2\<lparr>t_hashes := hs\<rparr>)"
    using load_hashes_concat [OF hs(2)] t by (simp add: getValue_entries info_lookup loadHash_def)
  have l4: "loadName env (bd_getValue key_name ?es) (?t2\<lparr>t_hashes := hs\<rparr>) = returns (?t2\<lparr>t_hashes := hs, t_name := tc_name tc\<rparr>)"
    using val_string_kept [OF tk] t by (simp add: getValue_entries info_lookup loadName_def)
  let ?t4 = "?t2\<lparr>t_hashes := hs, t_name := tc_name tc\<rparr>"
  have l5: "load_private env (bd_getValue key_private ?es) ?t4 = ?t4\<lparr>t_private := tc_priv tc\<rparr>"
    using t by (simp add: getValue_entries info_lookup load_private_def)
  have l6: "check_chunks (?t4\<lparr>t_private := tc_priv tc\<rparr>) = returns (?t4\<lparr>t_private := tc_priv tc\<rparr>)"
    using chunk_count [OF cs ok(4)] cs num hs(1) by (simp add: check_chunks_def expected_chunks_def)
  have "loadInfo env (Some ?es) t = returns (?t4\<lparr>t_private := tc_priv tc\<rparr>)"
    unfolding loadInfo_def option.case l1 l2 l3 l4 l5 l6 and_then_simps by (rule refl)
  then show ?thesis using fl n by auto
qed

text \<open>The whole file.\<close>

definition top_entries :: "creator_env \<Rightarrow> creator \<Rightarrow> (bytes \<times> bterm) list \<Rightarrow> bterm \<Rightarrow> (bytes \<times> bterm) list" where
  "top_entries env tc announce info = announce @
       (if length (tc_comments tc) > 0 then [(key_comments, TStr (ce_utf8 env (tc_comments tc)))] else []) @
       [(key_created_by, TStr (ce_utf8 env (ce_version env))), (key_creation_date, TInt (int (ce_time env))),
        (key_info, info)] @
       (if tc_decentralized tc then [(key_nodes, TList (map (node_term env) (tc_trackers tc)))] else [])"

lemma torrent_term_entries: "torrent_term env tc announce info = TDict (top_entries env tc announce info)"
  by (simp add: torrent_term_def top_entries_def)

lemma announce_cases:
  assumes "announce_terms env tc = returns announce" "\<not> tc_decentralized tc"
  shows "\<exists>u us. tc_trackers tc = u # us \<and> announce = (key_announce, TStr (ce_utf8 env u)) #
    (if us \<noteq> [] then [(key_announce_list, TList [TList (map (\<lambda>u. TStr (ce_utf8 env u)) (u # us))])] else [])"
proof (cases "tc_trackers tc")
  case (Cons u us)
  then show ?thesis using assms by (intro exI [of _ u] exI [of _ us]) (simp add: announce_terms_def)
qed (use assms in \<open>simp add: announce_terms_def\<close>)

lemma top_lookup:
  assumes "announce_terms ce tc = returns announce" "\<not> tc_decentralized tc"
  shows "map_of (top_entries ce tc announce info) key_encoding = None"
    "map_of (top_entries ce tc announce info) key_info = Some info"
    "map_of (top_entries ce tc announce info) key_nodes = None"
    "\<exists>u. map_of (top_entries ce tc announce info) key_announce = Some (TStr u)"
    "map_of (top_entries ce tc announce info) key_announce_list = None \<or>
     (\<exists>us. map_of (top_entries ce tc announce info) key_announce_list = Some (TList [TList (map TStr us)]))"
proof -
  obtain u us where a: "announce = (key_announce, TStr (ce_utf8 ce u)) #
    (if us \<noteq> [] then [(key_announce_list, TList [TList (map TStr (map (ce_utf8 ce) (u # us)))])] else [])"
    using announce_cases [OF assms] unfolding map_map comp_def by blast
  have d: "\<not> tc_decentralized tc" by (rule assms(2))
  show "map_of (top_entries ce tc announce info) key_encoding = None"
    "map_of (top_entries ce tc announce info) key_info = Some info"
    "map_of (top_entries ce tc announce info) key_nodes = None"
    "\<exists>u. map_of (top_entries ce tc announce info) key_announce = Some (TStr u)"
    using d unfolding a top_entries_def by (simp_all add: keys key_comments_def key_created_by_def key_creation_date_def)
  show "map_of (top_entries ce tc announce info) key_announce_list = None \<or>
     (\<exists>us. map_of (top_entries ce tc announce info) key_announce_list = Some (TList [TList (map TStr us)]))"
  proof (cases "us = []")
    case True
    then show ?thesis using d unfolding a top_entries_def
      by (simp add: keys key_comments_def key_created_by_def key_creation_date_def)
  next
    case False
    then have "map_of (top_entries ce tc announce info) key_announce_list = Some (TList [TList (map TStr (map (ce_utf8 ce) (u # us)))])"
      unfolding a top_entries_def by (simp add: keys)
    then show ?thesis by blast
  qed
qed

lemma load_urls_strings: "\<exists>us'. load_urls env (nodes_of nf (map TStr us) off) = returns us'"
proof (induction us arbitrary: off)
  case (Cons u us)
  obtain us' where "load_urls env (nodes_of nf (map TStr us) (off + length (enc nf (TStr u)))) = returns us'" using Cons by blast
  then show ?case by (simp add: as_value_node)
qed simp

lemma announce_list_kept:
  assumes "map_of es key_announce_list = None \<or> (\<exists>us. map_of es key_announce_list = Some (TList [TList (map TStr us)]))"
  shows "\<exists>ts. loadAnnounceList env (bd_getData key_announce_list (entries_of nf es off)) t = returns (t\<lparr>t_trackers := ts\<rparr>)"
proof (cases "map_of es key_announce_list")
  case None
  then show ?thesis by (intro exI [of _ "t_trackers t"]) (simp add: getData_entries loadAnnounceList_def)
next
  case (Some v)
  then obtain us where us: "map_of es key_announce_list = Some (TList [TList (map TStr us)])" using assms by auto
  let ?o = "entry_off nf es key_announce_list off + 2"
  obtain us' where "load_urls env (nodes_of nf (map TStr us) ?o) = returns us'" using load_urls_strings by blast
  then show ?thesis using us
    by (intro exI [of _ "Some ((hd (first_tier t) @ us') # [] # tl (first_tier t))"])
       (simp add: getData_entries loadAnnounceList_def Let_def)
qed

lemma node_of_place: "bn_offset (node_of nf t off) = off" "bn_length (node_of nf t off) = length (enc nf t)"
  by (cases t; simp)+

lemma info_hash_kept:
  assumes "map_of es key_info = Some info" "length (enc nf (TDict es)) < 2 ^ 31" "length (sh_tmp (me_gen env)) = 64"
  shows "load_info_hash env (enc nf (TDict es)) (bd_getData key_info (entries_of nf es 1)) t =
    returns (t\<lparr>t_info_hash := sha1_spec (enc nf info)\<rparr>)"
proof -
  obtain pre post where p: "enc_dict nf es = pre @ enc nf info @ post" "entry_off nf es key_info 1 = 1 + length pre"
    using entry_text [OF assms(1), of nf 1] by blast
  have l: "length (enc nf info) < 2 ^ 32" using assms(2) p(1) by simp
  have s: "take (length (enc nf info)) (drop (1 + length pre) (enc nf (TDict es))) = enc nf info" using p(1) by simp
  show ?thesis
    using sha_generate_correct [OF l assms(3)] p assms(1) s
    by (simp add: load_info_hash_def getData_entries node_of_place)
qed

lemma saved_terms_ok:
  assumes "announce_terms ce tc = returns announce" "\<not> tc_decentralized tc" "ce_time ce < 2 ^ 63"
    "creator_size ce tc < 2 ^ 63" "tc_chunk_size tc < 2 ^ 63" "\<forall>pf \<in> set (tc_files tc). tf_size (snd pf) < 2 ^ 63" "n < 2 ^ 63"
  shows "term_ok (TDict (top_entries ce tc announce (info_term ce tc n ps)))"
proof -
  obtain u us where a: "announce = (key_announce, TStr (ce_utf8 ce u)) #
    (if us \<noteq> [] then [(key_announce_list, TList [TList (map (\<lambda>u. TStr (ce_utf8 ce u)) (u # us))])] else [])"
    using announce_cases [OF assms(1,2)] by auto
  have i: "term_ok (info_term ce tc n ps)" using assms(5-7) by (auto simp: info_term_def saveFile_def)
  have an: "\<forall>e \<in> set announce. term_ok (snd e)" unfolding a by auto
  have ti: "term_ok (TInt (int (ce_time ce)))" using assms(3) by simp
  show ?thesis using i an ti assms(2) by (auto simp: top_entries_def)
qed

lemma file_size_le: "pf \<in> set fs \<Longrightarrow> tf_size (snd pf) \<le> total_size (map snd fs)"
  unfolding total_size_def by (rule member_le_sum_list) auto

lemma create_load_result:
  assumes nf: "number_format nf" "ce_nf ce = nf" "me_nf env = nf"
    and c: "creator_fits ce tc" "tc_hashes tc = []" "tc_cur tc = 0" "\<not> tc_decentralized tc"
    and mem: "memory_ok ce" "length (sh_tmp (me_gen env)) = 64" "ce_time ce < 2 ^ 63"
    and str: "text_kept env ce (tc_name tc)" "\<forall>pf \<in> set (tc_files tc). file_kept env ce pf"
    and saved: "saveTorrent ce tc = returns data" "length data < 2 ^ 31"
  shows "\<exists>t. torrent_load env data Torrent_new = returns t \<and> t_name t = tc_name tc \<and> t_piece_length t = tc_chunk_size tc \<and>
    t_file_length t = creator_size ce tc \<and> t_private t = tc_priv tc \<and>
    t_hashes t = map (\<lambda>c. sha1_spec (creator_chunk ce tc c)) [0..<tc_num_chunks tc] \<and>
    map file_view (t_files t) = map file_view (tc_files tc) \<and> placed (tc_chunk_size tc) 0 (map snd (t_files t)) \<and>
    map (tf_index \<circ> snd) (t_files t) = [0..<length (tc_files tc)]"
proof -
  let ?hs = "map (\<lambda>c. sha1_spec (creator_chunk ce tc c)) [0..<tc_num_chunks tc]" let ?n = "creator_size ce tc"
  have ok: "creator_ok ce tc" "tc_chunk_size tc < 2 ^ 32" "?n < 2 ^ 63" using c(1) by (simp_all add: creator_fits_def)
  have hs: "length ?hs = tc_num_chunks tc" "\<forall>h \<in> set ?hs. length h = 20" by (simp_all add: length_digest)
  obtain announce info where an: "announce_terms ce tc = returns announce" and info: "saveInfo ce tc = returns info"
    and data: "data = bo_data (encode nf (torrent_term ce tc announce info) (bo_new []))"
    using saved(1) nf(2) by (auto simp: saveTorrent_def and_then_returns)
  have pieces: "savePieces ce tc = returns (concat ?hs)"
    using calculate_all_eq [OF c(1) mem(1) c(2,3)] c(2) by (simp add: savePieces_def)
  obtain n where n: "info = info_term ce tc n (concat ?hs)" "ce_tree ce = None \<longrightarrow> n = ?n" "n < 2 ^ 63"
  proof (cases "ce_tree ce")
    case None
    then obtain d where f: "ce_file ce (tc_target tc) = Some d" using ok(1) by (auto simp: creator_ok_def)
    have "saveInfo ce tc = returns (info_term ce tc (length d) (concat ?hs))"
      unfolding saveInfo_def pieces open_file_def f using None by simp
    then have "info = info_term ce tc (length d) (concat ?hs)" using info by simp
    moreover have l: "length d = ?n" using None f by (simp add: creator_size_def)
    moreover have "length d < 2 ^ 63" unfolding l by (rule ok(3))
    ultimately show ?thesis using that [of "length d"] by blast
  next
    case (Some tree)
    then have "saveInfo ce tc = returns (info_term ce tc 0 (concat ?hs))" unfolding saveInfo_def pieces by simp
    then have "info = info_term ce tc 0 (concat ?hs)" using info by simp
    then show ?thesis using that [of 0] Some by simp
  qed
  have same: "info_entries ce tc n (concat ?hs) = info_entries ce tc ?n (concat ?hs)"
    using n(2) unfolding info_entries_def by (cases "ce_tree ce") (simp_all only: option.simps not_False_eq_True not_True_eq_False if_True if_False simp_thms)
  let ?es = "top_entries ce tc announce info"
  have d: "data = enc nf (TDict ?es)"
    using data encode_text(1) [of "bo_new []" nf "TDict ?es"] by (simp add: torrent_term_entries bo_full_def bo_new_def)
  have sz: "\<forall>pf \<in> set (tc_files tc). tf_size (snd pf) < 2 ^ 63"
  proof (cases "ce_tree ce")
    case None
    then show ?thesis using ok(1) by (simp add: creator_ok_def)
  next
    case (Some tree)
    then show ?thesis using ok(3) file_size_le by (fastforce simp: creator_size_def)
  qed
  have tok: "term_ok (TDict ?es)"
    unfolding n(1) by (rule saved_terms_ok [OF an c(4) mem(3) ok(3) _ sz n(3)]) (use ok(2) in simp)
  have dec: "bdecode_all nf data 0 = Inr (Some (node_of nf (TDict ?es) 0), length data)"
    using number_format.readsD [OF nf(1) number_format.all_read [OF nf(1) tok], of "[]" "[]" "length data + 1"] saved(2)
    unfolding d bdecode_all_def by simp
  note lk = top_lookup [OF an c(4), of info]
  let ?d = "entries_of nf ?es 1"
  have enc: "bd_getValue key_encoding ?d = None" using lk(1) by (simp add: getValue_entries)
  obtain u where u: "bd_getValue key_announce ?d = Some (VString u)" using lk(4) by (auto simp: getValue_entries)
  have nodes: "bd_getList key_nodes ?d = None" by (rule getList_none [OF lk(3)])
  obtain ts where tr: "load_trackers env ?d Torrent_new = returns (Torrent_new\<lparr>t_trackers := ts\<rparr>)"
    using u nodes by (simp add: load_trackers_def loadTrackerURL_def Let_def)
  let ?t = "Torrent_new\<lparr>t_trackers := ts\<rparr>"
  have dict: "bd_getDict key_info ?d = Some (entries_of nf (info_entries ce tc ?n (concat ?hs)) (entry_off nf ?es key_info 1 + 1))"
    using lk(2) unfolding bd_getDict_def getData_entries n(1) info_term_entries same by simp
  obtain fl where li: "loadInfo env (bd_getDict key_info ?d) ?t =
      returns (?t\<lparr>t_piece_length := tc_chunk_size tc, t_file_length := ?n, t_files := fl, t_hashes := ?hs,
        t_name := tc_name tc, t_private := tc_priv tc\<rparr>)"
    and fl: "map file_view fl = map file_view (tc_files tc)" "placed (tc_chunk_size tc) 0 (map snd fl)"
      "map (tf_index \<circ> snd) fl = [0..<length (tc_files tc)]"
    using loadInfo_kept [OF c(1) str refl hs, where t = ?t and nf = nf] unfolding dict by (auto simp: Torrent_new_def)
  let ?t2 = "?t\<lparr>t_piece_length := tc_chunk_size tc, t_file_length := ?n, t_files := fl, t_hashes := ?hs,
        t_name := tc_name tc, t_private := tc_priv tc\<rparr>"
  obtain ts2 where al: "loadAnnounceList env (bd_getData key_announce_list ?d) ?t2 = returns (?t2\<lparr>t_trackers := ts2\<rparr>)"
    using announce_list_kept [OF lk(5)] by blast
  have ih: "load_info_hash env data (bd_getData key_info ?d) (?t2\<lparr>t_trackers := ts2\<rparr>) =
      returns ((?t2\<lparr>t_trackers := ts2\<rparr>)\<lparr>t_info_hash := sha1_spec (enc nf info)\<rparr>)"
    using info_hash_kept [OF lk(2) _ mem(2)] saved(2) unfolding d by blast
  have "torrent_load env data Torrent_new = returns ((?t2\<lparr>t_trackers := ts2\<rparr>)\<lparr>t_info_hash := sha1_spec (enc nf info)\<rparr>)"
    using enc tr li al ih unfolding torrent_load_def nf(3) dec by (simp add: load_dict_def Let_def)
  then show ?thesis using fl by simp
qed

end
