(* ===== verification/CreateLoad.thy ===== *)
theory CreateLoad
  imports CreatorProps
begin

text \<open>
  Making and loading a torrent end to end: the constructor of \<^verbatim>\<open>TorrentCreator\<close>, its \<^verbatim>\<open>saveTorrent\<close>
  and \<^verbatim>\<open>Torrent::load\<close> on what it wrote. A small torrent of two files is followed through all of it.
\<close>

section \<open>A small torrent\<close>

text \<open>Two files of 1500 and 600 bytes, in pieces of one KiB, and text in one-byte characters.\<close>

definition demo_meta :: meta_env where
  "demo_meta = \<lparr>me_nf = decimal, me_plain = map ucast, me_codec = (\<lambda>_. Some (map ucast)), me_strip = (\<lambda>s. s),
     me_multimedia = (\<lambda>_. False), me_junk = 0, me_gen = \<lparr>sh_h = (0, 0, 0, 0, 0), sh_tmp = replicate 64 0, sh_tmp_len = 0, sh_total_len = 0\<rparr>\<rparr>"

definition demo_a :: bytes where "demo_a = replicate 1500 1"
definition demo_b :: bytes where "demo_b = replicate 600 2"

lemma demo_lengths [simp]: "length demo_a = 1500" "length demo_b = 600"
  by (simp_all only: demo_a_def demo_b_def length_replicate)

definition demo_disk :: "qstring \<Rightarrow> bytes option" where
  "demo_disk p = (if p = [47, 97] then Some demo_a else if p = [47, 98] then Some demo_b else None)"

definition demo_env :: creator_env where
  "demo_env = \<lparr>ce_nf = decimal, ce_utf8 = map ucast, ce_tree = Some (DTree [[97], [98]] []), ce_file = demo_disk,
     ce_fresh = (\<lambda>n. replicate n 0), ce_multimedia = (\<lambda>_. False),
     ce_gen = me_gen demo_meta, ce_version = [], ce_time = 0\<rparr>"

definition demo_new :: "creator creator_result" where
  "demo_new = TorrentCreator_new demo_env [47] [[117]] 1 [116] [] False False"

definition demo_facts :: "creator \<Rightarrow> bool" where
  "demo_facts tc \<longleftrightarrow> map fst (tc_files tc) = [[97], [98]] \<and> map (tf_size \<circ> snd) (tc_files tc) = [1500, 600] \<and>
     map file_view (tc_files tc) = [([97], 0, 1500), ([98], 1500, 600)] \<and> tc_num_chunks tc = 3 \<and> tc_chunk_size tc = 1024 \<and>
     tc_trackers tc = [[117]] \<and> tc_name tc = [116] \<and> tc_comments tc = [] \<and> tc_hashes tc = [] \<and> tc_cur tc = 0 \<and>
     \<not> tc_decentralized tc \<and> \<not> tc_priv tc"

lemma demo_made: "\<exists>tc. demo_new = returns tc \<and> demo_facts tc"
  by (simp add: demo_new_def TorrentCreator_new_def demo_env_def demo_disk_def Let_def open_file_def ends_with_sep_def dir_sep_def
    TorrentFile_new_def creator_counts_def file_view_def demo_facts_def)

lemmas demo_facts = demo_facts_def [THEN iffD1]

lemma demo_size: "map (tf_size \<circ> snd) (tc_files tc) = [1500, 600] \<Longrightarrow> creator_size demo_env tc = 2100"
  by (simp add: creator_size_def demo_env_def total_size_def comp_def)

lemma demo_memory: "memory_ok demo_env" "length (sh_tmp (me_gen demo_meta)) = 64" "ce_time demo_env < 2 ^ 63"
  by (simp_all add: memory_ok_def demo_env_def demo_meta_def)

lemma demo_text: "text_kept demo_meta demo_env [97]" "text_kept demo_meta demo_env [98]" "text_kept demo_meta demo_env [116]"
  by (simp_all add: text_kept_def demo_meta_def demo_env_def)

lemma demo_files:
  assumes "map fst (tc_files tc) = [[97], [98]]"
  shows "\<forall>pf \<in> set (tc_files tc). file_kept demo_meta demo_env pf"
proof
  fix pf assume "pf \<in> set (tc_files tc)"
  then have "fst pf \<in> set (map fst (tc_files tc))" by simp
  then have "fst pf = [97] \<or> fst pf = [98]" unfolding assms by simp
  then show "file_kept demo_meta demo_env pf"
    using demo_text by (auto simp: file_kept_def path_ok_def path_parts_def dir_sep_def ends_with_sep_def dotdot_def)
qed

text \<open>The torrent file of the example: its bytes are computed up to the hashes.\<close>

lemma demo_saved:
  assumes "creator_fits demo_env tc" "demo_facts tc"
  shows "\<exists>data. saveTorrent demo_env tc = returns data \<and> length data < 2 ^ 31"
proof -
  note d = demo_facts [OF assms(2)]
  let ?hs = "map (\<lambda>c. sha1_spec (creator_chunk demo_env tc c)) [0..<3]"
  have pieces: "savePieces demo_env tc = returns (concat ?hs)"
    using calculate_all_eq [OF assms(1) demo_memory(1)] d by (simp add: savePieces_def hashed_to_def)
  have hl: "length (concat ?hs) = 60" by (simp add: length_concat comp_def length_digest sum_list_triv)
  obtain a b where f: "tc_files tc = [([97], a), ([98], b)]" "tf_size a = 1500" "tf_size b = 600"
    using d by (auto simp: map_eq_Cons_conv)
  let ?t = "torrent_term demo_env tc [(key_announce, TStr [117])] (info_term demo_env tc 0 (concat ?hs))"
  have s: "saveTorrent demo_env tc = returns (bo_data (encode decimal ?t (bo_new [])))"
    using d by (simp add: saveTorrent_def saveInfo_def pieces announce_terms_def) (simp add: demo_env_def)
  have "bo_data (encode decimal ?t (bo_new [])) = enc decimal ?t"
    using encode_text(1) [of "bo_new []" decimal ?t] by (simp add: bo_full_def bo_new_def)
  moreover have "length (enc decimal ?t) < 2 ^ 31"
    using hl f d
    by (simp add: torrent_term_def info_term_def saveFile_def demo_env_def path_parts_def dir_sep_def keys key_comments_def key_created_by_def
      key_creation_date_def decimal_def dec_show_def dec_digits.simps)
  ultimately show ?thesis using s by simp
qed

section \<open>Round trip\<close>

lemma add_files_chunk_size: "add_files env dir cnt ns tc = returns tc' \<Longrightarrow> tc_chunk_size tc' = tc_chunk_size tc"
proof (induction ns arbitrary: cnt tc)
  case (Cons n ns)
  then show ?case by (fastforce simp: and_then_returns split: option.splits)
qed simp

lemma build_chunk_size:
  "buildFileList env dir t tc = returns tc' \<Longrightarrow> tc_chunk_size tc' = tc_chunk_size tc"
  "build_subdirs env dir ds tc = returns tc' \<Longrightarrow> tc_chunk_size tc' = tc_chunk_size tc"
proof (induction env dir t tc and env dir ds tc arbitrary: tc' and tc' rule: buildFileList_build_subdirs.induct)
  case (1 env dir fs ds tc)
  then show ?case using add_files_chunk_size by (fastforce simp: and_then_returns)
next
  case (3 env dir n t ds tc)
  show ?case
  proof (cases "n = [46] \<or> n = dotdot")
    case True
    then show ?thesis using 3 by simp
  next
    case False
    then obtain tc1 where "buildFileList env (subdir_path dir n) t tc = returns tc1" "build_subdirs env dir ds tc1 = returns tc'"
      using "3.prems" by (auto simp: and_then_returns)
    then show ?thesis using "3.IH"(2,3) False by simp
  qed
qed simp

lemma creator_new_chunk_size:
  assumes "TorrentCreator_new env target trackers cs name comments priv decentralized = returns tc"
  shows "tc_chunk_size tc = cs * 1024"
proof -
  have c: "tc_chunk_size b = tc_chunk_size a" if "creator_counts a = returns b" for a b
    using that by (auto simp: creator_counts_def Let_def split: if_splits)
  show ?thesis
    using assms build_chunk_size(1) c
    by (fastforce simp: TorrentCreator_new_def Let_def and_then_returns split: option.splits if_splits)
qed

lemma placed_laid_out: "placed cs off fs \<Longrightarrow> map tf_index fs = [k..<k + length fs] \<Longrightarrow> laid_out cs k off fs"
proof (induction fs arbitrary: k off)
  case (Cons f fs)
  have "[k..<k + length (f # fs)] = k # [Suc k..<Suc k + length fs]" by (subst upt_conv_Cons) simp_all
  then show ?case using Cons by simp
qed simp

lemma created_loads:
  assumes "number_format nf" "ce_nf ce = nf" "me_nf env = nf"
    and "TorrentCreator_new ce target trackers kib name comments priv False = returns tc"
    and "kib * 1024 < 2 ^ 31" "creator_size ce tc < 2 ^ 63" "creator_size ce tc div (kib * 1024) + 1 < 2 ^ 32"
    and "memory_ok ce" "length (sh_tmp (me_gen env)) = 64" "ce_time ce < 2 ^ 63"
    and "text_kept env ce name" "\<forall>pf \<in> set (tc_files tc). file_kept env ce pf"
    and "saveTorrent ce tc = returns data" "length data < 2 ^ 31"
  shows "creator_fits ce tc \<and> tc_chunk_size tc = kib * 1024 \<and> (\<exists>t. torrent_load env data Torrent_new = returns t \<and> t_name t = name \<and> t_private t = priv \<and>
    t_piece_length t = kib * 1024 \<and> t_file_length t = creator_size ce tc \<and>
    length (creator_all ce tc) = creator_size ce tc \<and>
    t_hashes t = map (\<lambda>c. sha1_spec (creator_chunk ce tc c)) [0..<(creator_size ce tc + kib * 1024 - 1) div (kib * 1024)] \<and>
    map file_view (t_files t) = map file_view (tc_files tc) \<and> laid_out (kib * 1024) 0 0 (map snd (t_files t)))"
proof -
  have cs: "tc_chunk_size tc = kib * 1024"
    using creator_new_chunk_size [OF assms(4)] .
  have new: "creator_ok ce tc" "tc_hashes tc = []" "tc_cur tc = 0" "\<not> tc_decentralized tc" "tc_name tc = name" "tc_priv tc = priv"
    using creator_new_ok [OF assms(4,6)] assms(7) cs by simp_all
  then have fits: "creator_fits ce tc" using assms(5-7) cs by (simp add: creator_fits_def)
  have num: "tc_num_chunks tc = (creator_size ce tc + kib * 1024 - 1) div (kib * 1024)"
    using new(1) cs by (simp add: creator_ok_def)
  have len: "length (creator_all ce tc) = creator_size ce tc"
    using creator_all_length [OF new(1)] new(1) by (simp add: creator_ok_def)
  have tk: "text_kept env ce (tc_name tc)" using assms(11) new(5) by simp
  obtain t where t: "torrent_load env data Torrent_new = returns t \<and> t_name t = tc_name tc \<and> t_piece_length t = tc_chunk_size tc \<and>
    t_file_length t = creator_size ce tc \<and> t_private t = tc_priv tc \<and>
    t_hashes t = map (\<lambda>c. sha1_spec (creator_chunk ce tc c)) [0..<tc_num_chunks tc] \<and>
    map file_view (t_files t) = map file_view (tc_files tc) \<and> placed (tc_chunk_size tc) 0 (map snd (t_files t)) \<and>
    map (tf_index \<circ> snd) (t_files t) = [0..<length (tc_files tc)]"
    using create_load_result [OF assms(1-3) fits new(2-4) assms(8-10) tk assms(12-14)] by blast
  then have "length (t_files t) = length (tc_files tc)" by (metis length_map)
  then have "laid_out (kib * 1024) 0 0 (map snd (t_files t))" using t cs by (intro placed_laid_out) simp_all
  then have "\<exists>t. torrent_load env data Torrent_new = returns t \<and> t_name t = name \<and> t_private t = priv \<and>
    t_piece_length t = kib * 1024 \<and> t_file_length t = creator_size ce tc \<and>
    length (creator_all ce tc) = creator_size ce tc \<and>
    t_hashes t = map (\<lambda>c. sha1_spec (creator_chunk ce tc c)) [0..<(creator_size ce tc + kib * 1024 - 1) div (kib * 1024)] \<and>
    map file_view (t_files t) = map file_view (tc_files tc) \<and> laid_out (kib * 1024) 0 0 (map snd (t_files t))"
    using t num len cs new(5,6) by (intro exI [of _ t]) simp
  then show ?thesis using fits cs by blast
qed

text \<open>Claim C5: a torrent that KTorrent makes is one that it loads, and describes the data it was made from. The
  loaded torrent has the name, the piece length and the files of the creator, its length is the number of bytes of the
  files, there is one hash for every piece of that data and it is the SHA-1 hash of the piece. No name of the torrent is refused, whatever
  it holds.\<close>

theorem create_load:
  assumes "number_format nf" "ce_nf ce = nf" "me_nf env = nf"
    and "TorrentCreator_new ce target trackers kib name comments priv False = returns tc"
    and "kib * 1024 < 2 ^ 31" "creator_size ce tc < 2 ^ 63" "creator_size ce tc div (kib * 1024) + 1 < 2 ^ 32"
    and "memory_ok ce" "length (sh_tmp (me_gen env)) = 64" "ce_time ce < 2 ^ 63"
    and "text_kept env ce name" "\<forall>pf \<in> set (tc_files tc). file_kept env ce pf"
    and "saveTorrent ce tc = returns data" "length data < 2 ^ 31"
  shows "\<exists>t. torrent_load env data Torrent_new = returns t \<and> t_name t = name \<and> t_private t = priv \<and>
    t_piece_length t = kib * 1024 \<and> t_file_length t = creator_size ce tc \<and>
    length (creator_all ce tc) = creator_size ce tc \<and>
    t_hashes t = map (\<lambda>c. sha1_spec (creator_chunk ce tc c)) [0..<(creator_size ce tc + kib * 1024 - 1) div (kib * 1024)] \<and>
    map file_view (t_files t) = map file_view (tc_files tc) \<and> laid_out (kib * 1024) 0 0 (map snd (t_files t))"
  by (rule created_loads [OF assms, THEN conjunct2, THEN conjunct2])

lemma demo_loaded:
  assumes "demo_new = returns tc"
  shows "creator_fits demo_env tc \<and> demo_facts tc \<and> (\<exists>data. saveTorrent demo_env tc = returns data \<and> length data < 2 ^ 31)"
proof -
  obtain tc' where tc': "demo_new = returns tc'" "demo_facts tc'" using demo_made by (elim exE conjE)
  have "returns tc = (returns tc' :: creator creator_result)" by (rule trans [OF assms [symmetric] tc'(1)])
  then have df: "demo_facts tc" using tc'(2) by (simp only: outcome_eq)
  note d = demo_facts [OF df, THEN conjunct2, THEN conjunct2, THEN conjunct2, THEN conjunct2, THEN conjunct1]
    demo_facts [OF df, THEN conjunct2, THEN conjunct1]
  have sz: "creator_size demo_env tc = 2100" by (rule demo_size [OF d(2)])
  have b: "creator_size demo_env tc < 2 ^ 63" "creator_size demo_env tc div tc_chunk_size tc + 1 < 2 ^ 32"
    unfolding sz d(1) by simp_all
  have "creator_ok demo_env tc" using creator_new_ok [OF assms [unfolded demo_new_def] b] by (rule conjunct1)
  then have f: "creator_fits demo_env tc" using b unfolding creator_fits_def d(1) by simp
  show ?thesis using demo_saved [OF f df] f df by (intro conjI)
qed

text \<open>The torrent of the example, loaded.\<close>

lemma demo_torrent:
  "\<exists>data t. torrent_load demo_meta data Torrent_new = returns t \<and> t_piece_length t = 1024 \<and> t_file_length t = 2100 \<and>
    map file_view (t_files t) = [([97], 0, 1500), ([98], 1500, 600)]"
proof -
  obtain tc where n: "demo_new = returns tc" using demo_made by (elim exE conjE)
  obtain data where s: "saveTorrent demo_env tc = returns data" "length data < 2 ^ 31" and f: "demo_facts tc" and c: "creator_fits demo_env tc"
    using demo_loaded [OF n] by (elim exE conjE)
  note f = demo_facts [OF f]
  note d = f [THEN conjunct1] f [THEN conjunct2, THEN conjunct1] and v = f [THEN conjunct2, THEN conjunct2, THEN conjunct1]
  have nf: "ce_nf demo_env = decimal" "me_nf demo_meta = decimal" by (simp_all add: demo_env_def demo_meta_def)
  have tk: "text_kept demo_meta demo_env (tc_name tc)" using f demo_text by simp
  have e: "tc_hashes tc = []" "tc_cur tc = 0" "\<not> tc_decentralized tc" "tc_chunk_size tc = 1024" using f by simp_all
  from create_load_result [OF dec.number_format_axioms nf c e(1-3) demo_memory tk demo_files [OF d(1)] s]
  obtain t where "torrent_load demo_meta data Torrent_new = returns t" "t_piece_length t = tc_chunk_size tc"
    "t_file_length t = creator_size demo_env tc" "map file_view (t_files t) = map file_view (tc_files tc)"
    by (elim exE conjE)
  then show ?thesis using demo_size [OF d(2)] e(4) v by (intro exI [of _ data] exI [of _ t] conjI) simp_all
qed

theorem create_load_witness:
  "\<exists>tc data t. demo_new = returns tc \<and> saveTorrent demo_env tc = returns data \<and>
    torrent_load demo_meta data Torrent_new = returns t \<and> t_file_length t = 2100 \<and> length (t_hashes t) = 3 \<and>
    map file_view (t_files t) = [([97], 0, 1500), ([98], 1500, 600)] \<and>
    t_hashes t ! 2 = sha1_spec (creator_chunk demo_env tc 2)"
proof -
  obtain tc where n: "demo_new = returns tc" using demo_made by (elim exE conjE)
  obtain data where s: "saveTorrent demo_env tc = returns data" "length data < 2 ^ 31" and f: "demo_facts tc"
    using demo_loaded [OF n] by (elim exE conjE)
  note f = demo_facts [OF f]
  note d = f [THEN conjunct1] f [THEN conjunct2, THEN conjunct1] and v = f [THEN conjunct2, THEN conjunct2, THEN conjunct1]
  note sz = demo_size [OF d(2)]
  have nf: "ce_nf demo_env = decimal" "me_nf demo_meta = decimal" by (simp_all add: demo_env_def demo_meta_def)
  have b: "(1::nat) * 1024 < 2 ^ 31" "creator_size demo_env tc < 2 ^ 63" "creator_size demo_env tc div (1 * 1024) + 1 < 2 ^ 32"
    unfolding sz by simp_all
  from create_load [OF dec.number_format_axioms nf n [unfolded demo_new_def] b demo_memory demo_text(3) demo_files [OF d(1)] s]
  obtain t where "torrent_load demo_meta data Torrent_new = returns t" "t_file_length t = 2100"
    "t_hashes t = map (\<lambda>c. sha1_spec (creator_chunk demo_env tc c)) [0..<3]" "map file_view (t_files t) = map file_view (tc_files tc)"
    unfolding sz by auto
  then show ?thesis using n s(1) v by (intro exI [of _ tc] exI [of _ data] exI [of _ t] conjI) (simp_all add: numeral_2_eq_2)
qed

end
