(* ===== verification/MetaProps.thy ===== *)
theory MetaProps
  imports CreateLoad
begin

text \<open>
  What the rest of the program can rely on after a torrent file was accepted
  (\<^verbatim>\<open>libktorrent/torrent/torrent.cpp\<close>), and the torrent files on which loading fails.
\<close>

section \<open>Files\<close>

text \<open>A path that may be made below the data directory.\<close>

definition safe_path :: "qstring \<Rightarrow> bool" where
  "safe_path p \<longleftrightarrow> dotdot \<notin> set (path_parts p) \<and> \<not> ends_with_sep p"

definition all_wanted :: "torrent \<Rightarrow> bool" where
  "all_wanted t \<longleftrightarrow> (\<forall>pf \<in> set (t_files t). \<not> tf_doNotDownload (snd pf))"

definition files_loaded :: "torrent \<Rightarrow> bool" where
  "files_loaded t \<longleftrightarrow> all_wanted t \<and> (\<forall>pf \<in> set (t_files t). safe_path (fst pf)) \<and>
     map (tf_index \<circ> snd) (t_files t) = [0..<length (t_files t)] \<and>
     (sizes_ok (t_piece_length t) (map snd (t_files t)) \<longrightarrow>
        placed (t_piece_length t) 0 (map snd (t_files t)) \<and> t_file_length t = total_size (map snd (t_files t)))"

definition same_meta :: "torrent \<Rightarrow> torrent \<Rightarrow> bool" where
  "same_meta t t' \<longleftrightarrow> t_trackers t' = t_trackers t \<and> t_name t' = t_name t \<and> t_piece_length t' = t_piece_length t \<and>
     t_hashes t' = t_hashes t \<and> t_private t' = t_private t \<and> t_encoding t' = t_encoding t"

lemma same_meta_trans: "same_meta a b \<Longrightarrow> same_meta b c \<Longrightarrow> same_meta a c"
  by (simp add: same_meta_def)

lemma append_file_ok:
  assumes "append_file env path (length (t_files t)) s t = returns t'" "files_loaded t" "safe_path path"
  shows "files_loaded t' \<and> same_meta t t' \<and> length (t_files t') = Suc (length (t_files t)) \<and> 0 < t_piece_length t"
proof -
  obtain f where f: "TorrentFile_new (length (t_files t)) (me_multimedia env path) (t_file_length t) s (t_piece_length t) = Some f"
    and t': "t' = t\<lparr>t_file_length := (t_file_length t + s) mod 2 ^ 64, t_files := t_files t @ [(path, f)]\<rparr>"
    using assms(1) by (auto simp: append_file_def split: option.splits)
  have sz: "tf_size f = s" "tf_index f = length (t_files t)" "0 < t_piece_length t" "\<not> tf_doNotDownload f"
    using f by (auto simp: TorrentFile_new_def Let_def tf_doNotDownload_def split: if_splits)
  have "placed (t_piece_length t) 0 (map snd (t_files t')) \<and> t_file_length t' = total_size (map snd (t_files t'))"
    if ok: "sizes_ok (t_piece_length t) (map snd (t_files t'))"
  proof -
    have s: "sizes_ok (t_piece_length t) (map snd (t_files t))" using ok sizes_ok_prefix by (fastforce simp: t')
    have tot: "t_file_length t = total_size (map snd (t_files t))" "placed (t_piece_length t) 0 (map snd (t_files t))"
      using assms(2) s by (simp_all add: files_loaded_def)
    have sum: "total_size (map snd (t_files t')) = t_file_length t + s"
      using tot sz by (simp add: t' total_size_append total_size_def)
    then have b: "t_file_length t + s < 2 ^ 63" "(t_file_length t + s) div t_piece_length t < 2 ^ 32"
      using ok by (simp_all add: sizes_ok_def)
    show ?thesis
      using TorrentFile_new_placed [OF f _ b(2)] b(1) tot sum by (simp add: t' placed_append)
  qed
  then show ?thesis using assms(2,3) sz by (simp add: files_loaded_def same_meta_def all_wanted_def t')
qed

lemma loadFiles_ok:
  "loadFiles env ns (length (t_files t)) t = returns t' \<Longrightarrow> files_loaded t \<Longrightarrow> files_loaded t' \<and> same_meta t t'"
proof (induction ns arbitrary: t)
  case Nil
  then show ?case by (simp add: same_meta_def)
next
  case (Cons n ns)
  from Cons.prems(1) obtain d ln path where d: "as_dict n = Some d" "bd_getList key_path d = Some ln"
    "load_path env (t_encoding t) ln [] = returns path"
    by (auto simp: and_then_returns split: option.splits)
  show ?case
  proof (cases "ends_with_sep path")
    case True
    then show ?thesis using Cons d by simp
  next
    case False
    then obtain s t1 where p: "dotdot \<notin> set (path_parts path)" and t1: "append_file env path (length (t_files t)) s t = returns t1"
      and r: "loadFiles env ns (Suc (length (t_files t))) t1 = returns t'"
      using Cons.prems(1) d
      by (auto simp: and_then_returns checkPathForDirectoryTraversal_def split: option.splits if_splits)
    have a: "files_loaded t1 \<and> same_meta t t1 \<and> length (t_files t1) = Suc (length (t_files t))"
      using append_file_ok [OF t1 Cons.prems(2)] p False by (simp add: safe_path_def)
    then have "files_loaded t' \<and> same_meta t1 t'" using Cons.IH [of t1] r by simp
    then show ?thesis using a same_meta_trans by blast
  qed
qed

section \<open>Hashes\<close>

lemma load_hashes_ok: "load_hashes s = Some hs \<Longrightarrow> s = concat hs \<and> (\<forall>h \<in> set hs. length h = 20)"
proof (induction s arbitrary: hs rule: load_hashes.induct)
  case (1 s)
  show ?case
  proof (cases "s = []")
    case True
    then have "hs = []" using "1.prems" by (simp add: load_hashes.simps [of "[]"])
    then show ?thesis using True by simp
  next
    case False
    then obtain hs' where hs: "\<not> length s < 20" "load_hashes (drop 20 s) = Some hs'" "hs = take 20 s # hs'"
      using "1.prems" by (auto simp: load_hashes.simps [of s] split: if_splits option.splits)
    then show ?thesis using "1.IH" [OF False hs(1) hs(2)] by (auto simp: min_def) (metis append_take_drop_id)
  qed
qed

lemma load_hashes_fails: "load_hashes s = None \<longleftrightarrow> length s mod 20 \<noteq> 0"
proof (induction s rule: load_hashes.induct)
  case (1 s)
  show ?case
  proof (cases "s = [] \<or> length s < 20")
    case True
    then show ?thesis by (auto simp: load_hashes.simps [of s])
  next
    case False
    then have m: "(length s - 20) mod 20 = length s mod 20" by (metis le_mod_geq not_less)
    have "load_hashes s = None \<longleftrightarrow> load_hashes (drop 20 s) = None"
      using False by (simp add: load_hashes.simps [of s] split: option.split)
    then show ?thesis using "1.IH" False m by simp
  qed
qed

section \<open>The info dictionary\<close>

lemma loadPieceLength_returns:
  "loadPieceLength v t = returns t' \<longleftrightarrow> (\<exists>b n. v = Some b \<and> val_length b = returns n \<and> t' = t\<lparr>t_piece_length := n\<rparr>)"
  by (auto simp: loadPieceLength_def and_then_returns split: option.split)

lemma loadHash_ok:
  assumes "loadHash v t = returns t'"
  shows "\<exists>s hs. v = Some (VString s) \<and> t' = t\<lparr>t_hashes := t_hashes t @ hs\<rparr> \<and> s = concat hs \<and> (\<forall>h \<in> set hs. length h = 20)"
  using assms load_hashes_ok by (fastforce simp: loadHash_def split: option.splits bvalue.splits)

lemma loadName_returns:
  "loadName env v t = returns t' \<longleftrightarrow> (\<exists>s. v = Some (VString s) \<and> t' = t\<lparr>t_name := val_string_enc env (t_encoding t) (VString s)\<rparr>)"
  by (auto simp: loadName_def split: option.split bvalue.split)

lemma check_chunks_ok:
  assumes "check_chunks t = returns t'" "t_file_length t div t_piece_length t + 1 < 2 ^ 32"
  shows "t' = t \<and> 0 < t_piece_length t \<and> length (t_hashes t) = (t_file_length t + t_piece_length t - 1) div t_piece_length t"
  using assms ceil_div [of "t_piece_length t" "t_file_length t"]
  by (auto simp: check_chunks_def expected_chunks_def Let_def split: if_splits)

lemma load_private_eq: "\<exists>b. load_private env v t = t\<lparr>t_private := b\<rparr>"
  by (rule exI [of _ "t_private (load_private env v t)"]) (simp add: load_private_def split: option.split)

text \<open>A torrent that was loaded: its sizes, files and hashes belong together.\<close>

definition torrent_ok :: "torrent \<Rightarrow> bool" where
  "torrent_ok t \<longleftrightarrow> 0 < t_piece_length t \<and>
     length (t_hashes t) = (t_file_length t + t_piece_length t - 1) div t_piece_length t \<and> (\<forall>h \<in> set (t_hashes t). length h = 20) \<and>
     map (tf_index \<circ> snd) (t_files t) = [0..<length (t_files t)] \<and> (\<forall>pf \<in> set (t_files t). safe_path (fst pf)) \<and>
     (t_files t \<noteq> [] \<longrightarrow> placed (t_piece_length t) 0 (map snd (t_files t)) \<and> t_file_length t = total_size (map snd (t_files t)))"

text \<open>No sum of sizes overflows.\<close>

definition sizes_fit :: "torrent \<Rightarrow> bool" where
  "sizes_fit t \<longleftrightarrow> t_file_length t div t_piece_length t + 1 < 2 ^ 32 \<and> sizes_ok (t_piece_length t) (map snd (t_files t))"

lemma loadInfo_ok:
  assumes "loadInfo env d t = returns t'" "t_files t = []" "t_hashes t = []" "t_file_length t = 0" "sizes_fit t'"
  shows "torrent_ok t' \<and> all_wanted t'"
proof -
  obtain dict where d: "d = Some dict" using assms(1) by (cases d) (simp_all add: loadInfo_def)
  obtain t1 t2 t3 t4 where
    1: "loadPieceLength (bd_getValue key_piece_length dict) t = returns t1" and
    2: "load_lengths env dict t1 = returns t2" and
    3: "loadHash (bd_getValue key_pieces dict) t2 = returns t3" and
    4: "loadName env (bd_getValue key_name dict) t3 = returns t4" and
    5: "check_chunks (load_private env (bd_getValue key_private dict) t4) = returns t'"
    using assms(1) unfolding d loadInfo_def option.case and_then_returns by blast
  have t1: "t_files t1 = []" "t_hashes t1 = []" "t_file_length t1 = 0"
    using 1 assms(2-4) by (auto simp: loadPieceLength_returns)
  have t2: "t_hashes t2 = [] \<and> t_piece_length t2 = t_piece_length t1 \<and>
    (t_files t2 = [] \<or> files_loaded t2)"
  proof (cases "bd_getValue key_length dict")
    case (Some v)
    then show ?thesis using 2 t1 by (auto simp: load_lengths_def loadFileLength_def and_then_returns)
  next
    case None
    then obtain fl where "loadFiles env fl (length (t_files t1)) t1 = returns t2"
      using 2 t1 by (auto simp: load_lengths_def split: option.splits)
    moreover have "files_loaded t1" using t1 by (simp add: files_loaded_def all_wanted_def total_size_def)
    ultimately show ?thesis using loadFiles_ok t1 by (fastforce simp: same_meta_def)
  qed
  obtain s hs where t3: "t3 = t2\<lparr>t_hashes := hs\<rparr>" "\<forall>h \<in> set hs. length h = 20"
    using loadHash_ok [OF 3] t2 by auto
  obtain nm where t4: "t4 = t3\<lparr>t_name := nm\<rparr>" using 4 by (auto simp: loadName_returns)
  obtain b where b: "load_private env (bd_getValue key_private dict) t4 = t4\<lparr>t_private := b\<rparr>"
    using load_private_eq by blast
  have t': "t' = t4\<lparr>t_private := b\<rparr>" using 5 unfolding b by (auto simp: check_chunks_def split: if_splits)
  have c: "check_chunks t' = returns t'" using 5 unfolding b t' .
  have "0 < t_piece_length t' \<and> length (t_hashes t') = (t_file_length t' + t_piece_length t' - 1) div t_piece_length t'"
    using check_chunks_ok [OF c] assms(5) by (simp add: sizes_fit_def)
  moreover have "t_files t' = t_files t2" "t_hashes t' = hs" "t_file_length t' = t_file_length t2" "t_piece_length t' = t_piece_length t2"
    by (simp_all add: t' t4 t3(1))
  ultimately show ?thesis using t2 t3(2) assms(5) by (auto simp: torrent_ok_def files_loaded_def sizes_fit_def all_wanted_def)
qed

section \<open>The whole file\<close>

definition no_data :: "torrent \<Rightarrow> bool" where
  "no_data t \<longleftrightarrow> t_files t = [] \<and> t_hashes t = [] \<and> t_file_length t = 0"

lemma loadTrackerURL_no_data: "loadTrackerURL env v t = returns t' \<Longrightarrow> no_data t \<Longrightarrow> no_data t'"
  by (auto simp: loadTrackerURL_def no_data_def Let_def split: bvalue.splits)

lemma loadNodes_no_data: "loadNodes env ns t = returns t' \<Longrightarrow> no_data t \<Longrightarrow> no_data t'"
proof (induction ns arbitrary: t)
  case (Cons n ns)
  then obtain u where "loadNodes env ns u = returns t'" "t_files u = t_files t" "t_hashes u = t_hashes t" "t_file_length u = t_file_length t"
    by (auto split: option.splits list.splits bvalue.splits)
  then show ?case using Cons by (simp add: no_data_def)
qed simp

lemma load_trackers_no_data: "load_trackers env d t = returns t' \<Longrightarrow> no_data t \<Longrightarrow> no_data t'"
  by (auto simp: load_trackers_def and_then_returns dest: loadTrackerURL_no_data loadNodes_no_data split: option.splits)

lemma torrent_load_parts:
  assumes "torrent_load env data Torrent_new = returns t"
  obtains node n dict t0 t1 t2 where "bdecode_all (me_nf env) data 0 = Inr (node, n)" "as_dict node = Some dict"
    "no_data t0" "loadInfo env (bd_getDict key_info dict) t0 = returns t1"
    "t2 = t1 \<or> (\<exists>ts. t2 = t1\<lparr>t_trackers := ts\<rparr>)" "load_info_hash env data (bd_getData key_info dict) t2 = returns t"
proof -
  obtain node n dict where d: "bdecode_all (me_nf env) data 0 = Inr (node, n)" "as_dict node = Some dict"
    and l: "load_dict env data dict Torrent_new = returns t"
    using assms by (auto simp: torrent_load_def split: sum.splits option.splits)
  let ?t = "case bd_getValue key_encoding dict of Some v \<Rightarrow> Torrent_new\<lparr>t_encoding := val_string env v\<rparr> | None \<Rightarrow> Torrent_new"
  have nd: "no_data ?t" by (simp add: no_data_def Torrent_new_def split: option.split)
  obtain t0 t1 t2 where t: "load_trackers env dict ?t = returns t0" "loadInfo env (bd_getDict key_info dict) t0 = returns t1"
    "loadAnnounceList env (bd_getData key_announce_list dict) t1 = returns t2" "load_info_hash env data (bd_getData key_info dict) t2 = returns t"
    using l unfolding load_dict_def Let_def and_then_returns by blast
  have "t2 = t1 \<or> (\<exists>ts. t2 = t1\<lparr>t_trackers := ts\<rparr>)"
    using t(3) by (auto simp: loadAnnounceList_def Let_def and_then_returns split: option.splits)
  then show ?thesis using that d t load_trackers_no_data [OF t(1) nd] by blast
qed

lemma torrent_load_ok:
  assumes "torrent_load env data Torrent_new = returns t" "sizes_fit t"
  shows "torrent_ok t \<and> all_wanted t"
proof -
  obtain node n dict t0 t1 t2 where l: "bdecode_all (me_nf env) data 0 = Inr (node, n)" "as_dict node = Some dict"
    "no_data t0" "loadInfo env (bd_getDict key_info dict) t0 = returns t1"
    "t2 = t1 \<or> (\<exists>ts. t2 = t1\<lparr>t_trackers := ts\<rparr>)" "load_info_hash env data (bd_getData key_info dict) t2 = returns t"
    using torrent_load_parts [OF assms(1)] .
  have same: "t_piece_length t = t_piece_length t1" "t_file_length t = t_file_length t1" "t_files t = t_files t1" "t_hashes t = t_hashes t1"
    using l(5,6) by (auto simp: load_info_hash_def split: option.splits if_splits)
  then have "sizes_fit t1" using assms(2) by (simp add: sizes_fit_def)
  then have "torrent_ok t1 \<and> all_wanted t1" using loadInfo_ok [OF l(4)] l(3) by (simp add: no_data_def)
  then show ?thesis using same by (simp add: torrent_ok_def all_wanted_def)
qed

lemma torrent_ok_laid_out: "torrent_ok t \<Longrightarrow> laid_out (t_piece_length t) 0 0 (map snd (t_files t))"
  by (cases "t_files t = []") (auto simp: torrent_ok_def intro!: placed_laid_out)

text \<open>Claim C9: a torrent file that is accepted describes its data consistently, unless its sizes overflow. The
  piece length is positive, there is a hash of twenty bytes for every piece that the length needs and
  no other, the files are numbered in order and lie one behind the other with their chunk ranges as the chunk manager expects
  them, their sizes add up to the length, and no path leaves the directory of the torrent.\<close>

theorem accepted_torrent_consistent:
  assumes "torrent_load env data Torrent_new = returns t" "sizes_fit t"
  shows "0 < t_piece_length t \<and>
    length (t_hashes t) = (t_file_length t + t_piece_length t - 1) div t_piece_length t \<and> (\<forall>h \<in> set (t_hashes t). length h = 20) \<and>
    laid_out (t_piece_length t) 0 0 (map snd (t_files t)) \<and>
    (t_files t \<noteq> [] \<longrightarrow> t_file_length t = total_size (map snd (t_files t))) \<and>
    (\<forall>pf \<in> set (t_files t). checkPathForDirectoryTraversal (fst pf) \<and> \<not> ends_with_sep (fst pf))"
  using torrent_load_ok [OF assms] torrent_ok_laid_out [of t]
  by (simp add: torrent_ok_def safe_path_def checkPathForDirectoryTraversal_def)

theorem accepted_torrent_consistent_witness:
  "\<exists>data t. torrent_load demo_meta data Torrent_new = returns t \<and> length (t_files t) = 2 \<and>
    laid_out (t_piece_length t) 0 0 (map snd (t_files t)) \<and> t_file_length t = total_size (map snd (t_files t)) \<and>
    checkPathForDirectoryTraversal (fst (t_files t ! 1))"
proof -
  obtain data t where l: "torrent_load demo_meta data Torrent_new = returns t" and p: "t_piece_length t = 1024" "t_file_length t = 2100"
    and v: "map file_view (t_files t) = [([97], 0, 1500), ([98], 1500, 600)]"
    using demo_torrent by (elim exE conjE)
  obtain x y where fs: "t_files t = [x, y]" "tf_size (snd x) = 1500" "tf_size (snd y) = 600"
    using v by (auto simp: map_eq_Cons_conv file_view_def)
  have fit: "sizes_fit t" using p fs by (simp add: sizes_fit_def sizes_ok_def total_size_def)
  from accepted_torrent_consistent [OF l fit] l fs show ?thesis
    by (intro exI [of _ data] exI [of _ t] conjI) simp_all
qed

section \<open>Torrent files that are not refused\<close>

text \<open>Claim C39: numbers of the info dictionary that should be refused end the program instead. When the
  dictionary has a piece length, a length, pieces and a name of the right types, loading it neither
  returns nor throws exactly when the piece length is zero, which is then a divisor, or when the string of the pieces
  is not a multiple of twenty bytes long, which is then read past its end.\<close>

theorem bad_numbers_crash:
  assumes "bd_getValue key_piece_length d = Some v" "val_length v = returns n"
    and "bd_getValue key_length d = Some w" "val_length w = returns len"
    and "bd_getValue key_pieces d = Some (VString p)" "bd_getValue key_name d = Some (VString s)"
  shows "loadInfo env (Some d) t = None \<longleftrightarrow> n = 0 \<or> length p mod 20 \<noteq> 0"
proof -
  let ?t = "t\<lparr>t_piece_length := n, t_file_length := len\<rparr>"
  have l: "loadInfo env (Some d) t = and_then (loadHash (Some (VString p)) ?t) (\<lambda>t.
      and_then (loadName env (Some (VString s)) t) (\<lambda>t. check_chunks (load_private env (bd_getValue key_private d) t)))"
    using assms by (simp add: loadInfo_def loadPieceLength_def load_lengths_def loadFileLength_def)
  show ?thesis
  proof (cases "load_hashes p")
    case None
    then show ?thesis using load_hashes_fails [of p] by (simp add: l loadHash_def)
  next
    case (Some hs)
    let ?t2 = "?t\<lparr>t_hashes := t_hashes ?t @ hs, t_name := val_string_enc env (t_encoding t) (VString s)\<rparr>"
    have r: "loadInfo env (Some d) t = check_chunks (load_private env (bd_getValue key_private d) ?t2)"
      using Some by (simp add: l loadHash_def loadName_def)
    obtain b where b: "load_private env (bd_getValue key_private d) ?t2 = ?t2\<lparr>t_private := b\<rparr>"
      using load_private_eq by blast
    have "length p mod 20 = 0" using Some load_hashes_fails [of p] by simp
    then show ?thesis unfolding r b by (simp add: check_chunks_def returns_def throws_def)
  qed
qed

theorem bad_numbers_crash_witness:
  "loadInfo demo_meta (Some (entries_of decimal [(key_length, TInt 1), (key_name, TStr [97]), (key_piece_length, TInt 0),
      (key_pieces, TStr (replicate 20 0))] 1)) Torrent_new = None"
proof -
  let ?es = "[(key_length, TInt 1), (key_name, TStr [97]), (key_piece_length, TInt 0), (key_pieces, TStr (replicate 20 0))]"
  let ?d = "entries_of decimal ?es 1"
  have "bd_getValue key_piece_length ?d = Some (VInt 0)" "bd_getValue key_length ?d = Some (VInt 1)"
    "bd_getValue key_pieces ?d = Some (VString (replicate 20 0))" "bd_getValue key_name ?d = Some (VString [97])"
    by (simp_all add: getValue_entries keys)
  from bad_numbers_crash [OF this(1) _ this(2) _ this(3,4), of 0 1] show ?thesis by simp
qed

end
