(* ===== verification/DataCheckProps.thy ===== *)
theory DataCheckProps
  imports DataCheck MetaProps
begin

text \<open>
  Correctness of the data checkers: on complete data they find exactly the chunks whose hash is
  right, also for a torrent that was made and loaded by KTorrent itself. On files that are too
  short they can accept data that is not there.
\<close>

section \<open>The result\<close>

definition check_all :: "(nat \<Rightarrow> bool) \<Rightarrow> nat list \<Rightarrow> checked \<Rightarrow> checked" where
  "check_all good is r = fold (\<lambda>i. checked_set i (good i)) is r"

lemma check_all_Cons [simp]:
  "check_all good [] r = r" "check_all good (i # is) r = check_all good is (checked_set i (good i) r)"
  by (simp_all add: check_all_def)

definition checked_ok :: "nat \<Rightarrow> checked \<Rightarrow> bool" where
  "checked_ok n r \<longleftrightarrow> bs_ok (dc_downloaded r) \<and> bs_ok (dc_failed r) \<and> bs_num_bits (dc_downloaded r) = n \<and> bs_num_bits (dc_failed r) = n"

lemma check_all_bits:
  "checked_ok n r \<Longrightarrow> set is \<subseteq> {..<n} \<Longrightarrow>
   checked_ok n (check_all good is r) \<and>
   (\<forall>i. bs_get (dc_downloaded (check_all good is r)) i = (if i \<in> set is then good i else bs_get (dc_downloaded r) i)) \<and>
   (\<forall>i. bs_get (dc_failed (check_all good is r)) i = (if i \<in> set is then \<not> good i else bs_get (dc_failed r) i))"
proof (induction "is" arbitrary: r)
  case (Cons j js)
  have "checked_ok n (checked_set j (good j) r)" using Cons.prems(1) by (simp add: checked_ok_def checked_set_def bs_ok_bs_set)
  from Cons.IH [OF this] Cons.prems show ?case
    by (auto simp: checked_ok_def checked_set_def bits.get_put_eq)
qed simp

lemma checked_new_ok: "n < 2 ^ 32 \<Longrightarrow> checked_ok n (checked_new n)"
  by (simp add: checked_ok_def checked_new_def bs_ok_new)

lemma check_all_result:
  assumes "n < 2 ^ 32" "i < n"
  shows "bs_get (dc_downloaded (check_all good [0..<n] (checked_new n))) i \<longleftrightarrow> good i"
    "bs_get (dc_failed (check_all good [0..<n] (checked_new n))) i \<longleftrightarrow> \<not> good i"
  using check_all_bits [OF checked_new_ok [OF assms(1)], of "[0..<n]" good] assms(2) by (simp_all add: atLeast0LessThan)

section \<open>Reading and hashing\<close>

lemma check_read_fill:
  assumes "take (length p) buf = p" "length p + n \<le> length buf" "length (take n (drop pos content)) = n"
  shows "\<exists>buf'. check_read buf (length p) content pos n = Some (buf', n) \<and> length buf' = length buf \<and>
    take (length p + n) buf' = p @ take n (drop pos content)"
proof -
  let ?d = "take n (drop pos content)"
  have "check_read buf (length p) content pos n = Some (memcpy buf (length p) ?d (length ?d), n)"
    unfolding check_read_def Let_def using assms(2,3) by simp
  moreover have "length p + length ?d \<le> length buf" using assms(2,3) by simp
  ultimately show ?thesis using fill_step [OF assms(1), of ?d] assms(3) by simp
qed

lemma check_hash_eq:
  "length (sh_tmp g) = 64 \<Longrightarrow> length d < 2 ^ 32 \<Longrightarrow> i < length (t_hashes t) \<Longrightarrow>
   check_hash g d i t = Some (sha1_spec d = t_hashes t ! i)"
  by (simp add: check_hash_def t_getHash_def sha_generate_correct)

lemma last_chunk_size:
  assumes "0 < (cs :: nat)" "c < (n + cs - 1) div cs"
  shows "(if c = (n + cs - 1) div cs - 1 \<and> n mod cs > 0 then n mod cs else cs) = min cs (n - c * cs)"
proof -
  let ?q = "n div cs" let ?r = "n mod cs"
  have n: "n = ?q * cs + ?r" "?r < cs" using assms(1) by simp_all
  note num = ceil_div [OF assms(1), of n]
  show ?thesis
  proof (cases "c < ?q")
    case True
    then have "Suc c * cs \<le> ?q * cs" by (intro mult_le_mono1) simp
    also have "?q * cs \<le> n" by simp
    finally have "cs \<le> n - c * cs" by simp
    moreover have "c = (n + cs - 1) div cs - 1 \<longrightarrow> \<not> ?r > 0" using num True by auto
    ultimately show ?thesis by auto
  next
    case False
    then have "?r > 0" "c = ?q" using assms(2) num by (simp_all split: if_splits)
    moreover from this have "n - c * cs = ?r" using n(1) by (metis diff_add_inverse)
    ultimately show ?thesis using num n(2) by simp
  qed
qed

section \<open>One file\<close>

lemma single_loop_good:
  assumes "length (sh_tmp g) = 64" "0 < t_piece_length t" "t_piece_length t < 2 ^ 32" "length d = t_file_length t"
    and "length (t_hashes t) = (t_file_length t + t_piece_length t - 1) div t_piece_length t"
  shows "set is \<subseteq> {..<length (t_hashes t)} \<Longrightarrow> length buf = t_piece_length t \<Longrightarrow>
    single_loop g (\<lambda>_. False) d t is buf False r =
      Some (check_all (\<lambda>i. sha1_spec (take (t_piece_length t) (drop (i * t_piece_length t) d)) = t_hashes t ! i) is r)"
proof (induction "is" arbitrary: buf r)
  case (Cons i js)
  let ?cs = "t_piece_length t" let ?n = "single_chunk_size t i" let ?d = "take ?n (drop (i * ?cs) d)"
  have i: "i < length (t_hashes t)" using Cons.prems(1) by simp
  have n: "?n = min ?cs (length d - i * ?cs)"
    using last_chunk_size [OF assms(2), of i "t_file_length t"] i assms(3,4) unfolding single_chunk_size_def assms(5)
    by (simp add: min_def split: if_splits)
  then have l: "length ?d = ?n" and e: "?d = take ?cs (drop (i * ?cs) d)" by (simp_all add: min_def)
  obtain buf' where b: "check_read buf 0 d (i * ?cs) ?n = Some (buf', ?n)" "length buf' = ?cs" "take ?n buf' = ?d"
    using check_read_fill [of "[]" buf ?n "i * ?cs" d] Cons.prems(2) l n by auto
  have "check_hash g ?d i t = Some (sha1_spec ?d = t_hashes t ! i)"
    using check_hash_eq [OF assms(1) _ i] l n assms(3) by simp
  then show ?case using Cons.IH [OF _ b(2)] Cons.prems(1) b unfolding e by (simp add: Let_def)
qed simp

section \<open>Several files\<close>

text \<open>The files of a torrent are all wanted and complete on disk.\<close>

definition complete_on :: "check_disk \<Rightarrow> torrent \<Rightarrow> (nat \<Rightarrow> bytes) \<Rightarrow> bool" where
  "complete_on disk t D \<longleftrightarrow> (\<forall>k < length (t_files t). \<not> tf_doNotDownload (snd (t_files t ! k)) \<and>
     cd_file disk (fst (t_files t ! k)) = Some (D k) \<and> length (D k) = tf_size (snd (t_files t ! k)))"

lemma complete_onD:
  assumes "complete_on disk t D" "k < length (t_files t)"
  shows "\<not> tf_doNotDownload (snd (t_files t ! k))" "cd_file disk (fst (t_files t ! k)) = Some (D k)"
    "length (D k) = tf_size (map snd (t_files t) ! k)"
  using assms by (simp_all add: complete_on_def)

lemma load_parts_fills:
  assumes "placed cs 0 fs" "0 < cs" "cs < 2 ^ 32" "covers c fs l" "c * cs < total_size fs" "complete_on disk t D"
    and "fs = map snd (t_files t)" "t_piece_length t = cs"
  shows "i \<le> length l \<Longrightarrow> chunk_len cs c fs \<le> length buf \<Longrightarrow>
    take (length (concat (map (piece_of cs c fs D) (take i l)))) buf = concat (map (piece_of cs c fs D) (take i l)) \<Longrightarrow>
    \<exists>buf'. load_parts disk t c (chunk_len cs c fs) (length l) i (drop i l) buf (sum_list (map (cut cs c fs) (take i l))) = Some (True, buf') \<and>
      length buf' = length buf \<and> take (chunk_len cs c fs) buf' = chunk_data cs c fs D"
proof (induction "length l - i" arbitrary: i buf)
  case 0
  have D: "\<forall>k < length fs. length (D k) = tf_size (fs ! k)" using complete_onD(3) [OF assms(6)] assms(7) by simp
  have "length (concat (map (piece_of cs c fs D) l)) = chunk_len cs c fs"
    using length_concat_pieces [of l D fs cs c] covers_mem [OF assms(4)] D sum_cuts_list [OF assms(1,2,4,5)] by simp
  then show ?case using 0 chunk_data_pieces [OF assms(1,2,4) D] by simp
next
  case (Suc m)
  then have i: "i < length l" by simp
  let ?k = "l ! i" let ?p = "concat (map (piece_of cs c fs D) (take i l))" let ?n = "cut cs c fs ?k"
  let ?o = "c * cs - tf_off (fs ! ?k)"
  have k: "?k < length fs" "tf_first (fs ! ?k) \<le> c" "c \<le> tf_last (fs ! ?k)" using covers_mem [OF assms(4)] i by simp_all
  have kt: "?k < length (t_files t)" using k(1) assms(7) by simp
  note d = complete_onD [OF assms(6) kt, folded assms(7)]
  have f: "snd (t_files t ! ?k) = fs ! ?k" using kt assms(7) by simp
  note pc = portion_cut [OF assms(1-5) i]
  have D: "\<forall>k \<in> set (take i l). length (D k) = tf_size (fs ! k)"
    using covers_mem [OF assms(4)] complete_onD(3) [OF assms(6)] assms(7) by (auto dest: in_set_takeD)
  have lp: "length ?p = sum_list (map (cut cs c fs) (take i l))" by (rule length_concat_pieces [OF D])
  have sum: "sum_list (map (cut cs c fs) (take (Suc i) l)) = length ?p + ?n"
    using i lp by (simp add: take_Suc_conv_app_nth)
  have "sum_list (map (cut cs c fs) (take (Suc i) l)) \<le> sum_list (map (cut cs c fs) l)"
    by (metis append_take_drop_id le_add1 map_append sum_list_append)
  then have fit: "length ?p + ?n \<le> length buf"
    using sum sum_cuts_list [OF assms(1,2,4,5)] Suc.prems(2) by simp
  have pl: "length (piece_of cs c fs D ?k) = ?n" "piece_of cs c fs D ?k = take ?n (drop ?o (D ?k))"
    using length_piece_of d(3) by (simp_all add: piece_of_def)
  have o: "\<not> length (D ?k) < ?o"
    using in_chunk [OF assms(1,2) k] d(3) by (cases "tf_size (fs ! ?k) = 0") simp_all
  obtain buf' where b: "check_read buf (length ?p) (D ?k) ?o ?n = Some (buf', ?n)"
    "length buf' = length buf" "take (length ?p + ?n) buf' = ?p @ piece_of cs c fs D ?k"
    using check_read_fill [OF Suc.prems(3) fit, of ?o "D ?k"] pl by auto
  have q: "concat (map (piece_of cs c fs D) (take (Suc i) l)) = ?p @ piece_of cs c fs D ?k"
    using i by (simp add: take_Suc_conv_app_nth)
  have "\<exists>buf''. load_parts disk t c (chunk_len cs c fs) (length l) (Suc i) (drop (Suc i) l) buf'
      (sum_list (map (cut cs c fs) (take (Suc i) l))) = Some (True, buf'') \<and>
      length buf'' = length buf' \<and> take (chunk_len cs c fs) buf'' = chunk_data cs c fs D"
    by (rule Suc.hyps(1)) (use Suc.hyps(2) i Suc.prems(2) b q pl in simp_all)
  then show ?case
    using d(1,2) b(1,2) pc lp sum o f assms(8)
    by (simp add: Cons_nth_drop_Suc [OF i, symmetric] Let_def)
qed

lemma ReadFullChunk_fills:
  assumes "placed cs 0 fs" "0 < cs" "cs < 2 ^ 32" "covers c fs [k]" "c * cs < total_size fs" "complete_on disk t D"
    and "fs = map snd (t_files t)" "t_piece_length t = cs" "chunk_len cs c fs \<le> length buf"
  shows "\<exists>buf' n. ReadFullChunk disk c (chunk_len cs c fs) (t_files t ! k) t buf = Some (buf', n) \<and>
    length buf' = length buf \<and> take (chunk_len cs c fs) buf' = chunk_data cs c fs D"
proof -
  have k: "k < length (t_files t)" using covers_mem [OF assms(4)] assms(7) by simp
  note d = complete_onD [OF assms(6) k, folded assms(7)]
  have f: "snd (t_files t ! k) = fs ! k" using k assms(7) by simp
  have pc: "cut cs c fs k = chunk_len cs c fs" "tf_fileOffset (fs ! k) c cs = c * cs - tf_off (fs ! k)"
    using portion_cut [OF assms(1-5), of 0] by (simp_all add: portion_def portion_off_def)
  have D: "\<forall>k < length fs. length (D k) = tf_size (fs ! k)" using complete_onD(3) [OF assms(6)] assms(7) by simp
  have p: "chunk_data cs c fs D = piece_of cs c fs D k" using chunk_data_pieces [OF assms(1,2,4) D] by simp
  have l: "length (piece_of cs c fs D k) = chunk_len cs c fs" using length_piece_of [of D k fs cs c] d(3) pc(1) by simp
  obtain buf' where "check_read buf 0 (D k) (c * cs - tf_off (fs ! k)) (chunk_len cs c fs) = Some (buf', chunk_len cs c fs)"
    "length buf' = length buf" "take (chunk_len cs c fs) buf' = piece_of cs c fs D k"
    using check_read_fill [of "[]" buf "chunk_len cs c fs" "c * cs - tf_off (fs ! k)" "D k"] assms(9) l pc(1)
    by (auto simp: piece_of_def)
  then show ?thesis using d(2) f pc(2) p assms(8) by (simp add: ReadFullChunk_def)
qed

text \<open>A torrent of several files as it was loaded, in 32-bit pieces.\<close>

definition multi_torrent :: "torrent \<Rightarrow> bool" where
  "multi_torrent t \<longleftrightarrow> torrent_ok t \<and> t_files t \<noteq> [] \<and> t_piece_length t < 2 ^ 32 \<and> length (t_hashes t) < 2 ^ 32"

lemma multi_torrentD:
  assumes "multi_torrent t"
  shows "placed (t_piece_length t) 0 (map snd (t_files t))" "0 < t_piece_length t" "t_piece_length t < 2 ^ 32"
    "t_file_length t = total_size (map snd (t_files t))" "length (t_hashes t) < 2 ^ 32"
    "length (t_hashes t) = (total_size (map snd (t_files t)) + t_piece_length t - 1) div t_piece_length t"
    "\<forall>i < length (map snd (t_files t)). tf_index (map snd (t_files t) ! i) = i"
proof -
  note t = assms [unfolded multi_torrent_def torrent_ok_def]
  show "placed (t_piece_length t) 0 (map snd (t_files t))" "0 < t_piece_length t" "t_piece_length t < 2 ^ 32"
    "t_file_length t = total_size (map snd (t_files t))" "length (t_hashes t) < 2 ^ 32"
    using t by blast+
  then show "length (t_hashes t) = (total_size (map snd (t_files t)) + t_piece_length t - 1) div t_piece_length t"
    using t by metis
  have "tf_index (snd (t_files t ! i)) = i" if "i < length (t_files t)" for i
    using that t nth_map [of i "t_files t" "tf_index \<circ> snd"] by simp
  then show "\<forall>i < length (map snd (t_files t)). tf_index (map snd (t_files t) ! i) = i" by simp
qed

lemma chunk_size_32:
  assumes "0 < (cs :: nat)" "cs < 2 ^ 32" "r < cs"
  shows "(let x = (if P then r else cs) mod 2 ^ 32 in if x = 0 then cs mod 2 ^ 32 else x) = (if P \<and> r > 0 then r else cs)"
proof -
  have "r mod 2 ^ 32 = r" "cs mod 2 ^ 32 = cs" using assms by (simp_all only: mod_less less_trans)
  then show ?thesis using assms(1) by (cases P; cases "r = 0"; simp add: Let_def)
qed

lemma multi_chunk_size_eq:
  assumes "multi_torrent t" "c < length (t_hashes t)"
  shows "multi_chunk_size t c = chunk_len (t_piece_length t) c (map snd (t_files t))"
proof -
  note m = multi_torrentD [OF assms(1)]
  let ?n = "t_file_length t" let ?cs = "t_piece_length t"
  have num: "length (t_hashes t) = (?n + ?cs - 1) div ?cs" unfolding m(4) by (rule m(6))
  have "multi_chunk_size t c = (if c = length (t_hashes t) - 1 \<and> ?n mod ?cs > 0 then ?n mod ?cs else ?cs)"
    unfolding multi_chunk_size_def by (rule chunk_size_32 [OF m(2,3)]) (simp add: m(2))
  also have "\<dots> = min ?cs (?n - c * ?cs)"
    using last_chunk_size [OF m(2), of c ?n] assms(2) unfolding num by simp
  finally show ?thesis unfolding m(4) chunk_len_def .
qed

lemma check_loadChunk_complete:
  assumes "multi_torrent t" "c < length (t_hashes t)" "complete_on disk t D" "length buf = t_piece_length t"
  shows "\<exists>buf'. check_loadChunk disk c (multi_chunk_size t c) t buf = Some (True, buf') \<and> length buf' = t_piece_length t \<and>
    take (multi_chunk_size t c) buf' = chunk_data (t_piece_length t) c (map snd (t_files t)) D"
proof -
  let ?fs = "map snd (t_files t)" let ?cs = "t_piece_length t" let ?l = "t_calcChunkPos c t"
  note m = multi_torrentD [OF assms(1)]
  have cov: "covers c ?fs ?l" unfolding t_calcChunkPos_def by (rule calc_covers [OF assms(2) m(7)])
  have w: "c * ?cs < total_size ?fs" using chunk_index_less [OF m(2)] assms(2) m(6) by simp
  have le: "chunk_len ?cs c ?fs \<le> length buf" using assms(4) by (simp add: chunk_len_def)
  show ?thesis
  proof (cases "length ?l = 1")
    case True
    then obtain k where l: "?l = [k]" by (auto simp: length_Suc_conv)
    have k: "k < length (t_files t)" using covers_mem [OF cov] l by simp
    obtain buf' n where "ReadFullChunk disk c (chunk_len ?cs c ?fs) (t_files t ! k) t buf = Some (buf', n)"
      "length buf' = length buf" "take (chunk_len ?cs c ?fs) buf' = chunk_data ?cs c ?fs D"
      using ReadFullChunk_fills [OF m(1-3) cov [unfolded l] w assms(3) refl refl le] by blast
    then show ?thesis
      using complete_onD(1) [OF assms(3) k] l assms(4) by (simp add: check_loadChunk_def multi_chunk_size_eq [OF assms(1,2)])
  next
    case False
    then show ?thesis
      using load_parts_fills [OF m(1-3) cov w assms(3) refl refl, of 0 buf] le assms(4)
      by (simp add: check_loadChunk_def multi_chunk_size_eq [OF assms(1,2)] Let_def)
  qed
qed

lemma multi_loop_good:
  assumes "length (sh_tmp g) = 64" "multi_torrent t" "complete_on disk t D"
  shows "set is \<subseteq> {..<length (t_hashes t)} \<Longrightarrow> length buf = t_piece_length t \<Longrightarrow>
    multi_loop g (\<lambda>_. False) disk t is buf r =
      Some (check_all (\<lambda>c. sha1_spec (chunk_data (t_piece_length t) c (map snd (t_files t)) D) = t_hashes t ! c) is r)"
proof (induction "is" arbitrary: buf r)
  case (Cons c cs)
  let ?d = "chunk_data (t_piece_length t) c (map snd (t_files t)) D"
  have c: "c < length (t_hashes t)" using Cons.prems(1) by simp
  obtain buf' where b: "check_loadChunk disk c (multi_chunk_size t c) t buf = Some (True, buf')" "length buf' = t_piece_length t"
    "take (multi_chunk_size t c) buf' = ?d"
    using check_loadChunk_complete [OF assms(2) c assms(3) Cons.prems(2)] by blast
  have "length ?d \<le> t_piece_length t" by (simp add: chunk_data_def chunk_len_def)
  then have "check_hash g ?d c t = Some (sha1_spec ?d = t_hashes t ! c)"
    using check_hash_eq [OF assms(1) _ c] multi_torrentD(3) [OF assms(2)] by simp
  then show ?case using Cons.IH [OF _ b(2)] Cons.prems(1) b by (simp add: Let_def)
qed simp

section \<open>Complete data\<close>

text \<open>Claim C8: on complete data the checkers tell the truth. For a torrent of one file, and for a torrent of
  several files that are all wanted, the check ends, a chunk counts as downloaded exactly when the SHA-1 hash of its
  bytes, gathered from all the files it lies in, is the hash of the torrent, and as failed
  exactly when it is not.\<close>

theorem data_check_exact:
  assumes "length (sh_tmp g) = 64" "\<forall>n. length (fresh n) = n" "torrent_ok t" "t_piece_length t < 2 ^ 32" "length (t_hashes t) < 2 ^ 32"
  shows "(length d = t_file_length t \<longrightarrow>
      (\<exists>r. single_check g fresh (\<lambda>_. False) (Some d) t = Some r \<and>
        (\<forall>i < length (t_hashes t).
          (bs_get (dc_downloaded r) i \<longleftrightarrow> sha1_spec (take (t_piece_length t) (drop (i * t_piece_length t) d)) = t_hashes t ! i) \<and>
          (bs_get (dc_failed r) i \<longleftrightarrow> \<not> bs_get (dc_downloaded r) i)))) \<and>
    (t_files t \<noteq> [] \<longrightarrow> complete_on disk t D \<longrightarrow>
      (\<exists>r. multi_check g fresh (\<lambda>_. False) disk t = Some r \<and>
        (\<forall>i < length (t_hashes t).
          (bs_get (dc_downloaded r) i \<longleftrightarrow> sha1_spec (chunk_data (t_piece_length t) i (map snd (t_files t)) D) = t_hashes t ! i) \<and>
          (bs_get (dc_failed r) i \<longleftrightarrow> \<not> bs_get (dc_downloaded r) i))))"
proof (intro conjI impI)
  let ?N = "length (t_hashes t)"
  have t: "0 < t_piece_length t" "?N = (t_file_length t + t_piece_length t - 1) div t_piece_length t"
    using assms(3) unfolding torrent_ok_def by blast+
  assume "length d = t_file_length t"
  let ?good = "\<lambda>i. sha1_spec (take (t_piece_length t) (drop (i * t_piece_length t) d)) = t_hashes t ! i"
  have "single_check g fresh (\<lambda>_. False) (Some d) t = Some (check_all ?good [0..<?N] (checked_new ?N))"
    unfolding single_check_def option.case
    by (rule single_loop_good [OF assms(1) t(1) assms(4) \<open>length d = t_file_length t\<close> t(2)])
       (use assms(2,4) in \<open>simp_all add: atLeast0LessThan\<close>)
  then show "\<exists>r. single_check g fresh (\<lambda>_. False) (Some d) t = Some r \<and>
      (\<forall>i < ?N. (bs_get (dc_downloaded r) i \<longleftrightarrow> ?good i) \<and> (bs_get (dc_failed r) i \<longleftrightarrow> \<not> bs_get (dc_downloaded r) i))"
    by (intro exI [of _ "check_all ?good [0..<?N] (checked_new ?N)"] conjI allI impI) (simp_all only: check_all_result [OF assms(5)])
next
  let ?N = "length (t_hashes t)"
  assume "t_files t \<noteq> []" "complete_on disk t D"
  let ?good = "\<lambda>i. sha1_spec (chunk_data (t_piece_length t) i (map snd (t_files t)) D) = t_hashes t ! i"
  have "multi_torrent t" using assms(3-5) \<open>t_files t \<noteq> []\<close> by (simp add: multi_torrent_def)
  then have "multi_check g fresh (\<lambda>_. False) disk t = Some (check_all ?good [0..<?N] (checked_new ?N))"
    unfolding multi_check_def
    by (rule multi_loop_good [OF assms(1) _ \<open>complete_on disk t D\<close>]) (use assms(2) in \<open>simp_all add: atLeast0LessThan\<close>)
  then show "\<exists>r. multi_check g fresh (\<lambda>_. False) disk t = Some r \<and>
      (\<forall>i < ?N. (bs_get (dc_downloaded r) i \<longleftrightarrow> ?good i) \<and> (bs_get (dc_failed r) i \<longleftrightarrow> \<not> bs_get (dc_downloaded r) i))"
    by (intro exI [of _ "check_all ?good [0..<?N] (checked_new ?N)"] conjI allI impI) (simp_all only: check_all_result [OF assms(5)])
qed

definition tiny_torrent :: torrent where
  "tiny_torrent = Torrent_new\<lparr>t_piece_length := 4, t_file_length := 6, t_hashes := [sha1_spec [1, 2, 3, 4], sha1_spec [5, 7]],
     t_files := [([97], the (TorrentFile_new 0 False 0 3 4)), ([98], the (TorrentFile_new 1 False 3 3 4))]\<rparr>"

definition tiny_disk :: check_disk where
  "tiny_disk = \<lparr>cd_file = [[97] \<mapsto> [1, 2, 3], [98] \<mapsto> [4, 5, 6]], cd_dnd = Map.empty\<rparr>"

lemma tiny_ok: "torrent_ok tiny_torrent"
  by (simp add: torrent_ok_def tiny_torrent_def Torrent_new_def TorrentFile_new_def safe_path_def path_parts_def dir_sep_def dotdot_def
    ends_with_sep_def length_digest total_size_def)

theorem data_check_exact_witness:
  "\<exists>r. multi_check (me_gen demo_meta) (\<lambda>n. replicate n 0) (\<lambda>_. False) tiny_disk tiny_torrent = Some r \<and>
    bs_get (dc_downloaded r) 0 \<and> \<not> bs_get (dc_failed r) 0 \<and>
    (bs_get (dc_downloaded r) 1 \<longleftrightarrow> sha1_spec [5, 6] = sha1_spec [5, 7])"
proof -
  let ?D = "\<lambda>k :: nat. if k = 0 then [1, 2, 3] else [4, 5, 6 :: u8]"
  have c: "complete_on tiny_disk tiny_torrent ?D"
    by (auto simp: complete_on_def tiny_disk_def tiny_torrent_def TorrentFile_new_def tf_doNotDownload_def nth_Cons less_Suc_eq split: nat.split)
  have f: "t_files tiny_torrent \<noteq> []" "length (t_hashes tiny_torrent) = 2" "t_piece_length tiny_torrent = 4"
    "t_hashes tiny_torrent ! 0 = sha1_spec [1, 2, 3, 4]" "t_hashes tiny_torrent ! 1 = sha1_spec [5, 7]"
    by (simp_all add: tiny_torrent_def)
  have d: "chunk_data 4 0 (map snd (t_files tiny_torrent)) ?D = [1, 2, 3, 4]" "chunk_data 4 1 (map snd (t_files tiny_torrent)) ?D = [5, 6]"
    by (simp_all add: chunk_data_def chunk_len_def total_size_def tiny_torrent_def TorrentFile_new_def)
  have g: "length (sh_tmp (me_gen demo_meta)) = 64" "\<forall>n. length (replicate n (0 :: u8)) = n"
    "t_piece_length tiny_torrent < 2 ^ 32" "length (t_hashes tiny_torrent) < 2 ^ 32"
    by (simp_all add: demo_meta_def tiny_torrent_def)
  from data_check_exact [OF g(1,2) tiny_ok g(3,4), THEN conjunct2, THEN mp, THEN mp, OF f(1) c]
  obtain r where r: "multi_check (me_gen demo_meta) (\<lambda>n. replicate n 0) (\<lambda>_. False) tiny_disk tiny_torrent = Some r"
    "\<forall>i < 2. (bs_get (dc_downloaded r) i \<longleftrightarrow> sha1_spec (chunk_data 4 i (map snd (t_files tiny_torrent)) ?D) = t_hashes tiny_torrent ! i) \<and>
      (bs_get (dc_failed r) i \<longleftrightarrow> \<not> bs_get (dc_downloaded r) i)"
    unfolding f(2,3) by auto
  from r(2) [rule_format, of 0] r(2) [rule_format, of 1] r(1) show ?thesis unfolding d f(4,5) by auto
qed

section \<open>Data of a torrent made here\<close>

definition creator_disk :: "creator_env \<Rightarrow> creator \<Rightarrow> check_disk" where
  "creator_disk ce tc = \<lparr>cd_file = (\<lambda>p. ce_file ce (tc_target tc @ p)), cd_dnd = Map.empty\<rparr>"

lemma file_view_nth:
  assumes "map file_view a = map file_view b" "k < length a"
  shows "fst (a ! k) = fst (b ! k)" "tf_size (snd (a ! k)) = tf_size (snd (b ! k))" "length a = length b"
proof -
  show l: "length a = length b" using assms(1) by (metis length_map)
  have "file_view (a ! k) = file_view (b ! k)" using assms l by (metis nth_map)
  then show "fst (a ! k) = fst (b ! k)" "tf_size (snd (a ! k)) = tf_size (snd (b ! k))" by (simp_all add: file_view_def)
qed

text \<open>Which of the two checkers runs.\<close>

definition check_created :: "sha1 \<Rightarrow> (nat \<Rightarrow> bytes) \<Rightarrow> creator_env \<Rightarrow> creator \<Rightarrow> torrent \<Rightarrow> checked option" where
  "check_created g fresh ce tc t =
     (if t_files t \<noteq> [] then multi_check g fresh (\<lambda>_. False) (creator_disk ce tc) t
      else single_check g fresh (\<lambda>_. False) (ce_file ce (tc_target tc)) t)"

lemma created_complete:
  assumes "creator_ok ce tc" "map file_view (t_files t) = map file_view (tc_files tc)" "all_wanted t" "ce_tree ce \<noteq> None"
  shows "complete_on (creator_disk ce tc) t (creator_data ce tc)"
  unfolding complete_on_def
proof (intro allI impI)
  fix k assume k: "k < length (t_files t)"
  note v = file_view_nth [OF assms(2) k]
  have "files_read ce tc" using assms(1,4) by (simp add: creator_ok_def)
  moreover have "\<not> tf_doNotDownload (snd (t_files t ! k))" using assms(3) k by (simp add: all_wanted_def)
  ultimately show "\<not> tf_doNotDownload (snd (t_files t ! k)) \<and>
      cd_file (creator_disk ce tc) (fst (t_files t ! k)) = Some (creator_data ce tc k) \<and>
      length (creator_data ce tc k) = tf_size (snd (t_files t ! k))"
    using creator_contents [of ce tc k] k v by (simp add: creator_disk_def)
qed

lemma created_chunk:
  assumes "creator_ok ce tc" "map file_view (t_files t) = map file_view (tc_files tc)" "ce_tree ce \<noteq> None"
  shows "chunk_data (tc_chunk_size tc) c (map snd (t_files t)) (creator_data ce tc) = creator_chunk ce tc c"
proof -
  have l: "length (t_files t) = length (tc_files tc)" using assms(2) by (metis length_map)
  have "length (creator_all ce tc) = total_size (map snd (t_files t))"
    using creator_all_length [OF assms(1)] assms(1,3) view_size [OF assms(2)] by (simp add: creator_ok_def creator_size_def)
  then show ?thesis
    using assms(3) l by (simp add: chunk_data_def creator_chunk_def creator_all_def chunk_len_def min_def)
qed

lemma created_torrent_ok:
  assumes "creator_fits ce tc" "torrent_load env data Torrent_new = returns t" "t_piece_length t = tc_chunk_size tc"
    "t_file_length t = creator_size ce tc" "map file_view (t_files t) = map file_view (tc_files tc)"
  shows "torrent_ok t \<and> all_wanted t"
proof (rule torrent_load_ok [OF assms(2)])
  have c: "creator_ok ce tc" "creator_size ce tc < 2 ^ 63" "creator_size ce tc div tc_chunk_size tc + 1 < 2 ^ 32"
    using assms(1) by (simp_all add: creator_fits_def)
  have "total_size (map snd (tc_files tc)) \<le> creator_size ce tc"
    using c(1) by (cases "ce_tree ce") (simp_all add: creator_size_def creator_ok_def total_size_def)
  then have "total_size (map snd (t_files t)) \<le> creator_size ce tc" unfolding view_size [OF assms(5)] .
  moreover from this have "total_size (map snd (t_files t)) div tc_chunk_size tc \<le> creator_size ce tc div tc_chunk_size tc"
    by (rule div_le_mono)
  ultimately show "sizes_fit t" using c(2,3) unfolding sizes_fit_def sizes_ok_def assms(3,4) by linarith
qed

text \<open>Claim C4: the three parts agree end to end. A torrent that KTorrent makes from files, writes and loads again
  passes the data check on these files: the checker finds every chunk and no failed one.\<close>

theorem created_data_checks:
  assumes "number_format nf" "ce_nf ce = nf" "me_nf env = nf"
    and "TorrentCreator_new ce target trackers kib name comments priv False = returns tc"
    and "kib * 1024 < 2 ^ 31" "creator_size ce tc < 2 ^ 63" "creator_size ce tc div (kib * 1024) + 1 < 2 ^ 32"
    and "memory_ok ce" "length (sh_tmp (me_gen env)) = 64" "ce_time ce < 2 ^ 63"
    and "text_kept env ce name" "\<forall>pf \<in> set (tc_files tc). file_kept env ce pf"
    and "saveTorrent ce tc = returns data" "length data < 2 ^ 31" "ce_tree ce \<noteq> None \<Longrightarrow> tc_files tc \<noteq> []"
    and "length (sh_tmp g) = 64" "\<forall>n. length (fresh n) = n"
  shows "\<exists>t r. torrent_load env data Torrent_new = returns t \<and> check_created g fresh ce tc t = Some r \<and>
    length (t_hashes t) = tc_num_chunks tc \<and>
    (\<forall>i < tc_num_chunks tc. bs_get (dc_downloaded r) i \<and> \<not> bs_get (dc_failed r) i)"
proof -
  note cl = created_loads [OF assms(1-14)]
  have fits: "creator_fits ce tc" and cs: "tc_chunk_size tc = kib * 1024" using cl by blast+
  have ok: "creator_ok ce tc" using fits by (simp add: creator_fits_def)
  let ?N = "tc_num_chunks tc" let ?cs = "tc_chunk_size tc"
  have num: "(creator_size ce tc + kib * 1024 - 1) div (kib * 1024) = ?N" using ok cs by (simp add: creator_ok_def)
  obtain t where l: "torrent_load env data Torrent_new = returns t \<and> t_name t = name \<and> t_private t = priv \<and>
    t_piece_length t = kib * 1024 \<and> t_file_length t = creator_size ce tc \<and>
    length (creator_all ce tc) = creator_size ce tc \<and>
    t_hashes t = map (\<lambda>c. sha1_spec (creator_chunk ce tc c)) [0..<?N] \<and>
    map file_view (t_files t) = map file_view (tc_files tc) \<and> laid_out (kib * 1024) 0 0 (map snd (t_files t))"
    using cl [THEN conjunct2, THEN conjunct2] unfolding num by (rule exE)
  have t: "torrent_load env data Torrent_new = returns t" "t_piece_length t = ?cs" "t_file_length t = creator_size ce tc"
    "length (creator_all ce tc) = creator_size ce tc" "t_hashes t = map (\<lambda>c. sha1_spec (creator_chunk ce tc c)) [0..<?N]"
    "map file_view (t_files t) = map file_view (tc_files tc)"
    using l unfolding cs by blast+
  have tok: "torrent_ok t" "all_wanted t" using created_torrent_ok [OF fits t(1-3,6)] by simp_all
  have N: "length (t_hashes t) = ?N" using t(5) by simp
  have cs0: "0 < ?cs" using ok unfolding creator_ok_def by blast
  have "?N = (creator_size ce tc + ?cs - 1) div ?cs" using num unfolding cs by (rule sym)
  then have "?N \<le> creator_size ce tc div ?cs + 1" unfolding ceil_div [OF cs0] by simp
  also have "\<dots> < 2 ^ 32" using assms(7) unfolding cs .
  finally have N32: "?N < 2 ^ 32" .
  have good: "t_hashes t ! i = sha1_spec (creator_chunk ce tc i)" if "i < ?N" for i using t(5) that by simp
  have "check_created g fresh ce tc t = Some (check_all (\<lambda>i. sha1_spec (creator_chunk ce tc i) = t_hashes t ! i) [0..<?N] (checked_new ?N))"
  proof (cases "ce_tree ce")
    case None
    then have fl: "t_files t = []" using ok t(6) by (simp add: creator_ok_def)
    obtain d where d: "ce_file ce (tc_target tc) = Some d" using ok None by (auto simp: creator_ok_def)
    have a: "creator_all ce tc = d" using None d by (simp add: creator_all_def)
    have "single_loop g (\<lambda>_. False) d t [0..<?N] (fresh (t_piece_length t mod 2 ^ 32)) False (checked_new ?N) =
      Some (check_all (\<lambda>i. sha1_spec (take (t_piece_length t) (drop (i * t_piece_length t) d)) = t_hashes t ! i) [0..<?N] (checked_new ?N))"
      by (rule single_loop_good [OF assms(16)]) (use ok t a N num cs assms(5,17) in \<open>simp_all add: creator_ok_def atLeast0LessThan\<close>)
    then show ?thesis using fl d N by (simp add: check_created_def single_check_def creator_chunk_def a t(2))
  next
    case (Some tree)
    then have "t_files t \<noteq> []" using assms(15) t(6) by auto
    moreover from this have "multi_torrent t" using tok(1) N N32 t(2) cs assms(5) by (simp add: multi_torrent_def)
    moreover have "complete_on (creator_disk ce tc) t (creator_data ce tc)" using created_complete [OF ok t(6) tok(2)] Some by simp
    ultimately show ?thesis
      using multi_loop_good [OF assms(16), of t "creator_disk ce tc" "creator_data ce tc" "[0..<?N]" "fresh ?cs" "checked_new ?N"]
        created_chunk [OF ok t(6)] Some assms(17) N t(2)
      by (simp add: check_created_def multi_check_def atLeast0LessThan)
  qed
  then show ?thesis
    using t(1) N good
    by (intro exI [of _ t] exI [of _ "check_all (\<lambda>i. sha1_spec (creator_chunk ce tc i) = t_hashes t ! i) [0..<?N] (checked_new ?N)"] conjI allI impI)
       (simp_all only: check_all_result [OF N32] simp_thms)
qed

theorem created_data_checks_witness:
  "\<exists>tc data t r. demo_new = returns tc \<and> saveTorrent demo_env tc = returns data \<and> torrent_load demo_meta data Torrent_new = returns t \<and>
    check_created (me_gen demo_meta) (\<lambda>n. replicate n 0) demo_env tc t = Some r \<and>
    bs_get (dc_downloaded r) 0 \<and> bs_get (dc_downloaded r) 1 \<and> bs_get (dc_downloaded r) 2"
proof -
  obtain tc where n: "demo_new = returns tc" using demo_made by (elim exE conjE)
  obtain data where s: "saveTorrent demo_env tc = returns data" "length data < 2 ^ 31" and f: "demo_facts tc"
    using demo_loaded [OF n] by (elim exE conjE)
  note f = demo_facts [OF f]
  note d = f [THEN conjunct1] f [THEN conjunct2, THEN conjunct1]
  have num: "tc_num_chunks tc = 3" using f by (elim conjE)
  note sz = demo_size [OF d(2)]
  have nf: "ce_nf demo_env = decimal" "me_nf demo_meta = decimal" by (simp_all add: demo_env_def demo_meta_def)
  have b: "(1::nat) * 1024 < 2 ^ 31" "creator_size demo_env tc < 2 ^ 63" "creator_size demo_env tc div (1 * 1024) + 1 < 2 ^ 32"
    unfolding sz by simp_all
  have ne: "tc_files tc \<noteq> []" using d(1) by auto
  have m: "\<forall>n. length (replicate n (0 :: u8)) = n" by simp
  from created_data_checks [OF dec.number_format_axioms nf n [unfolded demo_new_def] b demo_memory demo_text(3) demo_files [OF d(1)] s ne demo_memory(2) m]
  obtain t r where "torrent_load demo_meta data Torrent_new = returns t"
    "check_created (me_gen demo_meta) (\<lambda>n. replicate n 0) demo_env tc t = Some r"
    "\<forall>i < 3. bs_get (dc_downloaded r) i \<and> \<not> bs_get (dc_failed r) i"
    unfolding num by (elim exE conjE) (rule that)
  then show ?thesis using n s(1) by (intro exI [of _ tc] exI [of _ data] exI [of _ t] exI [of _ r] conjI) simp_all
qed

section \<open>Data that is not complete\<close>

lemma one_file_chunk:
  assumes "multi_torrent t" "length (t_files t) = 1" "c < length (t_hashes t)"
  shows "t_calcChunkPos c t = [0]"
proof -
  note m = multi_torrentD [OF assms(1)]
  have cov: "covers c (map snd (t_files t)) (t_calcChunkPos c t)"
    unfolding t_calcChunkPos_def by (rule calc_covers [OF assms(3) m(7)])
  have "c * t_piece_length t < total_size (map snd (t_files t))" using chunk_index_less [OF m(2)] assms(3) m(6) by simp
  then have "t_calcChunkPos c t \<noteq> []" using first_before [OF m(1,2) cov] by simp
  moreover have "set (t_calcChunkPos c t) \<subseteq> {0}" using covers_mem [OF cov] assms(2) by auto
  moreover have "distinct (t_calcChunkPos c t)" using covers_sorted [OF cov] by (simp add: strict_sorted_iff)
  ultimately show ?thesis by (cases "t_calcChunkPos c t") (auto simp: subset_singleton_iff)
qed

lemma stale_read:
  assumes "multi_torrent t" "length (t_files t) = 1" "\<not> tf_doNotDownload (snd (t_files t ! 0))" "c < length (t_hashes t)"
    and "cd_file disk (fst (t_files t ! 0)) = Some p" "length p = t_piece_length t" "length buf = length p" "c = 0 \<or> buf = p"
  shows "check_loadChunk disk c (t_piece_length t) t buf = Some (True, p)"
proof -
  let ?f = "snd (t_files t ! 0)" let ?cs = "t_piece_length t"
  note m = multi_torrentD [OF assms(1)]
  have fs: "length (map snd (t_files t)) = 1" using assms(2) by simp
  have "0 \<in> set (calcChunkPos (length (t_hashes t)) (map snd (t_files t)) c)"
    using one_file_chunk [OF assms(1,2,4)] unfolding t_calcChunkPos_def by simp
  from covers_mem [OF calc_covers [OF assms(4) m(7)] this]
  have k: "tf_first (map snd (t_files t) ! 0) \<le> c" "c \<le> tf_last (map snd (t_files t) ! 0)" by blast+
  have off: "tf_fileOffset ?f c ?cs = c * ?cs"
    using fileOffset_cut [OF m(1,2) _ k] placed_nth [OF m(1), of 0] first_before [OF m(1,2) calc_covers [OF assms(4) m(7)]] fs assms(2)
    by simp
  have e: "length (t_calcChunkPos c t) = 1" "hd (t_calcChunkPos c t) = 0" using one_file_chunk [OF assms(1,2,4)] by simp_all
  have "take ?cs (drop (c * ?cs) p) = (if c = 0 then p else [])" using assms(6) by simp
  then have "ReadFullChunk disk c ?cs (t_files t ! 0) t buf = Some (p, if c = 0 then length p else 0)"
    using assms(5-8) off by (auto simp: ReadFullChunk_def check_read_def Let_def memcpy_def)
  then show ?thesis using e assms(3) by (simp add: check_loadChunk_def Let_def)
qed

lemma stale_loop:
  assumes "length (sh_tmp g) = 64" "multi_torrent t" "length (t_files t) = 1" "\<not> tf_doNotDownload (snd (t_files t ! 0))"
    and "cd_file disk (fst (t_files t ! 0)) = Some p" "length p = t_piece_length t"
    and "t_file_length t = length (t_hashes t) * t_piece_length t" "\<forall>h \<in> set (t_hashes t). h = sha1_spec p"
  shows "i \<le> length (t_hashes t) \<Longrightarrow> length buf = length p \<Longrightarrow> i = 0 \<or> buf = p \<Longrightarrow>
    multi_loop g (\<lambda>_. False) disk t [i..<length (t_hashes t)] buf r = Some (check_all (\<lambda>_. True) [i..<length (t_hashes t)] r)"
proof (induction "length (t_hashes t) - i" arbitrary: i buf r)
  case (Suc k)
  let ?cs = "t_piece_length t"
  note m = multi_torrentD [OF assms(2)]
  have i: "i < length (t_hashes t)" using Suc.hyps(2) by simp
  have n: "multi_chunk_size t i = ?cs"
  proof -
    have "Suc i * ?cs \<le> length (t_hashes t) * ?cs" using i by (intro mult_le_mono1) simp
    then have "?cs \<le> total_size (map snd (t_files t)) - i * ?cs" using m(4) assms(7) by simp
    then show ?thesis unfolding multi_chunk_size_eq [OF assms(2) i] chunk_len_def by simp
  qed
  have "t_hashes t ! i = sha1_spec p" using assms(8) i by simp
  then have h: "check_hash g p i t = Some True"
    using check_hash_eq [OF assms(1) _ i, of p] m(3) assms(6) by simp
  have u: "[i..<length (t_hashes t)] = i # [Suc i..<length (t_hashes t)]" using i by (rule upt_conv_Cons)
  have l: "check_loadChunk disk i ?cs t buf = Some (True, p)" by (rule stale_read [OF assms(2-4) i assms(5,6) Suc.prems(2,3)])
  have "multi_loop g (\<lambda>_. False) disk t [Suc i..<length (t_hashes t)] p (checked_set i True r) =
      Some (check_all (\<lambda>_. True) [Suc i..<length (t_hashes t)] (checked_set i True r))"
    by (rule Suc.hyps(1)) (use Suc.hyps(2) i in simp_all)
  then show ?case unfolding u using l h n assms(6) by (simp add: Let_def)
qed simp

text \<open>Claim C38: a file that was cut off can pass the check. The buffer keeps the previous chunk where nothing could
  be read: when all chunks of a torrent are alike and the file on disk ends behind the first, every chunk counts
  as downloaded, however many of them are missing.\<close>

theorem cut_off_file_passes:
  assumes "length (sh_tmp g) = 64" "\<forall>n. length (fresh n) = n" "torrent_ok t" "t_piece_length t < 2 ^ 32" "length (t_hashes t) < 2 ^ 32"
    and "length (t_files t) = 1" "\<not> tf_doNotDownload (snd (t_files t ! 0))" "t_file_length t = length (t_hashes t) * t_piece_length t"
    and "cd_file disk (fst (t_files t ! 0)) = Some p" "length p = t_piece_length t" "\<forall>h \<in> set (t_hashes t). h = sha1_spec p"
  shows "\<exists>r. multi_check g fresh (\<lambda>_. False) disk t = Some r \<and>
    (\<forall>i < length (t_hashes t). bs_get (dc_downloaded r) i \<and> \<not> bs_get (dc_failed r) i)"
proof -
  let ?N = "length (t_hashes t)"
  have m: "multi_torrent t" using assms(3-6) unfolding multi_torrent_def by auto
  have "multi_check g fresh (\<lambda>_. False) disk t = Some (check_all (\<lambda>_. True) [0..<?N] (checked_new ?N))"
    unfolding multi_check_def
    by (rule stale_loop [OF assms(1) m assms(6,7,9,10,8,11)]) (use assms(2,10) in simp_all)
  then show ?thesis
    by (intro exI [of _ "check_all (\<lambda>_. True) [0..<?N] (checked_new ?N)"] conjI allI impI)
       (simp_all only: check_all_result [OF assms(5)] simp_thms)
qed

definition zeros_torrent :: torrent where
  "zeros_torrent = Torrent_new\<lparr>t_piece_length := 4, t_file_length := 12, t_hashes := replicate 3 (sha1_spec [0, 0, 0, 0]),
     t_files := [([97], the (TorrentFile_new 0 False 0 12 4))]\<rparr>"

theorem cut_off_file_passes_witness:
  "\<exists>r. multi_check (me_gen demo_meta) (\<lambda>n. replicate n 0) (\<lambda>_. False) \<lparr>cd_file = [[97] \<mapsto> [0, 0, 0, 0]], cd_dnd = Map.empty\<rparr> zeros_torrent = Some r \<and>
    bs_get (dc_downloaded r) 0 \<and> bs_get (dc_downloaded r) 1 \<and> bs_get (dc_downloaded r) 2 \<and> t_file_length zeros_torrent = 12"
proof -
  let ?d = "\<lparr>cd_file = [[97] \<mapsto> [0, 0, 0, 0 :: u8]], cd_dnd = Map.empty\<rparr>"
  have ok: "torrent_ok zeros_torrent"
    by (simp add: torrent_ok_def zeros_torrent_def Torrent_new_def TorrentFile_new_def safe_path_def path_parts_def dir_sep_def dotdot_def
      ends_with_sep_def length_digest total_size_def)
  have g: "length (sh_tmp (me_gen demo_meta)) = 64" "\<forall>n. length (replicate n (0 :: u8)) = n"
    by (simp_all add: demo_meta_def)
  have h: "length (t_hashes zeros_torrent) = 3" "t_piece_length zeros_torrent = 4" "t_file_length zeros_torrent = 12"
    by (simp_all add: zeros_torrent_def)
  have z: "length (t_files zeros_torrent) = 1" "\<not> tf_doNotDownload (snd (t_files zeros_torrent ! 0))"
    "cd_file ?d (fst (t_files zeros_torrent ! 0)) = Some [0, 0, 0, 0]" "\<forall>h \<in> set (t_hashes zeros_torrent). h = sha1_spec [0, 0, 0, 0]"
    by (simp_all add: zeros_torrent_def TorrentFile_new_def tf_doNotDownload_def)
  have "\<exists>r. multi_check (me_gen demo_meta) (\<lambda>n. replicate n 0) (\<lambda>_. False) ?d zeros_torrent = Some r \<and>
      (\<forall>i < length (t_hashes zeros_torrent). bs_get (dc_downloaded r) i \<and> \<not> bs_get (dc_failed r) i)"
    by (rule cut_off_file_passes [OF g ok _ _ z(1,2) _ z(3) _ z(4)]) (simp_all add: h)
  then show ?thesis using h(3) unfolding h(1) by auto
qed

end
