(* ===== verification/Choker.thy ===== *)
theory Choker
  imports PeerManager
begin

text \<open>
  Who may download from us: \<^verbatim>\<open>libktorrent/torrent/choker.cpp\<close> and \<^verbatim>\<open>advancedchokealgorithm.cpp\<close>. Every ten
  seconds the peers that are interested in something we have are ranked, the best get the upload
  slots, and one more is unchoked optimistically. Pointers to peers are their identifiers. Rates, clocks, the random number and
  the sort of the toolkit's list are the record \<open>choke_env\<close>; scores are real numbers for the doubles of the code.
\<close>

section \<open>State\<close>

record choker =
  ck_opt_id :: u32
  ck_last_sel :: u64

record choke_env =
  kv_now :: u64
  kv_rand :: nat
  kv_slots :: u32
  kv_down_rate :: "u32 \<Rightarrow> nat"
  kv_up_rate :: "u32 \<Rightarrow> nat"
  kv_sort :: "(peer \<Rightarrow> peer \<Rightarrow> int) \<Rightarrow> peer list \<Rightarrow> peer list"
  kv_total_bytes :: nat
  kv_trk_bytes_down :: nat
  kv_total_rate :: nat

definition UNDEFINED_ID :: u32 where "UNDEFINED_ID = 0xFFFFFFFF"

definition Choker_new :: choker where
  "Choker_new = \<lparr>ck_opt_id = 0, ck_last_sel = 0\<rparr>"

section \<open>Scores\<close>

definition percentAvailable :: "peer \<Rightarrow> real" where
  "percentAvailable p = real (bs_numOnBits (p_pieces p)) / real (bs_num_bits (p_pieces p)) * 100"

definition has_news :: "bitset \<Rightarrow> bitset \<Rightarrow> bool" where
  "has_news ours theirs \<longleftrightarrow> list_ex (\<lambda>i. bs_get ours i \<and> \<not> bs_get theirs i) [0..<bs_num_bits ours]"

definition aca_score :: "choke_env \<Rightarrow> peer \<Rightarrow> real" where
  "aca_score env p =
     (let nb = (if percentAvailable p < 0.5 \<and> real (kv_total_bytes env) * percentAvailable p < 1024 * 1024 then 1 else 0);
          cp = (if p_choked p then 1 else 0);
          sp = (if p_evil p then 10 else 0);
          lb = (if p_local p then 10 else 0);
          bd = real (unat (p_bytes_down p)); tbd = real (kv_trk_bytes_down env);
          ds = real (kv_down_rate env (p_id p)); tds = real (kv_total_rate env)
      in lb + nb + (if tbd > 0 then 5 * (bd / tbd) else 0) + (if tds > 0 then 5 * (ds / tds) else 0) - cp - sp)"

definition calcACAScore :: "choke_env \<Rightarrow> bitset \<Rightarrow> peer \<Rightarrow> peer \<times> bool" where
  "calcACAScore env ours p =
     (let p = getStats p
      in if isSeeder p then (setACAScore 0 p, False)
         else if \<not> has_news ours (p_pieces p) \<or> \<not> p_interested p then (setACAScore (-50) p, False)
         else (setACAScore (aca_score env p) p, True))"

definition ACACmp :: "peer \<Rightarrow> peer \<Rightarrow> int" where
  "ACACmp a b = (if p_aca a < p_aca b then 1 else if p_aca a > p_aca b then -1 else 0)"

definition UpRateCmp :: "choke_env \<Rightarrow> peer \<Rightarrow> peer \<Rightarrow> int" where
  "UpRateCmp env a b =
     (let ra = kv_up_rate env (p_id a); rb = kv_up_rate env (p_id b) in if ra < rb then -1 else if ra > rb then 1 else 0)"

section \<open>A round\<close>

text \<open>The first loop: all peers with their scores, and those that are candidates; the others are choked.\<close>

fun score_peers :: "choke_env \<Rightarrow> bitset \<Rightarrow> peer list \<Rightarrow> (peer list \<times> peer list) option" where
  "score_peers env ours [] = Some ([], [])"
| "score_peers env ours (p # ps) =
     (let (p, good) = calcACAScore env ours p
      in case (if good then Some p else p_choke p) of
           None \<Rightarrow> None
         | Some p \<Rightarrow>
             (case score_peers env ours ps of
                None \<Rightarrow> None
              | Some (all, ppl) \<Rightarrow> Some (p # all, if good then p # ppl else ppl)))"

text \<open>\<^verbatim>\<open>TQPtrList::contains\<close> counts the items that compare equal.\<close>

definition ppl_contains :: "(peer \<Rightarrow> peer \<Rightarrow> int) \<Rightarrow> peer \<Rightarrow> peer list \<Rightarrow> bool" where
  "ppl_contains cmp p ppl \<longleftrightarrow> list_ex (\<lambda>q. cmp p q = 0) ppl"

fun planned_loop :: "(peer \<Rightarrow> bool) \<Rightarrow> peer list \<Rightarrow> nat \<Rightarrow> nat \<Rightarrow> nat \<Rightarrow> u32" where
  "planned_loop suits ps start i 0 = UNDEFINED_ID"
| "planned_loop suits ps start i (Suc k) =
     (if i = start then UNDEFINED_ID
      else if suits (ps ! i) then p_id (ps ! i)
      else planned_loop suits ps start ((i + 1) mod length ps) k)"

definition FindPlannedOptimisticUnchokedPeer :: "choke_env \<Rightarrow> (peer \<Rightarrow> peer \<Rightarrow> int) \<Rightarrow> peer list \<Rightarrow> peer list \<Rightarrow> u32" where
  "FindPlannedOptimisticUnchokedPeer env cmp ps ppl =
     (if ps = [] then UNDEFINED_ID
      else let start = kv_rand env mod length ps
           in planned_loop (\<lambda>p. p_choked p \<and> p_interested p \<and> \<not> isSeeder p \<and> ppl_contains cmp p ppl) ps start
                ((start + 1) mod length ps) (length ps))"

definition updateOptimisticPeer :: "choke_env \<Rightarrow> (peer \<Rightarrow> peer \<Rightarrow> int) \<Rightarrow> peer_manager \<Rightarrow> peer list \<Rightarrow> choker \<Rightarrow> choker \<times> u32 option" where
  "updateOptimisticPeer env cmp pm ppl ck =
     (if kv_now env - ck_last_sel ck > 30 * 1000 \<or> findPeer (ck_opt_id ck) pm = None then
        let ck = \<lparr>ck_opt_id = FindPlannedOptimisticUnchokedPeer env cmp (pm_peers pm) ppl, ck_last_sel = kv_now env\<rparr>
        in (ck, map_option p_id (findPeer (ck_opt_id ck) pm))
      else (ck, map_option p_id (findPeer (ck_opt_id ck) pm)))"

text \<open>What happens to the peer with an identifier: unchoked or choked.\<close>

definition unchoke_or_choke :: "bool \<Rightarrow> peer \<Rightarrow> peer option" where
  "unchoke_or_choke up p = (if up then Some (p_unchoke p) else p_choke p)"

fun on_peer :: "(peer \<Rightarrow> peer option) \<Rightarrow> u32 \<Rightarrow> peer list \<Rightarrow> peer list option" where
  "on_peer f i [] = Some []"
| "on_peer f i (p # ps) =
     (if p_id p = i then (case f p of None \<Rightarrow> None | Some p \<Rightarrow> Some (p # ps))
      else (case on_peer f i ps of None \<Rightarrow> None | Some ps \<Rightarrow> Some (p # ps)))"

fun unchoke_loop :: "u32 \<Rightarrow> u32 option \<Rightarrow> peer list \<Rightarrow> u32 \<Rightarrow> peer list \<Rightarrow> peer list option" where
  "unchoke_loop slots poup [] n ps = Some ps"
| "unchoke_loop slots poup (p # ppl) n ps =
     (let free = (poup = None \<and> n < slots);
          up = (free \<or> n < slots - 1 \<or> poup = Some (p_id p));
          n' = (if free \<or> (up \<and> poup \<noteq> Some (p_id p)) then n + 1 else n)
      in case on_peer (unchoke_or_choke up) (p_id p) ps of
           None \<Rightarrow> None
         | Some ps \<Rightarrow> unchoke_loop slots poup ppl n' ps)"

definition doUnchoking :: "choke_env \<Rightarrow> peer list \<Rightarrow> u32 option \<Rightarrow> peer list \<Rightarrow> peer list option" where
  "doUnchoking env ppl poup ps = unchoke_loop (kv_slots env) poup ppl 0 ps"

definition choke_round :: "choke_env \<Rightarrow> (peer \<Rightarrow> peer \<Rightarrow> int) \<Rightarrow> bitset \<Rightarrow> choker \<times> peer_manager \<Rightarrow> (choker \<times> peer_manager) option" where
  "choke_round env cmp ours s = (case s of (ck, pm) \<Rightarrow>
     (case score_peers env ours (pm_peers pm) of
        None \<Rightarrow> None
      | Some (ps, ppl) \<Rightarrow>
          (let ppl = kv_sort env cmp ppl;
               pm = pm\<lparr>pm_peers := ps\<rparr>;
               (ck, poup) = updateOptimisticPeer env cmp pm ppl ck
           in case doUnchoking env ppl poup ps of
                None \<Rightarrow> None
              | Some ps \<Rightarrow> Some (ck, pm\<lparr>pm_peers := ps\<rparr>))))"

definition doChokingLeechingState :: "choke_env \<Rightarrow> bitset \<Rightarrow> choker \<times> peer_manager \<Rightarrow> (choker \<times> peer_manager) option" where
  "doChokingLeechingState env ours s = choke_round env ACACmp ours s"

definition doChokingSeedingState :: "choke_env \<Rightarrow> bitset \<Rightarrow> choker \<times> peer_manager \<Rightarrow> (choker \<times> peer_manager) option" where
  "doChokingSeedingState env ours s = choke_round env (UpRateCmp env) ours s"

definition choker_update :: "choke_env \<Rightarrow> bool \<Rightarrow> bitset \<Rightarrow> choker \<times> peer_manager \<Rightarrow> (choker \<times> peer_manager) option" where
  "choker_update env have_all ours s =
     (if have_all then doChokingSeedingState env ours s else doChokingLeechingState env ours s)"

end
