(* ===== verification/ChokerProps.thy ===== *)
theory ChokerProps
  imports Choker PeerManagerProps
begin

text \<open>
  Correctness of the choker: in every round at most as many peers are unchoked as there are upload
  slots, only peers that are interested in something we have, and the best of them.
\<close>

section \<open>What a round leaves alone\<close>

text \<open>The fields of a peer that ranking, choking and unchoking keep.\<close>

definition same_peer :: "peer \<Rightarrow> peer \<Rightarrow> bool" where
  "same_peer p q \<longleftrightarrow> p_id q = p_id p \<and> p_pieces q = p_pieces p \<and> p_interested q = p_interested p"

definition same_rank :: "peer \<Rightarrow> peer \<Rightarrow> bool" where
  "same_rank p q \<longleftrightarrow> same_peer p q \<and> p_aca q = p_aca p"

lemma same_rank_refl [simp]: "same_rank p p"
  by (simp add: same_rank_def same_peer_def)

lemma p_choke_same: "p_choke p = Some q \<Longrightarrow> same_rank p q \<and> am_choked (p_am q)"
  by (auto simp: p_choke_def sendChoke_def clearAllRequests_def getStats_def same_rank_def same_peer_def Let_def
    bind_eq_Some_conv split: if_splits)

lemma p_unchoke_same: "same_rank p (p_unchoke p) \<and> \<not> am_choked (p_am (p_unchoke p))"
  by (auto simp: p_unchoke_def sendUnchoke_def same_rank_def same_peer_def)

lemma unchoke_or_choke_ok:
  assumes "peer_ok N p"
  shows "\<exists>q. unchoke_or_choke up p = Some q \<and> peer_ok N q \<and> same_rank p q \<and> am_choked (p_am q) = (\<not> up)"
proof (cases up)
  case True
  then show ?thesis using peer_ok_unchoke [OF assms] p_unchoke_same by (simp add: unchoke_or_choke_def)
next
  case False
  obtain q where "p_choke p = Some q" "peer_ok N q" using peer_ok_choke [OF assms] by blast
  then show ?thesis using p_choke_same False by (auto simp: unchoke_or_choke_def)
qed

section \<open>Ranking\<close>

definition candidate :: "bitset \<Rightarrow> peer \<Rightarrow> bool" where
  "candidate ours p \<longleftrightarrow> p_interested p \<and> \<not> isSeeder p \<and> has_news ours (p_pieces p)"

lemma candidate_same: "same_peer p q \<Longrightarrow> candidate ours q = candidate ours p"
  by (simp add: candidate_def same_peer_def isSeeder_def)

lemma calcACAScore_ok:
  assumes "calcACAScore env ours p = (q, good)" "peer_ok N p"
  shows "same_peer p q \<and> peer_ok N q \<and> good = candidate ours p"
proof -
  have ok: "peer_ok N (setACAScore x (getStats p))" for x
    using assms(2) by (simp add: peer_ok_def peer_base_def setACAScore_def getStats_def)
  show ?thesis
    using assms(1) ok
    by (auto simp: calcACAScore_def Let_def same_peer_def candidate_def isSeeder_def setACAScore_def getStats_def split: if_splits)
qed

lemma score_peers_ok:
  "\<forall>p \<in> set ps. peer_ok N p \<Longrightarrow>
   \<exists>all ppl. score_peers env ours ps = Some (all, ppl) \<and> (\<forall>p \<in> set all. peer_ok N p) \<and> list_all2 same_peer ps all \<and>
     ppl = filter (candidate ours) all \<and> (\<forall>p \<in> set all. \<not> candidate ours p \<longrightarrow> am_choked (p_am p))"
proof (induction ps)
  case (Cons p ps)
  obtain all ppl where ih: "score_peers env ours ps = Some (all, ppl)" "\<forall>p \<in> set all. peer_ok N p" "list_all2 same_peer ps all"
    "ppl = filter (candidate ours) all" "\<forall>p \<in> set all. \<not> candidate ours p \<longrightarrow> am_choked (p_am p)"
    using Cons by auto
  obtain q good where q: "calcACAScore env ours p = (q, good)" by fastforce
  have c: "same_peer p q" "peer_ok N q" "good = candidate ours p" using calcACAScore_ok [OF q, of N] Cons.prems by simp_all
  show ?case
  proof (cases good)
    case True
    then show ?thesis using ih q c candidate_same [OF c(1)] by simp
  next
    case False
    obtain r where r: "p_choke q = Some r" "peer_ok N r" using peer_ok_choke [OF c(2)] by blast
    have s: "same_peer p r" "am_choked (p_am r)"
      using p_choke_same [OF r(1)] c(1) by (simp_all add: same_rank_def same_peer_def)
    then show ?thesis using ih q r c(3) False candidate_same [OF s(1)] by simp
  qed
qed simp

section \<open>Unchoking\<close>

definition decide_peer :: "u32 set \<Rightarrow> u32 set \<Rightarrow> peer \<Rightarrow> peer" where
  "decide_peer chosen ids p = (if p_id p \<in> ids then the (unchoke_or_choke (p_id p \<in> chosen) p) else p)"

lemma on_peer_eq:
  "distinct (map p_id ps) \<Longrightarrow> \<forall>p \<in> set ps. f p \<noteq> None \<Longrightarrow>
   on_peer f i ps = Some (map (\<lambda>p. if p_id p = i then the (f p) else p) ps)"
proof (induction ps)
  case (Cons p ps)
  show ?case
  proof (cases "p_id p = i")
    case True
    then have "map (\<lambda>p. if p_id p = i then the (f p) else p) ps = ps"
      using Cons.prems(1) by (intro map_idI) (auto, metis imageI)
    then show ?thesis using True Cons.prems(2) by auto
  qed (use Cons in auto)
qed simp

text \<open>Who is chosen when \<open>n\<close> slots are taken.\<close>

definition free_slots :: "u32 \<Rightarrow> u32 option \<Rightarrow> nat" where
  "free_slots slots poup = (if poup = None then unat slots else unat slots - 1)"

definition chosen :: "u32 \<Rightarrow> u32 option \<Rightarrow> peer list \<Rightarrow> u32 \<Rightarrow> u32 set" where
  "chosen slots poup ppl n =
     set (take (free_slots slots poup - unat n) (filter (\<lambda>i. poup \<noteq> Some i) (map p_id ppl))) \<union>
     {i \<in> p_id ` set ppl. poup = Some i}"

lemma chosen_Cons:
  fixes slots n :: u32
  assumes "0 < unat slots" "unat n \<le> free_slots slots poup" "p_id p \<notin> p_id ` set ppl"
  defines "free \<equiv> poup = None \<and> n < slots"
  defines "up \<equiv> free \<or> n < slots - 1 \<or> poup = Some (p_id p)"
  defines "n' \<equiv> if free \<or> (up \<and> poup \<noteq> Some (p_id p)) then n + 1 else n"
  shows "up = (p_id p \<in> chosen slots poup (p # ppl) n) \<and> chosen slots poup (p # ppl) n - {p_id p} = chosen slots poup ppl n' \<and>
    unat n' \<le> free_slots slots poup"
proof -
  have s1: "unat (slots - 1) = unat slots - 1" by (rule unat_dec [OF assms(1)])
  have nin: "p_id p \<notin> set (take k (filter (\<lambda>i. poup \<noteq> Some i) (map p_id ppl)))" for k
    using assms(3) by (auto dest: in_set_takeD)
  have b: "unat slots < 2 ^ 32" using unat_bound [of slots] by simp
  have inc: "unat (n + 1) = unat n + 1" if "unat n < unat slots" using that b by (intro unat_inc) simp
  show ?thesis
  proof (cases "poup = Some (p_id p)")
    case True
    then have "up" "n' = n" by (simp_all add: up_def n'_def free_def)
    then show ?thesis using True nin assms(2,3) by (auto simp: chosen_def)
  next
    case False
    show ?thesis
    proof (cases "unat n < free_slots slots poup")
      case True
      then have up: "up" using s1 by (cases poup) (simp_all add: up_def free_def free_slots_def word_less_nat_alt)
      then have n': "unat n' = unat n + 1" using False inc True by (auto simp: n'_def free_slots_def split: if_splits)
      have "free_slots slots poup - unat n = Suc (free_slots slots poup - unat n')" using True n' by simp
      then show ?thesis using up False True nin n' assms(3) by (auto simp: chosen_def)
    next
      case no: False
      then have e: "unat n = free_slots slots poup" using assms(2) by simp
      have up: "\<not> up" using s1 False e by (cases poup) (simp_all add: up_def free_def free_slots_def word_less_nat_alt)
      then have "n' = n" by (simp add: n'_def up_def)
      then show ?thesis using up False e assms(3) by (auto simp: chosen_def)
    qed
  qed
qed

lemma unchoke_loop_eq:
  "distinct (map p_id ps) \<Longrightarrow> \<forall>p \<in> set ps. peer_ok N p \<Longrightarrow> distinct (map p_id ppl) \<Longrightarrow> 0 < unat slots \<Longrightarrow>
   unat n \<le> free_slots slots poup \<Longrightarrow>
   unchoke_loop slots poup ppl n ps = Some (map (decide_peer (chosen slots poup ppl n) (p_id ` set ppl)) ps)"
proof (induction ppl arbitrary: n ps)
  case Nil
  then show ?case by (simp add: decide_peer_def)
next
  case (Cons p ppl)
  define up where "up = ((poup = None \<and> n < slots) \<or> n < slots - 1 \<or> poup = Some (p_id p))"
  define n' where "n' = (if (poup = None \<and> n < slots) \<or> (up \<and> poup \<noteq> Some (p_id p)) then n + 1 else n)"
  have nin: "p_id p \<notin> p_id ` set ppl" using Cons.prems(3) by auto
  note c = chosen_Cons [OF Cons.prems(4,5) nin, folded up_def, folded n'_def]
  let ?f = "\<lambda>q. if p_id q = p_id p then the (unchoke_or_choke up q) else q"
  have ok: "\<exists>q'. unchoke_or_choke up q = Some q' \<and> peer_ok N q' \<and> p_id q' = p_id q" if "q \<in> set ps" for q
    using unchoke_or_choke_ok [of N q up] Cons.prems(2) that by (auto simp: same_rank_def same_peer_def)
  have f: "p_id (?f q) = p_id q \<and> peer_ok N (?f q)" if "q \<in> set ps" for q
    using ok [OF that] Cons.prems(2) that by auto
  have ids: "map p_id (map ?f ps) = map p_id ps" using f by simp
  have on: "on_peer (unchoke_or_choke up) (p_id p) ps = Some (map ?f ps)"
    using ok by (intro on_peer_eq [OF Cons.prems(1)]) auto
  have ih: "unchoke_loop slots poup ppl n' (map ?f ps) =
      Some (map (decide_peer (chosen slots poup ppl n') (p_id ` set ppl)) (map ?f ps))"
  proof (rule Cons.IH)
    show "distinct (map p_id (map ?f ps))" unfolding ids by (rule Cons.prems(1))
    show "\<forall>q \<in> set (map ?f ps). peer_ok N q" unfolding set_map using f by blast
  qed (use Cons.prems c in simp_all)
  have "decide_peer (chosen slots poup ppl n') (p_id ` set ppl) (?f q) =
      decide_peer (chosen slots poup (p # ppl) n) (p_id ` set (p # ppl)) q" if "q \<in> set ps" for q
  proof (cases "p_id q = p_id p")
    case True
    then show ?thesis using f [OF that] c nin by (simp add: decide_peer_def)
  next
    case False
    then have "p_id q \<in> chosen slots poup (p # ppl) n \<longleftrightarrow> p_id q \<in> chosen slots poup ppl n'" using c by blast
    then show ?thesis using False by (simp add: decide_peer_def)
  qed
  then have "map (decide_peer (chosen slots poup ppl n') (p_id ` set ppl)) (map ?f ps) =
      map (decide_peer (chosen slots poup (p # ppl) n) (p_id ` set (p # ppl))) ps" by simp
  then show ?case using on ih by (simp add: up_def n'_def Let_def)
qed

section \<open>Counting and ranking\<close>

lemma chosen_ids: "chosen slots poup ppl n \<subseteq> p_id ` set ppl"
  by (auto simp: chosen_def dest: in_set_takeD)

lemma card_chosen:
  assumes "distinct (map p_id ppl)" "0 < unat slots"
  shows "card (chosen slots poup ppl 0) =
    min (if poup = None \<or> the poup \<in> p_id ` set ppl then unat slots else unat slots - 1) (length ppl)"
proof (cases poup)
  case None
  have "card (set (take (unat slots) (map p_id ppl))) = min (unat slots) (length ppl)"
    using assms(1) by (simp add: distinct_card distinct_take min.commute)
  then show ?thesis using None by (simp add: chosen_def free_slots_def)
next
  case (Some i)
  let ?L = "filter (\<lambda>j. i \<noteq> j) (map p_id ppl)" let ?k = "unat slots - 1"
  have d: "distinct ?L" using assms(1) by simp
  have t: "card (set (take ?k ?L)) = min ?k (length ?L)" using d by (simp only: distinct_card distinct_take length_take min.commute)
  have nin: "i \<notin> set (take ?k ?L)" by (auto dest: in_set_takeD)
  show ?thesis
  proof (cases "i \<in> p_id ` set ppl")
    case True
    have "length ?L = length ppl - 1"
    proof -
      have "?L = remove1 i (map p_id ppl)" using assms(1) by (simp only: distinct_remove1_removeAll removeAll_filter_not_eq)
      then show ?thesis using True by (simp add: length_remove1)
    qed
    moreover have "0 < length ppl" using True by auto
    moreover from this assms(2) have "Suc (min ?k (length ppl - 1)) = min (unat slots) (length ppl)" by linarith
    moreover have "{j \<in> p_id ` set ppl. i = j} = {i}" using True by auto
    then have "chosen slots poup ppl 0 = insert i (set (take ?k ?L))" using Some by (simp add: chosen_def free_slots_def)
    ultimately have "card (chosen slots poup ppl 0) = min (unat slots) (length ppl)"
      using t nin by (simp only: card_insert_disjoint finite_set not_False_eq_True)
    then show ?thesis using Some True by simp
  next
    case False
    then have "?L = map p_id ppl" by (auto simp: filter_id_conv)
    moreover have "chosen slots poup ppl 0 = set (take ?k ?L)" using False Some by (auto simp: chosen_def free_slots_def)
    ultimately show ?thesis using Some False t by simp
  qed
qed

text \<open>The sort of the toolkit's list, by a comparison.\<close>

definition sorts_by :: "choke_env \<Rightarrow> (peer \<Rightarrow> peer \<Rightarrow> int) \<Rightarrow> bool" where
  "sorts_by env cmp \<longleftrightarrow> (\<forall>l. mset (kv_sort env cmp l) = mset l \<and> sorted_wrt (\<lambda>a b. cmp a b \<le> 0) (kv_sort env cmp l))"

lemma chosen_ranked:
  assumes "sorted_wrt (\<lambda>a b. cmp a b \<le> 0) ppl" "distinct (map p_id ppl)" "p \<in> set ppl" "q \<in> set ppl"
    and "p_id p \<in> chosen slots poup ppl 0" "p_id q \<notin> chosen slots poup ppl 0" "poup \<noteq> Some (p_id p)"
  shows "cmp p q \<le> 0"
proof -
  let ?F = "filter (\<lambda>p. poup \<noteq> Some (p_id p)) ppl" let ?k = "free_slots slots poup"
  have L: "filter (\<lambda>i. poup \<noteq> Some i) (map p_id ppl) = map p_id ?F" by (simp add: filter_map comp_def)
  have inj: "a = b" if "a \<in> set ppl" "b \<in> set ppl" "p_id a = p_id b" for a b
    using assms(2) that by (metis distinct_map inj_onD)
  have "p_id p \<in> p_id ` set (take ?k ?F)" using assms(5,7) unfolding chosen_def L by (simp add: take_map)
  then obtain a where a: "a \<in> set (take ?k ?F)" "p_id a = p_id p" by auto
  then have "a \<in> set ppl" by (auto dest: in_set_takeD)
  then have p: "p \<in> set (take ?k ?F)" using inj [OF _ assms(3) a(2)] a(1) by simp
  have "poup \<noteq> Some (p_id q)" using assms(4,6) by (auto simp: chosen_def)
  then have "q \<in> set ?F" using assms(4) by simp
  moreover have "q \<notin> set (take ?k ?F)" using assms(6) unfolding chosen_def L by (auto simp: take_map)
  ultimately have q: "q \<in> set (drop ?k ?F)" by (metis UnE append_take_drop_id set_append)
  have "sorted_wrt (\<lambda>a b. cmp a b \<le> 0) (take ?k ?F @ drop ?k ?F)"
    unfolding append_take_drop_id by (rule sorted_wrt_filter [OF assms(1)])
  then show ?thesis using p q unfolding sorted_wrt_append by blast
qed

section \<open>A round\<close>

definition rank_only :: "(peer \<Rightarrow> peer \<Rightarrow> int) \<Rightarrow> bool" where
  "rank_only cmp \<longleftrightarrow> (\<forall>a a' b b'. same_rank a a' \<longrightarrow> same_rank b b' \<longrightarrow> cmp a' b' = cmp a b)"

lemma rank_only_cmp: "rank_only ACACmp" "rank_only (UpRateCmp env)"
  by (simp_all add: rank_only_def same_rank_def same_peer_def ACACmp_def UpRateCmp_def)

lemma optimistic_id:
  assumes "updateOptimisticPeer env cmp pm ppl ck = (ck', poup)"
  shows "poup = map_option p_id (findPeer (ck_opt_id ck') pm)"
  using assms by (auto simp: updateOptimisticPeer_def Let_def split: if_splits)

lemma findPeer_id: "findPeer i pm = Some p \<Longrightarrow> p_id p = i \<and> p \<in> set (pm_peers pm)"
  by (auto simp: findPeer_def find_Some_iff split: if_splits)

lemma findPeer_some: "list_ok N (pm_peers pm) pm \<Longrightarrow> (findPeer i pm \<noteq> None) = (i \<in> p_id ` set (pm_peers pm))"
  by (auto simp add: findPeer_def list_ok_def find_None_iff simp del: not_None_eq)

lemma list_ok_same:
  assumes "list_ok N ps pm" "list_all2 same_peer ps ps'" "\<forall>p \<in> set ps'. peer_ok N p"
  shows "list_ok N ps' pm"
proof -
  have ids: "map p_id ps' = map p_id ps" using assms(2) by (induction rule: list_all2_induct) (auto simp: same_peer_def)
  then have "p_id ` set ps' = p_id ` set ps" by (metis set_map)
  moreover have "holders i ps' = holders i ps" for i
    using assms(2) by (induction rule: list_all2_induct) (auto simp: same_peer_def)
  ultimately show ?thesis using assms(1,3) ids by (simp add: list_ok_def counts_ok_def)
qed

lemma same_peer_trans: "list_all2 same_peer a b \<Longrightarrow> list_all2 same_peer b c \<Longrightarrow> list_all2 same_peer a c"
  by (rule list_all2_trans [of same_peer same_peer same_peer]) (auto simp: same_peer_def)

text \<open>The optimistic peer of a round holds a slot although it is no candidate any more.\<close>

definition slot_wasted :: "bitset \<Rightarrow> choker \<Rightarrow> peer_manager \<Rightarrow> bool" where
  "slot_wasted ours ck pm \<longleftrightarrow> (\<exists>p \<in> set (pm_peers pm). p_id p = ck_opt_id ck \<and> \<not> candidate ours p)"

lemma choke_round_ok:
  assumes "pm_ok N pm" "0 < unat (kv_slots env)" "sorts_by env cmp" "rank_only cmp"
  shows "\<exists>ck' pm'. choke_round env cmp ours (ck, pm) = Some (ck', pm') \<and> pm_ok N pm' \<and>
    list_all2 same_peer (pm_peers pm) (pm_peers pm') \<and>
    (\<forall>p \<in> set (pm_peers pm'). \<not> am_choked (p_am p) \<longrightarrow> candidate ours p) \<and>
    length (filter (\<lambda>p. \<not> am_choked (p_am p)) (pm_peers pm')) =
      min (unat (kv_slots env) - (if slot_wasted ours ck' pm' then 1 else 0)) (length (filter (candidate ours) (pm_peers pm'))) \<and>
    (\<forall>p \<in> set (pm_peers pm'). \<forall>q \<in> set (pm_peers pm').
      \<not> am_choked (p_am p) \<longrightarrow> am_choked (p_am q) \<longrightarrow> candidate ours q \<longrightarrow> p_id p \<noteq> ck_opt_id ck' \<longrightarrow> cmp p q \<le> 0)"
proof -
  have pm: "list_ok N (pm_peers pm) pm" using assms(1) by (simp add: pm_ok_def)
  obtain all ppl where sc: "score_peers env ours (pm_peers pm) = Some (all, ppl)" "\<forall>p \<in> set all. peer_ok N p"
    "list_all2 same_peer (pm_peers pm) all" "ppl = filter (candidate ours) all"
    "\<forall>p \<in> set all. \<not> candidate ours p \<longrightarrow> am_choked (p_am p)"
    using score_peers_ok [of "pm_peers pm" N env ours] pm by (auto simp: list_ok_def)
  let ?pm1 = "pm\<lparr>pm_peers := all\<rparr>" let ?L = "kv_sort env cmp ppl" let ?slots = "kv_slots env"
  have pm1: "list_ok N all ?pm1"
    using list_ok_same [OF pm sc(3,2)] by (simp add: list_ok_def counts_ok_def tables_ok_def)
  have dist: "distinct (map p_id all)" using pm1 by (simp add: list_ok_def)
  obtain ck' poup where up: "updateOptimisticPeer env cmp ?pm1 ?L ck = (ck', poup)" by fastforce
  note opt = optimistic_id [OF up]
  have L: "mset ?L = mset ppl" "sorted_wrt (\<lambda>a b. cmp a b \<le> 0) ?L" using assms(3) by (simp_all add: sorts_by_def)
  then have setL: "set ?L = set ppl" and lenL: "length ?L = length ppl" by (metis set_mset_mset, metis size_mset)
  have setC: "set ?L = {p \<in> set all. candidate ours p}" unfolding setL by (simp add: sc(4))
  have dp: "distinct (map p_id ppl)" using dist unfolding sc(4) by (induction all) auto
  have dL: "distinct (map p_id ?L)" using dp L(1) by (metis mset_eq_imp_distinct_iff mset_map)
  let ?C = "chosen ?slots poup ?L 0" let ?I = "p_id ` set ?L"
  let ?d = "decide_peer ?C ?I" let ?ps = "map ?d all"
  have loop: "unchoke_loop ?slots poup ?L 0 all = Some ?ps"
    by (rule unchoke_loop_eq [OF dist sc(2) dL assms(2)]) simp
  have run: "choke_round env cmp ours (ck, pm) = Some (ck', pm\<lparr>pm_peers := ?ps\<rparr>)"
    using sc(1) up loop by (simp add: choke_round_def doUnchoking_def Let_def)
  have cand: "(p_id p \<in> ?I) = candidate ours p" if "p \<in> set all" for p
  proof
    assume "p_id p \<in> ?I"
    then obtain q where "q \<in> set all" "candidate ours q" "p_id q = p_id p" unfolding setC by auto
    moreover from this that dist have "q = p" by (metis distinct_map inj_onD)
    ultimately show "candidate ours p" by simp
  qed (use that setC in auto)
  have eff: "peer_ok N (?d p) \<and> same_rank p (?d p) \<and> am_choked (p_am (?d p)) = (p_id p \<notin> ?C)" if p: "p \<in> set all" for p
  proof (cases "p_id p \<in> ?I")
    case True
    obtain q where "unchoke_or_choke (p_id p \<in> ?C) p = Some q" "peer_ok N q" "same_rank p q" "am_choked (p_am q) = (p_id p \<notin> ?C)"
      using unchoke_or_choke_ok [of N p "p_id p \<in> ?C"] sc(2) p by auto
    then show ?thesis using True by (simp add: decide_peer_def)
  next
    case False
    then have "p_id p \<notin> ?C" "am_choked (p_am p)" using chosen_ids [of ?slots poup ?L 0] sc(5) cand [OF p] p by auto
    then show ?thesis using False sc(2) p by (simp add: decide_peer_def)
  qed
  have same: "list_all2 same_peer all ?ps"
    using eff by (simp add: list_all2_map2 list_all2_same same_rank_def)
  have ids: "map p_id ?ps = map p_id all" using eff by (simp add: same_rank_def same_peer_def)
  have cps: "candidate ours (?d p) = candidate ours p" if "p \<in> set all" for p
    using candidate_same eff [OF that] by (simp add: same_rank_def)
  have ok: "pm_ok N (pm\<lparr>pm_peers := ?ps\<rparr>)"
    using list_ok_same [OF pm1 same] eff by (simp add: pm_ok_def list_ok_def counts_ok_def tables_ok_def)
  have E: "length (filter (candidate ours) ?ps) = length ppl"
    using cps unfolding sc(4) filter_map by (simp add: comp_def cong: filter_cong)
  have "length (filter (\<lambda>p. \<not> am_choked (p_am p)) ?ps) = length (filter (\<lambda>p. p_id p \<in> ?C) all)"
    using eff unfolding filter_map by (simp add: comp_def cong: filter_cong)
  also have "\<dots> = card ?C"
  proof -
    have "?C \<subseteq> p_id ` set all" using chosen_ids [of ?slots poup ?L 0] setC by auto
    then have "p_id ` set (filter (\<lambda>p. p_id p \<in> ?C) all) = ?C" by auto
    moreover have "distinct (map p_id (filter (\<lambda>p. p_id p \<in> ?C) all))" using dist by (induction all) auto
    ultimately show ?thesis by (metis distinct_card length_map set_map)
  qed
  also have "\<dots> = min (if poup = None \<or> the poup \<in> ?I then unat ?slots else unat ?slots - 1) (length ppl)"
    using card_chosen [OF dL assms(2)] lenL by simp
  also have "(if poup = None \<or> the poup \<in> ?I then unat ?slots else unat ?slots - 1) =
      unat ?slots - (if slot_wasted ours ck' (pm\<lparr>pm_peers := ?ps\<rparr>) then 1 else 0)"
  proof -
    have "slot_wasted ours ck' (pm\<lparr>pm_peers := ?ps\<rparr>) = (\<exists>p \<in> set all. p_id p = ck_opt_id ck' \<and> \<not> candidate ours p)"
      using cps eff by (auto simp: slot_wasted_def same_rank_def same_peer_def)
    also have "\<dots> = (poup \<noteq> None \<and> the poup \<notin> ?I)"
    proof (cases "findPeer (ck_opt_id ck') ?pm1")
      case None
      then have "ck_opt_id ck' \<notin> p_id ` set all" using findPeer_some [of N ?pm1 "ck_opt_id ck'"] pm1 by simp
      then have "\<not> (\<exists>p \<in> set all. p_id p = ck_opt_id ck' \<and> \<not> candidate ours p)" by (metis imageI)
      then show ?thesis using opt None by simp
    next
      case (Some p)
      then have p: "p_id p = ck_opt_id ck'" "p \<in> set all" using findPeer_id [OF Some] by simp_all
      then have u: "q = p" if "q \<in> set all" "p_id q = ck_opt_id ck'" for q using that dist by (metis distinct_map inj_onD)
      have po: "poup = Some (p_id p)" using opt Some by simp
      have "(\<exists>q \<in> set all. p_id q = ck_opt_id ck' \<and> \<not> candidate ours q) = (\<not> candidate ours p)" using u p by blast
      then show ?thesis unfolding po using cand [OF p(2)] by simp
    qed
    finally show ?thesis by auto
  qed
  finally have len: "length (filter (\<lambda>p. \<not> am_choked (p_am p)) ?ps) =
      min (unat ?slots - (if slot_wasted ours ck' (pm\<lparr>pm_peers := ?ps\<rparr>) then 1 else 0)) (length (filter (candidate ours) ?ps))"
    unfolding E .
  have rank: "cmp p' q' \<le> 0" if p': "p' \<in> set ?ps" and q': "q' \<in> set ?ps" and "\<not> am_choked (p_am p')" "am_choked (p_am q')"
    "candidate ours q'" "p_id p' \<noteq> ck_opt_id ck'" for p' q'
  proof -
    obtain p q where p: "p \<in> set all" "p' = ?d p" and q: "q \<in> set all" "q' = ?d q" using p' q' by auto
    have c: "p_id p \<in> ?C" "p_id q \<notin> ?C" using that(3,4) eff p q by simp_all
    have "p \<in> set ?L" "q \<in> set ?L"
      using c(1) chosen_ids [of ?slots poup ?L 0] cand [OF p(1)] p(1) q that(5) cps [OF q(1)] setC by auto
    moreover have "poup \<noteq> Some (p_id p)"
    proof
      assume "poup = Some (p_id p)"
      then have "p_id p = ck_opt_id ck'" using opt findPeer_id by auto
      then show False using that(6) eff [OF p(1)] p(2) by (simp add: same_rank_def same_peer_def)
    qed
    ultimately have "cmp p q \<le> 0" using chosen_ranked [OF L(2) dL _ _ c] by blast
    moreover have "same_rank p p'" "same_rank q q'" using eff [OF p(1)] eff [OF q(1)] unfolding p(2) q(2) by blast+
    then have "cmp p' q' = cmp p q" using assms(4) unfolding rank_only_def by blast
    ultimately show ?thesis by simp
  qed
  have only: "candidate ours p'" if m: "p' \<in> set ?ps" and u: "\<not> am_choked (p_am p')" for p'
  proof -
    obtain p where p: "p \<in> set all" "p' = ?d p" using m by auto
    then have "p_id p \<in> ?C" using u eff [OF p(1)] by simp
    then have "p_id p \<in> ?I" using chosen_ids [of ?slots poup ?L 0] by blast
    then show ?thesis using cand [OF p(1)] cps [OF p(1)] p(2) by simp
  qed
  show ?thesis
    using run ok len rank only same_peer_trans [OF sc(3) same]
    by (intro exI [of _ ck'] exI [of _ "pm\<lparr>pm_peers := ?ps\<rparr>"]) (simp del: filter_map)
qed

lemma same_peer_views:
  "list_all2 same_peer a b \<Longrightarrow> map (\<lambda>p. (p_id p, p_interested p, p_pieces p)) b = map (\<lambda>p. (p_id p, p_interested p, p_pieces p)) a"
  by (induction rule: list_all2_induct) (auto simp: same_peer_def)


definition choke_env_demo :: choke_env where
  "choke_env_demo = \<lparr>kv_now = 0, kv_rand = 0, kv_slots = 2, kv_down_rate = (\<lambda>_. 0), kv_up_rate = (\<lambda>_. 0),
     kv_sort = (\<lambda>_. sort_key (\<lambda>p. - p_aca p)), kv_total_bytes = 100, kv_trk_bytes_down = 0, kv_total_rate = 0\<rparr>"

definition one_peer :: peer_manager where
  "one_peer = (PeerManager_new 2 16384 False 5 10 10 1)\<lparr>pm_peers := [(a_peer 4)\<lparr>p_interested := True\<rparr>], pm_map := [p_id (a_peer 4)]\<rparr>"

lemma demo_sorts: "sorts_by choke_env_demo ACACmp"
  unfolding sorts_by_def
proof (intro allI conjI)
  fix l :: "peer list"
  have e: "kv_sort choke_env_demo ACACmp l = sort_key (\<lambda>p. - p_aca p) l" by (simp add: choke_env_demo_def)
  have le: "(\<lambda>a b. ACACmp a b \<le> 0) = (\<lambda>a b. - p_aca a \<le> - p_aca b)" by (intro ext) (simp add: ACACmp_def)
  have "sorted (map (\<lambda>p. - p_aca p) (sort_key (\<lambda>p. - p_aca p) l))" by (rule sorted_sort_key)
  then show "sorted_wrt (\<lambda>a b. ACACmp a b \<le> 0) (kv_sort choke_env_demo ACACmp l)"
    unfolding e le sorted_map .
qed (simp add: choke_env_demo_def)

lemma one_peer_ok: "pm_ok 2 one_peer"
proof -
  have "peer_ok 2 (a_peer 4)" unfolding a_peer_def by (rule peer_ok_new) simp
  then have "peer_ok 2 ((a_peer 4)\<lparr>p_interested := True\<rparr>)" by (simp add: peer_ok_def peer_base_def)
  moreover have "\<not> bs_get (p_pieces (a_peer 4)) i" for i by (simp add: a_peer_def Peer_new_def)
  ultimately show ?thesis
    by (simp add: pm_ok_def list_ok_def one_peer_def PeerManager_new_def counts_ok_def tables_ok_def bs_ok_new ChunkCounter_new_def)
qed


end
